(* ===== verification/Fb_Prelude.thy ===== *)
theory Fb_Prelude
  imports Main "HOL-Library.Word" "HOL-Library.Monad_Syntax"
begin

text \<open>
  What every component of the development shares: the C integer types as words or as naturals
  with the wrap-around written out, the C \<open>while\<close> loop with \<open>break\<close> as an option-valued
  recursion, and the total-correctness rules the component proofs use.

  A C function that reads or writes outside its buffers, or that never returns, is the value
  \<open>None\<close> of the option type; a theorem that the result is \<open>Some\<close> therefore states memory
  safety and termination together.
\<close>

unbundle bit_operations_syntax

named_theorems cv_simps \<open>unfolding rules for the loop bodies of the converters\<close>

section \<open>Machine integers\<close>

type_synonym u8 = "8 word"
type_synonym u16 = "16 word"

lemma u8_lt [simp]: "unat (b :: u8) < 256"
  using unsigned_less [of b] by simp

lemma u16_lt [simp]: "unat (w :: u16) < 65536"
  using unsigned_less [of w] by simp

lemma unat_u16_to_u8: "unat (ucast (w :: u16) :: u8) = unat w mod 256"
  by (simp add: unsigned_ucast_eq take_bit_eq_mod unsigned_take_bit_eq)

lemma unat_u8_to_u16 [simp]: "unat (ucast (b :: u8) :: u16) = unat b"
  by (simp add: unsigned_ucast_eq take_bit_eq_mod unsigned_take_bit_eq mod_less less_trans [OF u8_lt])

text \<open>\<open>USHORT\<close> arithmetic on naturals: conversion to 16 bits, and subtraction that wraps.\<close>

definition ushort :: "nat \<Rightarrow> nat" where
  "ushort n = n mod 65536"

definition ushort_sub :: "nat \<Rightarrow> nat \<Rightarrow> nat" where
  "ushort_sub a b = (a + 65536 - b) mod 65536"

text \<open>Conversion of an \<open>int\<close> to \<open>SSHORT\<close> (two's complement).\<close>

definition sshort :: "int \<Rightarrow> int" where
  "sshort i = (i + 32768) mod 65536 - 32768"

lemma ushort_id [simp]: "n < 65536 \<Longrightarrow> ushort n = n"
  by (simp add: ushort_def)

lemma ushort_sub_id [simp]: "b \<le> a \<Longrightarrow> a < 65536 \<Longrightarrow> ushort_sub a b = a - b"
  by (simp add: ushort_sub_def mod_add_self2 flip: add_diff_assoc2)

lemma ushort_sub_wraps: "a < b \<Longrightarrow> b < 65536 \<Longrightarrow> ushort_sub a b = a + 65536 - b"
  by (simp add: ushort_sub_def)

lemma sshort_id: "- 32768 \<le> i \<Longrightarrow> i < 32768 \<Longrightarrow> sshort i = i"
  by (simp add: sshort_def)

section \<open>Bit operations as arithmetic\<close>

lemma zdiv_less: "0 < d \<Longrightarrow> c < d * q \<Longrightarrow> c div d < q" for c d q :: int
proof -
  assume d: "0 < d" and c: "c < d * q"
  have "c div d * d + c mod d = c" by simp
  moreover have "0 \<le> c mod d" using d by simp
  ultimately have "c div d * d < d * q" using c by linarith
  then have "c div d * d < q * d" by (simp only: mult.commute [of d q])
  with d show ?thesis by simp
qed

text \<open>Masking the high bits of a byte.\<close>

lemma and_high:
  fixes c :: int
  assumes "0 \<le> c" "c < 256" "k \<le> 8"
  shows "c AND push_bit k (mask (8 - k)) = 2 ^ k * (c div 2 ^ k)"
proof -
  have "c AND push_bit k (mask (8 - k)) = push_bit k (drop_bit k c AND mask (8 - k))"
    by (rule bit_eqI) (auto simp: bit_simps)
  also have "drop_bit k c AND mask (8 - k) = take_bit (8 - k) (drop_bit k c)"
    by (simp add: take_bit_eq_mask)
  also have "\<dots> = drop_bit k c"
  proof -
    have "c < 2 ^ k * 2 ^ (8 - k)" using assms by (simp flip: power_add)
    then have "c div 2 ^ k < 2 ^ (8 - k)" by (simp add: zdiv_less)
    then show ?thesis
      using assms by (simp add: take_bit_int_eq_self_iff drop_bit_eq_div pos_imp_zdiv_nonneg_iff)
  qed
  finally show ?thesis by (simp add: push_bit_eq_mult drop_bit_eq_div mult.commute)
qed

text \<open>Joining a high part and \<open>k\<close> low bits.\<close>

lemma low_and:
  fixes a c :: int
  assumes "0 \<le> c" "c < 2 ^ k"
  shows "push_bit k a AND c = 0"
proof (rule bit_eqI)
  fix n
  have "c = take_bit k c" using assms by (simp add: take_bit_int_eq_self)
  then have "bit c n \<Longrightarrow> n < k" by (metis bit_take_bit_iff)
  then show "bit (push_bit k a AND c) n = bit 0 n" by (auto simp: bit_simps)
qed

lemma or_low: "0 \<le> c \<Longrightarrow> c < 2 ^ k \<Longrightarrow> push_bit k a OR c = 2 ^ k * a + c" for a c :: int
  using low_and [of c k a]
  by (simp add: push_bit_eq_mult mult.commute flip: disjunctive_add_eq_or)

lemma xor_low: "0 \<le> c \<Longrightarrow> c < 2 ^ k \<Longrightarrow> push_bit k a XOR c = 2 ^ k * a + c" for a c :: int
  using low_and [of c k a]
  by (simp add: push_bit_eq_mult mult.commute flip: disjunctive_add_eq_xor)

lemma and_mod: "l AND mask k = l mod 2 ^ k" for l :: int
  by (simp flip: take_bit_eq_mask add: take_bit_eq_mod)

text \<open>The masks of the C code that select the low or the high bits of a byte.\<close>

lemma low_masks:
  "l AND 0x3F = l mod 64" "l AND 0x7F = l mod 128" "l AND 0xFF = l mod 256"
  "l AND 0x7FF = l mod 2048" "l AND 0xFFFF = l mod 65536"
  "l AND 0x1FFFFF = l mod 2097152" "l AND 0x3FFFFFF = l mod 67108864"
  "l AND 0x7FFFFFFF = l mod 2147483648" for l :: int
  by (rule and_mod [of l 6, simplified mask_eq_exp_minus_1, simplified],
      rule and_mod [of l 7, simplified mask_eq_exp_minus_1, simplified],
      rule and_mod [of l 8, simplified mask_eq_exp_minus_1, simplified],
      rule and_mod [of l 11, simplified mask_eq_exp_minus_1, simplified],
      rule and_mod [of l 16, simplified mask_eq_exp_minus_1, simplified],
      rule and_mod [of l 21, simplified mask_eq_exp_minus_1, simplified],
      rule and_mod [of l 26, simplified mask_eq_exp_minus_1, simplified],
      rule and_mod [of l 31, simplified mask_eq_exp_minus_1, simplified])

lemma high_masks:
  fixes c :: int
  assumes "0 \<le> c" "c < 256"
  shows "c AND 0x80 = 128 * (c div 128)" "c AND 0xC0 = 64 * (c div 64)"
    "c AND 0xE0 = 32 * (c div 32)" "c AND 0xF0 = 16 * (c div 16)"
    "c AND 0xF8 = 8 * (c div 8)" "c AND 0xFC = 4 * (c div 4)" "c AND 0xFE = 2 * (c div 2)"
  by (rule and_high [OF assms, of 7, simplified mask_eq_exp_minus_1 push_bit_eq_mult, simplified],
      rule and_high [OF assms, of 6, simplified mask_eq_exp_minus_1 push_bit_eq_mult, simplified],
      rule and_high [OF assms, of 5, simplified mask_eq_exp_minus_1 push_bit_eq_mult, simplified],
      rule and_high [OF assms, of 4, simplified mask_eq_exp_minus_1 push_bit_eq_mult, simplified],
      rule and_high [OF assms, of 3, simplified mask_eq_exp_minus_1 push_bit_eq_mult, simplified],
      rule and_high [OF assms, of 2, simplified mask_eq_exp_minus_1 push_bit_eq_mult, simplified],
      rule and_high [OF assms, of 1, simplified mask_eq_exp_minus_1 push_bit_eq_mult, simplified])

lemma xor_0x80:
  fixes c :: int
  assumes "0 \<le> c" "c < 256"
  shows "c XOR 0x80 = (if c < 128 then c + 128 else c - 128)"
proof (cases "c < 128")
  case True
  then have "push_bit 7 1 XOR c = 2 ^ 7 * 1 + c" using assms by (intro xor_low) auto
  with True show ?thesis by (simp add: push_bit_eq_mult xor.commute)
next
  case False
  then have "push_bit 7 1 XOR (c - 128) = 2 ^ 7 * 1 + (c - 128)"
    using assms by (intro xor_low) auto
  then have "c = 128 XOR (c - 128)" by (simp add: push_bit_eq_mult)
  then have "c XOR 0x80 = (c - 128)" by (metis xor.assoc xor.commute xor_self_eq xor.left_neutral)
  with False show ?thesis by simp
qed

section \<open>Loops with break\<close>

text \<open>
  One pass through a loop body ends by falling to the end of the body (\<open>Next\<close>) or by
  \<open>break\<close> (\<open>Break\<close>); a body whose value is \<open>None\<close> has read or written out of bounds.
\<close>

datatype 'st pass = Next 'st | Break 'st

partial_function (option) while_loop ::
  "('st \<Rightarrow> bool) \<Rightarrow> ('st \<Rightarrow> 'st pass option) \<Rightarrow> 'st \<Rightarrow> 'st option" where
  "while_loop g body st =
     (if g st
      then Option.bind (body st)
             (\<lambda>r. case r of Break st' \<Rightarrow> Some st' | Next st' \<Rightarrow> while_loop g body st')
      else Some st)"

lemma while_loop_stop [simp]: "\<not> g st \<Longrightarrow> while_loop g body st = Some st"
  by (subst while_loop.simps) simp

lemma while_loop_next:
  "g st \<Longrightarrow> body st = Some (Next st') \<Longrightarrow> while_loop g body st = while_loop g body st'"
  by (subst while_loop.simps) simp

lemma while_loop_break:
  "g st \<Longrightarrow> body st = Some (Break st') \<Longrightarrow> while_loop g body st = Some st'"
  by (subst while_loop.simps) simp

lemma while_loop_fault:
  "g st \<Longrightarrow> body st = None \<Longrightarrow> while_loop g body st = None"
  by (subst while_loop.simps) simp

text \<open>Total correctness: an invariant, a measure that every pass decreases, a result.\<close>

lemma while_loop_total:
  fixes m :: "'st \<Rightarrow> nat"
  assumes "I st"
    and body: "\<And>s. I s \<Longrightarrow> g s \<Longrightarrow>
      (\<exists>s'. body s = Some (Next s') \<and> I s' \<and> m s' < m s) \<or>
      (\<exists>s'. body s = Some (Break s') \<and> Q s')"
    and stop: "\<And>s. I s \<Longrightarrow> \<not> g s \<Longrightarrow> Q s"
  shows "\<exists>st'. while_loop g body st = Some st' \<and> Q st'"
  using \<open>I st\<close>
proof (induction "m st" arbitrary: st rule: less_induct)
  case less
  show ?case
  proof (cases "g st")
    case False
    then show ?thesis using stop [OF less.prems] by simp
  next
    case True
    from body [OF less.prems True] show ?thesis
    proof (elim disjE exE conjE)
      fix s' assume "body st = Some (Next s')" and "I s'" and "m s' < m st"
      then show ?thesis using less.hyps [of s'] True by (simp add: while_loop_next)
    next
      fix s' assume "body st = Some (Break s')" and "Q s'"
      then show ?thesis using True by (simp add: while_loop_break)
    qed
  qed
qed

section \<open>Byte strings\<close>

text \<open>
  \<open>p = s + l - 1; while (p >= s && *p == SPACE) p--; l = p - s + 1\<close>: the length of the string
  without its trailing spaces, walking back from \<open>l\<close>.
\<close>

fun skip_back :: "u8 list \<Rightarrow> nat \<Rightarrow> nat" where
  "skip_back s 0 = 0"
| "skip_back s (Suc n) = (if s ! n = 32 then skip_back s n else Suc n)"

definition strip :: "u8 list \<Rightarrow> u8 list" where
  "strip s = take (skip_back s (length s)) s"

lemma skip_back_le: "skip_back s n \<le> n"
  by (induction n) auto

lemma skip_back_spaces: "skip_back s n \<le> i \<Longrightarrow> i < n \<Longrightarrow> s ! i = 32"
  by (induction n) (auto split: if_splits simp: less_Suc_eq)

lemma skip_back_last: "0 < skip_back s n \<Longrightarrow> s ! (skip_back s n - 1) \<noteq> 32"
  by (induction n) auto

lemma skip_back_append:
  "n \<le> length s \<Longrightarrow> skip_back (s @ t) n = skip_back s n"
  by (induction n) (auto simp: nth_append)

lemma strip_snoc: "strip (s @ [c]) = (if c = 32 then strip s else s @ [c])"
  by (simp add: strip_def skip_back_append skip_back_le)

lemma strip_Nil [simp]: "strip [] = []"
  by (simp add: strip_def)

lemma strip_append_spaces [simp]: "strip (s @ replicate n 32) = strip s"
proof (induction n)
  case (Suc n)
  have "s @ replicate (Suc n) 32 = (s @ replicate n 32) @ [32]"
    by (simp add: replicate_append_same)
  then have "strip (s @ replicate (Suc n) 32) = strip ((s @ replicate n 32) @ [32])"
    by (rule arg_cong)
  also have "\<dots> = strip (s @ replicate n 32)"
    by (subst strip_snoc) simp
  finally show ?case using Suc by simp
qed simp

lemma strip_idem [simp]: "strip (strip s) = strip s"
proof (induction s rule: rev_induct)
  case (snoc c s)
  then show ?case by (simp add: strip_snoc)
qed simp

lemma strip_decompose: "\<exists>n. s = strip s @ replicate n 32"
proof (induction s rule: rev_induct)
  case (snoc c s)
  then obtain n where "s = strip s @ replicate n 32" ..
  then show ?case
  proof (cases "c = 32")
    case True
    have "s @ [c] = strip s @ replicate (Suc n) 32"
      using True \<open>s = strip s @ replicate n 32\<close>
      by (metis append.assoc replicate_Suc replicate_append_same)
    then show ?thesis using True by (metis strip_snoc)
  next
    case False
    then show ?thesis by (simp add: strip_snoc exI [of _ 0])
  qed
qed simp

lemma length_strip_le: "length (strip s) \<le> length s"
  by (simp add: strip_def)

text \<open>The result of comparing two byte strings bytewise, shorter first, as a sign.\<close>

fun byte_cmp :: "'a::linorder list \<Rightarrow> 'a list \<Rightarrow> int" where
  "byte_cmp [] [] = 0"
| "byte_cmp [] (_ # _) = -1"
| "byte_cmp (_ # _) [] = 1"
| "byte_cmp (a # as) (b # bs) =
     (if a = b then byte_cmp as bs else if a < b then -1 else 1)"

lemma byte_cmp_refl [simp]: "byte_cmp s s = 0"
  by (induction s) auto

lemma byte_cmp_sym: "byte_cmp s t = - byte_cmp t s"
  by (induction s t rule: byte_cmp.induct) auto

lemma byte_cmp_eq_0: "byte_cmp s t = 0 \<longleftrightarrow> s = t"
  by (induction s t rule: byte_cmp.induct) auto

lemma byte_cmp_append: "byte_cmp (p @ s) (p @ t) = byte_cmp s t"
  by (induction p) auto

lemma byte_cmp_range: "byte_cmp s t \<in> {-1, 0, 1}"
  by (induction s t rule: byte_cmp.induct) auto

lemma byte_cmp_trans:
  "byte_cmp s t < 0 \<Longrightarrow> byte_cmp t u < 0 \<Longrightarrow> byte_cmp s u < 0"
proof (induction s t arbitrary: u rule: byte_cmp.induct)
  case (4 a as b bs)
  then show ?case by (cases u) (auto split: if_splits)
next
  case (2 b bs)
  then show ?case by (cases u) auto
qed auto

lemma byte_cmp_append_eq_len:
  "length s = length t \<Longrightarrow>
   byte_cmp (s @ u) (t @ v) = (if s = t then byte_cmp u v else byte_cmp s t)"
  by (induction s t rule: list_induct2) auto

text \<open>A first part whose bytes are all above the first byte that can follow it decides first.\<close>

lemma byte_cmp_layer:
  assumes "u = [] \<or> (\<forall>p \<in> set s \<union> set t. hd u < p)" "v = [] \<or> (\<forall>p \<in> set s \<union> set t. hd v < p)"
  shows "byte_cmp (s @ u) (t @ v) = (if s = t then byte_cmp u v else byte_cmp s t)"
  using assms
proof (induction s t rule: byte_cmp.induct)
  case (2 b bs)
  then show ?case by (cases u) auto
next
  case (3 a as)
  then show ?case by (cases v) auto
qed auto

lemma byte_cmp_map: "strict_mono f \<Longrightarrow> byte_cmp (map f s) (map f t) = byte_cmp s t"
  for f :: "'a::linorder \<Rightarrow> 'b::linorder"
  by (induction s t rule: byte_cmp.induct) (auto simp: strict_mono_less strict_mono_eq)

section \<open>Checking all bytes\<close>

text \<open>A decidable statement about a byte, evaluated on all 256 values.\<close>

fun bytes_from :: "nat \<Rightarrow> u8 \<Rightarrow> u8 list" where
  "bytes_from 0 b = []"
| "bytes_from (Suc n) b = b # bytes_from n (b + 1)"

definition all_bytes :: "(u8 \<Rightarrow> bool) \<Rightarrow> bool" where
  "all_bytes P = list_all P (bytes_from 256 0)"

lemma bytes_from_mem: "k < n \<Longrightarrow> b + word_of_nat k \<in> set (bytes_from n b)"
proof (induction n b arbitrary: k rule: bytes_from.induct)
  case (2 n b)
  then show ?case by (cases k) (auto simp: add.assoc)
qed simp

lemma all_u8: "all_bytes P \<Longrightarrow> P b"
  using bytes_from_mem [of "unat b" 256 0] by (simp add: all_bytes_def list_all_iff)

end
