(* ===== verification/Charsets.thy ===== *)
theory Charsets
  imports Fb_Prelude
begin

text \<open>
  The identifiers of character sets, \<open>intl/charsets.h\<close>, and of countries,
  \<open>intl/country_codes.h\<close> (\<open>CC_RUSSIA\<close> is written there in octal).
\<close>

section \<open>Character sets\<close>

definition CS_NONE :: int where "CS_NONE = 0"
definition CS_BINARY :: int where "CS_BINARY = 1"
definition CS_ASCII :: int where "CS_ASCII = 2"
definition CS_UNICODE_FSS :: int where "CS_UNICODE_FSS = 3"
definition CS_reserved4 :: int where "CS_reserved4 = 4"
definition CS_SJIS :: int where "CS_SJIS = 5"
definition CS_EUCJ :: int where "CS_EUCJ = 6"
definition CS_JIS_0208 :: int where "CS_JIS_0208 = 7"
definition CS_UNICODE_UCS2 :: int where "CS_UNICODE_UCS2 = 8"
definition CS_DOS_737 :: int where "CS_DOS_737 = 9"
definition CS_DOS_437 :: int where "CS_DOS_437 = 10"
definition CS_DOS_850 :: int where "CS_DOS_850 = 11"
definition CS_DOS_865 :: int where "CS_DOS_865 = 12"
definition CS_DOS_860 :: int where "CS_DOS_860 = 13"
definition CS_DOS_863 :: int where "CS_DOS_863 = 14"
definition CS_DOS_775 :: int where "CS_DOS_775 = 15"
definition CS_DOS_858 :: int where "CS_DOS_858 = 16"
definition CS_DOS_862 :: int where "CS_DOS_862 = 17"
definition CS_DOS_864 :: int where "CS_DOS_864 = 18"
definition CS_NEXT :: int where "CS_NEXT = 19"
definition CS_ISO8859_1 :: int where "CS_ISO8859_1 = 21"
definition CS_ISO8859_2 :: int where "CS_ISO8859_2 = 22"
definition CS_ISO8859_3 :: int where "CS_ISO8859_3 = 23"
definition CS_ISO8859_4 :: int where "CS_ISO8859_4 = 34"
definition CS_ISO8859_5 :: int where "CS_ISO8859_5 = 35"
definition CS_ISO8859_6 :: int where "CS_ISO8859_6 = 36"
definition CS_ISO8859_7 :: int where "CS_ISO8859_7 = 37"
definition CS_ISO8859_8 :: int where "CS_ISO8859_8 = 38"
definition CS_ISO8859_9 :: int where "CS_ISO8859_9 = 39"
definition CS_ISO8859_13 :: int where "CS_ISO8859_13 = 40"
definition CS_KSC5601 :: int where "CS_KSC5601 = 44"
definition CS_DOS_852 :: int where "CS_DOS_852 = 45"
definition CS_DOS_857 :: int where "CS_DOS_857 = 46"
definition CS_DOS_861 :: int where "CS_DOS_861 = 47"
definition CS_DOS_866 :: int where "CS_DOS_866 = 48"
definition CS_DOS_869 :: int where "CS_DOS_869 = 49"
definition CS_CYRL :: int where "CS_CYRL = 50"
definition CS_WIN1250 :: int where "CS_WIN1250 = 51"
definition CS_WIN1251 :: int where "CS_WIN1251 = 52"
definition CS_WIN1252 :: int where "CS_WIN1252 = 53"
definition CS_WIN1253 :: int where "CS_WIN1253 = 54"
definition CS_WIN1254 :: int where "CS_WIN1254 = 55"
definition CS_BIG5 :: int where "CS_BIG5 = 56"
definition CS_GB2312 :: int where "CS_GB2312 = 57"
definition CS_WIN1255 :: int where "CS_WIN1255 = 58"
definition CS_WIN1256 :: int where "CS_WIN1256 = 59"
definition CS_WIN1257 :: int where "CS_WIN1257 = 60"
definition CS_dynamic :: int where "CS_dynamic = 127"
definition CS_MAX_CS_NUMBER :: int where "CS_MAX_CS_NUMBER = 60"

lemmas charset_ids =
  CS_NONE_def CS_BINARY_def CS_ASCII_def CS_UNICODE_FSS_def CS_reserved4_def CS_SJIS_def
  CS_EUCJ_def CS_JIS_0208_def CS_UNICODE_UCS2_def CS_DOS_737_def CS_DOS_437_def CS_DOS_850_def
  CS_DOS_865_def CS_DOS_860_def CS_DOS_863_def CS_DOS_775_def CS_DOS_858_def CS_DOS_862_def
  CS_DOS_864_def CS_NEXT_def CS_ISO8859_1_def CS_ISO8859_2_def CS_ISO8859_3_def CS_ISO8859_4_def
  CS_ISO8859_5_def CS_ISO8859_6_def CS_ISO8859_7_def CS_ISO8859_8_def CS_ISO8859_9_def
  CS_ISO8859_13_def CS_KSC5601_def CS_DOS_852_def CS_DOS_857_def CS_DOS_861_def CS_DOS_866_def
  CS_DOS_869_def CS_CYRL_def CS_WIN1250_def CS_WIN1251_def CS_WIN1252_def CS_WIN1253_def
  CS_WIN1254_def CS_BIG5_def CS_GB2312_def CS_WIN1255_def CS_WIN1256_def CS_WIN1257_def
  CS_dynamic_def CS_MAX_CS_NUMBER_def

section \<open>Countries\<close>

definition CC_C :: int where "CC_C = 0"
definition CC_US :: int where "CC_US = 1"
definition CC_FRENCHCAN :: int where "CC_FRENCHCAN = 2"
definition CC_LATINAMER :: int where "CC_LATINAMER = 3"
definition CC_NEDERLANDS :: int where "CC_NEDERLANDS = 31"
definition CC_BELGIUM :: int where "CC_BELGIUM = 32"
definition CC_FRANCE :: int where "CC_FRANCE = 33"
definition CC_SPAIN :: int where "CC_SPAIN = 34"
definition CC_HUNGARY :: int where "CC_HUNGARY = 36"
definition CC_YUGOSLAVIA :: int where "CC_YUGOSLAVIA = 38"
definition CC_ITALY :: int where "CC_ITALY = 39"
definition CC_SWITZ :: int where "CC_SWITZ = 41"
definition CC_CZECH :: int where "CC_CZECH = 42"
definition CC_UK :: int where "CC_UK = 44"
definition CC_DENMARK :: int where "CC_DENMARK = 45"
definition CC_SWEDEN :: int where "CC_SWEDEN = 46"
definition CC_NORWAY :: int where "CC_NORWAY = 47"
definition CC_POLAND :: int where "CC_POLAND = 48"
definition CC_GERMANY :: int where "CC_GERMANY = 49"
definition CC_BRAZIL :: int where "CC_BRAZIL = 55"
definition CC_INTL :: int where "CC_INTL = 61"
definition CC_JAPAN :: int where "CC_JAPAN = 81"
definition CC_PORTUGAL :: int where "CC_PORTUGAL = 351"
definition CC_ICELAND :: int where "CC_ICELAND = 354"
definition CC_FINLAND :: int where "CC_FINLAND = 358"
definition CC_KOREA :: int where "CC_KOREA = 82"
definition CC_GREECE :: int where "CC_GREECE = 30"
definition CC_TURKEY :: int where "CC_TURKEY = 90"
definition CC_RUSSIA :: int where "CC_RUSSIA = 7"
definition CC_LITHUANIA :: int where "CC_LITHUANIA = 370"
definition CC_NORDAN :: int where "CC_NORDAN = 92"
definition CC_SWEDFIN :: int where "CC_SWEDFIN = 404"

lemmas country_ids =
  CC_C_def CC_US_def CC_FRENCHCAN_def CC_LATINAMER_def CC_NEDERLANDS_def CC_BELGIUM_def
  CC_FRANCE_def CC_SPAIN_def CC_HUNGARY_def CC_YUGOSLAVIA_def CC_ITALY_def CC_SWITZ_def
  CC_CZECH_def CC_UK_def CC_DENMARK_def CC_SWEDEN_def CC_NORWAY_def CC_POLAND_def CC_GERMANY_def
  CC_BRAZIL_def CC_INTL_def CC_JAPAN_def CC_PORTUGAL_def CC_ICELAND_def CC_FINLAND_def
  CC_KOREA_def CC_GREECE_def CC_TURKEY_def CC_RUSSIA_def CC_LITHUANIA_def CC_NORDAN_def
  CC_SWEDFIN_def

end
