(* ===== verification/Intl_Obj.thy ===== *)
theory Intl_Obj
  imports Fb_Prelude
begin

text \<open>
  The objects of the international-text interface, \<open>jrd/intlobj.h\<close>: the error codes a
  converter reports, the converter object and the result of a conversion call. A data table
  behind a \<open>BYTE *\<close> field is the reading of the memory it points at, as bytes or as shorts
  (the cast the code applies); a \<open>NULL\<close> field is \<open>No_Table\<close>, and reading through it faults.
\<close>

section \<open>Error codes\<close>

definition CS_TRUNCATION_ERROR :: nat where "CS_TRUNCATION_ERROR = 1"
definition CS_CONVERT_ERROR :: nat where "CS_CONVERT_ERROR = 2"
definition CS_BAD_INPUT :: nat where "CS_BAD_INPUT = 3"
definition CS_CANT_MAP :: nat where "CS_CANT_MAP = 0"

lemmas cs_codes = CS_TRUNCATION_ERROR_def CS_CONVERT_ERROR_def CS_BAD_INPUT_def
  CS_CANT_MAP_def

text \<open>The longest sort key.\<close>

definition MAX_KEY :: nat where
  "MAX_KEY = 256"

section \<open>Converter objects\<close>

datatype table = No_Table | Byte_Table "nat \<Rightarrow> u8" | Short_Table "nat \<Rightarrow> u16"

fun byte_at :: "table \<Rightarrow> nat \<Rightarrow> u8 option" where
  "byte_at (Byte_Table f) i = Some (f i)"
| "byte_at _ i = None"

fun short_at :: "table \<Rightarrow> nat \<Rightarrow> u16 option" where
  "short_at (Short_Table f) i = Some (f i)"
| "short_at _ i = None"

text \<open>The function pointers a converter object can hold, by the name of the function.\<close>

datatype convert_fn =
    Fn_eight_bit_convert | Fn_CV_unicode_to_nc | Fn_CV_nc_to_unicode | Fn_CV_wc_to_wc
  | Fn_CV_wc_copy | Fn_CS_UTFFSS_fss_to_unicode | Fn_CS_UTFFSS_unicode_to_fss
  | Fn_CVJIS_sjis2euc | Fn_CVJIS_euc2sjis
  | Fn_CVJIS_sjis_to_unicode | Fn_CVJIS_unicode_to_sjis
  | Fn_CVJIS_eucj_to_unicode | Fn_CVJIS_unicode_to_eucj
  | Fn_CVKSC_ksc_to_unicode | Fn_CVKSC_unicode_to_ksc
  | Fn_CVBIG5_big5_to_unicode | Fn_CVBIG5_unicode_to_big5
  | Fn_CVGB_gb2312_to_unicode | Fn_CVGB_unicode_to_gb2312

record csconvert =
  csconvert_version :: nat
  csconvert_name :: string
  csconvert_from :: int
  csconvert_to :: int
  csconvert_convert :: convert_fn
  csconvert_datatable :: table
  csconvert_misc :: table

text \<open>
  \<open>((USHORT * ) datatable)[((USHORT * ) misc)[w / 256] + (w % 256)]\<close>: the two-level lookup
  every table-driven converter uses.
\<close>

definition two_level :: "csconvert \<Rightarrow> u16 \<Rightarrow> u16 option" where
  "two_level obj w =
     do { base \<leftarrow> short_at (csconvert_misc obj) (unat w div 256);
          short_at (csconvert_datatable obj) (unat base + unat w mod 256) }"

text \<open>The same lookup in a table of bytes.\<close>

definition two_level8 :: "csconvert \<Rightarrow> u16 \<Rightarrow> u8 option" where
  "two_level8 obj w =
     do { base \<leftarrow> short_at (csconvert_misc obj) (unat w div 256);
          byte_at (csconvert_datatable obj) (unat base + unat w mod 256) }"

text \<open>The object carries the tables its converter needs (the \<open>assert\<close>s on entry).\<close>

fun is_short_table :: "table \<Rightarrow> bool" where
  "is_short_table (Short_Table f) = True"
| "is_short_table _ = False"

fun is_byte_table :: "table \<Rightarrow> bool" where
  "is_byte_table (Byte_Table f) = True"
| "is_byte_table _ = False"

definition short_tables :: "csconvert \<Rightarrow> bool" where
  "short_tables obj \<longleftrightarrow>
     is_short_table (csconvert_datatable obj) \<and> is_short_table (csconvert_misc obj)"

definition byte_tables :: "csconvert \<Rightarrow> bool" where
  "byte_tables obj \<longleftrightarrow>
     is_byte_table (csconvert_datatable obj) \<and> is_short_table (csconvert_misc obj)"

lemma short_at_Some: "is_short_table t \<Longrightarrow> \<exists>c. short_at t i = Some c"
  by (cases t) auto

lemma byte_at_Some: "is_byte_table t \<Longrightarrow> \<exists>c. byte_at t i = Some c"
  by (cases t) auto

lemma two_level_Some: "short_tables obj \<Longrightarrow> \<exists>c. two_level obj w = Some c"
  by (cases "csconvert_datatable obj"; cases "csconvert_misc obj")
    (auto simp: two_level_def short_tables_def)

lemma two_level8_Some: "byte_tables obj \<Longrightarrow> \<exists>c. two_level8 obj w = Some c"
  by (cases "csconvert_datatable obj"; cases "csconvert_misc obj")
    (auto simp: two_level8_def byte_tables_def)

section \<open>Conversion results\<close>

text \<open>
  What a conversion call leaves behind: its return value, the units it has written to the
  destination, and the two out-parameters. \<open>err_position\<close> is \<open>None\<close> when the call does not
  assign it (the length-estimate branch).
\<close>

record 'd cv_result =
  cv_ret :: nat
  cv_out :: "'d list"
  cv_err :: nat
  cv_pos :: "nat option"

text \<open>
  \<open>((USHORT * ) datatable)[i]\<close> values of a two-byte character \<open>(c1 << 8) + c2\<close>, and its bytes.
\<close>

definition wide2 :: "u8 \<Rightarrow> u8 \<Rightarrow> u16" where
  "wide2 c1 c2 = push_bit 8 (ucast c1) + ucast c2"

definition hi8 :: "u16 \<Rightarrow> u8" where
  "hi8 w = ucast (drop_bit 8 w)"

definition lo8 :: "u16 \<Rightarrow> u8" where
  "lo8 w = ucast w"

lemma unat_wide2: "unat (wide2 c1 c2) = 256 * unat c1 + unat c2"
proof -
  have "256 * unat c1 + unat c2 < 65536"
    using u8_lt [of c1] u8_lt [of c2] by linarith
  then show ?thesis
    by (simp add: wide2_def unat_word_ariths push_bit_eq_mult)
qed

lemma unat_hi8: "unat (hi8 w) = unat w div 256"
proof -
  have "unat w div 256 < 256" using u16_lt [of w] by linarith
  then show ?thesis
    by (simp add: hi8_def unat_u16_to_u8 unat_drop_bit_eq drop_bit_eq_div unat_div)
qed

lemma unat_lo8: "unat (lo8 w) = unat w mod 256"
  by (simp add: lo8_def unat_u16_to_u8)

lemma wide2_hi_lo [simp]: "wide2 (hi8 w) (lo8 w) = w"
  by (simp add: word_unat_eq_iff unat_wide2 unat_hi8 unat_lo8)

lemma hi8_wide2 [simp]: "hi8 (wide2 a b) = a"
  by (simp add: word_unat_eq_iff unat_wide2 unat_hi8)

lemma lo8_wide2 [simp]: "lo8 (wide2 a b) = b"
  by (simp add: word_unat_eq_iff unat_wide2 unat_lo8)

end
