(* ===== verification/Cv_Driver.thy ===== *)
theory Cv_Driver
  imports Intl_Obj
begin

text \<open>
  What the \<open>while\<close> loops of all converters in \<open>intl/cv_*.c\<close> have in common: the local state
  (source pointer and length, destination pointer and length, error code), the primitive
  moves (\<open>*src++\<close>, \<open>*dest++ = c\<close>, \<open>len -= n\<close>, \<open>*err_code = e; break\<close>) and the tail that
  reports. The field \<open>cvs_room\<close> is the number of units the destination buffer can still hold;
  a write with no room left is an out-of-bounds write and faults, whatever \<open>dest_len\<close> says.

  The contract every loop body keeps is the locale \<open>cs_converter\<close>; its conclusions (the call
  returns, stays inside both buffers, and reports what it consumed) are proved once and hold
  for every converter by interpretation. \<open>cs_char_loop\<close> is the contract of a loop that handles
  one character per pass, and \<open>cs_decoder\<close> both together.
\<close>

section \<open>Loop state and moves\<close>

record ('s, 'd) cv_state =
  cvs_src :: "'s list"
  cvs_src_len :: nat
  cvs_dest :: "'d list"
  cvs_dest_len :: nat
  cvs_room :: nat
  cvs_err :: nat

definition cv_start :: "'s list \<Rightarrow> nat \<Rightarrow> nat \<Rightarrow> nat \<Rightarrow> ('s, 'd) cv_state" where
  "cv_start s slen dlen room =
     \<lparr>cvs_src = s, cvs_src_len = slen, cvs_dest = [], cvs_dest_len = dlen,
      cvs_room = room, cvs_err = 0\<rparr>"

definition cv_peek :: "('s, 'd) cv_state \<Rightarrow> 's option" where
  "cv_peek st = (case cvs_src st of [] \<Rightarrow> None | c # _ \<Rightarrow> Some c)"

definition cv_read :: "('s, 'd) cv_state \<Rightarrow> ('s \<times> ('s, 'd) cv_state) option" where
  "cv_read st = (case cvs_src st of [] \<Rightarrow> None | c # s \<Rightarrow> Some (c, st\<lparr>cvs_src := s\<rparr>))"

definition cv_write :: "'d \<Rightarrow> ('s, 'd) cv_state \<Rightarrow> ('s, 'd) cv_state option" where
  "cv_write d st =
     (if 0 < cvs_room st
      then Some (st\<lparr>cvs_dest := cvs_dest st @ [d], cvs_room := cvs_room st - 1\<rparr>) else None)"

definition cv_took :: "nat \<Rightarrow> ('s, 'd) cv_state \<Rightarrow> ('s, 'd) cv_state" where
  "cv_took n st = st\<lparr>cvs_src_len := ushort_sub (cvs_src_len st) n\<rparr>"

definition cv_gave :: "nat \<Rightarrow> ('s, 'd) cv_state \<Rightarrow> ('s, 'd) cv_state" where
  "cv_gave n st = st\<lparr>cvs_dest_len := ushort_sub (cvs_dest_len st) n\<rparr>"

definition cv_break :: "nat \<Rightarrow> ('s, 'd) cv_state \<Rightarrow> ('s, 'd) cv_state pass option" where
  "cv_break e st = Some (Break (st\<lparr>cvs_err := e\<rparr>))"

text \<open>\<open>for (; res; res--, dest_len--) *dest++ = *p++\<close>: copying a buffer of units.\<close>

fun cv_copy :: "'d list \<Rightarrow> ('s, 'd) cv_state \<Rightarrow> ('s, 'd) cv_state option" where
  "cv_copy [] st = Some st"
| "cv_copy (d # ds) st = do { st1 \<leftarrow> cv_write d st; cv_copy ds (cv_gave 1 st1) }"

lemma cv_copy_Some:
  "length ds \<le> cvs_room st \<Longrightarrow> length ds \<le> cvs_dest_len st \<Longrightarrow> cvs_dest_len st < 65536 \<Longrightarrow>
   cv_copy ds st =
     Some (st\<lparr>cvs_dest := cvs_dest st @ ds, cvs_dest_len := cvs_dest_len st - length ds,
              cvs_room := cvs_room st - length ds\<rparr>)"
proof (induction ds arbitrary: st)
  case (Cons d ds)
  then show ?case by (simp add: cv_write_def cv_gave_def)
qed simp

lemmas cv_moves [cv_simps] = cv_peek_def cv_read_def cv_write_def cv_took_def cv_gave_def
  cv_break_def

section \<open>Reporting\<close>

text \<open>\<open>if (src_len && !*err_code) *err_code = CS_TRUNCATION_ERROR;\<close>\<close>

definition cv_truncated :: "('s, 'd) cv_state \<Rightarrow> ('s, 'd) cv_state" where
  "cv_truncated st =
     (if cvs_src_len st \<noteq> 0 \<and> cvs_err st = 0
      then st\<lparr>cvs_err := CS_TRUNCATION_ERROR\<rparr> else st)"

text \<open>The variant for byte counts of two-byte sources: one byte left over is bad input.\<close>

definition cv_truncated_odd :: "('s, 'd) cv_state \<Rightarrow> ('s, 'd) cv_state" where
  "cv_truncated_odd st =
     (if cvs_src_len st \<noteq> 0 \<and> cvs_err st = 0
      then st\<lparr>cvs_err := if cvs_src_len st = 1 then CS_BAD_INPUT else CS_TRUNCATION_ERROR\<rparr>
      else st)"

text \<open>
  \<open>*err_position = src_start - src_len; return (dest_ptr - start) * sizeof (*dest_ptr)\<close>,
  with \<open>dsz\<close> the size of a destination unit.
\<close>

definition cv_finish :: "nat \<Rightarrow> nat \<Rightarrow> ('s, 'd) cv_state \<Rightarrow> 'd cv_result" where
  "cv_finish dsz src_start st =
     \<lparr>cv_ret = ushort (dsz * length (cvs_dest st)), cv_out = cvs_dest st,
      cv_err = cvs_err st, cv_pos = Some (ushort_sub src_start (cvs_src_len st))\<rparr>"

text \<open>The branch for \<open>dest_ptr == NULL\<close>: only an estimate is returned, as a \<open>USHORT\<close>.\<close>

definition cv_estimate :: "nat \<Rightarrow> 'd cv_result" where
  "cv_estimate n = \<lparr>cv_ret = ushort n, cv_out = [], cv_err = 0, cv_pos = None\<rparr>"

lemma cv_truncated_fields [simp]:
  "cvs_src_len (cv_truncated st) = cvs_src_len st" "cvs_dest (cv_truncated st) = cvs_dest st"
  "cvs_src_len (cv_truncated_odd st) = cvs_src_len st"
  "cvs_dest (cv_truncated_odd st) = cvs_dest st"
  by (simp_all add: cv_truncated_def cv_truncated_odd_def)

lemma cv_truncated_err:
  assumes "fin = cv_truncated \<or> fin = cv_truncated_odd"
    and "cvs_err st \<le> 3" and "cvs_err st \<noteq> 0 \<longrightarrow> 0 < cvs_src_len st"
  shows "cvs_err (fin st) \<le> 3" "cvs_err (fin st) = 0 \<longleftrightarrow> cvs_src_len st = 0"
  using assms by (auto simp: cv_truncated_def cv_truncated_odd_def cs_codes split: if_splits)

section \<open>The contract of a loop body\<close>

text \<open>
  The lengths the loop counts in bytes are covered by the buffers: \<open>ssz\<close> and \<open>dsz\<close> are the
  sizes in bytes of a source and of a destination unit.
\<close>

definition cv_ok :: "nat \<Rightarrow> nat \<Rightarrow> ('s, 'd) cv_state \<Rightarrow> bool" where
  "cv_ok ssz dsz st \<longleftrightarrow>
     cvs_src_len st < 65536 \<and> cvs_src_len st < ssz * length (cvs_src st) + ssz \<and>
     cvs_dest_len st < 65536 \<and> cvs_dest_len st < dsz * cvs_room st + dsz \<and> cvs_err st = 0"

definition cv_adv :: "nat \<Rightarrow> nat \<Rightarrow> nat \<Rightarrow> 'd list \<Rightarrow> ('s, 'd) cv_state \<Rightarrow> ('s, 'd) cv_state" where
  "cv_adv ssz dsz k ds st =
     st\<lparr>cvs_src := drop k (cvs_src st), cvs_src_len := cvs_src_len st - ssz * k,
        cvs_dest := cvs_dest st @ ds, cvs_dest_len := cvs_dest_len st - dsz * length ds,
        cvs_room := cvs_room st - length ds\<rparr>"

definition cv_moved :: "nat \<Rightarrow> nat \<Rightarrow> ('s, 'd) cv_state \<Rightarrow> ('s, 'd) cv_state \<Rightarrow> bool" where
  "cv_moved ssz dsz st st' \<longleftrightarrow>
     (\<exists>k ds. st' = cv_adv ssz dsz k ds st \<and> 0 < k \<and> ssz * k \<le> cvs_src_len st \<and>
             dsz * length ds \<le> cvs_dest_len st)"

definition cv_stopped :: "('s, 'd) cv_state \<Rightarrow> ('s, 'd) cv_state \<Rightarrow> bool" where
  "cv_stopped st st' \<longleftrightarrow>
     cvs_src_len st' = cvs_src_len st \<and> cvs_dest st' = cvs_dest st \<and>
     cvs_dest_len st' = cvs_dest_len st \<and> 0 < cvs_err st' \<and> cvs_err st' \<le> 3"

definition cv_pass_ok ::
  "nat \<Rightarrow> nat \<Rightarrow> ('s, 'd) cv_state \<Rightarrow> ('s, 'd) cv_state pass option \<Rightarrow> bool" where
  "cv_pass_ok ssz dsz st r \<longleftrightarrow>
     (case r of None \<Rightarrow> False
      | Some (Next st') \<Rightarrow> cv_moved ssz dsz st st' | Some (Break st') \<Rightarrow> cv_stopped st st')"

text \<open>The result of a call on \<open>slen\<close> source bytes and a buffer of \<open>dlen\<close> bytes.\<close>

definition cv_safe :: "nat \<Rightarrow> nat \<Rightarrow> nat \<Rightarrow> 'd cv_result option \<Rightarrow> bool" where
  "cv_safe dsz slen dlen r \<longleftrightarrow>
     (\<exists>x p. r = Some x \<and> cv_pos x = Some p \<and> p \<le> slen \<and>
        cv_ret x = dsz * length (cv_out x) \<and> cv_ret x \<le> dlen \<and>
        cv_err x \<le> 3 \<and> (cv_err x = 0 \<longleftrightarrow> p = slen))"

locale cs_loop =
  fixes guard :: "('s, 'd) cv_state \<Rightarrow> bool"
    and body :: "('s, 'd) cv_state \<Rightarrow> ('s, 'd) cv_state pass option"
    and ssz :: nat
    and dsz :: nat
  assumes sizes: "0 < ssz" "0 < dsz"
    and guard_src: "guard st \<Longrightarrow> 0 < cvs_src_len st"

locale cs_converter = cs_loop guard body ssz dsz
  for guard :: "('s, 'd) cv_state \<Rightarrow> bool" and body ssz dsz +
  assumes body_ok: "cv_ok ssz dsz st \<Longrightarrow> guard st \<Longrightarrow> cv_pass_ok ssz dsz st (body st)"
begin

definition run_inv :: "('s, 'd) cv_state \<Rightarrow> ('s, 'd) cv_state \<Rightarrow> bool" where
  "run_inv st0 st \<longleftrightarrow>
     (\<exists>ds. cvs_dest st = cvs_dest st0 @ ds \<and>
        cvs_dest_len st + dsz * length ds = cvs_dest_len st0 \<and>
        cvs_src_len st \<le> cvs_src_len st0)"

lemma run_inv_refl: "run_inv st st"
  by (simp add: run_inv_def)

lemma moved_ok: "cv_ok ssz dsz st \<Longrightarrow> cv_moved ssz dsz st st' \<Longrightarrow> cv_ok ssz dsz st'"
proof -
  assume ok: "cv_ok ssz dsz st" and "cv_moved ssz dsz st st'"
  then obtain k ds where st': "st' = cv_adv ssz dsz k ds st"
    and k: "ssz * k \<le> cvs_src_len st" and d: "dsz * length ds \<le> cvs_dest_len st"
    by (auto simp: cv_moved_def)
  have "dsz * length ds < dsz * Suc (cvs_room st)"
    using ok d by (auto simp: cv_ok_def)
  then have "length ds < Suc (cvs_room st)" by (rule mult_less_cancel1 [THEN iffD1, THEN conjunct2])
  then have "length ds \<le> cvs_room st" by simp
  then have r: "dsz * (cvs_room st - length ds) = dsz * cvs_room st - dsz * length ds"
    by (simp add: diff_mult_distrib2)
  have "ssz * k < ssz * Suc (length (cvs_src st))"
    using ok k by (auto simp: cv_ok_def)
  then have "k < Suc (length (cvs_src st))" by (rule mult_less_cancel1 [THEN iffD1, THEN conjunct2])
  then have "k \<le> length (cvs_src st)" by simp
  then have "ssz * (length (cvs_src st) - k) = ssz * length (cvs_src st) - ssz * k"
    by (simp add: diff_mult_distrib2)
  with r ok k d show ?thesis
    by (auto simp: st' cv_adv_def cv_ok_def)
qed

lemma moved_inv: "run_inv st0 st \<Longrightarrow> cv_moved ssz dsz st st' \<Longrightarrow> run_inv st0 st'"
  by (auto simp: run_inv_def cv_moved_def cv_adv_def algebra_simps)

lemma moved_less: "cv_moved ssz dsz st st' \<Longrightarrow> cvs_src_len st' < cvs_src_len st"
  using sizes by (auto simp: cv_moved_def cv_adv_def) (metis diff_less mult_pos_pos less_le_trans)

lemma stopped_inv: "run_inv st0 st \<Longrightarrow> cv_stopped st st' \<Longrightarrow> run_inv st0 st'"
  by (auto simp: run_inv_def cv_stopped_def)

text \<open>The loop returns, inside both buffers; it stops with an error or because its guard fails.\<close>

lemma run_total:
  assumes "cv_ok ssz dsz st0"
  shows "\<exists>st. while_loop guard body st0 = Some st \<and> run_inv st0 st \<and> cvs_err st \<le> 3 \<and>
           (cvs_err st = 0 \<longrightarrow> \<not> guard st) \<and> (cvs_err st \<noteq> 0 \<longrightarrow> 0 < cvs_src_len st)"
proof (rule while_loop_total
    [where I = "\<lambda>st. cv_ok ssz dsz st \<and> run_inv st0 st" and m = cvs_src_len])
  show "cv_ok ssz dsz st0 \<and> run_inv st0 st0"
    using assms by (simp add: run_inv_refl)
next
  fix s assume s: "cv_ok ssz dsz s \<and> run_inv st0 s" and g: "guard s"
  show "(\<exists>s'. body s = Some (Next s') \<and> (cv_ok ssz dsz s' \<and> run_inv st0 s') \<and>
              cvs_src_len s' < cvs_src_len s) \<or>
        (\<exists>s'. body s = Some (Break s') \<and> run_inv st0 s' \<and> cvs_err s' \<le> 3 \<and>
              (cvs_err s' = 0 \<longrightarrow> \<not> guard s') \<and> (cvs_err s' \<noteq> 0 \<longrightarrow> 0 < cvs_src_len s'))"
    using body_ok [of s] s g guard_src [OF g]
    by (auto simp: cv_pass_ok_def cv_stopped_def split: option.splits pass.splits
        intro: moved_ok moved_inv moved_less stopped_inv [unfolded cv_stopped_def])
next
  fix s assume "cv_ok ssz dsz s \<and> run_inv st0 s" and "\<not> guard s"
  then show "run_inv st0 s \<and> cvs_err s \<le> 3 \<and>
      (cvs_err s = 0 \<longrightarrow> \<not> guard s) \<and> (cvs_err s \<noteq> 0 \<longrightarrow> 0 < cvs_src_len s)"
    by (simp add: cv_ok_def)
qed

lemma report_safe:
  assumes ok: "cv_ok ssz dsz (cv_start s slen dlen room :: ('s, 'd) cv_state)"
    and fin: "fin = cv_truncated \<or> fin = cv_truncated_odd"
  shows "cv_safe dsz slen dlen
           (do { st \<leftarrow> while_loop guard body (cv_start s slen dlen room);
                 Some (cv_finish dsz slen (fin st)) })"
proof -
  have len: "slen < 65536" "dlen < 65536"
    using ok by (auto simp: cv_ok_def cv_start_def)
  obtain st where st: "while_loop guard body (cv_start s slen dlen room) = Some st"
    "run_inv (cv_start s slen dlen room) st" "cvs_err st \<le> 3"
    "cvs_err st \<noteq> 0 \<longrightarrow> 0 < cvs_src_len st"
    using run_total [OF ok] by blast
  from st(2) have sl: "cvs_src_len st \<le> slen" and dl: "dsz * length (cvs_dest st) \<le> dlen"
    by (auto simp: run_inv_def cv_start_def)
  have f: "cvs_src_len (fin st) = cvs_src_len st" "cvs_dest (fin st) = cvs_dest st"
    using fin by auto
  note e = cv_truncated_err [OF fin st(3,4)]
  have "(cvs_err (fin st) = 0) = (slen - cvs_src_len st = slen)"
    using e(2) sl st(4) by auto
  with e(1) sl dl len st(1) f show ?thesis
    by (simp add: cv_safe_def cv_finish_def)
qed

end

section \<open>Converters that handle one character per pass\<close>

text \<open>
  The source is a sequence of characters \<open>c\<close>, each the units \<open>enc c\<close>; one pass consumes
  \<open>enc c\<close> and writes \<open>dec c\<close>. Then a buffer that holds the whole output receives exactly the
  concatenation of the \<open>dec c\<close>, and the call reports no error.
\<close>

definition cv_fits :: "nat \<Rightarrow> nat \<Rightarrow> nat \<Rightarrow> 'd list \<Rightarrow> ('s, 'd) cv_state \<Rightarrow> bool" where
  "cv_fits ssz dsz k ds st \<longleftrightarrow>
     cvs_src_len st < 65536 \<and> cvs_dest_len st < 65536 \<and> cvs_err st = 0 \<and>
     ssz * k \<le> cvs_src_len st \<and> dsz * length ds \<le> cvs_dest_len st \<and> length ds \<le> cvs_room st"

locale cs_char_loop = cs_loop guard body ssz dsz
  for guard :: "('s, 'd) cv_state \<Rightarrow> bool" and body ssz dsz +
  fixes enc :: "'c \<Rightarrow> 's list"
    and dec :: "'c \<Rightarrow> 'd list"
    and valid :: "'c \<Rightarrow> bool"
  assumes pass_char:
    "valid c \<Longrightarrow> cvs_src st = enc c @ rest \<Longrightarrow>
     cv_fits ssz dsz (length (enc c)) (dec c) st \<Longrightarrow>
     guard st \<and> body st = Some (Next (cv_adv ssz dsz (length (enc c)) (dec c) st))"
begin

lemma run_prefix:
  assumes "\<forall>c \<in> set cs. valid c"
    and "cvs_src st = concat (map enc cs) @ rest"
    and "cv_fits ssz dsz (length (concat (map enc cs))) (concat (map dec cs)) st"
  shows "while_loop guard body st = while_loop guard body
           (cv_adv ssz dsz (length (concat (map enc cs))) (concat (map dec cs)) st)"
  using assms
proof (induction cs arbitrary: st)
  case Nil
  then show ?case by (cases st) (simp add: cv_adv_def)
next
  case (Cons c cs)
  let ?st' = "cv_adv ssz dsz (length (enc c)) (dec c) st"
  have pass: "guard st \<and> body st = Some (Next ?st')"
    by (rule pass_char [where rest = "concat (map enc cs) @ rest"])
      (use Cons.prems in \<open>auto simp: cv_fits_def algebra_simps\<close>)
  have "while_loop guard body ?st' = while_loop guard body
      (cv_adv ssz dsz (length (concat (map enc cs))) (concat (map dec cs)) ?st')"
    by (rule Cons.IH)
      (use Cons.prems in \<open>auto simp: cv_fits_def cv_adv_def algebra_simps\<close>)
  moreover have "cv_adv ssz dsz (length (concat (map enc cs))) (concat (map dec cs)) ?st' =
      cv_adv ssz dsz (length (concat (map enc (c # cs)))) (concat (map dec (c # cs))) st"
    by (simp add: cv_adv_def algebra_simps)
  ultimately show ?case
    using pass by (simp add: while_loop_next)
qed

lemma run_chars:
  assumes "\<forall>c \<in> set cs. valid c"
    and "cvs_src st = concat (map enc cs) @ rest"
    and "cvs_src_len st = ssz * length (concat (map enc cs))"
    and "cv_fits ssz dsz (length (concat (map enc cs))) (concat (map dec cs)) st"
  shows "\<exists>st'. while_loop guard body st = Some st' \<and>
           cvs_dest st' = cvs_dest st @ concat (map dec cs) \<and>
           cvs_src_len st' = 0 \<and> cvs_err st' = 0"
proof -
  let ?st' = "cv_adv ssz dsz (length (concat (map enc cs))) (concat (map dec cs)) st"
  have z: "cvs_src_len ?st' = 0" using assms(3) by (simp add: cv_adv_def)
  then have "\<not> guard ?st'" using guard_src [of ?st'] by auto
  with run_prefix [OF assms(1,2,4)] z assms(4) show ?thesis
    by (simp add: cv_adv_def cv_fits_def)
qed

lemma decode_all:
  assumes "\<forall>c \<in> set cs. valid c"
    and "slen = ssz * length (concat (map enc cs))" and "slen < 65536"
    and "dsz * length (concat (map dec cs)) \<le> dlen" and "dlen < 65536"
    and "length (concat (map dec cs)) \<le> room"
    and fin: "fin = cv_truncated \<or> fin = cv_truncated_odd"
  shows "do { st \<leftarrow> while_loop guard body
                 (cv_start (concat (map enc cs)) slen dlen room);
              Some (cv_finish dsz slen (fin st)) } =
         Some \<lparr>cv_ret = dsz * length (concat (map dec cs)), cv_out = concat (map dec cs),
               cv_err = 0, cv_pos = Some slen\<rparr>"
proof -
  let ?st = "cv_start (concat (map enc cs)) slen dlen room :: ('s, 'd) cv_state"
  obtain st where st: "while_loop guard body ?st = Some st"
    "cvs_dest st = cvs_dest ?st @ concat (map dec cs)" "cvs_src_len st = 0" "cvs_err st = 0"
    using run_chars [of cs ?st "[]"] assms by (auto simp: cv_start_def cv_fits_def)
  moreover have "dsz * length (concat (map dec cs)) < 65536" using assms by linarith
  ultimately show ?thesis
    using fin assms by (auto simp: cv_finish_def cv_truncated_def cv_truncated_odd_def cv_start_def)
qed

end

text \<open>A converter that keeps the contract and handles one character per pass.\<close>

locale cs_decoder =
  cs_converter guard body ssz dsz + cs_char_loop guard body ssz dsz enc dec valid
  for guard :: "('s, 'd) cv_state \<Rightarrow> bool" and body ssz dsz
    and enc :: "'c \<Rightarrow> 's list" and dec :: "'c \<Rightarrow> 'd list" and valid

end
