(* ===== verification/Cv_Unicode_Fss.thy ===== *)
theory Cv_Unicode_Fss
  imports Cv_Driver
begin

text \<open>
  \<open>intl/cv_unicode_fss.c\<close>: the FSS-UTF (UTF-8) codec. The rows of the static table \<open>tab\<close>, the
  decoder \<open>fss_mbtowc\<close>, the encoder \<open>fss_wctomb\<close> and the two string converters built on them.
  C \<open>int\<close> and \<open>long\<close> locals are integers (no value here reaches 40 bits).
\<close>

section \<open>The table of sequence forms\<close>

record Tab =
  cmask :: int
  cval :: int
  shift :: nat
  lmask :: int
  lval :: int

definition tab :: "Tab list" where
  "tab =
    [\<lparr>cmask = 0x80, cval = 0x00, shift = 0 * 6, lmask = 0x7F, lval = 0\<rparr>,
     \<lparr>cmask = 0xE0, cval = 0xC0, shift = 1 * 6, lmask = 0x7FF, lval = 0x80\<rparr>,
     \<lparr>cmask = 0xF0, cval = 0xE0, shift = 2 * 6, lmask = 0xFFFF, lval = 0x800\<rparr>,
     \<lparr>cmask = 0xF8, cval = 0xF0, shift = 3 * 6, lmask = 0x1FFFFF, lval = 0x10000\<rparr>,
     \<lparr>cmask = 0xFC, cval = 0xF8, shift = 4 * 6, lmask = 0x3FFFFFF, lval = 0x200000\<rparr>,
     \<lparr>cmask = 0xFE, cval = 0xFC, shift = 5 * 6, lmask = 0x7FFFFFFF, lval = 0x4000000\<rparr>,
     \<lparr>cmask = 0, cval = 0, shift = 0, lmask = 0, lval = 0\<rparr>]"

section \<open>One character\<close>

text \<open>
  The loop of \<open>fss_mbtowc\<close> over the table: \<open>s\<close> points at the byte read last, \<open>l\<close> collects the
  value, \<open>nc\<close> counts bytes. The result is the return value and what is stored in \<open>*p\<close>, if
  anything; a read past the end of the memory at \<open>s\<close> is \<open>None\<close>.
\<close>

fun fss_scan ::
  "Tab list \<Rightarrow> u8 list \<Rightarrow> int \<Rightarrow> int \<Rightarrow> int \<Rightarrow> int \<Rightarrow> (int \<times> u16 option) option" where
  "fss_scan [] s n c0 l nc = Some (-1, None)"
| "fss_scan (t # ts) s n c0 l nc =
     (if cmask t = 0 then Some (-1, None)
      else if c0 AND cmask t = cval t
      then (if l AND lmask t < lval t then Some (-1, None)
            else Some (nc + 1, Some (word_of_int (l AND lmask t))))
      else if n \<le> nc + 1 then Some (-1, None)
      else (case tl s of
              [] \<Rightarrow> None
            | b # s' \<Rightarrow>
                (let c = (uint b XOR 0x80) AND 0xFF in
                 if c AND 0xC0 \<noteq> 0 then Some (-1, None)
                 else fss_scan ts (b # s') n c0 (push_bit 6 l OR c) (nc + 1))))"

definition fss_mbtowc :: "u8 list option \<Rightarrow> int \<Rightarrow> (int \<times> u16 option) option" where
  "fss_mbtowc s n =
     (case s of
        None \<Rightarrow> Some (0, None)
      | Some s \<Rightarrow>
          if n \<le> 0 then Some (-1, None)
          else (case s of
                  [] \<Rightarrow> None
                | b # _ \<Rightarrow> fss_scan tab s n (uint b AND 0xFF) (uint b AND 0xFF) 0))"

text \<open>
  \<open>fss_wctomb\<close> fills the caller's buffer \<open>s\<close> (never \<open>NULL\<close> in this file: the only caller passes
  its \<open>tmp_buffer [6]\<close>); the value is the return value and the bytes written.
\<close>

fun fss_tail :: "nat \<Rightarrow> int \<Rightarrow> u8 list" where
  "fss_tail c l =
     (if 0 < c then word_of_int (0x80 OR (drop_bit (c - 6) l AND 0x3F)) # fss_tail (c - 6) l
      else [])"

fun fss_emit :: "Tab list \<Rightarrow> int \<Rightarrow> int \<Rightarrow> int \<times> u8 list" where
  "fss_emit [] l nc = (-1, [])"
| "fss_emit (t # ts) l nc =
     (if cmask t = 0 then (-1, [])
      else if l \<le> lmask t
      then (nc + 1, word_of_int (cval t OR drop_bit (shift t) l) # fss_tail (shift t) l)
      else fss_emit ts l (nc + 1))"

definition fss_wctomb :: "u16 \<Rightarrow> int \<times> u8 list" where
  "fss_wctomb wc = fss_emit tab (uint wc) 0"

definition CS_UTFFSS_fss_mbtowc :: "u8 list \<Rightarrow> nat \<Rightarrow> (int \<times> u16 option) option" where
  "CS_UTFFSS_fss_mbtowc p n = fss_mbtowc (Some p) (int n)"

section \<open>Strings\<close>

definition fss_to_unicode_guard :: "(u8, u16) cv_state \<Rightarrow> bool" where
  "fss_to_unicode_guard st \<longleftrightarrow> cvs_src_len st \<noteq> 0 \<and> 2 \<le> cvs_dest_len st"

definition fss_to_unicode_body :: "(u8, u16) cv_state \<Rightarrow> (u8, u16) cv_state pass option" where
  "fss_to_unicode_body st =
     do { (res, wc) \<leftarrow> fss_mbtowc (Some (cvs_src st)) (int (cvs_src_len st));
          if res = -1 then cv_break CS_BAD_INPUT st
          else do { w \<leftarrow> wc;
                    st1 \<leftarrow> cv_write w st;
                    Some (Next (cv_took (nat res)
                      ((cv_gave 2 st1)\<lparr>cvs_src := drop (nat res) (cvs_src st)\<rparr>))) } }"

definition CS_UTFFSS_fss_to_unicode ::
  "nat option \<Rightarrow> nat \<Rightarrow> u8 list \<Rightarrow> nat \<Rightarrow> u16 cv_result option" where
  "CS_UTFFSS_fss_to_unicode dest dest_len src src_len =
     (case dest of
        None \<Rightarrow> Some (cv_estimate (src_len * 2))
      | Some room \<Rightarrow>
          do { st \<leftarrow> while_loop fss_to_unicode_guard fss_to_unicode_body
                      (cv_start src src_len dest_len room);
               Some (cv_finish 2 src_len (cv_truncated st)) })"

definition unicode_to_fss_guard :: "(u16, u8) cv_state \<Rightarrow> bool" where
  "unicode_to_fss_guard st \<longleftrightarrow> cvs_dest_len st \<noteq> 0 \<and> 2 \<le> cvs_src_len st"

definition unicode_to_fss_body :: "(u16, u8) cv_state \<Rightarrow> (u16, u8) cv_state pass option" where
  "unicode_to_fss_body st =
     do { wc \<leftarrow> cv_peek st;
          let (res, tmp_buffer) = fss_wctomb wc in
          if res = -1 then cv_break CS_BAD_INPUT st
          else if int (cvs_dest_len st) < res then cv_break CS_TRUNCATION_ERROR st
          else do { st1 \<leftarrow> cv_copy (take (nat res) tmp_buffer) st;
                    Some (Next ((cv_took 2 st1)\<lparr>cvs_src := tl (cvs_src st)\<rparr>)) } }"

definition CS_UTFFSS_unicode_to_fss ::
  "nat option \<Rightarrow> nat \<Rightarrow> u16 list \<Rightarrow> nat \<Rightarrow> u8 cv_result option" where
  "CS_UTFFSS_unicode_to_fss dest fss_len unicode_str unicode_len =
     (case dest of
        None \<Rightarrow> Some (cv_estimate (ushort (unicode_len + 1) div 2 * 3))
      | Some room \<Rightarrow>
          do { st \<leftarrow> while_loop unicode_to_fss_guard unicode_to_fss_body
                      (cv_start unicode_str unicode_len fss_len room);
               Some (cv_finish 1 unicode_len (cv_truncated st)) })"

section \<open>Arithmetic reading of one character\<close>

declare fss_tail.simps [simp del]

lemma uint_u8 [simp]: "0 \<le> uint (b :: u8)" "uint (b :: u8) < 256"
  using uint_lt2p [of b] by simp_all

lemma uint_u16 [simp]: "0 \<le> uint (w :: u16)" "uint (w :: u16) < 65536"
  using uint_lt2p [of w] by simp_all

lemma fss_tail_0: "fss_tail 0 l = []"
  by (simp add: fss_tail.simps)

lemma fss_tail_byte: "0x80 OR (l AND 0x3F) = 128 + l mod 64" for l :: int
proof -
  have "push_bit 7 1 OR (l mod 64) = 2 ^ 7 * 1 + l mod 64"
    by (rule or_low) (use pos_mod_bound [of 64 l] in auto)
  then show ?thesis by (simp add: low_masks push_bit_eq_mult)
qed

lemma fss_tail_6: "fss_tail 6 l = [word_of_int (128 + l mod 64)]"
  by (subst fss_tail.simps) (simp add: fss_tail_byte fss_tail_0)

lemma fss_tail_12:
  "fss_tail 12 l = [word_of_int (128 + (l div 64) mod 64), word_of_int (128 + l mod 64)]"
  by (subst fss_tail.simps) (simp add: fss_tail_byte fss_tail_6 drop_bit_eq_div)

lemma wctomb_1: "uint w < 128 \<Longrightarrow> fss_wctomb w = (1, [word_of_int (uint w)])"
  by (simp add: fss_wctomb_def tab_def fss_tail_0)

lemma wctomb_2:
  assumes "128 \<le> uint w" "uint w < 2048"
  shows "fss_wctomb w =
    (2, [word_of_int (192 + uint w div 64), word_of_int (128 + uint w mod 64)])"
proof -
  have "push_bit 6 3 OR (uint w div 64) = 2 ^ 6 * 3 + uint w div 64"
    by (rule or_low) (use assms in \<open>auto simp: pos_imp_zdiv_nonneg_iff\<close>)
  then have "192 OR (uint w div 64) = 192 + uint w div 64"
    by (simp add: push_bit_eq_mult)
  with assms show ?thesis
    by (simp add: fss_wctomb_def tab_def fss_tail_6 drop_bit_eq_div)
qed

lemma wctomb_3:
  assumes "2048 \<le> uint w"
  shows "fss_wctomb w =
    (3, [word_of_int (224 + uint w div 4096), word_of_int (128 + (uint w div 64) mod 64),
         word_of_int (128 + uint w mod 64)])"
proof -
  have "uint w div 4096 < 16" using uint_u16(2) [of w] by linarith
  then have "push_bit 5 7 OR (uint w div 4096) = 2 ^ 5 * 7 + uint w div 4096"
    by (intro or_low) (auto simp: pos_imp_zdiv_nonneg_iff)
  then have "224 OR (uint w div 4096) = 224 + uint w div 4096"
    by (simp add: push_bit_eq_mult)
  moreover have "uint w \<le> 0xFFFF" using uint_u16(2) [of w] by linarith
  ultimately show ?thesis
    using assms by (simp add: fss_wctomb_def tab_def fss_tail_12 drop_bit_eq_div)
qed

text \<open>A continuation byte, as the decoder tests and reads it.\<close>

lemma cont_test:
  fixes b :: u8
  shows "(((uint b XOR 0x80) AND 0xFF) AND 0xC0 = 0) = (128 \<le> uint b \<and> uint b < 192)"
proof -
  define x where "x = uint b"
  have x: "0 \<le> x" "x < 256" by (simp_all add: x_def)
  define y where "y = (if x < 128 then x + 128 else x - 128)"
  have y: "0 \<le> y" "y < 256" using x by (auto simp: y_def)
  have "((x XOR 0x80) AND 0xFF) AND 0xC0 = 64 * (y div 64)"
    using x y by (simp only: xor_0x80 y_def [symmetric] low_masks mod_pos_pos_trivial high_masks)
  moreover have "(64 * (y div 64) = 0) = (y < 64)" using y by presburger
  moreover have "(y < 64) = (128 \<le> x \<and> x < 192)" using x by (auto simp: y_def)
  ultimately show ?thesis by (simp only: x_def)
qed

lemma cont_value:
  fixes b :: u8
  assumes "128 \<le> uint b"
  shows "(uint b XOR 0x80) AND 0xFF = uint b - 128"
proof -
  have "(uint b - 128) mod 256 = uint b - 128"
    by (rule mod_pos_pos_trivial) (use assms uint_u8(2) [of b] in linarith)+
  then show ?thesis using assms by (simp add: xor_0x80 low_masks)
qed

lemma push6: "0 \<le> c \<Longrightarrow> c < 64 \<Longrightarrow> push_bit 6 l OR c = 64 * l + c" for l c :: int
  using or_low [of c 6 l] by simp

text \<open>One row of the table at a time: the row matches, or a continuation byte is read.\<close>

lemma scan_hit:
  "cmask t \<noteq> 0 \<Longrightarrow> c0 AND cmask t = cval t \<Longrightarrow>
   fss_scan (t # ts) s n c0 l nc =
     (if l AND lmask t < lval t then Some (-1, None)
      else Some (nc + 1, Some (word_of_int (l AND lmask t))))"
  by simp

lemma scan_cont:
  "cmask t \<noteq> 0 \<Longrightarrow> c0 AND cmask t \<noteq> cval t \<Longrightarrow> nc + 1 < n \<Longrightarrow>
   128 \<le> uint b1 \<Longrightarrow> uint b1 < 192 \<Longrightarrow>
   fss_scan (t # ts) (b # b1 # s) n c0 l nc =
     fss_scan ts (b1 # s) n c0 (64 * l + (uint b1 - 128)) (nc + 1)"
  using cont_test [of b1] cont_value [of b1]
  by (simp add: Let_def push6)

declare fss_scan.simps [simp del]

lemma mbtowc_1:
  assumes "uint b < 128" "0 < n"
  shows "fss_mbtowc (Some (b # s)) n = Some (1, Some (word_of_int (uint b)))"
  using assms uint_u8 [of b]
  by (simp add: fss_mbtowc_def tab_def scan_hit low_masks high_masks)

lemma mbtowc_2:
  assumes "192 \<le> uint b" "uint b < 224" "128 \<le> uint b1" "uint b1 < 192" "2 \<le> n"
  shows "fss_mbtowc (Some (b # b1 # s)) n =
    (let v = 64 * (uint b - 192) + (uint b1 - 128) in
     if v < 128 then Some (-1, None) else Some (2, Some (word_of_int v)))"
proof -
  have "64 * uint b + (uint b1 - 128) = (64 * (uint b - 192) + (uint b1 - 128)) + 6 * 2048"
    by simp
  then have v: "(64 * uint b + (uint b1 - 128)) mod 2048 = 64 * (uint b - 192) + (uint b1 - 128)"
    using assms by (simp only: mod_mult_self1) simp
  have c0: "uint b AND 0xFF = uint b" by (simp add: low_masks)
  have d: "uint b div 32 = 6" "uint b div 128 = 1" using assms by presburger+
  show ?thesis
    using assms v
    by (simp add: fss_mbtowc_def tab_def c0 scan_cont scan_hit high_masks d low_masks(4) Let_def
        del: of_int_add of_int_diff)
qed

lemma mbtowc_3:
  assumes "224 \<le> uint b" "uint b < 240" "128 \<le> uint b1" "uint b1 < 192"
    "128 \<le> uint b2" "uint b2 < 192" "3 \<le> n"
  shows "fss_mbtowc (Some (b # b1 # b2 # s)) n =
    (let v = 4096 * (uint b - 224) + 64 * (uint b1 - 128) + (uint b2 - 128) in
     if v < 2048 then Some (-1, None) else Some (3, Some (word_of_int v)))"
proof -
  have "64 * (64 * uint b + (uint b1 - 128)) + (uint b2 - 128) =
    (4096 * (uint b - 224) + 64 * (uint b1 - 128) + (uint b2 - 128)) + 14 * 65536"
    by simp
  then have v: "(64 * (64 * uint b + (uint b1 - 128)) + (uint b2 - 128)) mod 65536 =
    4096 * (uint b - 224) + 64 * (uint b1 - 128) + (uint b2 - 128)"
    using assms by (simp only: mod_mult_self1) simp
  have c0: "uint b AND 0xFF = uint b" by (simp add: low_masks)
  have d: "uint b div 32 = 7" "uint b div 128 = 1" "uint b div 16 = 14"
    using assms by presburger+
  show ?thesis
    using assms v
    by (simp add: fss_mbtowc_def tab_def c0 scan_cont scan_hit high_masks d low_masks(5) Let_def
        del: of_int_add of_int_diff)
qed

text \<open>Whatever the bytes, a call on \<open>n\<close> readable bytes returns, and consumes between 1 and \<open>n\<close>.\<close>

lemma fss_scan_safe:
  "0 \<le> nc \<Longrightarrow> nc < n \<Longrightarrow> n - nc \<le> int (length s) \<Longrightarrow>
   \<exists>r w. fss_scan ts s n c0 l nc = Some (r, w) \<and>
     (r = -1 \<and> w = None \<or> 0 < r \<and> r \<le> n \<and> w \<noteq> None)"
proof (induction ts arbitrary: s l nc)
  case Nil
  then show ?case by (simp add: fss_scan.simps)
next
  case (Cons t ts)
  show ?case
  proof (cases "cmask t = 0 \<or> c0 AND cmask t = cval t \<or> n \<le> nc + 1")
    case True
    with Cons.prems show ?thesis by (auto simp: fss_scan.simps)
  next
    case False
    then have "tl s \<noteq> []" using Cons.prems by (cases s) auto
    then obtain b s' where s': "tl s = b # s'" by (cases "tl s") auto
    have "int (length s) = int (length s') + 2" using s' by (cases s) auto
    then have "\<exists>r w. fss_scan ts (b # s') n c0 l' (nc + 1) = Some (r, w) \<and>
      (r = -1 \<and> w = None \<or> 0 < r \<and> r \<le> n \<and> w \<noteq> None)" for l'
      using Cons.prems False by (intro Cons.IH) auto
    with False s' show ?thesis by (simp add: fss_scan.simps Let_def)
  qed
qed

lemma fss_mbtowc_safe:
  assumes "0 < n" "n \<le> int (length s)"
  shows "\<exists>r w. fss_mbtowc (Some s) n = Some (r, w) \<and>
     (r = -1 \<and> w = None \<or> 0 < r \<and> r \<le> n \<and> w \<noteq> None)"
proof -
  from assms obtain b s' where "s = b # s'" by (cases s) auto
  with assms show ?thesis
    using fss_scan_safe [of 0 n s tab] by (simp add: fss_mbtowc_def)
qed

section \<open>Encoding and decoding one character\<close>

lemma wctomb_length: "fss_wctomb w = (r, bs) \<Longrightarrow> r = int (length bs) \<and> 0 < length bs \<and> length bs \<le> 3"
  using wctomb_1 [of w] wctomb_2 [of w] wctomb_3 [of w] by fastforce

lemma uint_word_of_int_u8: "0 \<le> i \<Longrightarrow> i < 256 \<Longrightarrow> uint (word_of_int i :: u8) = i"
  by (simp add: unsigned_of_int take_bit_eq_mod)

lemma wctomb_bytes:
  assumes "fss_wctomb w = (r, bs)"
  shows "uint w < 128 \<and> r = 1 \<and> bs = [ucast w] \<or>
     128 \<le> uint w \<and> (\<exists>b0 b1. r = 2 \<and> bs = [b0, b1] \<and> uint b0 = 192 + uint w div 64 \<and>
        uint b1 = 128 + uint w mod 64) \<or>
     128 \<le> uint w \<and> (\<exists>b0 b1 b2. r = 3 \<and> bs = [b0, b1, b2] \<and> uint b0 = 224 + uint w div 4096 \<and>
        uint b1 = 128 + (uint w div 64) mod 64 \<and> uint b2 = 128 + uint w mod 64)"
proof -
  consider "uint w < 128" | "128 \<le> uint w" "uint w < 2048" | "2048 \<le> uint w" by linarith
  then show ?thesis
  proof cases
    case 1
    with assms show ?thesis by (auto simp: wctomb_1)
  next
    case 2
    then have "uint w div 64 < 32" "0 \<le> uint w div 64" by linarith+
    then have u: "uint (word_of_int (192 + uint w div 64) :: u8) = 192 + uint w div 64"
      "uint (word_of_int (128 + uint w mod 64) :: u8) = 128 + uint w mod 64"
      by (intro uint_word_of_int_u8; simp)+
    have r: "r = 2" "bs = [word_of_int (192 + uint w div 64), word_of_int (128 + uint w mod 64)]"
      using assms wctomb_2 [OF 2] by simp_all
    show ?thesis unfolding r by (rule disjI2, rule disjI1) (use 2 u in blast)
  next
    case 3
    have "uint w div 4096 < 16" "0 \<le> uint w div 4096" using uint_u16 [of w] by linarith+
    then have u: "uint (word_of_int (224 + uint w div 4096) :: u8) = 224 + uint w div 4096"
      "uint (word_of_int (128 + (uint w div 64) mod 64) :: u8) = 128 + (uint w div 64) mod 64"
      "uint (word_of_int (128 + uint w mod 64) :: u8) = 128 + uint w mod 64"
      by (intro uint_word_of_int_u8; simp)+
    have r: "r = 3" "bs = [word_of_int (224 + uint w div 4096),
        word_of_int (128 + (uint w div 64) mod 64), word_of_int (128 + uint w mod 64)]"
      using assms wctomb_3 [OF 3] by simp_all
    have l: "128 \<le> uint w" using 3 by linarith
    show ?thesis unfolding r by (rule disjI2, rule disjI2) (use u l in blast)
  qed
qed

lemma mbtowc_wctomb:
  assumes "fss_wctomb w = (r, bs)" and "r \<le> n"
  shows "fss_mbtowc (Some (bs @ rest)) n = Some (r, Some w)"
proof -
  let ?u = "uint w"
  have u: "0 \<le> ?u" "?u < 65536" by simp_all
  consider "?u < 128" | "128 \<le> ?u" "?u < 2048" | "2048 \<le> ?u" by linarith
  then show ?thesis
  proof cases
    case 1
    then have e: "uint (ucast w :: u8) = ?u"
      by (simp add: unsigned_ucast_eq take_bit_eq_mod)
    have "(word_of_int ?u :: u16) = w" by simp
    with 1 e assms mbtowc_1 [of "ucast w :: u8" n rest] show ?thesis
      by (auto simp: wctomb_1)
  next
    case 2
    define b0 :: u8 where "b0 = word_of_int (192 + ?u div 64)"
    define b1 :: u8 where "b1 = word_of_int (128 + ?u mod 64)"
    have d: "?u div 64 < 32" "2 \<le> ?u div 64" using 2 by linarith+
    have b: "uint b0 = 192 + ?u div 64" "uint b1 = 128 + ?u mod 64"
      unfolding b0_def b1_def using d by (intro uint_word_of_int_u8; simp)+
    have "bs = [b0, b1]" "r = 2"
      using 2 assms(1) by (simp_all add: wctomb_2 b0_def b1_def)
    moreover have "fss_mbtowc (Some (b0 # b1 # rest)) n = Some (2, Some w)"
      using assms(2) d \<open>r = 2\<close> by (subst mbtowc_2) (simp_all add: b Let_def)
    ultimately show ?thesis by simp
  next
    case 3
    define b0 :: u8 where "b0 = word_of_int (224 + ?u div 4096)"
    define b1 :: u8 where "b1 = word_of_int (128 + (?u div 64) mod 64)"
    define b2 :: u8 where "b2 = word_of_int (128 + ?u mod 64)"
    have "?u div 4096 = ?u div 64 div 64" by (simp add: zdiv_zmult2_eq [symmetric])
    then have v: "4096 * (?u div 4096) + 64 * (?u div 64 mod 64) + ?u mod 64 = ?u"
      using mult_div_mod_eq [of 64 "?u div 64"] mult_div_mod_eq [of 64 ?u] by linarith
    have d: "?u div 4096 < 16" "0 \<le> ?u div 4096" using 3 u by linarith+
    have b: "uint b0 = 224 + ?u div 4096" "uint b1 = 128 + (?u div 64) mod 64"
      "uint b2 = 128 + ?u mod 64"
      unfolding b0_def b1_def b2_def using d by (intro uint_word_of_int_u8; simp)+
    have "bs = [b0, b1, b2]" "r = 3"
      using 3 assms(1) by (simp_all add: wctomb_3 b0_def b1_def b2_def)
    moreover have "fss_mbtowc (Some (b0 # b1 # b2 # rest)) n = Some (3, Some w)"
      using assms(2) d 3 \<open>r = 3\<close> by (subst mbtowc_3) (simp_all add: b v Let_def)
    ultimately show ?thesis by simp
  qed
qed

text \<open>What a successful step of the decoder's loop says about the row and the bytes.\<close>

lemma scan_inv:
  assumes "fss_scan (t # ts) s n c0 l nc = Some (r, Some w)"
  shows "c0 AND cmask t = cval t \<and> lval t \<le> l AND lmask t \<and> r = nc + 1 \<and>
           w = word_of_int (l AND lmask t) \<or>
         c0 AND cmask t \<noteq> cval t \<and> nc + 1 < n \<and>
           (\<exists>b1 s'. tl s = b1 # s' \<and> 128 \<le> uint b1 \<and> uint b1 < 192 \<and>
              fss_scan ts (b1 # s') n c0 (64 * l + (uint b1 - 128)) (nc + 1) = Some (r, Some w))"
proof (cases "c0 AND cmask t = cval t")
  case True
  with assms show ?thesis by (auto simp: fss_scan.simps split: if_splits)
next
  case False
  with assms obtain b1 s' where s: "tl s = b1 # s'"
    by (auto simp: fss_scan.simps split: if_splits list.splits)
  with assms False have c: "((uint b1 XOR 0x80) AND 0xFF) AND 0xC0 = 0"
    by (auto simp: fss_scan.simps Let_def split: if_splits)
  then have b: "128 \<le> uint b1" "uint b1 < 192" by (simp_all only: cont_test)
  with assms False s c cont_value [OF b(1)] show ?thesis
    by (auto simp: fss_scan.simps Let_def push6 split: if_splits)
qed

lemma scan_count: "fss_scan ts s n c0 l nc = Some (r, Some w) \<Longrightarrow> nc < r"
proof (induction ts arbitrary: s l nc)
  case (Cons t ts)
  from scan_inv [OF Cons.prems] Cons.IH show ?case by fastforce
qed (simp add: fss_scan.simps)

lemma scan_row: "fss_scan ts s n c0 l nc = Some (r, Some w) \<Longrightarrow> \<exists>t \<in> set ts. cmask t \<noteq> 0 \<and> c0 AND cmask t = cval t"
proof (induction ts arbitrary: s l nc)
  case (Cons t ts)
  have "cmask t \<noteq> 0" using Cons.prems by (auto simp: fss_scan.simps)
  with scan_inv [OF Cons.prems] Cons.IH show ?case by fastforce
qed (simp add: fss_scan.simps)

lemma scan_long:
  assumes "fss_scan (drop 3 tab) s n c l nc = Some (r, Some w)" "0 \<le> c"
  shows "240 \<le> c"
proof -
  obtain t where t: "t \<in> set (drop 3 tab)" "c AND cmask t = cval t" "cmask t \<noteq> 0" using scan_row [OF assms(1)] by blast
  have "240 \<le> cval t" using t(1,3) by (auto simp: tab_def)
  moreover have "c AND cmask t \<le> c" by (rule AND_upper1 [OF assms(2)])
  ultimately show ?thesis using t(2) by simp
qed

lemma row_tests:
  fixes c :: int
  assumes "0 \<le> c" "c < 256"
  shows "(c AND 0x80 = 0) = (c < 128)" "(c AND 0xE0 = 0xC0) = (192 \<le> c \<and> c < 224)"
    "(c AND 0xF0 = 0xE0) = (224 \<le> c \<and> c < 240)"
    "(c AND 0xF8 = 0xF0) = (240 \<le> c \<and> c < 248)"
  using assms by (simp_all only: high_masks) presburger+

lemma mbtowc_inv:
  assumes "fss_mbtowc (Some s) n = Some (r, Some w)" and "r \<le> 3 \<or> uint (hd s) < 240"
  shows "\<exists>b s'. s = b # s' \<and>
     (uint b < 128 \<and> r = 1 \<and> w = word_of_int (uint b) \<or>
      192 \<le> uint b \<and> uint b < 224 \<and> r = 2 \<and> 2 \<le> n \<and>
        (\<exists>b1 s''. s' = b1 # s'' \<and> 128 \<le> uint b1 \<and> uint b1 < 192) \<or>
      224 \<le> uint b \<and> uint b < 240 \<and> r = 3 \<and> 3 \<le> n \<and>
        (\<exists>b1 b2 s''. s' = b1 # b2 # s'' \<and> 128 \<le> uint b1 \<and> uint b1 < 192 \<and>
                    128 \<le> uint b2 \<and> uint b2 < 192))"
proof -
  obtain b s' where s: "s = b # s'"
    using assms by (cases s) (auto simp: fss_mbtowc_def split: if_splits)
  let ?c = "uint b"
  have c: "0 \<le> ?c" "?c < 256" by simp_all
  have "?c AND 0xFF = ?c" by (simp add: low_masks)
  then have "fss_scan tab s n ?c ?c 0 = Some (r, Some w)"
    using assms(1) s by (auto simp: fss_mbtowc_def split: if_splits)
  note 1 = scan_inv [OF this [unfolded tab_def]]
  show ?thesis
  proof (cases "?c < 128")
    case True
    with 1 c s show ?thesis by (auto simp: row_tests low_masks)
  next
    case F1: False
    with 1 c s obtain b1 s1 where s1: "s' = b1 # s1" "128 \<le> uint b1" "uint b1 < 192" "1 < n"
      and r1: "fss_scan (tl tab) (b1 # s1) n ?c (64 * ?c + (uint b1 - 128)) 1 = Some (r, Some w)"
      by (auto simp: row_tests tab_def)
    note 2 = scan_inv [OF r1 [unfolded tab_def list.sel]]
    show ?thesis
    proof (cases "192 \<le> ?c \<and> ?c < 224")
      case True
      with 2 c s s1 show ?thesis by (auto simp: row_tests)
    next
      case F2: False
      with 2 c obtain b2 s2 where s2: "s1 = b2 # s2" "128 \<le> uint b2" "uint b2 < 192" "2 < n"
        and r2: "fss_scan (drop 2 tab) (b2 # s2) n ?c
                   (64 * (64 * ?c + (uint b1 - 128)) + (uint b2 - 128)) 2 = Some (r, Some w)"
        by (auto simp: row_tests tab_def)
      have "drop 2 tab = \<lparr>cmask = 0xF0, cval = 0xE0, shift = 2 * 6, lmask = 0xFFFF, lval = 0x800\<rparr>
              # drop 3 tab"
        by (simp add: tab_def)
      note 3 = scan_inv [OF r2 [unfolded this]]
      then have "224 \<le> ?c \<and> ?c < 240 \<and> r = 3"
        using c assms(2) s by (auto simp: row_tests dest: scan_count scan_long)
      with s s1 s2 show ?thesis by auto
    qed
  qed
qed

lemma word_of_int_u8_uint: "word_of_int (uint b) = (b :: u8)"
  by simp

lemma uint_word_of_int_u16: "0 \<le> i \<Longrightarrow> i < 65536 \<Longrightarrow> uint (word_of_int i :: u16) = i"
  by (simp add: unsigned_of_int take_bit_eq_mod)

lemma div_mod_64: "0 \<le> c \<Longrightarrow> c < 64 \<Longrightarrow> v = 64 * q + c \<Longrightarrow> v div 64 = q \<and> v mod 64 = c"
  for c q v :: int
  by auto

lemma wctomb_of_1: "uint b < 128 \<Longrightarrow> fss_wctomb (word_of_int (uint b)) = (1, [b])" for b :: u8
  using uint_word_of_int_u16 [of "uint b"] wctomb_1 [of "word_of_int (uint b)"] by simp

lemma wctomb_of_2:
  fixes b b1 :: u8
  assumes "192 \<le> uint b" "uint b < 224" "128 \<le> uint b1" "uint b1 < 192"
    and "v = 64 * (uint b - 192) + (uint b1 - 128)" "128 \<le> v"
  shows "fss_wctomb (word_of_int v) = (2, [b, b1])"
proof -
  have u: "uint (word_of_int v :: u16) = v"
    by (rule uint_word_of_int_u16) (use assms in auto)
  have "v div 64 = uint b - 192" "v mod 64 = uint b1 - 128"
    using div_mod_64 [of "uint b1 - 128" v "uint b - 192"] assms by auto
  moreover have "v < 2048" using assms by auto
  ultimately show ?thesis
    using wctomb_2 [of "word_of_int v"] assms(6) by (simp add: u)
qed

lemma wctomb_of_3:
  fixes b b1 b2 :: u8
  assumes "224 \<le> uint b" "uint b < 240" "128 \<le> uint b1" "uint b1 < 192"
    and "128 \<le> uint b2" "uint b2 < 192"
    and "v = 4096 * (uint b - 224) + 64 * (uint b1 - 128) + (uint b2 - 128)" "2048 \<le> v"
  shows "fss_wctomb (word_of_int v) = (3, [b, b1, b2])"
proof -
  have "uint b \<le> 239" "uint b1 \<le> 191" "uint b2 \<le> 191" using assms by linarith+
  then have "v \<le> 65535" using assms(7) by simp
  then have u: "uint (word_of_int v :: u16) = v"
    using assms(8) by (intro uint_word_of_int_u16) linarith+
  have v: "v = 64 * (64 * (uint b - 224) + (uint b1 - 128)) + (uint b2 - 128)"
    using assms(7) by simp
  have d: "v div 64 = 64 * (uint b - 224) + (uint b1 - 128)" "v mod 64 = uint b2 - 128"
    using div_mod_64 [of "uint b2 - 128", OF _ _ v] assms by auto
  have "v div 4096 = v div 64 div 64" by (simp add: zdiv_zmult2_eq [symmetric])
  moreover have "(64 * (uint b - 224) + (uint b1 - 128)) div 64 = uint b - 224 \<and>
    (64 * (uint b - 224) + (uint b1 - 128)) mod 64 = uint b1 - 128"
    by (rule div_mod_64) (use assms in auto)
  ultimately have "v div 4096 = uint b - 224" "(v div 64) mod 64 = uint b1 - 128"
    by (simp_all only: d)
  with d u assms(8) show ?thesis
    using wctomb_3 [of "word_of_int v"] by simp
qed

section \<open>The converters keep the contract\<close>

lemma fss_to_unicode_pass:
  assumes "cv_ok 1 2 st" "fss_to_unicode_guard st"
  shows "cv_pass_ok 1 2 st (fss_to_unicode_body st)"
proof -
  have n: "0 < int (cvs_src_len st)" "int (cvs_src_len st) \<le> int (length (cvs_src st))"
    using assms by (auto simp: cv_ok_def fss_to_unicode_guard_def)
  from fss_mbtowc_safe [OF n] obtain r w
    where m: "fss_mbtowc (Some (cvs_src st)) (int (cvs_src_len st)) = Some (r, w)"
      and rw: "r = -1 \<and> w = None \<or> 0 < r \<and> r \<le> int (cvs_src_len st) \<and> w \<noteq> None" by blast
  show ?thesis
  proof (cases "r = -1")
    case True
    with m show ?thesis
      by (simp add: fss_to_unicode_body_def cv_pass_ok_def cv_break_def cv_stopped_def cs_codes)
  next
    case False
    with rw obtain c where c: "w = Some c" "0 < r" "r \<le> int (cvs_src_len st)" by auto
    from assms have room: "0 < cvs_room st" "cvs_src_len st < 65536" "cvs_dest_len st < 65536"
      "2 \<le> cvs_dest_len st" "cvs_err st = 0"
      by (auto simp: cv_ok_def fss_to_unicode_guard_def)
    have "fss_to_unicode_body st = Some (Next (cv_adv 1 2 (nat r) [c] st))"
      using m False c room
      by (simp add: fss_to_unicode_body_def cv_simps cv_adv_def nat_le_iff)
    moreover have "cv_moved 1 2 st (cv_adv 1 2 (nat r) [c] st)"
      unfolding cv_moved_def using c room
      by (intro exI [of _ "nat r"] exI [of _ "[c]"]) (auto simp: nat_le_iff)
    ultimately show ?thesis by (simp add: cv_pass_ok_def)
  qed
qed

interpretation fss_dec: cs_decoder fss_to_unicode_guard fss_to_unicode_body 1 2
  "\<lambda>w. snd (fss_wctomb w)" "\<lambda>w. [w]" "\<lambda>_. True"
proof unfold_locales
  fix st :: "(u8, u16) cv_state"
  show "fss_to_unicode_guard st \<Longrightarrow> 0 < cvs_src_len st"
    by (simp add: fss_to_unicode_guard_def)
  show "cv_ok 1 2 st \<Longrightarrow> fss_to_unicode_guard st \<Longrightarrow> cv_pass_ok 1 2 st (fss_to_unicode_body st)"
    by (rule fss_to_unicode_pass)
  fix c :: u16 and rest
  assume s: "cvs_src st = snd (fss_wctomb c) @ rest"
    and f: "cv_fits 1 2 (length (snd (fss_wctomb c))) [c] st"
  obtain r bs where w: "fss_wctomb c = (r, bs)" by force
  note l = wctomb_length [OF w]
  then have "0 < cvs_src_len st" using w f by (cases bs) (auto simp: cv_fits_def)
  moreover have "fss_mbtowc (Some (bs @ rest)) (int (cvs_src_len st)) = Some (r, Some c)"
    using w f l by (intro mbtowc_wctomb) (auto simp: cv_fits_def)
  ultimately show "fss_to_unicode_guard st \<and> fss_to_unicode_body st =
      Some (Next (cv_adv 1 2 (length (snd (fss_wctomb c))) [c] st))"
    using s f l w
    by (auto simp: fss_to_unicode_guard_def fss_to_unicode_body_def cv_simps cv_fits_def cv_adv_def)
qed auto

lemma unicode_to_fss_next:
  assumes "fss_wctomb c = (r, bs)" "cvs_src st = c # rest" "cv_fits 2 1 1 bs st"
  shows "unicode_to_fss_body st = Some (Next (cv_adv 2 1 1 bs st))"
  using assms wctomb_length [OF assms(1)]
  by (simp add: unicode_to_fss_body_def cv_copy_Some cv_fits_def cv_took_def cv_peek_def cv_adv_def
      drop_Suc)

lemma unicode_to_fss_pass:
  assumes "cv_ok 2 1 st" "unicode_to_fss_guard st"
  shows "cv_pass_ok 2 1 st (unicode_to_fss_body st)"
proof -
  obtain c rest where s: "cvs_src st = c # rest"
    using assms by (cases "cvs_src st") (auto simp: cv_ok_def unicode_to_fss_guard_def)
  obtain r bs where w: "fss_wctomb c = (r, bs)" by force
  note l = wctomb_length [OF w]
  show ?thesis
  proof (cases "int (cvs_dest_len st) < r")
    case True
    with s w l show ?thesis
      by (simp add: unicode_to_fss_body_def cv_peek_def cv_break_def cv_pass_ok_def cv_stopped_def
          cs_codes)
  next
    case False
    then have f: "cv_fits 2 1 1 bs st"
      using assms l by (auto simp: cv_ok_def cv_fits_def unicode_to_fss_guard_def)
    then have "cv_moved 2 1 st (cv_adv 2 1 1 bs st)"
      unfolding cv_moved_def by (intro exI [of _ 1] exI [of _ bs]) (auto simp: cv_fits_def)
    with unicode_to_fss_next [OF w s f] show ?thesis by (simp add: cv_pass_ok_def)
  qed
qed

interpretation fss_enc: cs_decoder unicode_to_fss_guard unicode_to_fss_body 2 1
  "\<lambda>w. [w]" "\<lambda>w. snd (fss_wctomb w)" "\<lambda>_. True"
proof unfold_locales
  fix st :: "(u16, u8) cv_state"
  show "unicode_to_fss_guard st \<Longrightarrow> 0 < cvs_src_len st"
    by (simp add: unicode_to_fss_guard_def)
  show "cv_ok 2 1 st \<Longrightarrow> unicode_to_fss_guard st \<Longrightarrow> cv_pass_ok 2 1 st (unicode_to_fss_body st)"
    by (rule unicode_to_fss_pass)
  fix c :: u16 and rest
  assume s: "cvs_src st = [c] @ rest" and f: "cv_fits 2 1 (length [c]) (snd (fss_wctomb c)) st"
  obtain r bs where w: "fss_wctomb c = (r, bs)" by force
  note l = wctomb_length [OF w]
  then have "0 < cvs_dest_len st" using w f by (cases bs) (auto simp: cv_fits_def)
  then show "unicode_to_fss_guard st \<and> unicode_to_fss_body st =
      Some (Next (cv_adv 2 1 (length [c]) (snd (fss_wctomb c)) st))"
    using unicode_to_fss_next [OF w, of st rest] s f l w
    by (auto simp: unicode_to_fss_guard_def cv_fits_def)
qed auto

lemma fss_bytes_bounds:
  "length ws \<le> length (concat (map (\<lambda>w. snd (fss_wctomb w)) ws)) \<and>
   length (concat (map (\<lambda>w. snd (fss_wctomb w)) ws)) \<le> 3 * length ws"
proof (induction ws)
  case (Cons w ws)
  obtain r bs where w: "fss_wctomb w = (r, bs)" by force
  from wctomb_length [OF w] obtain b bs' where "bs = b # bs'" by (cases bs) auto
  with Cons w wctomb_length [OF w] show ?case by auto
qed auto

section \<open>Properties\<close>

text \<open>C27. Round trip: a UCS-2 string of at most 21845 characters, encoded by \<open>CS_UTFFSS_unicode_to_fss\<close> into a
  buffer as large as the estimate the call with a null destination returns, is reported without error,
  and decoding the bytes with \<open>CS_UTFFSS_fss_to_unicode\<close> into any buffer with room for the string gives back
  exactly the string. The decoder's own estimate is such a buffer as long as the bytes are fewer than 32768;
  from there on it is counted modulo \<open>2 ^ 16\<close>.\<close>

theorem fss_roundtrip:
  assumes "length ws \<le> 21845"
    and "CS_UTFFSS_unicode_to_fss None 0 ws (2 * length ws) = Some est"
    and "2 * length ws \<le> dest_len" and "dest_len < 65536" and "length ws \<le> room"
  shows "\<exists>bs. CS_UTFFSS_unicode_to_fss (Some (cv_ret est)) (cv_ret est) ws (2 * length ws) =
             Some \<lparr>cv_ret = length bs, cv_out = bs, cv_err = 0, cv_pos = Some (2 * length ws)\<rparr> \<and>
           CS_UTFFSS_fss_to_unicode (Some room) dest_len bs (length bs) =
             Some \<lparr>cv_ret = 2 * length ws, cv_out = ws, cv_err = 0, cv_pos = Some (length bs)\<rparr> \<and>
           (\<exists>est'. CS_UTFFSS_fss_to_unicode None 0 bs (length bs) = Some est' \<and>
             cv_ret est' = 2 * length bs mod 65536 \<and> (length bs < 32768 \<longrightarrow> 2 * length ws \<le> cv_ret est'))"
proof (intro exI conjI)
  let ?bs = "concat (map (\<lambda>w. snd (fss_wctomb w)) ws)"
  have est: "cv_ret est = 3 * length ws"
    using assms(1,2) by (auto simp: CS_UTFFSS_unicode_to_fss_def cv_estimate_def)
  note b = fss_bytes_bounds [of ws]
  have c: "concat (map (\<lambda>w. [w]) ws) = ws" by (induction ws) auto
  show "CS_UTFFSS_unicode_to_fss (Some (cv_ret est)) (cv_ret est) ws (2 * length ws) =
      Some \<lparr>cv_ret = length ?bs, cv_out = ?bs, cv_err = 0, cv_pos = Some (2 * length ws)\<rparr>"
    using fss_enc.decode_all [of ws "2 * length ws" "cv_ret est" "cv_ret est" cv_truncated]
      est b assms(1) c
    by (simp add: CS_UTFFSS_unicode_to_fss_def)
  show "CS_UTFFSS_fss_to_unicode (Some room) dest_len ?bs (length ?bs) =
      Some \<lparr>cv_ret = 2 * length ws, cv_out = ws, cv_err = 0, cv_pos = Some (length ?bs)\<rparr>"
    using fss_dec.decode_all [of ws "length ?bs" dest_len room cv_truncated] b assms c
    by (simp add: CS_UTFFSS_fss_to_unicode_def)
  show "CS_UTFFSS_fss_to_unicode None 0 ?bs (length ?bs) = Some (cv_estimate (2 * length ?bs))"
    by (simp add: CS_UTFFSS_fss_to_unicode_def mult.commute)
  show "cv_ret (cv_estimate (2 * length ?bs) :: u16 cv_result) = 2 * length ?bs mod 65536"
    by (simp add: cv_estimate_def ushort_def)
  show "length ?bs < 32768 \<longrightarrow> 2 * length ws \<le> cv_ret (cv_estimate (2 * length ?bs) :: u16 cv_result)"
    using b by (simp add: cv_estimate_def ushort_def)
qed

theorem fss_roundtrip_witness:
  "\<exists>bs. CS_UTFFSS_unicode_to_fss (Some 9) 9 [0x41, 0xE9, 0x20AC] 6 =
          Some \<lparr>cv_ret = length bs, cv_out = bs, cv_err = 0, cv_pos = Some 6\<rparr> \<and>
        CS_UTFFSS_fss_to_unicode (Some 3) 6 bs (length bs) =
          Some \<lparr>cv_ret = 6, cv_out = [0x41, 0xE9, 0x20AC], cv_err = 0, cv_pos = Some (length bs)\<rparr>"
proof -
  have "CS_UTFFSS_unicode_to_fss None 0 [0x41, 0xE9, 0x20AC] (2 * length [0x41, 0xE9, 0x20AC :: u16]) = Some (cv_estimate 9)"
    by (simp add: CS_UTFFSS_unicode_to_fss_def cv_estimate_def)
  from fss_roundtrip [OF _ this, of 6 3] show ?thesis by (auto simp: cv_estimate_def)
qed

text \<open>C28. Of the sequences of at most three bytes only the shortest form is accepted: when \<open>fss_mbtowc\<close> succeeds on
  one, its bytes are exactly what \<open>fss_wctomb\<close> emits for the decoded character. Any other sequence it succeeds on is
  longer, begins with a byte of at least 0xF0, and is not what \<open>fss_wctomb\<close> emits for the character it is read as.\<close>

theorem fss_shortest_form:
  assumes "fss_mbtowc (Some s) n = Some (r, Some w)"
  shows "if r \<le> 3 then fss_wctomb w = (r, take (nat r) s) else 0xF0 \<le> uint (hd s) \<and> fst (fss_wctomb w) < r"
proof (cases "r \<le> 3")
  case False
  have "0xF0 \<le> uint (hd s)"
  proof (rule ccontr)
    assume "\<not> 0xF0 \<le> uint (hd s)"
    then have "r \<le> 3 \<or> uint (hd s) < 240" by simp
    from mbtowc_inv [OF assms this] False show False by auto
  qed
  moreover have "fst (fss_wctomb w) \<le> 3" using wctomb_length [of w] by (cases "fss_wctomb w") auto
  ultimately show ?thesis using False by simp
next
  case True
  from mbtowc_inv [OF assms disjI1 [OF True]] obtain b s' where s: "s = b # s'" and
    "uint b < 128 \<and> r = 1 \<and> w = word_of_int (uint b) \<or>
      192 \<le> uint b \<and> uint b < 224 \<and> r = 2 \<and> 2 \<le> n \<and>
        (\<exists>b1 s''. s' = b1 # s'' \<and> 128 \<le> uint b1 \<and> uint b1 < 192) \<or>
      224 \<le> uint b \<and> uint b < 240 \<and> r = 3 \<and> 3 \<le> n \<and>
        (\<exists>b1 b2 s''. s' = b1 # b2 # s'' \<and> 128 \<le> uint b1 \<and> uint b1 < 192 \<and>
                    128 \<le> uint b2 \<and> uint b2 < 192)" by blast
  then have "fss_wctomb w = (r, take (nat r) s)"
  proof (elim disjE conjE exE)
    assume "uint b < 128" "r = 1" "w = word_of_int (uint b)"
    with s show ?thesis using wctomb_of_1 [of b] by simp
  next
    fix b1 s'' assume b: "192 \<le> uint b" "uint b < 224" "128 \<le> uint b1" "uint b1 < 192" "2 \<le> n"
      and r: "r = 2" "s' = b1 # s''"
    have "128 \<le> 64 * (uint b - 192) + (uint b1 - 128)"
      "w = word_of_int (64 * (uint b - 192) + (uint b1 - 128))"
      using assms s r mbtowc_2 [OF b, of s''] by (auto simp: Let_def split: if_splits)
    with s r wctomb_of_2 [OF b(1-4) refl] show ?thesis by (simp add: numeral_2_eq_2)
  next
    fix b1 b2 s'' assume b: "224 \<le> uint b" "uint b < 240" "128 \<le> uint b1" "uint b1 < 192"
      "128 \<le> uint b2" "uint b2 < 192" "3 \<le> n" and r: "r = 3" "s' = b1 # b2 # s''"
    have "2048 \<le> 4096 * (uint b - 224) + 64 * (uint b1 - 128) + (uint b2 - 128)"
      "w = word_of_int (4096 * (uint b - 224) + 64 * (uint b1 - 128) + (uint b2 - 128))"
      using assms s r mbtowc_3 [OF b, of s''] by (auto simp: Let_def split: if_splits)
    with s r wctomb_of_3 [OF b(1-6) refl] show ?thesis by (simp add: numeral_3_eq_3)
  qed
  then show ?thesis using True by simp
qed

theorem fss_shortest_form_witness: "fss_wctomb 0x20AC = (3, [0xE2, 0x82, 0xAC])"
proof -
  have "fss_mbtowc (Some [0xE2, 0x82, 0xAC, 0x41]) 4 = Some (3, Some 0x20AC)"
    by code_simp
  from fss_shortest_form [OF this] show ?thesis by simp
qed

text \<open>The encoding protects ASCII and marks character boundaries: a character below 0x80 is
  the single byte of that value, any other is a lead byte of value at least 0xC0 followed by one
  or two bytes in 0x80 .. 0xBF, so no byte of a multi-byte sequence is ASCII and no continuation
  byte can be taken for the start of a character.\<close>

lemma fss_ascii_safe:
  "if uint w < 0x80 then fss_wctomb w = (1, [ucast w])
   else \<exists>b cs. fss_wctomb w = (1 + int (length cs), b # cs) \<and> length cs \<in> {1, 2} \<and>
          0xC0 \<le> uint b \<and> (\<forall>c \<in> set cs. 0x80 \<le> uint c \<and> uint c < 0xC0)"
proof -
  obtain r bs where w: "fss_wctomb w = (r, bs)" by force
  from wctomb_bytes [OF w] w show ?thesis
    by (elim disjE conjE exE) (auto intro!: exI simp: pos_imp_zdiv_nonneg_iff)
qed

lemma fss_ascii_safe_example:
  "fss_wctomb 0x41 = (1, [0x41]) \<and>
   (\<exists>b cs. fss_wctomb 0x20AC = (1 + int (length cs), b # cs) \<and> length cs \<in> {1, 2})"
  using fss_ascii_safe [of "0x41"] fss_ascii_safe [of "0x20AC"] by auto

text \<open>C29. Both string converters return, never touch memory outside the source bytes and the
  destination buffer they are given, report in \<open>err_position\<close> how far they got, and report no
  error exactly when the whole source was converted.\<close>

theorem fss_convert_safe:
  assumes "slen < 65536" and "dlen < 65536" and "slen \<le> length bytes" and "dlen \<le> 2 * room"
    and "slen' < 65536" and "dlen' < 65536" and "slen' \<le> 2 * length wides" and "dlen' \<le> room'"
  shows "cv_safe 2 slen dlen (CS_UTFFSS_fss_to_unicode (Some room) dlen bytes slen) \<and>
    cv_safe 1 slen' dlen' (CS_UTFFSS_unicode_to_fss (Some room') dlen' wides slen')"
proof
  have "cv_ok 1 2 (cv_start bytes slen dlen room :: (u8, u16) cv_state)"
    using assms by (auto simp: cv_ok_def cv_start_def)
  from fss_dec.report_safe [OF this disjI1 [OF refl]]
  show "cv_safe 2 slen dlen (CS_UTFFSS_fss_to_unicode (Some room) dlen bytes slen)"
    by (simp add: CS_UTFFSS_fss_to_unicode_def)
  have "cv_ok 2 1 (cv_start wides slen' dlen' room' :: (u16, u8) cv_state)"
    using assms by (auto simp: cv_ok_def cv_start_def)
  from fss_enc.report_safe [OF this disjI1 [OF refl]]
  show "cv_safe 1 slen' dlen' (CS_UTFFSS_unicode_to_fss (Some room') dlen' wides slen')"
    by (simp add: CS_UTFFSS_unicode_to_fss_def)
qed

theorem fss_convert_safe_witness:
  "cv_safe 2 3 4 (CS_UTFFSS_fss_to_unicode (Some 2) 4 [0xC3, 0xA9, 0x80] 3) \<and>
   cv_safe 1 4 3 (CS_UTFFSS_unicode_to_fss (Some 3) 3 [0x41, 0x20AC] 4)"
  using fss_convert_safe [of 3 4 "[0xC3, 0xA9, 0x80]" 2 4 3 "[0x41, 0x20AC]" 3] by simp

text \<open>A well-formed four-byte sequence, a character beyond the 16 bits of \<open>UCS2_CHAR\<close>, is
  not refused: \<open>fss_mbtowc\<close> reports four bytes consumed and stores the character modulo
  \<open>2 ^ 16\<close>. The sequence for U+10041, for instance, is read as the letter A.\<close>

lemma fss_supplementary_truncated:
  assumes "0xF0 \<le> uint b" "uint b < 0xF8" "0x80 \<le> uint b1" "uint b1 < 0xC0"
    and "0x80 \<le> uint b2" "uint b2 < 0xC0" "0x80 \<le> uint b3" "uint b3 < 0xC0" "4 \<le> n"
    and "v = 0x40000 * (uint b - 0xF0) + 0x1000 * (uint b1 - 0x80) + 0x40 * (uint b2 - 0x80) +
             (uint b3 - 0x80)"
    and "0x10000 \<le> v"
  shows "fss_mbtowc (Some (b # b1 # b2 # b3 # s)) n = Some (4, Some (word_of_int v))"
proof -
  have "64 * (64 * (64 * uint b + (uint b1 - 128)) + (uint b2 - 128)) + (uint b3 - 128) =
    v + 30 * 2097152"
    by (simp add: assms(10))
  moreover have "0 \<le> v" "v < 2097152" using assms by auto
  ultimately have v: "(64 * (64 * (64 * uint b + (uint b1 - 128)) + (uint b2 - 128)) +
      (uint b3 - 128)) mod 2097152 = v"
    by (simp only: mod_mult_self1) simp
  have c0: "uint b AND 0xFF = uint b" by (simp add: low_masks)
  have d: "uint b div 32 = 7" "uint b div 128 = 1" "uint b div 16 = 15" "uint b div 8 = 30"
    using assms(1,2) by presburger+
  show ?thesis
    using assms v
    by (simp add: fss_mbtowc_def tab_def c0 scan_cont scan_hit high_masks d low_masks(6) Let_def
        del: of_int_add of_int_diff)
qed

lemma fss_supplementary_truncated_example:
  "fss_mbtowc (Some [0xF0, 0x90, 0x81, 0x81]) 4 = Some (4, Some 0x41)"
  using fss_supplementary_truncated
    [of "0xF0" "0x90" "0x81" "0x81" 4 "0x10041" "[]"] by simp

end
