(* ===== verification/Cv_Narrow.thy ===== *)
theory Cv_Narrow
  imports Cv_Driver
begin

text \<open>
  \<open>intl/cv_narrow.c\<close>: the constructor of converter objects and the table-driven converters
  between one-byte character sets and Unicode, between two-byte character sets, and between
  one-byte character sets. Each converter is its loop guard, its loop body and the function
  with its length-estimate branch and its reporting tail.
\<close>

section \<open>Converter objects\<close>

definition CV_convert_init ::
  "int \<Rightarrow> int \<Rightarrow> convert_fn \<Rightarrow> table \<Rightarrow> table \<Rightarrow> csconvert" where
  "CV_convert_init to_cs from_cs cvt_fn datatable datatable2 =
     \<lparr>csconvert_version = 40, csconvert_name = ''DIRECT'', csconvert_from = from_cs,
      csconvert_to = to_cs, csconvert_convert = cvt_fn, csconvert_datatable = datatable,
      csconvert_misc = datatable2\<rparr>"

section \<open>The converters\<close>

text \<open>Unicode to a one-byte character set.\<close>

definition unicode_to_nc_guard :: "(u16, u8) cv_state \<Rightarrow> bool" where
  "unicode_to_nc_guard st \<longleftrightarrow> 1 < cvs_src_len st \<and> cvs_dest_len st \<noteq> 0"

definition unicode_to_nc_body ::
  "csconvert \<Rightarrow> (u16, u8) cv_state \<Rightarrow> (u16, u8) cv_state pass option" where
  "unicode_to_nc_body obj st =
     do { uni \<leftarrow> cv_peek st;
          ch \<leftarrow> two_level8 obj uni;
          if unat ch = CS_CANT_MAP \<and> unat uni \<noteq> CS_CANT_MAP
          then cv_break CS_CONVERT_ERROR st
          else do { st1 \<leftarrow> cv_write ch st;
                    (_, st2) \<leftarrow> cv_read st1;
                    Some (Next (cv_gave 1 (cv_took 2 st2))) } }"

definition CV_unicode_to_nc ::
  "csconvert \<Rightarrow> nat option \<Rightarrow> nat \<Rightarrow> u16 list \<Rightarrow> nat \<Rightarrow> u8 cv_result option" where
  "CV_unicode_to_nc obj dest dest_len src src_len =
     (case dest of
        None \<Rightarrow> Some (cv_estimate (ushort (src_len + 1) div 2))
      | Some room \<Rightarrow>
          do { st \<leftarrow> while_loop unicode_to_nc_guard (unicode_to_nc_body obj)
                      (cv_start src src_len dest_len room);
               Some (cv_finish 1 src_len (cv_truncated_odd st)) })"

text \<open>Between two-byte character sets.\<close>

definition wc_guard :: "('a, 'b) cv_state \<Rightarrow> bool" where
  "wc_guard st \<longleftrightarrow> 1 < cvs_src_len st \<and> 1 < cvs_dest_len st"

definition wc_to_wc_body ::
  "csconvert \<Rightarrow> (u16, u16) cv_state \<Rightarrow> (u16, u16) cv_state pass option" where
  "wc_to_wc_body obj st =
     do { uni \<leftarrow> cv_peek st;
          ch \<leftarrow> two_level obj uni;
          if unat ch = CS_CANT_MAP \<and> unat uni \<noteq> CS_CANT_MAP
          then cv_break CS_CONVERT_ERROR st
          else do { st1 \<leftarrow> cv_write ch st;
                    (_, st2) \<leftarrow> cv_read st1;
                    Some (Next (cv_gave 2 (cv_took 2 st2))) } }"

definition CV_wc_to_wc ::
  "csconvert \<Rightarrow> nat option \<Rightarrow> nat \<Rightarrow> u16 list \<Rightarrow> nat \<Rightarrow> u16 cv_result option" where
  "CV_wc_to_wc obj dest dest_len src src_len =
     (case dest of
        None \<Rightarrow> Some (cv_estimate src_len)
      | Some room \<Rightarrow>
          do { st \<leftarrow> while_loop wc_guard (wc_to_wc_body obj) (cv_start src src_len dest_len room);
               Some (cv_finish 2 src_len (cv_truncated_odd st)) })"

text \<open>A one-byte character set to Unicode: every byte has an entry, so there is no error test.\<close>

definition nc_to_unicode_guard :: "(u8, u16) cv_state \<Rightarrow> bool" where
  "nc_to_unicode_guard st \<longleftrightarrow> cvs_src_len st \<noteq> 0 \<and> 1 < cvs_dest_len st"

definition nc_to_unicode_body ::
  "csconvert \<Rightarrow> (u8, u16) cv_state \<Rightarrow> (u8, u16) cv_state pass option" where
  "nc_to_unicode_body obj st =
     do { b \<leftarrow> cv_peek st;
          ch \<leftarrow> short_at (csconvert_datatable obj) (unat b);
          st1 \<leftarrow> cv_write ch st;
          (_, st2) \<leftarrow> cv_read st1;
          Some (Next (cv_gave 2 (cv_took 1 st2))) }"

definition CV_nc_to_unicode ::
  "csconvert \<Rightarrow> nat option \<Rightarrow> nat \<Rightarrow> u8 list \<Rightarrow> nat \<Rightarrow> u16 cv_result option" where
  "CV_nc_to_unicode obj dest dest_len src src_len =
     (case dest of
        None \<Rightarrow> Some (cv_estimate (src_len * 2))
      | Some room \<Rightarrow>
          do { st \<leftarrow> while_loop nc_to_unicode_guard (nc_to_unicode_body obj)
                      (cv_start src src_len dest_len room);
               Some (cv_finish 2 src_len (cv_truncated st)) })"

text \<open>Unicode to Unicode: two bytes at a time.\<close>

definition wc_copy_body :: "(u8, u8) cv_state \<Rightarrow> (u8, u8) cv_state pass option" where
  "wc_copy_body st =
     do { (c1, st1) \<leftarrow> cv_read st;
          st2 \<leftarrow> cv_write c1 st1;
          (c2, st3) \<leftarrow> cv_read st2;
          st4 \<leftarrow> cv_write c2 st3;
          Some (Next (cv_gave 2 (cv_took 2 st4))) }"

definition CV_wc_copy ::
  "nat option \<Rightarrow> nat \<Rightarrow> u8 list \<Rightarrow> nat \<Rightarrow> u8 cv_result option" where
  "CV_wc_copy dest dest_len src src_len =
     (case dest of
        None \<Rightarrow> Some (cv_estimate src_len)
      | Some room \<Rightarrow>
          do { st \<leftarrow> while_loop wc_guard wc_copy_body (cv_start src src_len dest_len room);
               Some (cv_finish 1 src_len (cv_truncated_odd st)) })"

text \<open>Between one-byte character sets.\<close>

definition eight_bit_guard :: "(u8, u8) cv_state \<Rightarrow> bool" where
  "eight_bit_guard st \<longleftrightarrow> cvs_src_len st \<noteq> 0 \<and> cvs_dest_len st \<noteq> 0"

definition eight_bit_body ::
  "csconvert \<Rightarrow> (u8, u8) cv_state \<Rightarrow> (u8, u8) cv_state pass option" where
  "eight_bit_body obj st =
     do { b \<leftarrow> cv_peek st;
          ch \<leftarrow> byte_at (csconvert_datatable obj) (unat b);
          if unat ch = CS_CANT_MAP \<and> unat b \<noteq> CS_CANT_MAP
          then cv_break CS_CONVERT_ERROR st
          else do { st1 \<leftarrow> cv_write ch st;
                    (_, st2) \<leftarrow> cv_read st1;
                    Some (Next (cv_gave 1 (cv_took 1 st2))) } }"

definition eight_bit_convert ::
  "csconvert \<Rightarrow> nat option \<Rightarrow> nat \<Rightarrow> u8 list \<Rightarrow> nat \<Rightarrow> u8 cv_result option" where
  "eight_bit_convert obj dest dest_len src src_len =
     (case dest of
        None \<Rightarrow> Some (cv_estimate src_len)
      | Some room \<Rightarrow>
          do { st \<leftarrow> while_loop eight_bit_guard (eight_bit_body obj)
                      (cv_start src src_len dest_len room);
               Some (cv_finish 1 src_len (cv_truncated st)) })"

section \<open>One pass\<close>

text \<open>A pass that reads one unit and writes one unit, in the form every body above takes.\<close>

lemma cv_next_1:
  assumes "cvs_src st = c # rest" "cv_fits ssz dsz 1 [d] st"
  shows "do { st1 \<leftarrow> cv_write d st; (_, st2) \<leftarrow> cv_read st1;
              Some (Next (cv_gave dsz (cv_took ssz st2))) } =
         Some (Next (cv_adv ssz dsz 1 [d] st))"
  using assms by (simp add: cv_simps cv_fits_def cv_adv_def)

lemma cv_fits_1: "cv_ok ssz dsz st \<Longrightarrow> 0 < ssz \<Longrightarrow> 0 < dsz \<Longrightarrow> ssz \<le> cvs_src_len st \<Longrightarrow>
    dsz \<le> cvs_dest_len st \<Longrightarrow> cv_fits ssz dsz 1 [d] st"
  by (cases "cvs_room st") (auto simp: cv_ok_def cv_fits_def)

lemma cv_src_Cons: "cv_ok ssz dsz st \<Longrightarrow> ssz \<le> cvs_src_len st \<Longrightarrow>
    \<exists>c rest. cvs_src st = c # rest"
  by (cases "cvs_src st") (auto simp: cv_ok_def)

lemma cv_pass_ok_adv:
  "cv_fits ssz dsz k ds st \<Longrightarrow> 0 < k \<Longrightarrow> cv_pass_ok ssz dsz st (Some (Next (cv_adv ssz dsz k ds st)))"
  by (auto simp: cv_pass_ok_def cv_moved_def cv_fits_def)

lemma cv_pass_ok_break: "0 < e \<Longrightarrow> e \<le> 3 \<Longrightarrow> cv_pass_ok ssz dsz st (cv_break e st)"
  by (simp add: cv_pass_ok_def cv_break_def cv_stopped_def)

text \<open>The two lookups through tables that are there.\<close>

definition via8 :: "(nat \<Rightarrow> u8) \<Rightarrow> (nat \<Rightarrow> u16) \<Rightarrow> u16 \<Rightarrow> u8" where
  "via8 d m w = d (unat (m (unat w div 256)) + unat w mod 256)"

definition via16 :: "(nat \<Rightarrow> u16) \<Rightarrow> (nat \<Rightarrow> u16) \<Rightarrow> u16 \<Rightarrow> u16" where
  "via16 d m w = d (unat (m (unat w div 256)) + unat w mod 256)"

lemma two_level8_init [simp]:
  "two_level8 (CV_convert_init t f fn (Byte_Table d) (Short_Table m)) w = Some (via8 d m w)"
  by (simp add: two_level8_def CV_convert_init_def via8_def)

lemma two_level_init [simp]:
  "two_level (CV_convert_init t f fn (Short_Table d) (Short_Table m)) w = Some (via16 d m w)"
  by (simp add: two_level_def CV_convert_init_def via16_def)

lemma datatable_init [simp]: "csconvert_datatable (CV_convert_init t f fn d m) = d"
  by (simp add: CV_convert_init_def)

section \<open>Every converter keeps the contract\<close>

text \<open>The table-driven loops have one shape: look the unit up, refuse what has no image.\<close>

definition table_body ::
  "nat \<Rightarrow> nat \<Rightarrow> ('s \<Rightarrow> 'd) \<Rightarrow> ('s \<Rightarrow> bool) \<Rightarrow> ('s, 'd) cv_state \<Rightarrow> ('s, 'd) cv_state pass option" where
  "table_body ssz dsz f ok st =
     do { c \<leftarrow> cv_peek st;
          if ok c
          then do { st1 \<leftarrow> cv_write (f c) st;
                    (_, st2) \<leftarrow> cv_read st1;
                    Some (Next (cv_gave dsz (cv_took ssz st2))) }
          else cv_break CS_CONVERT_ERROR st }"

locale table_converter =
  fixes guard :: "('s, 'd) cv_state \<Rightarrow> bool" and ssz dsz :: nat
    and f :: "'s \<Rightarrow> 'd" and ok :: "'s \<Rightarrow> bool"
  assumes unit_sizes: "0 < ssz" "0 < dsz"
    and guard_def: "guard st = (ssz \<le> cvs_src_len st \<and> dsz \<le> cvs_dest_len st)"
begin

lemma table_next:
  "cvs_src st = c # rest \<Longrightarrow> ok c \<Longrightarrow> cv_fits ssz dsz 1 [f c] st \<Longrightarrow>
   table_body ssz dsz f ok st = Some (Next (cv_adv ssz dsz 1 [f c] st))"
  using cv_next_1 [of st c rest ssz dsz "f c"]
  by (simp add: table_body_def cv_peek_def)

lemma table_pass:
  assumes "cv_ok ssz dsz st" "guard st"
  shows "cv_pass_ok ssz dsz st (table_body ssz dsz f ok st)"
proof -
  obtain c rest where s: "cvs_src st = c # rest"
    using cv_src_Cons [OF assms(1)] assms(2) by (auto simp: guard_def)
  show ?thesis
  proof (cases "ok c")
    case True
    have "cv_fits ssz dsz 1 [f c] st"
      using cv_fits_1 [OF assms(1) unit_sizes] assms(2) by (auto simp: guard_def)
    with table_next [OF s True] show ?thesis by (simp add: cv_pass_ok_adv)
  next
    case False
    with s show ?thesis by (simp add: table_body_def cv_peek_def cv_pass_ok_break cs_codes)
  qed
qed

end

sublocale table_converter \<subseteq> cs_decoder guard "table_body ssz dsz f ok" ssz dsz
  "\<lambda>c. [c]" "\<lambda>c. [f c]" ok
proof unfold_locales
  show "guard st \<Longrightarrow> 0 < cvs_src_len st" for st
    using unit_sizes by (auto simp: guard_def)
  show "cv_ok ssz dsz st \<Longrightarrow> guard st \<Longrightarrow> cv_pass_ok ssz dsz st (table_body ssz dsz f ok st)" for st
    by (rule table_pass)
  show "guard st \<and> table_body ssz dsz f ok st =
      Some (Next (cv_adv ssz dsz (length [c]) [f c] st))"
    if "ok c" "cvs_src st = [c] @ rest" "cv_fits ssz dsz (length [c]) [f c] st" for c st rest
    using table_next [of st c rest] that by (auto simp: guard_def cv_fits_def)
qed (use unit_sizes in auto)

lemma concat_singletons [simp]: "concat (map (\<lambda>x. [f x]) xs) = map f xs"
  by (induction xs) auto

context table_converter
begin

lemma translate_all:
  assumes "\<forall>c \<in> set cs. ok c" and "slen = ssz * length cs" and "slen < 65536"
    and "dsz * length cs \<le> dlen" and "dlen < 65536" and "length cs \<le> room"
    and "fin = cv_truncated \<or> fin = cv_truncated_odd"
  shows "do { st \<leftarrow> while_loop guard (table_body ssz dsz f ok) (cv_start cs slen dlen room);
              Some (cv_finish dsz slen (fin st)) } =
         Some \<lparr>cv_ret = dsz * length cs, cv_out = map f cs, cv_err = 0, cv_pos = Some slen\<rparr>"
  using decode_all [OF assms(1) _ assms(3) _ assms(5) _ assms(7), where room = room]
    assms(2,4,6) concat_singletons [of "\<lambda>c. c" cs] by simp

end

text \<open>The bodies of the code, on objects whose tables are there, have that shape.\<close>

lemma unicode_to_nc_table:
  "unicode_to_nc_body (CV_convert_init t f fn (Byte_Table d) (Short_Table m)) =
     table_body 2 1 (via8 d m) (\<lambda>w. via8 d m w \<noteq> 0 \<or> w = 0)"
  by (auto simp: fun_eq_iff unicode_to_nc_body_def table_body_def cs_codes unat_eq_0
      split: bind_splits)

lemma wc_to_wc_table:
  "wc_to_wc_body (CV_convert_init t f fn (Short_Table d) (Short_Table m)) =
     table_body 2 2 (via16 d m) (\<lambda>w. via16 d m w \<noteq> 0 \<or> w = 0)"
  by (auto simp: fun_eq_iff wc_to_wc_body_def table_body_def cs_codes unat_eq_0
      split: bind_splits)

lemma nc_to_unicode_table:
  "nc_to_unicode_body (CV_convert_init t f fn (Short_Table d) m) =
     table_body 1 2 (\<lambda>b. d (unat b)) (\<lambda>_. True)"
  by (auto simp: fun_eq_iff nc_to_unicode_body_def table_body_def split: bind_splits)

lemma eight_bit_table:
  "eight_bit_body (CV_convert_init t f fn (Byte_Table d) m) =
     table_body 1 1 (\<lambda>b. d (unat b)) (\<lambda>b. d (unat b) \<noteq> 0 \<or> b = 0)"
  by (auto simp: fun_eq_iff eight_bit_body_def table_body_def cs_codes unat_eq_0
      split: bind_splits)

interpretation u2nc: table_converter unicode_to_nc_guard 2 1 "via8 d m"
  "\<lambda>w. via8 d m w \<noteq> 0 \<or> w = 0"
  for d m
  by unfold_locales (auto simp: unicode_to_nc_guard_def)

interpretation wc2wc: table_converter wc_guard 2 2 "via16 d m" "\<lambda>w. via16 d m w \<noteq> 0 \<or> w = 0"
  for d m
  by unfold_locales (auto simp: wc_guard_def)

interpretation nc2u: table_converter nc_to_unicode_guard 1 2 "\<lambda>b. d (unat b)" "\<lambda>_. True"
  for d
  by unfold_locales (auto simp: nc_to_unicode_guard_def)

interpretation eight: table_converter eight_bit_guard 1 1 "\<lambda>b. d (unat b)"
  "\<lambda>b. d (unat b) \<noteq> 0 \<or> b = 0"
  for d
  by unfold_locales (auto simp: eight_bit_guard_def)

text \<open>\<open>CV_wc_copy\<close> moves pairs of bytes.\<close>

lemma wc_copy_next:
  assumes "cvs_src st = c1 # c2 # rest" "cv_fits 1 1 2 [c1, c2] st"
  shows "wc_copy_body st = Some (Next (cv_adv 1 1 2 [c1, c2] st))"
  using assms by (simp add: wc_copy_body_def cv_simps cv_fits_def cv_adv_def numeral_2_eq_2)

lemma wc_copy_pass:
  assumes "cv_ok 1 1 st" "wc_guard st"
  shows "cv_pass_ok 1 1 st (wc_copy_body st)"
proof -
  from assms have "2 \<le> length (cvs_src st)" by (auto simp: cv_ok_def wc_guard_def)
  then obtain c1 c2 rest where s: "cvs_src st = c1 # c2 # rest"
    by (auto simp: Suc_le_length_iff numeral_2_eq_2)
  have "cv_fits 1 1 2 [c1, c2] st"
    using assms by (auto simp: cv_ok_def wc_guard_def cv_fits_def)
  with wc_copy_next [OF s] show ?thesis by (simp add: cv_pass_ok_adv)
qed

interpretation wccopy: cs_decoder wc_guard wc_copy_body 1 1
  "\<lambda>(a, b). [a, b]" "\<lambda>(a, b). [a, b]" "\<lambda>_. True"
proof unfold_locales
  show "wc_guard st \<Longrightarrow> 0 < cvs_src_len st" for st :: "(u8, u8) cv_state"
    by (simp add: wc_guard_def)
  show "cv_ok 1 1 st \<Longrightarrow> wc_guard st \<Longrightarrow> cv_pass_ok 1 1 st (wc_copy_body st)" for st
    by (rule wc_copy_pass)
  show "wc_guard st \<and> wc_copy_body st =
      Some (Next (cv_adv 1 1 (length (case c of (a, b) \<Rightarrow> [a, b])) (case c of (a, b) \<Rightarrow> [a, b]) st))"
    if "cvs_src st = (case c of (a, b) \<Rightarrow> [a, b]) @ rest"
      "cv_fits 1 1 (length (case c of (a, b) \<Rightarrow> [a, b])) (case c of (a, b) \<Rightarrow> [a, b]) st"
    for c :: "u8 \<times> u8" and st rest
    using that wc_copy_next [of st] by (cases c) (auto simp: wc_guard_def cv_fits_def numeral_2_eq_2)
qed auto

lemmas narrow_tables = unicode_to_nc_table wc_to_wc_table nc_to_unicode_table eight_bit_table

section \<open>Properties\<close>

text \<open>A conversion from a one-byte character set to Unicode and back with tables that are
  inverse on the string's bytes returns the string, with no error reported on either way; the
  buffer sizes are the two length estimates of the code.\<close>

lemma narrow_unicode_roundtrip:
  fixes cs ucs2 :: int and to_u from_m :: "nat \<Rightarrow> u16" and from_u :: "nat \<Rightarrow> u8"
  assumes "2 * length s < 65536"
    and inv: "\<forall>b \<in> set s. via8 from_u from_m (to_u (unat b)) = b \<and> (b = 0 \<longrightarrow> to_u (unat b) = 0)"
  defines "to_obj \<equiv> CV_convert_init ucs2 cs Fn_CV_nc_to_unicode (Short_Table to_u) No_Table"
    and "from_obj \<equiv> CV_convert_init cs ucs2 Fn_CV_unicode_to_nc (Byte_Table from_u)
                      (Short_Table from_m)"
  shows "\<exists>wide. CV_nc_to_unicode to_obj None 0 s (length s) = Some (cv_estimate (2 * length s)) \<and>
      CV_nc_to_unicode to_obj (Some (length s)) (2 * length s) s (length s) =
        Some \<lparr>cv_ret = 2 * length s, cv_out = wide, cv_err = 0, cv_pos = Some (length s)\<rparr> \<and>
      CV_unicode_to_nc from_obj (Some (length s)) (length s) wide (2 * length s) =
        Some \<lparr>cv_ret = length s, cv_out = s, cv_err = 0, cv_pos = Some (2 * length s)\<rparr>"
proof (intro exI conjI)
  let ?w = "map (\<lambda>b. to_u (unat b)) s"
  have ok: "\<forall>w \<in> set ?w. via8 from_u from_m w \<noteq> 0 \<or> w = 0" using inv by auto
  have ret: "map (via8 from_u from_m) ?w = s" using inv by (simp add: map_idI)
  show "CV_nc_to_unicode to_obj None 0 s (length s) = Some (cv_estimate (2 * length s))"
    by (simp add: CV_nc_to_unicode_def mult.commute)
  show "CV_nc_to_unicode to_obj (Some (length s)) (2 * length s) s (length s) =
      Some \<lparr>cv_ret = 2 * length s, cv_out = ?w, cv_err = 0, cv_pos = Some (length s)\<rparr>"
    using assms(1)
    by (simp only: CV_nc_to_unicode_def to_obj_def narrow_tables option.case)
      (subst nc2u.translate_all, simp_all)
  show "CV_unicode_to_nc from_obj (Some (length s)) (length s) ?w (2 * length s) =
      Some \<lparr>cv_ret = length s, cv_out = s, cv_err = 0, cv_pos = Some (2 * length s)\<rparr>"
    using assms(1) ok ret
    by (simp only: CV_unicode_to_nc_def from_obj_def narrow_tables option.case)
      (subst u2nc.translate_all, simp_all)
qed

lemma narrow_unicode_roundtrip_example:
  "\<exists>wide. CV_unicode_to_nc
      (CV_convert_init 21 0 Fn_CV_unicode_to_nc (Byte_Table (\<lambda>i. word_of_nat i)) (Short_Table (\<lambda>_. 0)))
      (Some 2) 2 wide 4 =
    Some \<lparr>cv_ret = 2, cv_out = [0x41, 0xE9], cv_err = 0, cv_pos = Some 4\<rparr>"
  using narrow_unicode_roundtrip [of "[0x41, 0xE9]" "\<lambda>i. word_of_nat i" "\<lambda>_. 0"
      "\<lambda>i. word_of_nat i" 0 21]
  by (auto simp: via8_def simp flip: numeral_2_eq_2)

text \<open>C32. Whatever the bytes, and for lengths below 65536, a call of any of the five converters on an object that carries its
  tables returns, keeps inside the source and the destination it was given, and reports no
  error exactly when all of the source was converted.\<close>

theorem narrow_convert_safe:
  assumes "slen < 65536" and "dlen < 65536"
    and "slen \<le> length bytes" and "slen \<le> 2 * length wides"
    and "dlen \<le> room"
  shows "cv_safe 1 slen dlen (CV_unicode_to_nc
           (CV_convert_init t f fn (Byte_Table d8) (Short_Table m)) (Some room) dlen wides slen) \<and>
    cv_safe 2 slen dlen (CV_wc_to_wc
           (CV_convert_init t f fn (Short_Table d16) (Short_Table m)) (Some room) dlen wides slen) \<and>
    cv_safe 2 slen dlen (CV_nc_to_unicode
           (CV_convert_init t f fn (Short_Table d16) m') (Some room) dlen bytes slen) \<and>
    cv_safe 1 slen dlen (CV_wc_copy (Some room) dlen bytes slen) \<and>
    cv_safe 1 slen dlen (eight_bit_convert
           (CV_convert_init t f fn (Byte_Table d8) m') (Some room) dlen bytes slen)"
proof (intro conjI)
  have ok: "cv_ok 2 1 (cv_start wides slen dlen room :: (u16, u8) cv_state)"
    "cv_ok 2 2 (cv_start wides slen dlen room :: (u16, u16) cv_state)"
    "cv_ok 1 2 (cv_start bytes slen dlen room :: (u8, u16) cv_state)"
    "cv_ok 1 1 (cv_start bytes slen dlen room :: (u8, u8) cv_state)"
    using assms by (auto simp: cv_ok_def cv_start_def)
  show "cv_safe 1 slen dlen (CV_unicode_to_nc
      (CV_convert_init t f fn (Byte_Table d8) (Short_Table m)) (Some room) dlen wides slen)"
    using u2nc.report_safe [OF ok(1) disjI2 [OF refl]]
    by (simp add: CV_unicode_to_nc_def narrow_tables)
  show "cv_safe 2 slen dlen (CV_wc_to_wc
      (CV_convert_init t f fn (Short_Table d16) (Short_Table m)) (Some room) dlen wides slen)"
    using wc2wc.report_safe [OF ok(2) disjI2 [OF refl]]
    by (simp add: CV_wc_to_wc_def narrow_tables)
  show "cv_safe 2 slen dlen (CV_nc_to_unicode
      (CV_convert_init t f fn (Short_Table d16) m') (Some room) dlen bytes slen)"
    using nc2u.report_safe [OF ok(3) disjI1 [OF refl]]
    by (simp add: CV_nc_to_unicode_def narrow_tables)
  show "cv_safe 1 slen dlen (CV_wc_copy (Some room) dlen bytes slen)"
    using wccopy.report_safe [OF ok(4) disjI2 [OF refl]] by (simp add: CV_wc_copy_def)
  show "cv_safe 1 slen dlen (eight_bit_convert
      (CV_convert_init t f fn (Byte_Table d8) m') (Some room) dlen bytes slen)"
    using eight.report_safe [OF ok(4) disjI1 [OF refl]]
    by (simp add: eight_bit_convert_def narrow_tables)
qed

theorem narrow_convert_safe_witness:
  "cv_safe 1 3 4 (CV_unicode_to_nc
      (CV_convert_init 0 0 Fn_CV_unicode_to_nc (Byte_Table (\<lambda>_. 0)) (Short_Table (\<lambda>_. 0)))
      (Some 4) 4 [0x41, 0x42] 3)"
  using narrow_convert_safe [of 3 4 "[1, 2, 3]" "[0x41, 0x42]" 4 0 0 Fn_CV_unicode_to_nc "\<lambda>_. 0"
      "\<lambda>_. 0"] by simp

end
