(* ===== verification/Cv_Dos.thy ===== *)
theory Cv_Dos
  imports Cv_Narrow Charsets
begin

text \<open>
  The direct conversions between the DOS code pages 437 and 865 and ISO 8859-1: the six tables of
  \<open>intl/conversions/tx437_865.h\<close>, \<open>tx437_lat1.h\<close> and \<open>tx865_lat1.h\<close>, copied entry by entry
  (\<open>CS_CANT_MAP\<close> is 0), and the converter objects \<open>intl/cv_narrow.c\<close> makes of them.
\<close>

section \<open>The tables\<close>

definition cvt_437_to_865 :: "u8 list" where
  "cvt_437_to_865 =
    [0x00, 0x01, 0x02, 0x03, 0x04, 0x05, 0x06, 0x07, 0x08, 0x09, 0x0A, 0x0B, 0x0C, 0x0D, 0x0E, 0x0F,
     0x10, 0x11, 0x12, 0x13, 0x14, 0x15, 0x16, 0x17, 0x18, 0x19, 0x1A, 0x1B, 0x1C, 0x1D, 0x1E, 0x1F,
     0x20, 0x21, 0x22, 0x23, 0x24, 0x25, 0x26, 0x27, 0x28, 0x29, 0x2A, 0x2B, 0x2C, 0x2D, 0x2E, 0x2F,
     0x30, 0x31, 0x32, 0x33, 0x34, 0x35, 0x36, 0x37, 0x38, 0x39, 0x3A, 0x3B, 0x3C, 0x3D, 0x3E, 0x3F,
     0x40, 0x41, 0x42, 0x43, 0x44, 0x45, 0x46, 0x47, 0x48, 0x49, 0x4A, 0x4B, 0x4C, 0x4D, 0x4E, 0x4F,
     0x50, 0x51, 0x52, 0x53, 0x54, 0x55, 0x56, 0x57, 0x58, 0x59, 0x5A, 0x5B, 0x5C, 0x5D, 0x5E, 0x5F,
     0x60, 0x61, 0x62, 0x63, 0x64, 0x65, 0x66, 0x67, 0x68, 0x69, 0x6A, 0x6B, 0x6C, 0x6D, 0x6E, 0x6F,
     0x70, 0x71, 0x72, 0x73, 0x74, 0x75, 0x76, 0x77, 0x78, 0x79, 0x7A, 0x7B, 0x7C, 0x7D, 0x7E, 0x7F,
     0x80, 0x81, 0x82, 0x83, 0x84, 0x85, 0x86, 0x87, 0x88, 0x89, 0x8A, 0x8B, 0x8C, 0x8D, 0x8E, 0x8F,
     0x90, 0x91, 0x92, 0x93, 0x94, 0x95, 0x96, 0x97, 0x98, 0x99, 0x9A, 0x00, 0x9C, 0x00, 0x9E, 0x9F,
     0xA0, 0xA1, 0xA2, 0xA3, 0xA4, 0xA5, 0xA6, 0xA7, 0xA8, 0xA9, 0xAA, 0xAB, 0xAC, 0xAD, 0xAE, 0x00,
     0xB0, 0xB1, 0xB2, 0xB3, 0xB4, 0xB5, 0xB6, 0xB7, 0xB8, 0xB9, 0xBA, 0xBB, 0xBC, 0xBD, 0xBE, 0xBF,
     0xC0, 0xC1, 0xC2, 0xC3, 0xC4, 0xC5, 0xC6, 0xC7, 0xC8, 0xC9, 0xCA, 0xCB, 0xCC, 0xCD, 0xCE, 0xCF,
     0xD0, 0xD1, 0xD2, 0xD3, 0xD4, 0xD5, 0xD6, 0xD7, 0xD8, 0xD9, 0xDA, 0xDB, 0xDC, 0xDD, 0xDE, 0xDF,
     0xE0, 0xE1, 0xE2, 0xE3, 0xE4, 0xE5, 0xE6, 0xE7, 0xE8, 0xE9, 0xEA, 0xEB, 0xEC, 0xED, 0xEE, 0xEF,
     0xF0, 0xF1, 0xF2, 0xF3, 0xF4, 0xF5, 0xF6, 0xF7, 0xF8, 0xF9, 0xFA, 0xFB, 0xFC, 0xFD, 0xFE, 0xFF]"

definition cvt_865_to_437 :: "u8 list" where
  "cvt_865_to_437 =
    [0x00, 0x01, 0x02, 0x03, 0x04, 0x05, 0x06, 0x07, 0x08, 0x09, 0x0A, 0x0B, 0x0C, 0x0D, 0x0E, 0x0F,
     0x10, 0x11, 0x12, 0x13, 0x14, 0x15, 0x16, 0x17, 0x18, 0x19, 0x1A, 0x1B, 0x1C, 0x1D, 0x1E, 0x1F,
     0x20, 0x21, 0x22, 0x23, 0x24, 0x25, 0x26, 0x27, 0x28, 0x29, 0x2A, 0x2B, 0x2C, 0x2D, 0x2E, 0x2F,
     0x30, 0x31, 0x32, 0x33, 0x34, 0x35, 0x36, 0x37, 0x38, 0x39, 0x3A, 0x3B, 0x3C, 0x3D, 0x3E, 0x3F,
     0x40, 0x41, 0x42, 0x43, 0x44, 0x45, 0x46, 0x47, 0x48, 0x49, 0x4A, 0x4B, 0x4C, 0x4D, 0x4E, 0x4F,
     0x50, 0x51, 0x52, 0x53, 0x54, 0x55, 0x56, 0x57, 0x58, 0x59, 0x5A, 0x5B, 0x5C, 0x5D, 0x5E, 0x5F,
     0x60, 0x61, 0x62, 0x63, 0x64, 0x65, 0x66, 0x67, 0x68, 0x69, 0x6A, 0x6B, 0x6C, 0x6D, 0x6E, 0x6F,
     0x70, 0x71, 0x72, 0x73, 0x74, 0x75, 0x76, 0x77, 0x78, 0x79, 0x7A, 0x7B, 0x7C, 0x7D, 0x7E, 0x7F,
     0x80, 0x81, 0x82, 0x83, 0x84, 0x85, 0x86, 0x87, 0x88, 0x89, 0x8A, 0x8B, 0x8C, 0x8D, 0x8E, 0x8F,
     0x90, 0x91, 0x92, 0x93, 0x94, 0x95, 0x96, 0x97, 0x98, 0x99, 0x9A, 0x00, 0x9C, 0x00, 0x9E, 0x9F,
     0xA0, 0xA1, 0xA2, 0xA3, 0xA4, 0xA5, 0xA6, 0xA7, 0xA8, 0xA9, 0xAA, 0xAB, 0xAC, 0xAD, 0xAE, 0x00,
     0xB0, 0xB1, 0xB2, 0xB3, 0xB4, 0xB5, 0xB6, 0xB7, 0xB8, 0xB9, 0xBA, 0xBB, 0xBC, 0xBD, 0xBE, 0xBF,
     0xC0, 0xC1, 0xC2, 0xC3, 0xC4, 0xC5, 0xC6, 0xC7, 0xC8, 0xC9, 0xCA, 0xCB, 0xCC, 0xCD, 0xCE, 0xCF,
     0xD0, 0xD1, 0xD2, 0xD3, 0xD4, 0xD5, 0xD6, 0xD7, 0xD8, 0xD9, 0xDA, 0xDB, 0xDC, 0xDD, 0xDE, 0xDF,
     0xE0, 0xE1, 0xE2, 0xE3, 0xE4, 0xE5, 0xE6, 0xE7, 0xE8, 0xE9, 0xEA, 0xEB, 0xEC, 0xED, 0xEE, 0xEF,
     0xF0, 0xF1, 0xF2, 0xF3, 0xF4, 0xF5, 0xF6, 0xF7, 0xF8, 0xF9, 0xFA, 0xFB, 0xFC, 0xFD, 0xFE, 0xFF]"

definition cvt_437_to_iso88591 :: "u8 list" where
  "cvt_437_to_iso88591 =
    [0x00, 0x01, 0x02, 0x03, 0x04, 0x05, 0x06, 0x07, 0x08, 0x09, 0x0A, 0x0B, 0x0C, 0x0D, 0x0E, 0x0F,
     0x10, 0x11, 0x12, 0x13, 0x14, 0x15, 0x16, 0x17, 0x18, 0x19, 0x1A, 0x1B, 0x1C, 0x1D, 0x1E, 0x1F,
     0x20, 0x21, 0x22, 0x23, 0x24, 0x25, 0x26, 0x27, 0x28, 0x29, 0x2A, 0x2B, 0x2C, 0x2D, 0x2E, 0x2F,
     0x30, 0x31, 0x32, 0x33, 0x34, 0x35, 0x36, 0x37, 0x38, 0x39, 0x3A, 0x3B, 0x3C, 0x3D, 0x3E, 0x3F,
     0x40, 0x41, 0x42, 0x43, 0x44, 0x45, 0x46, 0x47, 0x48, 0x49, 0x4A, 0x4B, 0x4C, 0x4D, 0x4E, 0x4F,
     0x50, 0x51, 0x52, 0x53, 0x54, 0x55, 0x56, 0x57, 0x58, 0x59, 0x5A, 0x5B, 0x5C, 0x5D, 0x5E, 0x5F,
     0x60, 0x61, 0x62, 0x63, 0x64, 0x65, 0x66, 0x67, 0x68, 0x69, 0x6A, 0x6B, 0x6C, 0x6D, 0x6E, 0x6F,
     0x70, 0x71, 0x72, 0x73, 0x74, 0x75, 0x76, 0x77, 0x78, 0x79, 0x7A, 0x7B, 0x7C, 0x7D, 0x7E, 0x7F,
     0xC7, 0xFC, 0xE9, 0xE2, 0xE4, 0xE0, 0xE5, 0xE7, 0xEA, 0xEB, 0xE8, 0xEF, 0xEE, 0xEC, 0xC4, 0xC5,
     0xC9, 0xE6, 0xC6, 0xF4, 0xF6, 0xF2, 0xFB, 0xF9, 0xFF, 0xD6, 0xDC, 0xA2, 0xA3, 0xA5, 0x00, 0x00,
     0xE1, 0xED, 0xF3, 0xFA, 0xF1, 0xD1, 0xAA, 0xBA, 0xBF, 0x00, 0xAC, 0xBD, 0xBC, 0xA1, 0xAB, 0xBB,
     0x00, 0x00, 0x00, 0x00, 0x00, 0x00, 0x00, 0x00, 0x00, 0x00, 0x00, 0x00, 0x00, 0x00, 0x00, 0x00,
     0x00, 0x00, 0x00, 0x00, 0x00, 0x00, 0x00, 0x00, 0x00, 0x00, 0x00, 0x00, 0x00, 0x00, 0x00, 0x00,
     0x00, 0x00, 0x00, 0x00, 0x00, 0x00, 0x00, 0x00, 0x00, 0x00, 0x00, 0x00, 0x00, 0x00, 0x00, 0x00,
     0x00, 0xDF, 0x00, 0x00, 0x00, 0x00, 0xB5, 0x00, 0x00, 0x00, 0x00, 0x00, 0x00, 0x00, 0x00, 0x00,
     0x00, 0xB1, 0x00, 0x00, 0x00, 0x00, 0xF7, 0x00, 0xB0, 0x00, 0xB7, 0x00, 0x00, 0xB2, 0x00, 0xA0]"

definition cvt_iso88591_to_437 :: "u8 list" where
  "cvt_iso88591_to_437 =
    [0x00, 0x01, 0x02, 0x03, 0x04, 0x05, 0x06, 0x07, 0x08, 0x09, 0x0A, 0x0B, 0x0C, 0x0D, 0x0E, 0x0F,
     0x10, 0x11, 0x12, 0x13, 0x14, 0x15, 0x16, 0x17, 0x18, 0x19, 0x1A, 0x1B, 0x1C, 0x1D, 0x1E, 0x1F,
     0x20, 0x21, 0x22, 0x23, 0x24, 0x25, 0x26, 0x27, 0x28, 0x29, 0x2A, 0x2B, 0x2C, 0x2D, 0x2E, 0x2F,
     0x30, 0x31, 0x32, 0x33, 0x34, 0x35, 0x36, 0x37, 0x38, 0x39, 0x3A, 0x3B, 0x3C, 0x3D, 0x3E, 0x3F,
     0x40, 0x41, 0x42, 0x43, 0x44, 0x45, 0x46, 0x47, 0x48, 0x49, 0x4A, 0x4B, 0x4C, 0x4D, 0x4E, 0x4F,
     0x50, 0x51, 0x52, 0x53, 0x54, 0x55, 0x56, 0x57, 0x58, 0x59, 0x5A, 0x5B, 0x5C, 0x5D, 0x5E, 0x5F,
     0x60, 0x61, 0x62, 0x63, 0x64, 0x65, 0x66, 0x67, 0x68, 0x69, 0x6A, 0x6B, 0x6C, 0x6D, 0x6E, 0x6F,
     0x70, 0x71, 0x72, 0x73, 0x74, 0x75, 0x76, 0x77, 0x78, 0x79, 0x7A, 0x7B, 0x7C, 0x7D, 0x7E, 0x7F,
     0x00, 0x00, 0x00, 0x00, 0x00, 0x00, 0x00, 0x00, 0x00, 0x00, 0x00, 0x00, 0x00, 0x00, 0x00, 0x00,
     0x00, 0x00, 0x00, 0x00, 0x00, 0x00, 0x00, 0x00, 0x00, 0x00, 0x00, 0x00, 0x00, 0x00, 0x00, 0x00,
     0xFF, 0xAD, 0x9B, 0x9C, 0x00, 0x9D, 0x00, 0x00, 0x00, 0x00, 0xA6, 0xAE, 0xAA, 0x00, 0x00, 0x00,
     0xF8, 0xF1, 0xFD, 0x00, 0x00, 0xE6, 0x00, 0xFA, 0x00, 0x00, 0xA7, 0xAF, 0xAC, 0xAB, 0x00, 0xA8,
     0x00, 0x00, 0x00, 0x00, 0x8E, 0x8F, 0x92, 0x80, 0x00, 0x90, 0x00, 0x00, 0x00, 0x00, 0x00, 0x00,
     0x00, 0xA5, 0x00, 0x00, 0x00, 0x00, 0x99, 0x00, 0x00, 0x00, 0x00, 0x00, 0x9A, 0x00, 0x00, 0xE1,
     0x85, 0xA0, 0x83, 0x00, 0x84, 0x86, 0x91, 0x87, 0x8A, 0x82, 0x88, 0x89, 0x8D, 0xA1, 0x8C, 0x8B,
     0x00, 0xA4, 0x95, 0xA2, 0x93, 0x00, 0x94, 0xF6, 0x00, 0x97, 0xA3, 0x96, 0x81, 0x00, 0x00, 0x98]"

definition cvt_865_to_iso88591 :: "u8 list" where
  "cvt_865_to_iso88591 =
    [0x00, 0x01, 0x02, 0x03, 0x04, 0x05, 0x06, 0x07, 0x08, 0x09, 0x0A, 0x0B, 0x0C, 0x0D, 0x0E, 0x0F,
     0x10, 0x11, 0x12, 0x13, 0x14, 0x15, 0x16, 0x17, 0x18, 0x19, 0x1A, 0x1B, 0x1C, 0x1D, 0x1E, 0x1F,
     0x20, 0x21, 0x22, 0x23, 0x24, 0x25, 0x26, 0x27, 0x28, 0x29, 0x2A, 0x2B, 0x2C, 0x2D, 0x2E, 0x2F,
     0x30, 0x31, 0x32, 0x33, 0x34, 0x35, 0x36, 0x37, 0x38, 0x39, 0x3A, 0x3B, 0x3C, 0x3D, 0x3E, 0x3F,
     0x40, 0x41, 0x42, 0x43, 0x44, 0x45, 0x46, 0x47, 0x48, 0x49, 0x4A, 0x4B, 0x4C, 0x4D, 0x4E, 0x4F,
     0x50, 0x51, 0x52, 0x53, 0x54, 0x55, 0x56, 0x57, 0x58, 0x59, 0x5A, 0x5B, 0x5C, 0x5D, 0x5E, 0x5F,
     0x60, 0x61, 0x62, 0x63, 0x64, 0x65, 0x66, 0x67, 0x68, 0x69, 0x6A, 0x6B, 0x6C, 0x6D, 0x6E, 0x6F,
     0x70, 0x71, 0x72, 0x73, 0x74, 0x75, 0x76, 0x77, 0x78, 0x79, 0x7A, 0x7B, 0x7C, 0x7D, 0x7E, 0x7F,
     0xC7, 0xFC, 0xE9, 0xE2, 0xE4, 0xE0, 0xE5, 0xE7, 0xEA, 0xEB, 0xE8, 0xEF, 0xEE, 0xEC, 0xC4, 0xC5,
     0xC9, 0xE6, 0xC6, 0xF4, 0xF6, 0xF2, 0xFB, 0xF9, 0xFF, 0xD6, 0xDC, 0xF8, 0xA3, 0xD8, 0x00, 0x00,
     0xE1, 0xED, 0xF3, 0xFA, 0xF1, 0xD1, 0xAA, 0xBA, 0xBF, 0x00, 0xAC, 0xBD, 0xBC, 0xA1, 0xAB, 0xA4,
     0x00, 0x00, 0x00, 0x00, 0x00, 0x00, 0x00, 0x00, 0x00, 0x00, 0x00, 0x00, 0x00, 0x00, 0x00, 0x00,
     0x00, 0x00, 0x00, 0x00, 0x00, 0x00, 0x00, 0x00, 0x00, 0x00, 0x00, 0x00, 0x00, 0x00, 0x00, 0x00,
     0x00, 0x00, 0x00, 0x00, 0x00, 0x00, 0x00, 0x00, 0x00, 0x00, 0x00, 0x00, 0x00, 0x00, 0x00, 0x00,
     0x00, 0xDF, 0x00, 0x00, 0x00, 0x00, 0xB5, 0x00, 0x00, 0x00, 0x00, 0x00, 0x00, 0x00, 0x00, 0x00,
     0x00, 0xB1, 0x00, 0x00, 0x00, 0x00, 0xF7, 0x00, 0xB0, 0x00, 0xB7, 0x00, 0x00, 0xB2, 0x00, 0xA0]"

definition cvt_iso88591_to_865 :: "u8 list" where
  "cvt_iso88591_to_865 =
    [0x00, 0x01, 0x02, 0x03, 0x04, 0x05, 0x06, 0x07, 0x08, 0x09, 0x0A, 0x0B, 0x0C, 0x0D, 0x0E, 0x0F,
     0x10, 0x11, 0x12, 0x13, 0x14, 0x15, 0x16, 0x17, 0x18, 0x19, 0x1A, 0x1B, 0x1C, 0x1D, 0x1E, 0x1F,
     0x20, 0x21, 0x22, 0x23, 0x24, 0x25, 0x26, 0x27, 0x28, 0x29, 0x2A, 0x2B, 0x2C, 0x2D, 0x2E, 0x2F,
     0x30, 0x31, 0x32, 0x33, 0x34, 0x35, 0x36, 0x37, 0x38, 0x39, 0x3A, 0x3B, 0x3C, 0x3D, 0x3E, 0x3F,
     0x40, 0x41, 0x42, 0x43, 0x44, 0x45, 0x46, 0x47, 0x48, 0x49, 0x4A, 0x4B, 0x4C, 0x4D, 0x4E, 0x4F,
     0x50, 0x51, 0x52, 0x53, 0x54, 0x55, 0x56, 0x57, 0x58, 0x59, 0x5A, 0x5B, 0x5C, 0x5D, 0x5E, 0x5F,
     0x60, 0x61, 0x62, 0x63, 0x64, 0x65, 0x66, 0x67, 0x68, 0x69, 0x6A, 0x6B, 0x6C, 0x6D, 0x6E, 0x6F,
     0x70, 0x71, 0x72, 0x73, 0x74, 0x75, 0x76, 0x77, 0x78, 0x79, 0x7A, 0x7B, 0x7C, 0x7D, 0x7E, 0x7F,
     0x00, 0x00, 0x00, 0x00, 0x00, 0x00, 0x00, 0x00, 0x00, 0x00, 0x00, 0x00, 0x00, 0x00, 0x00, 0x00,
     0x00, 0x00, 0x00, 0x00, 0x00, 0x00, 0x00, 0x00, 0x00, 0x00, 0x00, 0x00, 0x00, 0x00, 0x00, 0x00,
     0xFF, 0xAD, 0x00, 0x9C, 0xAF, 0x00, 0x00, 0x00, 0x00, 0x00, 0xA6, 0xAE, 0xAA, 0x00, 0x00, 0x00,
     0xF8, 0xF1, 0xFD, 0x00, 0x00, 0xE6, 0x00, 0xFA, 0x00, 0x00, 0xA7, 0x00, 0xAC, 0xAB, 0x00, 0xA8,
     0x00, 0x00, 0x00, 0x00, 0x8E, 0x8F, 0x92, 0x80, 0x00, 0x90, 0x00, 0x00, 0x00, 0x00, 0x00, 0x00,
     0x00, 0xA5, 0x00, 0x00, 0x00, 0x00, 0x99, 0x00, 0x9D, 0x00, 0x00, 0x00, 0x9A, 0x00, 0x00, 0xE1,
     0x85, 0xA0, 0x83, 0x00, 0x84, 0x86, 0x91, 0x87, 0x8A, 0x82, 0x88, 0x89, 0x8D, 0xA1, 0x8C, 0x8B,
     0x00, 0xA4, 0x95, 0xA2, 0x93, 0x00, 0x94, 0xF6, 0x9B, 0x97, 0xA3, 0x96, 0x81, 0x00, 0x00, 0x98]"

section \<open>Converter objects\<close>

definition table_of :: "u8 list \<Rightarrow> table" where
  "table_of t = Byte_Table (\<lambda>i. t ! i)"

definition CV_dos_865_x_iso8859_1 :: "int \<Rightarrow> int \<Rightarrow> csconvert" where
  "CV_dos_865_x_iso8859_1 dest_cs source_cs =
     (if dest_cs = CS_ISO8859_1
      then CV_convert_init dest_cs source_cs Fn_eight_bit_convert
             (table_of cvt_865_to_iso88591) No_Table
      else CV_convert_init dest_cs source_cs Fn_eight_bit_convert
             (table_of cvt_iso88591_to_865) No_Table)"

definition CV_dos_437_x_dos_865 :: "int \<Rightarrow> int \<Rightarrow> csconvert" where
  "CV_dos_437_x_dos_865 dest_cs source_cs =
     (if dest_cs = CS_DOS_865
      then CV_convert_init dest_cs source_cs Fn_eight_bit_convert
             (table_of cvt_437_to_865) No_Table
      else CV_convert_init dest_cs source_cs Fn_eight_bit_convert
             (table_of cvt_865_to_437) No_Table)"

definition CV_dos_437_x_iso8859_1 :: "int \<Rightarrow> int \<Rightarrow> csconvert" where
  "CV_dos_437_x_iso8859_1 dest_cs source_cs =
     (if dest_cs = CS_ISO8859_1
      then CV_convert_init dest_cs source_cs Fn_eight_bit_convert
             (table_of cvt_437_to_iso88591) No_Table
      else CV_convert_init dest_cs source_cs Fn_eight_bit_convert
             (table_of cvt_iso88591_to_437) No_Table)"

section \<open>The tables are inverse\<close>

text \<open>
  The mapped entries of a table as pairs (image, byte), sorted by image: two tables are inverse
  on their mapped entries when these are the pairs of the other table the other way round.
\<close>

fun entries :: "int \<Rightarrow> u8 list \<Rightarrow> (int \<times> int) list" where
  "entries i [] = []"
| "entries i (c # t) =
     (let x = uint c in if x = 0 then entries (i + 1) t else (x, i) # entries (i + 1) t)"

fun ins_entry :: "int \<times> int \<Rightarrow> (int \<times> int) list \<Rightarrow> (int \<times> int) list" where
  "ins_entry p [] = [p]"
| "ins_entry p (q # r) = (if fst p \<le> fst q then p # q # r else q # ins_entry p r)"

definition sorted_entries :: "u8 list \<Rightarrow> (int \<times> int) list" where
  "sorted_entries t = foldr ins_entry (entries 0 t) []"

lemma set_ins_entry: "set (ins_entry p r) = insert p (set r)"
  by (induction r) auto

lemma set_sorted_entries: "set (sorted_entries t) = set (entries 0 t)"
proof -
  have "set (foldr ins_entry ps []) = set ps" for ps
    by (induction ps) (simp_all add: set_ins_entry)
  then show ?thesis by (simp add: sorted_entries_def)
qed

lemma entries_iff:
  "(x, y) \<in> set (entries i t) \<longleftrightarrow> (\<exists>k < length t. y = i + int k \<and> x = uint (t ! k) \<and> x \<noteq> 0)"
proof (induction t arbitrary: i)
  case (Cons c t)
  have "(\<exists>k < length (c # t). y = i + int k \<and> x = uint ((c # t) ! k) \<and> x \<noteq> 0) \<longleftrightarrow>
      y = i \<and> x = uint c \<and> x \<noteq> 0 \<or>
      (\<exists>k < length t. y = i + 1 + int k \<and> x = uint (t ! k) \<and> x \<noteq> 0)"
    by (simp add: Ex_less_Suc2 algebra_simps)
  with Cons.IH [of "i + 1"] show ?case by (auto simp: Let_def)
qed simp

definition inverse_tables :: "u8 list \<Rightarrow> u8 list \<Rightarrow> bool" where
  "inverse_tables t u \<longleftrightarrow> length t = 256 \<and> length u = 256 \<and> t ! 0 = 0 \<and> u ! 0 = 0 \<and>
     sorted_entries t = map prod.swap (entries 0 u)"

lemma inverse_entry:
  assumes "inverse_tables t u"
  shows "t ! unat b \<noteq> 0 \<Longrightarrow> u ! unat (t ! unat b) = b"
    and "u ! unat b \<noteq> 0 \<Longrightarrow> t ! unat (u ! unat b) = b"
proof -
  have len: "length t = 256" "length u = 256" using assms by (simp_all add: inverse_tables_def)
  have "set (sorted_entries t) = prod.swap ` set (entries 0 u)"
    using assms by (simp add: inverse_tables_def)
  then have sw: "(x, y) \<in> set (entries 0 t) \<longleftrightarrow> (y, x) \<in> set (entries 0 u)" for x y
    by (auto simp: set_sorted_entries)
  note e = entries_iff [of _ _ 0]
  have ut: "uint c = int (unat c)" for c :: u8 by (rule uint_nat)
  show "u ! unat (t ! unat b) = b" if "t ! unat b \<noteq> 0"
  proof -
    have "(uint (t ! unat b), int (unat b)) \<in> set (entries 0 t)"
      unfolding e using that len by (intro exI [of _ "unat b"] conjI) (simp_all add: uint_0_iff)
    then have "(int (unat b), uint (t ! unat b)) \<in> set (entries 0 u)" by (simp only: sw)
    then obtain k where "uint (t ! unat b) = int k" "int (unat b) = uint (u ! k)"
      by (auto simp: e)
    then have "unat (t ! unat b) = k" "unat b = unat (u ! k)" by (simp_all only: ut of_nat_eq_iff)
    then show ?thesis by (simp add: word_unat_eq_iff)
  qed
  show "t ! unat (u ! unat b) = b" if "u ! unat b \<noteq> 0"
  proof -
    have "(uint (u ! unat b), int (unat b)) \<in> set (entries 0 u)"
      unfolding e using that len by (intro exI [of _ "unat b"] conjI) (simp_all add: uint_0_iff)
    then have "(int (unat b), uint (u ! unat b)) \<in> set (entries 0 t)" by (simp only: sw)
    then obtain k where "uint (u ! unat b) = int k" "int (unat b) = uint (t ! k)"
      by (auto simp: e)
    then have "unat (u ! unat b) = k" "unat b = unat (t ! k)" by (simp_all only: ut of_nat_eq_iff)
    then show ?thesis by (simp add: word_unat_eq_iff)
  qed
qed

lemma table_437_865: "inverse_tables cvt_437_to_865 cvt_865_to_437"
  by code_simp

lemma table_437_iso88591: "inverse_tables cvt_437_to_iso88591 cvt_iso88591_to_437"
  by code_simp

lemma table_865_iso88591: "inverse_tables cvt_865_to_iso88591 cvt_iso88591_to_865"
  by code_simp

section \<open>Properties\<close>

text \<open>The text a converter object accepts: bytes with an image in its table.\<close>

definition convertible :: "csconvert \<Rightarrow> u8 list \<Rightarrow> bool" where
  "convertible obj s \<longleftrightarrow>
     (\<forall>b \<in> set s. \<exists>c. byte_at (csconvert_datatable obj) (unat b) = Some c \<and> (c \<noteq> 0 \<or> b = 0))"

lemma eight_roundtrip:
  assumes "inverse_tables t u \<or> inverse_tables u t" and "length s < 65536"
    and "convertible (CV_convert_init a b fn (table_of t) m) s"
  shows "\<exists>e. eight_bit_convert (CV_convert_init a b fn (table_of t) m) (Some (length s)) (length s)
        s (length s) =
        Some \<lparr>cv_ret = length s, cv_out = e, cv_err = 0, cv_pos = Some (length s)\<rparr> \<and>
      eight_bit_convert (CV_convert_init a' b' fn' (table_of u) m') (Some (length s)) (length s)
        e (length s) =
        Some \<lparr>cv_ret = length s, cv_out = s, cv_err = 0, cv_pos = Some (length s)\<rparr>"
proof (intro exI conjI)
  let ?e = "map (\<lambda>b. t ! unat b) s"
  have z: "t ! 0 = 0" "u ! 0 = 0" using assms(1) by (auto simp: inverse_tables_def)
  have inv: "u ! unat (t ! unat b) = b" if "t ! unat b \<noteq> 0 \<or> b = 0" for b
    using that assms(1) z inverse_entry by auto
  have ok: "\<forall>b \<in> set s. t ! unat b \<noteq> 0 \<or> b = 0"
    using assms(3) by (auto simp: convertible_def table_of_def)
  then have ok': "\<forall>c \<in> set ?e. u ! unat c \<noteq> 0 \<or> c = 0"
    using inv z by fastforce
  have ret: "map (\<lambda>c. u ! unat c) ?e = s"
    using ok inv by (simp add: map_idI)
  show "eight_bit_convert (CV_convert_init a b fn (table_of t) m) (Some (length s)) (length s)
      s (length s) =
      Some \<lparr>cv_ret = length s, cv_out = ?e, cv_err = 0, cv_pos = Some (length s)\<rparr>"
    using ok assms(2)
    by (simp only: eight_bit_convert_def table_of_def narrow_tables option.case)
      (subst eight.translate_all, simp_all)
  show "eight_bit_convert (CV_convert_init a' b' fn' (table_of u) m') (Some (length s)) (length s)
      ?e (length s) =
      Some \<lparr>cv_ret = length s, cv_out = s, cv_err = 0, cv_pos = Some (length s)\<rparr>"
    using ok' assms(2) ret
    by (simp only: eight_bit_convert_def table_of_def narrow_tables option.case)
      (subst eight.translate_all, simp_all)
qed

text \<open>With the tables of the source, each of the three direct DOS conversions is undone by the
  converter object the same constructor makes for the opposite direction: any text whose bytes
  have an image is recovered from its conversion, with no error on either way.\<close>

lemma dos_convert_roundtrip:
  assumes "(conv, a, b) \<in> {(CV_dos_865_x_iso8859_1, CS_DOS_865, CS_ISO8859_1),
      (CV_dos_437_x_dos_865, CS_DOS_437, CS_DOS_865),
      (CV_dos_437_x_iso8859_1, CS_DOS_437, CS_ISO8859_1)}"
    and "to = b \<and> from_cs = a \<or> to = a \<and> from_cs = b"
    and "length s < 65536" and "convertible (conv to from_cs) s"
  shows "\<exists>e. eight_bit_convert (conv to from_cs) (Some (length s)) (length s) s (length s) =
        Some \<lparr>cv_ret = length s, cv_out = e, cv_err = 0, cv_pos = Some (length s)\<rparr> \<and>
      eight_bit_convert (conv from_cs to) (Some (length s)) (length s) e (length s) =
        Some \<lparr>cv_ret = length s, cv_out = s, cv_err = 0, cv_pos = Some (length s)\<rparr>"
proof -
  note t = table_437_865 table_437_iso88591 table_865_iso88591
  obtain tt uu fn fn' m m' where "inverse_tables tt uu \<or> inverse_tables uu tt"
    "conv to from_cs = CV_convert_init to from_cs fn (table_of tt) m"
    "conv from_cs to = CV_convert_init from_cs to fn' (table_of uu) m'"
    using assms(1,2) t
    by (auto simp: CV_dos_865_x_iso8859_1_def CV_dos_437_x_dos_865_def CV_dos_437_x_iso8859_1_def
        charset_ids) (blast intro: t)+
  then show ?thesis
    using eight_roundtrip [OF _ assms(3), of tt uu] assms(4) by auto
qed

lemma dos_convert_roundtrip_example:
  "\<exists>e. eight_bit_convert (CV_dos_437_x_iso8859_1 CS_ISO8859_1 CS_DOS_437) (Some 2) 2 [0x41, 0x82] 2 =
        Some \<lparr>cv_ret = 2, cv_out = e, cv_err = 0, cv_pos = Some 2\<rparr> \<and>
      eight_bit_convert (CV_dos_437_x_iso8859_1 CS_DOS_437 CS_ISO8859_1) (Some 2) 2 e 2 =
        Some \<lparr>cv_ret = 2, cv_out = [0x41, 0x82], cv_err = 0, cv_pos = Some 2\<rparr>"
proof -
  have "convertible (CV_dos_437_x_iso8859_1 CS_ISO8859_1 CS_DOS_437) [0x41, 0x82]"
    by (simp add: convertible_def CV_dos_437_x_iso8859_1_def table_of_def cvt_437_to_iso88591_def)
  then show ?thesis
    using dos_convert_roundtrip [where conv = CV_dos_437_x_iso8859_1 and a = CS_DOS_437
        and b = CS_ISO8859_1 and to = CS_ISO8859_1 and from_cs = CS_DOS_437 and s = "[0x41, 0x82]"]
    by (simp flip: numeral_2_eq_2)
qed

end
