(* ===== verification/Cv_Multi.thy ===== *)
theory Cv_Multi
  imports Cv_Narrow
begin

text \<open>
  The contract the mixed one-byte and two-byte codes of \<open>intl/cv_ksc.c\<close>, \<open>intl/cv_big5.c\<close> and
  \<open>intl/cv_gb2312.c\<close> share. The three files have the same loops over different byte classes; the
  theories \<open>Cv_Ksc\<close>, \<open>Cv_Big5\<close> and \<open>Cv_Gb2312\<close> write every loop out, show that it is the loop
  body below at the file's byte classes, and interpret the locale \<open>two_byte_code\<close> there.

  A character is its code, \<open>(c1 << 8) + c2\<close> or a single byte; \<open>mb_bytes\<close> are its bytes.
\<close>

section \<open>The loop bodies over byte classes\<close>

definition mb_store ::
  "csconvert \<Rightarrow> u16 \<Rightarrow> nat \<Rightarrow> (u8, u16) cv_state \<Rightarrow> (u8, u16) cv_state pass option" where
  "mb_store obj wide this_len st =
     do { ch \<leftarrow> two_level obj wide;
          if unat ch = CS_CANT_MAP \<and> unat wide \<noteq> CS_CANT_MAP
          then cv_break CS_CONVERT_ERROR st
          else do { st1 \<leftarrow> cv_write ch st;
                    Some (Next (cv_took this_len (cv_gave 2 st1))) } }"

definition mb_to_unicode_body ::
  "(u8 \<Rightarrow> bool) \<Rightarrow> (u8 \<Rightarrow> bool) \<Rightarrow> csconvert \<Rightarrow>
   (u8, u16) cv_state \<Rightarrow> (u8, u16) cv_state pass option" where
  "mb_to_unicode_body lead trail obj st =
     do { (c1, st1) \<leftarrow> cv_read st;
          if c1 AND 0x80 \<noteq> 0
          then (if lead c1
                then (if cvs_src_len st1 = 1 then cv_break CS_BAD_INPUT st1
                      else do { (c2, st2) \<leftarrow> cv_read st1;
                                if \<not> trail c2 then cv_break CS_BAD_INPUT st2
                                else mb_store obj (wide2 c1 c2) 2 st2 })
                else cv_break CS_BAD_INPUT st1)
          else mb_store obj (ucast c1) 1 st1 }"

definition unicode_to_mb_body ::
  "csconvert \<Rightarrow> (u16, u8) cv_state \<Rightarrow> (u16, u8) cv_state pass option" where
  "unicode_to_mb_body obj st =
     do { (wide, st1) \<leftarrow> cv_read st;
          ch \<leftarrow> two_level obj wide;
          if unat ch = CS_CANT_MAP \<and> unat wide \<noteq> CS_CANT_MAP
          then cv_break CS_CONVERT_ERROR st1
          else if hi8 ch = 0
          then do { st2 \<leftarrow> cv_write (lo8 ch) st1; Some (Next (cv_took 2 (cv_gave 1 st2))) }
          else if cvs_dest_len st1 < 2 then cv_break CS_TRUNCATION_ERROR st1
          else do { st2 \<leftarrow> cv_write (hi8 ch) st1;
                    st3 \<leftarrow> cv_write (lo8 ch) st2;
                    Some (Next (cv_gave 2 (cv_took 2 st3))) } }"

definition mb_byte2short_body ::
  "(u8 \<Rightarrow> bool) \<Rightarrow> (u8 \<Rightarrow> bool) \<Rightarrow> (u8, u16) cv_state \<Rightarrow> (u8, u16) cv_state pass option" where
  "mb_byte2short_body lead single st =
     do { c1 \<leftarrow> cv_peek st;
          if lead c1
          then (if cvs_src_len st < 2 then cv_break CS_BAD_INPUT st
                else do { (_, st1) \<leftarrow> cv_read st;
                          (c2, st2) \<leftarrow> cv_read st1;
                          st3 \<leftarrow> cv_write (wide2 c1 c2) (cv_took 2 st2);
                          Some (Next (cv_gave 2 st3)) })
          else if \<not> single c1 then cv_break CS_BAD_INPUT st
          else do { (_, st1) \<leftarrow> cv_read st;
                    st2 \<leftarrow> cv_write (ucast c1) (cv_took 1 st1);
                    Some (Next (cv_gave 2 st2)) } }"

definition mb_mbtowc ::
  "(u8 \<Rightarrow> bool) \<Rightarrow> (u8 \<Rightarrow> bool) \<Rightarrow> u8 list \<Rightarrow> nat \<Rightarrow> (int \<times> u16 option) option" where
  "mb_mbtowc lead single src n =
     (if n = 0 then Some (-1, None)
      else do { c1 \<leftarrow> (case src of [] \<Rightarrow> None | c # _ \<Rightarrow> Some c);
                if lead c1
                then (if n < 2 then Some (-1, None)
                      else do { c2 \<leftarrow> (case src of _ # c # _ \<Rightarrow> Some c | _ \<Rightarrow> None);
                                Some (2, Some (wide2 c1 c2)) })
                else if \<not> single c1 then Some (-1, None)
                else Some (1, Some (ucast c1)) })"

definition mb_guard :: "(u8, u16) cv_state \<Rightarrow> bool" where
  "mb_guard st \<longleftrightarrow> cvs_src_len st \<noteq> 0 \<and> 1 < cvs_dest_len st"

fun mb_check ::
  "(u8 \<Rightarrow> bool) \<Rightarrow> (u8 \<Rightarrow> bool) \<Rightarrow> u8 list \<Rightarrow> nat \<Rightarrow> nat option" where
  "mb_check lead single s 0 = Some 0"
| "mb_check lead single s (Suc n) =
     (case s of
        [] \<Rightarrow> None
      | c1 # s1 \<Rightarrow>
          if lead c1 then (if n = 0 then Some 1 else mb_check lead single (drop 2 s) (n - 1))
          else if \<not> single c1 then Some 1
          else mb_check lead single s1 n)"

section \<open>Characters and their bytes\<close>

definition mb_bytes :: "u16 \<Rightarrow> u8 list" where
  "mb_bytes w = (if hi8 w = 0 then [lo8 w] else [hi8 w, lo8 w])"

lemma ucast_lo8: "hi8 w = 0 \<Longrightarrow> ucast (lo8 w) = w"
  using wide2_hi_lo [of w] by (simp add: wide2_def)

lemma hi8_ucast [simp]: "hi8 (ucast (b :: u8)) = 0"
  by (simp add: word_unat_eq_iff unat_hi8)

lemma lo8_ucast [simp]: "lo8 (ucast (b :: u8)) = b"
  by (simp add: word_unat_eq_iff unat_lo8)

lemma mb_bytes_single [simp]: "mb_bytes (ucast (b :: u8)) = [b]"
  by (simp add: mb_bytes_def)

lemma mb_bytes_wide2: "c1 \<noteq> 0 \<Longrightarrow> mb_bytes (wide2 c1 c2) = [c1, c2]"
  by (simp add: mb_bytes_def)

lemma word_of_div: "word_of_nat (unat w div 256) = hi8 w"
  by (simp flip: unat_hi8)

lemma word_of_mod: "word_of_nat (unat w mod 256) = lo8 w"
  by (simp flip: unat_lo8)

lemma hi8_eq_0: "(unat w div 256 = 0) = (hi8 w = 0)"
  by (simp add: unat_eq_0 flip: unat_hi8)

lemma and_0x80: "(b AND 0x80 \<noteq> 0) = (0x80 \<le> unat b)" for b :: u8
proof -
  have u: "0 \<le> uint b" "uint b < 256" using uint_lt2p [of b] by simp_all
  have "(b AND 0x80 = 0) = (uint b AND 0x80 = 0)"
    by (simp add: word_uint_eq_iff uint_and)
  also have "\<dots> = (uint b < 128)"
  proof -
    have "(128 * (c div 128) = 0) = (c < 128)" if "0 \<le> c" for c :: int
      using that by presburger
    from this [OF u(1)] show ?thesis by (simp only: high_masks(1) [OF u])
  qed
  finally have "(b AND 0x80 = 0) = (uint b < 128)" .
  moreover have "uint b = int (unat b)" by (rule uint_nat)
  ultimately show ?thesis by (simp only: not_less [symmetric]) linarith
qed

section \<open>The contract\<close>

locale two_byte_code =
  fixes lead trail single :: "u8 \<Rightarrow> bool"
  assumes lead_high: "lead b \<Longrightarrow> 0x80 \<le> unat b"
    and single_low: "unat b < 0x80 \<Longrightarrow> single b"
    and single_lead: "single b \<Longrightarrow> \<not> lead b"
begin

text \<open>The characters \<open>byte2short\<close> takes, and those the conversion to Unicode takes.\<close>

definition char_ok :: "u16 \<Rightarrow> bool" where
  "char_ok w \<longleftrightarrow> (if hi8 w = 0 then single (lo8 w) else lead (hi8 w))"

definition text_ok :: "u16 \<Rightarrow> bool" where
  "text_ok w \<longleftrightarrow> (if hi8 w = 0 then unat (lo8 w) < 0x80 else lead (hi8 w) \<and> trail (lo8 w))"

lemma text_char_ok: "text_ok w \<Longrightarrow> char_ok w"
  by (auto simp: text_ok_def char_ok_def single_low split: if_splits)

lemma lead_nonzero: "lead b \<Longrightarrow> b \<noteq> 0"
  using lead_high by fastforce

lemma mb_bytes_cases:
  assumes "char_ok w"
  obtains (one) "hi8 w = 0" "mb_bytes w = [lo8 w]" "single (lo8 w)" "\<not> lead (lo8 w)"
      "ucast (lo8 w) = w"
  | (two) "hi8 w \<noteq> 0" "mb_bytes w = [hi8 w, lo8 w]" "lead (hi8 w)"
  using assms single_lead by (auto simp: char_ok_def mb_bytes_def ucast_lo8 split: if_splits)

subsection \<open>Bytes to shorts\<close>

lemma byte2short_next:
  assumes "char_ok w" "cvs_src st = mb_bytes w @ rest"
    and "cv_fits 1 2 (length (mb_bytes w)) [w] st"
  shows "mb_byte2short_body lead single st =
    Some (Next (cv_adv 1 2 (length (mb_bytes w)) [w] st))"
  using assms(1)
proof (cases rule: mb_bytes_cases)
  case one
  with assms(2,3) show ?thesis
    by (simp add: mb_byte2short_body_def cv_simps cv_fits_def cv_adv_def)
next
  case two
  with assms(2,3) show ?thesis
    by (simp add: mb_byte2short_body_def cv_simps cv_fits_def cv_adv_def numeral_2_eq_2)
qed

text \<open>What the source can be at the start of a pass: a character, or nothing acceptable.\<close>

lemma source_cases:
  assumes "0 < n" "n \<le> length s"
  obtains (char) w rest where "char_ok w" "s = mb_bytes w @ rest" "length (mb_bytes w) \<le> n"
  | (cut) c1 rest where "s = c1 # rest" "lead c1" "n = 1"
  | (bad) c1 rest where "s = c1 # rest" "\<not> lead c1" "\<not> single c1"
proof -
  obtain c1 rest where s: "s = c1 # rest" using assms by (cases s) auto
  show thesis
  proof (cases "lead c1")
    case True
    show thesis
    proof (cases "n = 1")
      case False
      with assms s obtain c2 rest' where "rest = c2 # rest'" by (cases rest) auto
      moreover have "char_ok (wide2 c1 c2)"
        using True lead_nonzero by (auto simp: char_ok_def)
      ultimately show thesis
        using char [of "wide2 c1 c2" rest'] True lead_nonzero False assms s
        by (auto simp: mb_bytes_wide2)
    qed (use cut s True in auto)
  next
    case False
    show thesis
    proof (cases "single c1")
      case True
      then have "char_ok (ucast c1)" by (simp add: char_ok_def)
      with char [of "ucast c1" rest] s assms show thesis by auto
    qed (use bad s False in auto)
  qed
qed

lemma byte2short_bad:
  "cvs_src st = c1 # rest \<Longrightarrow> lead c1 \<and> cvs_src_len st = 1 \<or> \<not> lead c1 \<and> \<not> single c1 \<Longrightarrow>
   mb_byte2short_body lead single st = cv_break CS_BAD_INPUT st"
  by (auto simp: mb_byte2short_body_def cv_peek_def)

lemma byte2short_pass:
  assumes "cv_ok 1 2 st" "mb_guard st"
  shows "cv_pass_ok 1 2 st (mb_byte2short_body lead single st)"
proof -
  from assms have "0 < cvs_src_len st" "cvs_src_len st \<le> length (cvs_src st)"
    by (auto simp: cv_ok_def mb_guard_def)
  then show ?thesis
  proof (cases rule: source_cases)
    case (char w rest)
    then have "cv_fits 1 2 (length (mb_bytes w)) [w] st"
      using assms by (auto simp: cv_ok_def cv_fits_def mb_guard_def)
    moreover have "0 < length (mb_bytes w)" by (simp add: mb_bytes_def)
    ultimately show ?thesis
      using byte2short_next [OF char(1,2)] by (simp add: cv_pass_ok_adv)
  qed (auto simp: byte2short_bad cv_pass_ok_break cs_codes)
qed

end

sublocale two_byte_code \<subseteq> b2s: cs_decoder mb_guard "mb_byte2short_body lead single" 1 2
  mb_bytes "\<lambda>w. [w]" char_ok
proof unfold_locales
  show "mb_guard st \<Longrightarrow> 0 < cvs_src_len st" for st
    by (simp add: mb_guard_def)
  show "cv_ok 1 2 st \<Longrightarrow> mb_guard st \<Longrightarrow>
      cv_pass_ok 1 2 st (mb_byte2short_body lead single st)" for st
    by (rule byte2short_pass)
  show "mb_guard st \<and> mb_byte2short_body lead single st =
      Some (Next (cv_adv 1 2 (length (mb_bytes w)) [w] st))"
    if "char_ok w" "cvs_src st = mb_bytes w @ rest" "cv_fits 1 2 (length (mb_bytes w)) [w] st"
    for w st rest
    using byte2short_next [OF that] that(3)
    by (auto simp: mb_guard_def cv_fits_def mb_bytes_def split: if_splits)
qed auto

context two_byte_code
begin

subsection \<open>Checking, and reading one character\<close>

lemma check_char:
  "char_ok w \<Longrightarrow> mb_check lead single (mb_bytes w @ rest) (length (mb_bytes w) + n) =
     mb_check lead single rest n"
  by (erule mb_bytes_cases) simp_all

lemma check_chars:
  "\<forall>w \<in> set ws. char_ok w \<Longrightarrow>
   mb_check lead single (concat (map mb_bytes ws) @ rest) (length (concat (map mb_bytes ws)) + n) =
     mb_check lead single rest n"
  by (induction ws) (simp_all add: check_char add.assoc)

lemma mbtowc_char:
  "char_ok w \<Longrightarrow> length (mb_bytes w) \<le> n \<Longrightarrow>
   mb_mbtowc lead single (mb_bytes w @ rest) n = Some (int (length (mb_bytes w)), Some w)"
  by (erule mb_bytes_cases) (auto simp: mb_mbtowc_def)

text \<open>
  Every byte string is a sequence of characters followed by nothing, or by bytes no character
  starts with. What \<open>mb_check\<close>, \<open>mb_mbtowc\<close> and \<open>byte2short\<close> say follows from the split.
\<close>

definition stuck :: "u8 list \<Rightarrow> bool" where
  "stuck s \<longleftrightarrow> (\<exists>c1. s = [c1] \<and> lead c1) \<or> (\<exists>c1 rest. s = c1 # rest \<and> \<not> lead c1 \<and> \<not> single c1)"

lemma split_text:
  "\<exists>ws rest. s = concat (map mb_bytes ws) @ rest \<and> (\<forall>w \<in> set ws. char_ok w) \<and>
     (rest = [] \<or> stuck rest)"
proof (induction s rule: length_induct)
  case (1 s)
  show ?case
  proof (cases "s = []")
    case True
    then show ?thesis by (intro exI [of _ "[]"]) simp
  next
    case False
    then have "0 < length s" "length s \<le> length s" by simp_all
    then show ?thesis
    proof (cases rule: source_cases)
      case (char w rest)
      have "length rest < length s" using char(2) by (simp add: mb_bytes_def)
      with 1 obtain ws r where "rest = concat (map mb_bytes ws) @ r"
        "\<forall>w \<in> set ws. char_ok w" "r = [] \<or> stuck r" by blast
      with char show ?thesis by (intro exI [of _ "w # ws"] exI [of _ r]) simp
    next
      case (cut c1 rest)
      then show ?thesis by (intro exI [of _ "[]"] exI [of _ s]) (simp add: stuck_def)
    next
      case (bad c1 rest)
      then show ?thesis by (intro exI [of _ "[]"] exI [of _ s]) (simp add: stuck_def)
    qed
  qed
qed

lemma check_stuck: "stuck s \<Longrightarrow> mb_check lead single s (length s) = Some 1"
  by (auto simp: stuck_def)

lemma mbtowc_stuck: "stuck s \<Longrightarrow> mb_mbtowc lead single s (length s) = Some (-1, None)"
  by (auto simp: stuck_def mb_mbtowc_def)

lemma byte2short_stuck:
  "stuck (cvs_src st) \<Longrightarrow> cvs_src_len st = length (cvs_src st) \<Longrightarrow>
   mb_byte2short_body lead single st = cv_break CS_BAD_INPUT st"
  by (auto simp: stuck_def byte2short_bad)

definition well_formed :: "u8 list \<Rightarrow> bool" where
  "well_formed s \<longleftrightarrow> (\<exists>ws. s = concat (map mb_bytes ws) \<and> (\<forall>w \<in> set ws. char_ok w))"

lemma check_spec:
  "mb_check lead single s (length s) = Some (if well_formed s then 0 else 1)"
proof -
  obtain ws rest where s: "s = concat (map mb_bytes ws) @ rest" "\<forall>w \<in> set ws. char_ok w"
    "rest = [] \<or> stuck rest" using split_text [of s] by blast
  have c: "mb_check lead single s (length s) = mb_check lead single rest (length rest)"
    using check_chars [OF s(2), of rest "length rest"] s(1) by simp
  from s(3) show ?thesis
  proof
    assume "rest = []"
    then show ?thesis using s c by (auto simp: well_formed_def)
  next
    assume st: "stuck rest"
    have "\<not> well_formed s"
    proof
      assume "well_formed s"
      then obtain vs where "s = concat (map mb_bytes vs)" "\<forall>w \<in> set vs. char_ok w"
        by (auto simp: well_formed_def)
      then have "mb_check lead single s (length s) = Some 0"
        using check_chars [of vs "[]" 0] by simp
      with c check_stuck [OF st] show False by simp
    qed
    with c check_stuck [OF st] show ?thesis by simp
  qed
qed

text \<open>\<open>byte2short\<close> into a buffer of the estimated size.\<close>

lemma bytes_bounds: "length ws \<le> length (concat (map mb_bytes ws))"
  by (induction ws) (auto simp: mb_bytes_def)

lemma byte2short_spec:
  assumes "2 * length s < 65536"
  shows "\<exists>ws rest. s = concat (map mb_bytes ws) @ rest \<and> (\<forall>w \<in> set ws. char_ok w) \<and>
      (rest = [] \<longleftrightarrow> well_formed s) \<and> (rest = [] \<or> stuck rest) \<and>
      do { st \<leftarrow> while_loop mb_guard (mb_byte2short_body lead single)
                (cv_start s (length s) (2 * length s) (length s));
           Some (cv_finish 2 (length s) (cv_truncated st)) } =
      Some \<lparr>cv_ret = 2 * length ws, cv_out = ws, cv_err = (if rest = [] then 0 else CS_BAD_INPUT),
            cv_pos = Some (length s - length rest)\<rparr>"
proof -
  obtain ws rest where s: "s = concat (map mb_bytes ws) @ rest" "\<forall>w \<in> set ws. char_ok w"
    "rest = [] \<or> stuck rest" using split_text [of s] by blast
  have one: "concat (map (\<lambda>w. [w]) ws) = ws" by (induction ws) auto
  note b = bytes_bounds [of ws]
  let ?st = "cv_start s (length s) (2 * length s) (length s) :: (u8, u16) cv_state"
  let ?st' = "cv_adv 1 2 (length (concat (map mb_bytes ws))) ws ?st"
  have run: "while_loop mb_guard (mb_byte2short_body lead single) ?st =
      while_loop mb_guard (mb_byte2short_body lead single) ?st'"
    using b2s.run_prefix [OF s(2), of ?st rest] assms s(1) b
    by (simp add: cv_start_def cv_fits_def one)
  have st': "cvs_src ?st' = rest" "cvs_src_len ?st' = length rest" "cvs_dest ?st' = ws"
    "cvs_err ?st' = 0" "cvs_dest_len ?st' = 2 * length s - 2 * length ws"
    using s(1) by (simp_all add: cv_adv_def cv_start_def)
  have w: "rest = [] \<longleftrightarrow> well_formed s"
  proof -
    have "mb_check lead single s (length s) = mb_check lead single rest (length rest)"
      using check_chars [OF s(2), of rest "length rest"] s(1) by simp
    moreover have "mb_check lead single rest (length rest) = Some (if rest = [] then 0 else 1)"
      using s(3) check_stuck [of rest] by (cases "rest = []") simp_all
    ultimately have "(if well_formed s then 0 else 1 :: nat) = (if rest = [] then 0 else 1)"
      by (simp only: check_spec option.inject)
    then show ?thesis by (cases "rest = []"; cases "well_formed s") simp_all
  qed
  show ?thesis
  proof (cases "rest = []")
    case True
    then have "\<not> mb_guard ?st'" using st' by (simp add: mb_guard_def)
    with run st' True s w assms b show ?thesis
      by (intro exI [of _ ws] exI [of _ rest]) (simp add: cv_finish_def cv_truncated_def)
  next
    case False
    with s(3) have k: "stuck rest" by simp
    have g: "mb_guard ?st'"
      using st' False s(1) b by (cases rest) (auto simp: mb_guard_def)
    have bd: "mb_byte2short_body lead single ?st' = cv_break CS_BAD_INPUT ?st'"
      using k st' by (intro byte2short_stuck) simp_all
    have "while_loop mb_guard (mb_byte2short_body lead single) ?st' =
        Some (?st'\<lparr>cvs_err := CS_BAD_INPUT\<rparr>)"
      by (rule while_loop_break) (use g bd in \<open>simp_all only: cv_break_def\<close>)
    with run st' False s w assms b show ?thesis
      by (intro exI [of _ ws] exI [of _ rest])
        (simp add: cv_finish_def cv_truncated_def cs_codes)
  qed
qed

end

context two_byte_code
begin

lemma byte2short_check:
  assumes "2 * length s < 65536"
  shows "\<exists>ws pos err.
      do { st \<leftarrow> while_loop mb_guard (mb_byte2short_body lead single)
                (cv_start s (length s) (2 * length s) (length s));
           Some (cv_finish 2 (length s) (cv_truncated st)) } =
        Some \<lparr>cv_ret = 2 * length ws, cv_out = ws, cv_err = err, cv_pos = Some pos\<rparr> \<and>
      take pos s = concat (map mb_bytes ws) \<and>
      mb_check lead single s (length s) = Some (if err = 0 then 0 else 1) \<and>
      (if err = 0 then pos = length s
       else err = CS_BAD_INPUT \<and>
         mb_mbtowc lead single (drop pos s) (length s - pos) = Some (-1, None))"
proof -
  obtain ws rest where s: "s = concat (map mb_bytes ws) @ rest" "\<forall>w \<in> set ws. char_ok w"
    "rest = [] \<longleftrightarrow> well_formed s" "rest = [] \<or> stuck rest"
    and r: "do { st \<leftarrow> while_loop mb_guard (mb_byte2short_body lead single)
                (cv_start s (length s) (2 * length s) (length s));
           Some (cv_finish 2 (length s) (cv_truncated st)) } =
      Some \<lparr>cv_ret = 2 * length ws, cv_out = ws, cv_err = (if rest = [] then 0 else CS_BAD_INPUT),
            cv_pos = Some (length s - length rest)\<rparr>"
    using byte2short_spec [OF assms] by blast
  have c: "mb_check lead single s (length s) = Some (if rest = [] then 0 else 1)"
    using check_spec [of s] s(3) by simp
  have l: "length s - length rest = length (concat (map mb_bytes ws))"
    by (subst s(1)) simp
  then have t: "take (length s - length rest) s = concat (map mb_bytes ws)"
    "drop (length s - length rest) s = rest"
    using s(1) by simp_all
  have n: "length s - (length s - length rest) = length rest"
    by (subst (1 2) s(1)) simp
  show ?thesis
    by (intro exI [of _ ws] exI [of _ "length s - length rest"]
        exI [of _ "if rest = [] then 0 else CS_BAD_INPUT"] conjI r t(1))
      (use c n t(2) s(4) mbtowc_stuck [of rest] in \<open>auto simp: cs_codes\<close>)
qed

end

section \<open>To Unicode and from Unicode\<close>

definition mapped :: "(nat \<Rightarrow> u16) \<Rightarrow> (nat \<Rightarrow> u16) \<Rightarrow> u16 \<Rightarrow> bool" where
  "mapped d m w \<longleftrightarrow> via16 d m w \<noteq> 0 \<or> w = 0"

lemma mb_store_mapped:
  "mb_store (CV_convert_init t f fn (Short_Table d) (Short_Table m)) w n st =
     (if mapped d m w
      then do { st1 \<leftarrow> cv_write (via16 d m w) st; Some (Next (cv_took n (cv_gave 2 st1))) }
      else cv_break CS_CONVERT_ERROR st)"
  by (auto simp: mb_store_def mapped_def cs_codes unat_eq_0)

context two_byte_code
begin

lemma to_unicode_next:
  assumes "text_ok w" "mapped d m w" "cvs_src st = mb_bytes w @ rest"
    and "cv_fits 1 2 (length (mb_bytes w)) [v] st" "v = via16 d m w"
  shows "mb_to_unicode_body lead trail
      (CV_convert_init t f fn (Short_Table d) (Short_Table m)) st =
    Some (Next (cv_adv 1 2 (length (mb_bytes w)) [v] st))"
  using text_char_ok [OF assms(1)]
proof (cases rule: mb_bytes_cases)
  case one
  then have "unat (lo8 w) < 128" using assms(1) by (simp add: text_ok_def)
  then show ?thesis
    using one assms
    by (simp add: mb_to_unicode_body_def mb_store_mapped and_0x80 cv_simps cv_fits_def cv_adv_def)
next
  case two
  then have "trail (lo8 w)" "128 \<le> unat (hi8 w)"
    using assms(1) lead_high by (simp_all add: text_ok_def)
  then show ?thesis
    using two assms
    by (simp add: mb_to_unicode_body_def mb_store_mapped and_0x80 cv_simps cv_fits_def cv_adv_def
        numeral_2_eq_2)
qed

lemma to_unicode_pass:
  assumes "cv_ok 1 2 st" "mb_guard st"
  shows "cv_pass_ok 1 2 st (mb_to_unicode_body lead trail
      (CV_convert_init t f fn (Short_Table d) (Short_Table m)) st)"
proof -
  from assms have n: "0 < cvs_src_len st" "cvs_src_len st \<le> length (cvs_src st)"
    by (auto simp: cv_ok_def mb_guard_def)
  note brk = mb_to_unicode_body_def mb_store_mapped cv_read_def cv_break_def cv_pass_ok_def
    cv_stopped_def cs_codes
  from n show ?thesis
  proof (cases rule: source_cases)
    case (char w rest)
    then have f: "cv_fits 1 2 (length (mb_bytes w)) [via16 d m w] st"
      using assms by (auto simp: cv_ok_def cv_fits_def mb_guard_def)
    show ?thesis
    proof (cases "text_ok w \<and> mapped d m w")
      case True
      moreover have "0 < length (mb_bytes w)" by (simp add: mb_bytes_def)
      ultimately show ?thesis
        using to_unicode_next [OF _ _ char(2) f refl] f by (simp add: cv_pass_ok_adv)
    next
      case no: False
      from char(1) show ?thesis
      proof (cases rule: mb_bytes_cases)
        case one
        with no char show ?thesis by (auto simp: brk text_ok_def and_0x80)
      next
        case two
        with no char show ?thesis
          using lead_high [of "hi8 w"] by (auto simp: brk text_ok_def and_0x80)
      qed
    qed
  next
    case (cut c1 rest)
    then show ?thesis using lead_high by (auto simp: brk and_0x80)
  next
    case (bad c1 rest)
    then show ?thesis using single_low [of c1] by (auto simp: brk and_0x80)
  qed
qed

end

sublocale two_byte_code \<subseteq> tou: cs_decoder mb_guard
  "mb_to_unicode_body lead trail (CV_convert_init t f fn (Short_Table d) (Short_Table m))" 1 2
  mb_bytes "\<lambda>w. [via16 d m w]" "\<lambda>w. text_ok w \<and> mapped d m w"
  for t f fn d m
proof unfold_locales
  show "cv_ok 1 2 st \<Longrightarrow> mb_guard st \<Longrightarrow> cv_pass_ok 1 2 st (mb_to_unicode_body lead trail
      (CV_convert_init t f fn (Short_Table d) (Short_Table m)) st)" for st
    by (rule to_unicode_pass)
  show "mb_guard st \<and> mb_to_unicode_body lead trail
        (CV_convert_init t f fn (Short_Table d) (Short_Table m)) st =
      Some (Next (cv_adv 1 2 (length (mb_bytes w)) [via16 d m w] st))"
    if "text_ok w \<and> mapped d m w" "cvs_src st = mb_bytes w @ rest"
      "cv_fits 1 2 (length (mb_bytes w)) [via16 d m w] st"
    for w st rest
    using to_unicode_next [OF _ _ that(2,3) refl] that(1,3)
    by (auto simp: mb_guard_def cv_fits_def mb_bytes_def split: if_splits)
qed

lemma unicode_to_mb_next:
  assumes "mapped d m w" "cvs_src st = w # rest" "cv_fits 2 1 1 (mb_bytes (via16 d m w)) st"
  shows "unicode_to_mb_body (CV_convert_init t f fn (Short_Table d) (Short_Table m)) st =
    Some (Next (cv_adv 2 1 1 (mb_bytes (via16 d m w)) st))"
  using assms
  by (simp add: unicode_to_mb_body_def mapped_def cs_codes unat_eq_0 mb_bytes_def cv_simps
      cv_fits_def cv_adv_def split: if_splits)

lemma unicode_to_mb_pass:
  assumes "cv_ok 2 1 st" "unicode_to_nc_guard st"
  shows "cv_pass_ok 2 1 st
    (unicode_to_mb_body (CV_convert_init t f fn (Short_Table d) (Short_Table m)) st)"
proof -
  obtain w rest where s: "cvs_src st = w # rest"
    using cv_src_Cons [OF assms(1)] assms(2) by (auto simp: unicode_to_nc_guard_def)
  note brk = unicode_to_mb_body_def cv_read_def cv_break_def cv_pass_ok_def cv_stopped_def cs_codes
  show ?thesis
  proof (cases "mapped d m w")
    case False
    with s show ?thesis by (auto simp: brk mapped_def unat_eq_0)
  next
    case True
    show ?thesis
    proof (cases "cv_fits 2 1 1 (mb_bytes (via16 d m w)) st")
      case f: True
      with unicode_to_mb_next [OF True s] show ?thesis by (simp add: cv_pass_ok_adv)
    next
      case False
      then have "hi8 (via16 d m w) \<noteq> 0 \<and> cvs_dest_len st < 2"
        using assms by (auto simp: mb_bytes_def cv_ok_def cv_fits_def unicode_to_nc_guard_def
            split: if_splits)
      with s True show ?thesis by (auto simp: brk mapped_def unat_eq_0)
    qed
  qed
qed

interpretation fru: cs_decoder unicode_to_nc_guard
  "unicode_to_mb_body (CV_convert_init t f fn (Short_Table d) (Short_Table m))" 2 1
  "\<lambda>w. [w]" "\<lambda>w. mb_bytes (via16 d m w)" "mapped d m"
  for t f fn d m
proof unfold_locales
  show "cv_ok 2 1 st \<Longrightarrow> unicode_to_nc_guard st \<Longrightarrow> cv_pass_ok 2 1 st
      (unicode_to_mb_body (CV_convert_init t f fn (Short_Table d) (Short_Table m)) st)" for st
    by (rule unicode_to_mb_pass)
  show "unicode_to_nc_guard st \<and>
      unicode_to_mb_body (CV_convert_init t f fn (Short_Table d) (Short_Table m)) st =
      Some (Next (cv_adv 2 1 (length [w]) (mb_bytes (via16 d m w)) st))"
    if "mapped d m w" "cvs_src st = [w] @ rest"
      "cv_fits 2 1 (length [w]) (mb_bytes (via16 d m w)) st" for w :: u16 and st rest
    using unicode_to_mb_next [OF that(1), of st rest] that(2,3)
    by (auto simp: unicode_to_nc_guard_def cv_fits_def mb_bytes_def split: if_splits)
qed

lemmas unicode_to_mb_decode = fru.decode_all
lemmas unicode_to_mb_safe = fru.report_safe

lemma mb_bytes_bounds:
  "length ws \<le> length (concat (map mb_bytes ws)) \<and>
   length (concat (map mb_bytes ws)) \<le> 2 * length ws"
  by (induction ws) (auto simp: mb_bytes_def)

context two_byte_code
begin

text \<open>Text to Unicode and back, through tables that are inverse on the text.\<close>

lemma roundtrip:
  assumes tx: "\<forall>w \<in> set ws. text_ok w \<and> mapped d m w \<and> mapped d' m' (via16 d m w) \<and>
      via16 d' m' (via16 d m w) = w"
    and "2 * length (concat (map mb_bytes ws)) < 65536"
  defines "s \<equiv> concat (map mb_bytes ws)"
  shows "do { st \<leftarrow> while_loop mb_guard (mb_to_unicode_body lead trail
                     (CV_convert_init t f fn (Short_Table d) (Short_Table m)))
                   (cv_start s (length s) (2 * length s) (length s));
              Some (cv_finish 2 (length s) (cv_truncated st)) } =
         Some \<lparr>cv_ret = 2 * length ws, cv_out = map (via16 d m) ws, cv_err = 0,
               cv_pos = Some (length s)\<rparr>"
    and "do { st \<leftarrow> while_loop unicode_to_nc_guard (unicode_to_mb_body
                     (CV_convert_init t' f' fn' (Short_Table d') (Short_Table m')))
                   (cv_start (map (via16 d m) ws) (2 * length ws) (2 * length ws) (2 * length ws));
              Some (cv_finish 1 (2 * length ws) (cv_truncated st)) } =
         Some \<lparr>cv_ret = length s, cv_out = s, cv_err = 0, cv_pos = Some (2 * length ws)\<rparr>"
proof -
  note b = mb_bytes_bounds [of ws]
  have ok: "\<forall>w \<in> set ws. text_ok w \<and> mapped d m w"
    "\<forall>w \<in> set (map (via16 d m) ws). mapped d' m' w" using tx by auto
  have "map (\<lambda>w. mb_bytes (via16 d' m' (via16 d m w))) ws = map mb_bytes ws"
    using tx by simp
  then have r: "concat (map (\<lambda>w. mb_bytes (via16 d' m' w)) (map (via16 d m) ws)) = s"
    by (simp only: s_def list.map_comp comp_def)
  have c: "concat (map (\<lambda>w. [w]) xs) = xs" for xs :: "u16 list" by (induction xs) auto
  show "do { st \<leftarrow> while_loop mb_guard (mb_to_unicode_body lead trail
                     (CV_convert_init t f fn (Short_Table d) (Short_Table m)))
                   (cv_start s (length s) (2 * length s) (length s));
              Some (cv_finish 2 (length s) (cv_truncated st)) } =
         Some \<lparr>cv_ret = 2 * length ws, cv_out = map (via16 d m) ws, cv_err = 0,
               cv_pos = Some (length s)\<rparr>"
    using tou.decode_all [OF ok(1), of "length s" "2 * length s" "length s" cv_truncated] b assms(2)
    by (simp add: s_def)
  show "do { st \<leftarrow> while_loop unicode_to_nc_guard (unicode_to_mb_body
                     (CV_convert_init t' f' fn' (Short_Table d') (Short_Table m')))
                   (cv_start (map (via16 d m) ws) (2 * length ws) (2 * length ws) (2 * length ws));
              Some (cv_finish 1 (2 * length ws) (cv_truncated st)) } =
         Some \<lparr>cv_ret = length s, cv_out = s, cv_err = 0, cv_pos = Some (2 * length ws)\<rparr>"
    using unicode_to_mb_decode [OF ok(2), of "2 * length ws" "2 * length ws" "2 * length ws"
      cv_truncated t' f' fn', unfolded c r] b assms(2)
    by (simp add: s_def)
qed

end

end
