(* ===== verification/Cv_Ksc.thy ===== *)
theory Cv_Ksc
  imports Cv_Multi
begin

text \<open>
  \<open>intl/cv_ksc.c\<close>: KSC-5601 text to and from Unicode, its well-formedness check, its packing into
  shorts and its single-character reader. The byte classes are the macros of \<open>intl/cv_ksc.h\<close>.
\<close>

section \<open>Byte classes\<close>

definition KSC1 :: "u8 \<Rightarrow> bool" where
  "KSC1 uc \<longleftrightarrow> uc AND 0x80 \<noteq> 0"

definition KSC2 :: "u8 \<Rightarrow> bool" where
  "KSC2 uc \<longleftrightarrow> 0x41 \<le> unat uc"

section \<open>To Unicode\<close>

definition ksc_store ::
  "csconvert \<Rightarrow> u16 \<Rightarrow> nat \<Rightarrow> (u8, u16) cv_state \<Rightarrow> (u8, u16) cv_state pass option" where
  "ksc_store obj wide this_len st =
     do { ch \<leftarrow> two_level obj wide;
          if unat ch = CS_CANT_MAP \<and> unat wide \<noteq> CS_CANT_MAP
          then cv_break CS_CONVERT_ERROR st
          else do { st1 \<leftarrow> cv_write ch st;
                    Some (Next (cv_took this_len (cv_gave 2 st1))) } }"

definition ksc_to_unicode_guard :: "(u8, u16) cv_state \<Rightarrow> bool" where
  "ksc_to_unicode_guard st \<longleftrightarrow> cvs_src_len st \<noteq> 0 \<and> 1 < cvs_dest_len st"

definition ksc_to_unicode_body ::
  "csconvert \<Rightarrow> (u8, u16) cv_state \<Rightarrow> (u8, u16) cv_state pass option" where
  "ksc_to_unicode_body obj st =
     do { c \<leftarrow> cv_peek st;
          if c AND 0x80 \<noteq> 0
          then do { (c1, st1) \<leftarrow> cv_read st;
                    if KSC1 c1
                    then (if cvs_src_len st1 = 1 then cv_break CS_BAD_INPUT st1
                          else do { (c2, st2) \<leftarrow> cv_read st1;
                                    if \<not> KSC2 c2 then cv_break CS_BAD_INPUT st2
                                    else ksc_store obj (wide2 c1 c2) 2 st2 })
                    else cv_break CS_BAD_INPUT st1 }
          else do { (c1, st1) \<leftarrow> cv_read st;
                    ksc_store obj (ucast c1) 1 st1 } }"

definition CVKSC_ksc_to_unicode ::
  "csconvert \<Rightarrow> nat option \<Rightarrow> nat \<Rightarrow> u8 list \<Rightarrow> nat \<Rightarrow> u16 cv_result option" where
  "CVKSC_ksc_to_unicode obj dest dest_len src src_len =
     (case dest of
        None \<Rightarrow> Some (cv_estimate (src_len * 2))
      | Some room \<Rightarrow>
          do { st \<leftarrow> while_loop ksc_to_unicode_guard (ksc_to_unicode_body obj)
                      (cv_start src src_len dest_len room);
               Some (cv_finish 2 src_len (cv_truncated st)) })"

section \<open>From Unicode\<close>

definition unicode_to_ksc_guard :: "(u16, u8) cv_state \<Rightarrow> bool" where
  "unicode_to_ksc_guard st \<longleftrightarrow> cvs_dest_len st \<noteq> 0 \<and> 1 < cvs_src_len st"

definition unicode_to_ksc_body ::
  "csconvert \<Rightarrow> (u16, u8) cv_state \<Rightarrow> (u16, u8) cv_state pass option" where
  "unicode_to_ksc_body obj st =
     do { (wide, st1) \<leftarrow> cv_read st;
          ch \<leftarrow> two_level obj wide;
          if unat ch = CS_CANT_MAP \<and> unat wide \<noteq> CS_CANT_MAP
          then cv_break CS_CONVERT_ERROR st1
          else if unat ch div 256 = 0
          then do { st2 \<leftarrow> cv_write (word_of_nat (unat ch mod 256)) st1;
                    Some (Next (cv_took 2 (cv_gave 1 st2))) }
          else if cvs_dest_len st1 < 2 then cv_break CS_TRUNCATION_ERROR st1
          else do { st2 \<leftarrow> cv_write (word_of_nat (unat ch div 256)) st1;
                    st3 \<leftarrow> cv_write (word_of_nat (unat ch mod 256)) st2;
                    Some (Next (cv_gave 2 (cv_took 2 st3))) } }"

definition CVKSC_unicode_to_ksc ::
  "csconvert \<Rightarrow> nat option \<Rightarrow> nat \<Rightarrow> u16 list \<Rightarrow> nat \<Rightarrow> u8 cv_result option" where
  "CVKSC_unicode_to_ksc obj dest dest_len unicode_str unicode_len =
     (case dest of
        None \<Rightarrow> Some (cv_estimate unicode_len)
      | Some room \<Rightarrow>
          do { st \<leftarrow> while_loop unicode_to_ksc_guard (unicode_to_ksc_body obj)
                      (cv_start unicode_str unicode_len dest_len room);
               Some (cv_finish 1 unicode_len (cv_truncated st)) })"

section \<open>Checking, packing, reading one character\<close>

fun CVKSC_check_ksc :: "u8 list \<Rightarrow> nat \<Rightarrow> nat option" where
  "CVKSC_check_ksc s 0 = Some 0"
| "CVKSC_check_ksc s (Suc n) =
     (case s of
        [] \<Rightarrow> None
      | c1 # s1 \<Rightarrow>
          if KSC1 c1
          then (if n = 0 then Some 1 else CVKSC_check_ksc (drop 2 s) (n - 1))
          else if 0x7F < unat c1 then Some 1
          else CVKSC_check_ksc s1 n)"

definition ksc_byte2short_guard :: "(u8, u16) cv_state \<Rightarrow> bool" where
  "ksc_byte2short_guard st \<longleftrightarrow> cvs_src_len st \<noteq> 0 \<and> 1 < cvs_dest_len st"

definition ksc_byte2short_body :: "(u8, u16) cv_state \<Rightarrow> (u8, u16) cv_state pass option" where
  "ksc_byte2short_body st =
     do { c \<leftarrow> cv_peek st;
          if KSC1 c
          then (if cvs_src_len st < 2 then cv_break CS_BAD_INPUT st
                else do { (c1, st1) \<leftarrow> cv_read st;
                          (c2, st2) \<leftarrow> cv_read st1;
                          st3 \<leftarrow> cv_write (wide2 c1 c2) (cv_took 2 st2);
                          Some (Next (cv_gave 2 st3)) })
          else if 0x7F < unat c then cv_break CS_BAD_INPUT st
          else do { (c1, st1) \<leftarrow> cv_read st;
                    st2 \<leftarrow> cv_write (ucast c1) (cv_took 1 st1);
                    Some (Next (cv_gave 2 st2)) } }"

definition CVKSC_ksc_byte2short ::
  "nat option \<Rightarrow> nat \<Rightarrow> u8 list \<Rightarrow> nat \<Rightarrow> u16 cv_result option" where
  "CVKSC_ksc_byte2short dst dst_len src src_len =
     (case dst of
        None \<Rightarrow> Some (cv_estimate (2 * src_len))
      | Some room \<Rightarrow>
          do { st \<leftarrow> while_loop ksc_byte2short_guard ksc_byte2short_body
                      (cv_start src src_len dst_len room);
               Some (cv_finish 2 src_len (cv_truncated st)) })"

text \<open>The return value, and what is stored at \<open>wc\<close> when it is not \<open>NULL\<close>.\<close>

definition CVKSC_ksc_mbtowc :: "u8 list \<Rightarrow> nat \<Rightarrow> (int \<times> u16 option) option" where
  "CVKSC_ksc_mbtowc src src_len =
     (if src_len = 0 then Some (-1, None)
      else do { c1 \<leftarrow> (case src of [] \<Rightarrow> None | c # _ \<Rightarrow> Some c);
                if KSC1 c1
                then (if src_len < 2 then Some (-1, None)
                      else do { c2 \<leftarrow> (case src of _ # c # _ \<Rightarrow> Some c | _ \<Rightarrow> None);
                                Some (2, Some (wide2 c1 c2)) })
                else if 0x7F < unat c1 then Some (-1, None)
                else Some (1, Some (ucast c1)) })"

section \<open>The code keeps the contract\<close>

definition ksc_single :: "u8 \<Rightarrow> bool" where
  "ksc_single b \<longleftrightarrow> \<not> 0x7F < unat b"

interpretation ksc: two_byte_code KSC1 KSC2 ksc_single
  by unfold_locales (auto simp: KSC1_def ksc_single_def and_0x80)

lemma ksc_shapes:
  "ksc_to_unicode_guard = mb_guard" "ksc_byte2short_guard = mb_guard"
  "unicode_to_ksc_guard = unicode_to_nc_guard"
  "ksc_to_unicode_body = mb_to_unicode_body KSC1 KSC2"
  "unicode_to_ksc_body = unicode_to_mb_body"
  "ksc_byte2short_body = mb_byte2short_body KSC1 ksc_single"
proof -
  show "ksc_to_unicode_body = mb_to_unicode_body KSC1 KSC2"
    by (auto simp: fun_eq_iff ksc_to_unicode_body_def mb_to_unicode_body_def cv_peek_def cv_read_def
        ksc_store_def mb_store_def split: list.split)
  show "unicode_to_ksc_body = unicode_to_mb_body"
    by (simp only: fun_eq_iff unicode_to_ksc_body_def unicode_to_mb_body_def word_of_div word_of_mod
        hi8_eq_0 simp_thms)
qed (auto simp: fun_eq_iff ksc_to_unicode_guard_def ksc_byte2short_guard_def mb_guard_def
    unicode_to_ksc_guard_def unicode_to_nc_guard_def ksc_byte2short_body_def mb_byte2short_body_def
    cv_peek_def cv_read_def ksc_single_def split: list.split)

lemma ksc_check_shape: "CVKSC_check_ksc s n = mb_check KSC1 ksc_single s n"
  by (induction s n rule: CVKSC_check_ksc.induct) (auto simp: ksc_single_def split: list.split)

lemma ksc_mbtowc_shape: "CVKSC_ksc_mbtowc s n = mb_mbtowc KSC1 ksc_single s n"
  by (auto simp: CVKSC_ksc_mbtowc_def mb_mbtowc_def ksc_single_def split: list.split)

lemma ksc_convert_safe:
  assumes "slen < 65536" and "dlen < 65536"
    and "slen \<le> length bytes" and "slen \<le> 2 * length wides" and "dlen \<le> room"
    and obj: "obj = CV_convert_init t f fn (Short_Table d) (Short_Table m)"
  shows "cv_safe 2 slen dlen (CVKSC_ksc_to_unicode obj (Some room) dlen bytes slen) \<and>
    cv_safe 1 slen dlen (CVKSC_unicode_to_ksc obj (Some room) dlen wides slen) \<and>
    cv_safe 2 slen dlen (CVKSC_ksc_byte2short (Some room) dlen bytes slen)"
proof (intro conjI)
  have ok: "cv_ok 1 2 (cv_start bytes slen dlen room :: (u8, u16) cv_state)"
    "cv_ok 2 1 (cv_start wides slen dlen room :: (u16, u8) cv_state)"
    using assms by (auto simp: cv_ok_def cv_start_def)
  show "cv_safe 2 slen dlen (CVKSC_ksc_to_unicode obj (Some room) dlen bytes slen)"
    using ksc.tou.report_safe [OF ok(1) disjI1 [OF refl]]
    by (simp add: CVKSC_ksc_to_unicode_def ksc_shapes obj)
  show "cv_safe 1 slen dlen (CVKSC_unicode_to_ksc obj (Some room) dlen wides slen)"
    using unicode_to_mb_safe [OF ok(2) disjI1 [OF refl]]
    by (simp add: CVKSC_unicode_to_ksc_def ksc_shapes obj)
  show "cv_safe 2 slen dlen (CVKSC_ksc_byte2short (Some room) dlen bytes slen)"
    using ksc.b2s.report_safe [OF ok(1) disjI1 [OF refl]]
    by (simp add: CVKSC_ksc_byte2short_def ksc_shapes)
qed

section \<open>Properties\<close>

text \<open>The characters of KSC-5601 text: ASCII, and a lead byte with a trail byte.\<close>

definition ksc_char :: "u16 \<Rightarrow> bool" where
  "ksc_char w \<longleftrightarrow> (if hi8 w = 0 then unat (lo8 w) < 0x80 else KSC1 (hi8 w) \<and> KSC2 (lo8 w))"

text \<open>KSC-5601 text converted to Unicode and back, through tables that are inverse on its
  characters and into buffers of the size the code's own estimates return, is the text, with no
  error reported on either way.\<close>

lemma ksc_unicode_roundtrip:
  assumes "\<forall>w \<in> set ws. ksc_char w \<and> mapped d m w \<and> mapped d' m' (via16 d m w) \<and>
      via16 d' m' (via16 d m w) = w"
    and "s = concat (map mb_bytes ws)" and "2 * length s < 65536"
    and "to_obj = CV_convert_init t f fn (Short_Table d) (Short_Table m)"
    and "from_obj = CV_convert_init t' f' fn' (Short_Table d') (Short_Table m')"
    and "CVKSC_ksc_to_unicode to_obj None 0 s (length s) = Some est"
    and "CVKSC_unicode_to_ksc from_obj None 0 wide (2 * length ws) = Some est'"
    and "wide = map (via16 d m) ws"
  shows "CVKSC_ksc_to_unicode to_obj (Some (length s)) (cv_ret est) s (length s) =
      Some \<lparr>cv_ret = 2 * length ws, cv_out = wide, cv_err = 0, cv_pos = Some (length s)\<rparr> \<and>
    CVKSC_unicode_to_ksc from_obj (Some (cv_ret est')) (cv_ret est') wide (2 * length ws) =
      Some \<lparr>cv_ret = length s, cv_out = s, cv_err = 0, cv_pos = Some (2 * length ws)\<rparr>"
proof -
  have est: "cv_ret est = 2 * length s" "cv_ret est' = 2 * length ws"
    using assms(2,3,6,7) mb_bytes_bounds [of ws]
    by (auto simp: CVKSC_ksc_to_unicode_def CVKSC_unicode_to_ksc_def cv_estimate_def)
  have tx: "\<forall>w \<in> set ws. ksc.text_ok w \<and> mapped d m w \<and> mapped d' m' (via16 d m w) \<and>
      via16 d' m' (via16 d m w) = w"
    using assms(1) by (simp add: ksc_char_def ksc.text_ok_def)
  show ?thesis
    using ksc.roundtrip(1) [OF tx, of t f fn] ksc.roundtrip(2) [OF tx, of t' f' fn'] assms(2-5,8)
    by (simp add: CVKSC_ksc_to_unicode_def CVKSC_unicode_to_ksc_def ksc_shapes est)
qed

lemma ksc_unicode_roundtrip_example:
  "CVKSC_unicode_to_ksc (CV_convert_init 0 8 Fn_CVKSC_unicode_to_ksc (Short_Table word_of_nat)
      (Short_Table (\<lambda>i. word_of_nat (256 * i)))) (Some 4) 4 [0x41, 0xB0A1] 4 =
    Some \<lparr>cv_ret = 3, cv_out = [0x41, 0xB0, 0xA1], cv_err = 0, cv_pos = Some 4\<rparr>"
  using ksc_unicode_roundtrip [of "[0x41, 0xB0A1]" word_of_nat "\<lambda>i. word_of_nat (256 * i)"
      word_of_nat "\<lambda>i. word_of_nat (256 * i)" "[0x41, 0xB0, 0xA1]"
      "CV_convert_init 8 0 Fn_CVKSC_ksc_to_unicode (Short_Table word_of_nat) (Short_Table (\<lambda>i. word_of_nat (256 * i)))"
      8 0 Fn_CVKSC_ksc_to_unicode
      "CV_convert_init 0 8 Fn_CVKSC_unicode_to_ksc (Short_Table word_of_nat) (Short_Table (\<lambda>i. word_of_nat (256 * i)))"
      0 8 Fn_CVKSC_unicode_to_ksc "cv_estimate 6" "[0x41, 0xB0A1]" "cv_estimate 4"]
  by (simp add: ksc_char_def mb_bytes_def hi8_def lo8_def via16_def mapped_def KSC1_def KSC2_def
      CVKSC_ksc_to_unicode_def CVKSC_unicode_to_ksc_def cv_estimate_def)

text \<open>The well-formedness check, the packing into shorts and the single-character reader
  agree: the check accepts a string exactly when packing it into a buffer of the estimated size
  reports no error; the shorts written are the characters of the part before the reported
  position, and at that position, if it is not the end, the reader finds no character.\<close>

lemma ksc_check_byte2short:
  assumes "2 * length s < 65536"
  shows "\<exists>ws pos err. CVKSC_ksc_byte2short (Some (length s)) (2 * length s) s (length s) =
        Some \<lparr>cv_ret = 2 * length ws, cv_out = ws, cv_err = err, cv_pos = Some pos\<rparr> \<and>
      take pos s = concat (map mb_bytes ws) \<and>
      CVKSC_check_ksc s (length s) = Some (if err = 0 then 0 else 1) \<and>
      (if err = 0 then pos = length s
       else err = CS_BAD_INPUT \<and>
         CVKSC_ksc_mbtowc (drop pos s) (length s - pos) = Some (-1, None))"
  using ksc.byte2short_check [OF assms]
  by (simp only: CVKSC_ksc_byte2short_def ksc_shapes ksc_check_shape ksc_mbtowc_shape option.case)

end
