(* ===== verification/Cv_Big5.thy ===== *)
theory Cv_Big5
  imports Cv_Multi
begin

text \<open>
  \<open>intl/cv_big5.c\<close>: Big5 text to and from Unicode, its well-formedness check, its packing into
  shorts and its single-character reader. The byte classes are the macros of \<open>intl/cv_big5.h\<close>.
\<close>

section \<open>Byte classes\<close>

definition BIG51 :: "u8 \<Rightarrow> bool" where
  "BIG51 uc \<longleftrightarrow> 0xA1 \<le> unat uc \<and> unat uc \<le> 0xFE"

definition BIG52 :: "u8 \<Rightarrow> bool" where
  "BIG52 uc \<longleftrightarrow> 0x40 \<le> unat uc \<and> unat uc \<le> 0xFE"

section \<open>To Unicode\<close>

definition big5_store ::
  "csconvert \<Rightarrow> u16 \<Rightarrow> nat \<Rightarrow> (u8, u16) cv_state \<Rightarrow> (u8, u16) cv_state pass option" where
  "big5_store obj wide this_len st =
     do { ch \<leftarrow> two_level obj wide;
          if unat ch = CS_CANT_MAP \<and> unat wide \<noteq> CS_CANT_MAP
          then cv_break CS_CONVERT_ERROR st
          else do { st1 \<leftarrow> cv_write ch st;
                    Some (Next (cv_took this_len (cv_gave 2 st1))) } }"

definition big5_to_unicode_guard :: "(u8, u16) cv_state \<Rightarrow> bool" where
  "big5_to_unicode_guard st \<longleftrightarrow> cvs_src_len st \<noteq> 0 \<and> 1 < cvs_dest_len st"

definition big5_to_unicode_body ::
  "csconvert \<Rightarrow> (u8, u16) cv_state \<Rightarrow> (u8, u16) cv_state pass option" where
  "big5_to_unicode_body obj st =
     do { c \<leftarrow> cv_peek st;
          if c AND 0x80 \<noteq> 0
          then do { (c1, st1) \<leftarrow> cv_read st;
                    if BIG51 c1
                    then (if cvs_src_len st1 = 1 then cv_break CS_BAD_INPUT st1
                          else do { (c2, st2) \<leftarrow> cv_read st1;
                                    if \<not> BIG52 c2 then cv_break CS_BAD_INPUT st2
                                    else big5_store obj (wide2 c1 c2) 2 st2 })
                    else cv_break CS_BAD_INPUT st1 }
          else do { (c1, st1) \<leftarrow> cv_read st;
                    big5_store obj (ucast c1) 1 st1 } }"

definition CVBIG5_big5_to_unicode ::
  "csconvert \<Rightarrow> nat option \<Rightarrow> nat \<Rightarrow> u8 list \<Rightarrow> nat \<Rightarrow> u16 cv_result option" where
  "CVBIG5_big5_to_unicode obj dest dest_len src src_len =
     (case dest of
        None \<Rightarrow> Some (cv_estimate (src_len * 2))
      | Some room \<Rightarrow>
          do { st \<leftarrow> while_loop big5_to_unicode_guard (big5_to_unicode_body obj)
                      (cv_start src src_len dest_len room);
               Some (cv_finish 2 src_len (cv_truncated st)) })"

section \<open>From Unicode\<close>

definition unicode_to_big5_guard :: "(u16, u8) cv_state \<Rightarrow> bool" where
  "unicode_to_big5_guard st \<longleftrightarrow> cvs_dest_len st \<noteq> 0 \<and> 1 < cvs_src_len st"

definition unicode_to_big5_body ::
  "csconvert \<Rightarrow> (u16, u8) cv_state \<Rightarrow> (u16, u8) cv_state pass option" where
  "unicode_to_big5_body obj st =
     do { (wide, st1) \<leftarrow> cv_read st;
          ch \<leftarrow> two_level obj wide;
          if unat ch = CS_CANT_MAP \<and> unat wide \<noteq> CS_CANT_MAP
          then cv_break CS_CONVERT_ERROR st1
          else if unat ch div 256 = 0
          then do { st2 \<leftarrow> cv_write (word_of_nat (unat ch mod 256)) st1;
                    Some (Next (cv_took 2 (cv_gave 1 st2))) }
          else if cvs_dest_len st1 < 2 then cv_break CS_TRUNCATION_ERROR st1
          else do { st2 \<leftarrow> cv_write (word_of_nat (unat ch div 256)) st1;
                    st3 \<leftarrow> cv_write (word_of_nat (unat ch mod 256)) st2;
                    Some (Next (cv_gave 2 (cv_took 2 st3))) } }"

definition CVBIG5_unicode_to_big5 ::
  "csconvert \<Rightarrow> nat option \<Rightarrow> nat \<Rightarrow> u16 list \<Rightarrow> nat \<Rightarrow> u8 cv_result option" where
  "CVBIG5_unicode_to_big5 obj dest dest_len unicode_str unicode_len =
     (case dest of
        None \<Rightarrow> Some (cv_estimate unicode_len)
      | Some room \<Rightarrow>
          do { st \<leftarrow> while_loop unicode_to_big5_guard (unicode_to_big5_body obj)
                      (cv_start unicode_str unicode_len dest_len room);
               Some (cv_finish 1 unicode_len (cv_truncated st)) })"

section \<open>Checking, packing, reading one character\<close>

fun CVBIG5_check_big5 :: "u8 list \<Rightarrow> nat \<Rightarrow> nat option" where
  "CVBIG5_check_big5 s 0 = Some 0"
| "CVBIG5_check_big5 s (Suc n) =
     (case s of
        [] \<Rightarrow> None
      | c1 # s1 \<Rightarrow>
          if BIG51 c1
          then (if n = 0 then Some 1 else CVBIG5_check_big5 (drop 2 s) (n - 1))
          else CVBIG5_check_big5 s1 n)"

definition big5_byte2short_guard :: "(u8, u16) cv_state \<Rightarrow> bool" where
  "big5_byte2short_guard st \<longleftrightarrow> cvs_src_len st \<noteq> 0 \<and> 1 < cvs_dest_len st"

definition big5_byte2short_body :: "(u8, u16) cv_state \<Rightarrow> (u8, u16) cv_state pass option" where
  "big5_byte2short_body st =
     do { c \<leftarrow> cv_peek st;
          if BIG51 c
          then (if cvs_src_len st < 2 then cv_break CS_BAD_INPUT st
                else do { (c1, st1) \<leftarrow> cv_read st;
                          (c2, st2) \<leftarrow> cv_read st1;
                          st3 \<leftarrow> cv_write (wide2 c1 c2) (cv_took 2 st2);
                          Some (Next (cv_gave 2 st3)) })
          else do { (c1, st1) \<leftarrow> cv_read st;
                    st2 \<leftarrow> cv_write (ucast c1) (cv_took 1 st1);
                    Some (Next (cv_gave 2 st2)) } }"

definition CVBIG5_big5_byte2short ::
  "nat option \<Rightarrow> nat \<Rightarrow> u8 list \<Rightarrow> nat \<Rightarrow> u16 cv_result option" where
  "CVBIG5_big5_byte2short dst dst_len src src_len =
     (case dst of
        None \<Rightarrow> Some (cv_estimate (2 * src_len))
      | Some room \<Rightarrow>
          do { st \<leftarrow> while_loop big5_byte2short_guard big5_byte2short_body
                      (cv_start src src_len dst_len room);
               Some (cv_finish 2 src_len (cv_truncated st)) })"

text \<open>The return value, and what is stored at \<open>wc\<close> when it is not \<open>NULL\<close>.\<close>

definition CVBIG5_big5_mbtowc :: "u8 list \<Rightarrow> nat \<Rightarrow> (int \<times> u16 option) option" where
  "CVBIG5_big5_mbtowc src src_len =
     (if src_len = 0 then Some (-1, None)
      else do { c1 \<leftarrow> (case src of [] \<Rightarrow> None | c # _ \<Rightarrow> Some c);
                if BIG51 c1
                then (if src_len < 2 then Some (-1, None)
                      else do { c2 \<leftarrow> (case src of _ # c # _ \<Rightarrow> Some c | _ \<Rightarrow> None);
                                Some (2, Some (wide2 c1 c2)) })
                else Some (1, Some (ucast c1)) })"

section \<open>The code keeps the contract\<close>

definition big5_single :: "u8 \<Rightarrow> bool" where
  "big5_single b \<longleftrightarrow> \<not> BIG51 b"

interpretation big5: two_byte_code BIG51 BIG52 big5_single
  by unfold_locales (auto simp: BIG51_def big5_single_def)

lemma big5_shapes:
  "big5_to_unicode_guard = mb_guard" "big5_byte2short_guard = mb_guard"
  "unicode_to_big5_guard = unicode_to_nc_guard"
  "big5_to_unicode_body = mb_to_unicode_body BIG51 BIG52"
  "unicode_to_big5_body = unicode_to_mb_body"
  "big5_byte2short_body = mb_byte2short_body BIG51 big5_single"
proof -
  show "big5_to_unicode_body = mb_to_unicode_body BIG51 BIG52"
    by (auto simp: fun_eq_iff big5_to_unicode_body_def mb_to_unicode_body_def cv_peek_def cv_read_def
        big5_store_def mb_store_def split: list.split)
  show "unicode_to_big5_body = unicode_to_mb_body"
    by (simp only: fun_eq_iff unicode_to_big5_body_def unicode_to_mb_body_def word_of_div word_of_mod
        hi8_eq_0 simp_thms)
qed (auto simp: fun_eq_iff big5_to_unicode_guard_def big5_byte2short_guard_def mb_guard_def
    unicode_to_big5_guard_def unicode_to_nc_guard_def big5_byte2short_body_def mb_byte2short_body_def
    cv_peek_def cv_read_def big5_single_def split: list.split)

lemma big5_check_shape: "CVBIG5_check_big5 s n = mb_check BIG51 big5_single s n"
  by (induction s n rule: CVBIG5_check_big5.induct) (auto simp: big5_single_def split: list.split)

lemma big5_mbtowc_shape: "CVBIG5_big5_mbtowc s n = mb_mbtowc BIG51 big5_single s n"
  by (auto simp: CVBIG5_big5_mbtowc_def mb_mbtowc_def big5_single_def split: list.split)

lemma big5_convert_safe:
  assumes "slen < 65536" and "dlen < 65536"
    and "slen \<le> length bytes" and "slen \<le> 2 * length wides" and "dlen \<le> room"
    and obj: "obj = CV_convert_init t f fn (Short_Table d) (Short_Table m)"
  shows "cv_safe 2 slen dlen (CVBIG5_big5_to_unicode obj (Some room) dlen bytes slen) \<and>
    cv_safe 1 slen dlen (CVBIG5_unicode_to_big5 obj (Some room) dlen wides slen) \<and>
    cv_safe 2 slen dlen (CVBIG5_big5_byte2short (Some room) dlen bytes slen)"
proof (intro conjI)
  have ok: "cv_ok 1 2 (cv_start bytes slen dlen room :: (u8, u16) cv_state)"
    "cv_ok 2 1 (cv_start wides slen dlen room :: (u16, u8) cv_state)"
    using assms by (auto simp: cv_ok_def cv_start_def)
  show "cv_safe 2 slen dlen (CVBIG5_big5_to_unicode obj (Some room) dlen bytes slen)"
    using big5.tou.report_safe [OF ok(1) disjI1 [OF refl]]
    by (simp add: CVBIG5_big5_to_unicode_def big5_shapes obj)
  show "cv_safe 1 slen dlen (CVBIG5_unicode_to_big5 obj (Some room) dlen wides slen)"
    using unicode_to_mb_safe [OF ok(2) disjI1 [OF refl]]
    by (simp add: CVBIG5_unicode_to_big5_def big5_shapes obj)
  show "cv_safe 2 slen dlen (CVBIG5_big5_byte2short (Some room) dlen bytes slen)"
    using big5.b2s.report_safe [OF ok(1) disjI1 [OF refl]]
    by (simp add: CVBIG5_big5_byte2short_def big5_shapes)
qed

section \<open>Properties\<close>

text \<open>The characters of Big5 text: ASCII, and a lead byte with a trail byte.\<close>

definition big5_char :: "u16 \<Rightarrow> bool" where
  "big5_char w \<longleftrightarrow> (if hi8 w = 0 then unat (lo8 w) < 0x80 else BIG51 (hi8 w) \<and> BIG52 (lo8 w))"

text \<open>Big5 text converted to Unicode and back, through tables that are inverse on its
  characters and into buffers of the size the code's own estimates return, is the text, with no
  error reported on either way.\<close>

lemma big5_unicode_roundtrip:
  assumes "\<forall>w \<in> set ws. big5_char w \<and> mapped d m w \<and> mapped d' m' (via16 d m w) \<and>
      via16 d' m' (via16 d m w) = w"
    and "s = concat (map mb_bytes ws)" and "2 * length s < 65536"
    and "to_obj = CV_convert_init t f fn (Short_Table d) (Short_Table m)"
    and "from_obj = CV_convert_init t' f' fn' (Short_Table d') (Short_Table m')"
    and "CVBIG5_big5_to_unicode to_obj None 0 s (length s) = Some est"
    and "CVBIG5_unicode_to_big5 from_obj None 0 wide (2 * length ws) = Some est'"
    and "wide = map (via16 d m) ws"
  shows "CVBIG5_big5_to_unicode to_obj (Some (length s)) (cv_ret est) s (length s) =
      Some \<lparr>cv_ret = 2 * length ws, cv_out = wide, cv_err = 0, cv_pos = Some (length s)\<rparr> \<and>
    CVBIG5_unicode_to_big5 from_obj (Some (cv_ret est')) (cv_ret est') wide (2 * length ws) =
      Some \<lparr>cv_ret = length s, cv_out = s, cv_err = 0, cv_pos = Some (2 * length ws)\<rparr>"
proof -
  have est: "cv_ret est = 2 * length s" "cv_ret est' = 2 * length ws"
    using assms(2,3,6,7) mb_bytes_bounds [of ws]
    by (auto simp: CVBIG5_big5_to_unicode_def CVBIG5_unicode_to_big5_def cv_estimate_def)
  have tx: "\<forall>w \<in> set ws. big5.text_ok w \<and> mapped d m w \<and> mapped d' m' (via16 d m w) \<and>
      via16 d' m' (via16 d m w) = w"
    using assms(1) by (simp add: big5_char_def big5.text_ok_def)
  show ?thesis
    using big5.roundtrip(1) [OF tx, of t f fn] big5.roundtrip(2) [OF tx, of t' f' fn'] assms(2-5,8)
    by (simp add: CVBIG5_big5_to_unicode_def CVBIG5_unicode_to_big5_def big5_shapes est)
qed

lemma big5_unicode_roundtrip_example:
  "CVBIG5_unicode_to_big5 (CV_convert_init 0 8 Fn_CVBIG5_unicode_to_big5 (Short_Table word_of_nat)
      (Short_Table (\<lambda>i. word_of_nat (256 * i)))) (Some 4) 4 [0x41, 0xA440] 4 =
    Some \<lparr>cv_ret = 3, cv_out = [0x41, 0xA4, 0x40], cv_err = 0, cv_pos = Some 4\<rparr>"
  using big5_unicode_roundtrip [of "[0x41, 0xA440]" word_of_nat "\<lambda>i. word_of_nat (256 * i)"
      word_of_nat "\<lambda>i. word_of_nat (256 * i)" "[0x41, 0xA4, 0x40]"
      "CV_convert_init 8 0 Fn_CVBIG5_big5_to_unicode (Short_Table word_of_nat) (Short_Table (\<lambda>i. word_of_nat (256 * i)))"
      8 0 Fn_CVBIG5_big5_to_unicode
      "CV_convert_init 0 8 Fn_CVBIG5_unicode_to_big5 (Short_Table word_of_nat) (Short_Table (\<lambda>i. word_of_nat (256 * i)))"
      0 8 Fn_CVBIG5_unicode_to_big5 "cv_estimate 6" "[0x41, 0xA440]" "cv_estimate 4"]
  by (simp add: big5_char_def mb_bytes_def hi8_def lo8_def via16_def mapped_def BIG51_def BIG52_def
      CVBIG5_big5_to_unicode_def CVBIG5_unicode_to_big5_def cv_estimate_def)

text \<open>The well-formedness check, the packing into shorts and the single-character reader
  agree: the check accepts a string exactly when packing it into a buffer of the estimated size
  reports no error; the shorts written are the characters of the part before the reported
  position, and at that position, if it is not the end, the reader finds no character.\<close>

lemma big5_check_byte2short:
  assumes "2 * length s < 65536"
  shows "\<exists>ws pos err. CVBIG5_big5_byte2short (Some (length s)) (2 * length s) s (length s) =
        Some \<lparr>cv_ret = 2 * length ws, cv_out = ws, cv_err = err, cv_pos = Some pos\<rparr> \<and>
      take pos s = concat (map mb_bytes ws) \<and>
      CVBIG5_check_big5 s (length s) = Some (if err = 0 then 0 else 1) \<and>
      (if err = 0 then pos = length s
       else err = CS_BAD_INPUT \<and>
         CVBIG5_big5_mbtowc (drop pos s) (length s - pos) = Some (-1, None))"
  using big5.byte2short_check [OF assms]
  by (simp only: CVBIG5_big5_byte2short_def big5_shapes big5_check_shape big5_mbtowc_shape option.case)

text \<open>The check of Big5 text does not promise that the text converts: a byte above 0x7F that
  is no lead byte is accepted by \<open>CVBIG5_check_big5\<close> and packed as a character of its own, while
  \<open>CVBIG5_big5_to_unicode\<close> reports bad input at it.\<close>

lemma big5_check_accepts_stray:
  assumes "0x80 \<le> unat b" and "\<not> BIG51 b"
  shows "CVBIG5_check_big5 [b] 1 = Some 0 \<and> CVBIG5_big5_mbtowc [b] 1 = Some (1, Some (ucast b)) \<and>
    CVBIG5_big5_to_unicode obj (Some 1) 2 [b] 1 =
      Some \<lparr>cv_ret = 0, cv_out = [], cv_err = CS_BAD_INPUT, cv_pos = Some 0\<rparr>"
proof (intro conjI)
  show "CVBIG5_check_big5 [b] 1 = Some 0"
    using assms by simp
  show "CVBIG5_big5_mbtowc [b] 1 = Some (1, Some (ucast b))"
    using assms by (simp add: CVBIG5_big5_mbtowc_def)
  let ?st = "cv_start [b] 1 2 1 :: (u8, u16) cv_state"
  have "while_loop big5_to_unicode_guard (big5_to_unicode_body obj) ?st =
      Some (?st\<lparr>cvs_src := [], cvs_err := CS_BAD_INPUT\<rparr>)"
    by (rule while_loop_break)
      (use assms in \<open>simp_all add: big5_to_unicode_guard_def big5_to_unicode_body_def cv_start_def
          and_0x80 cv_peek_def cv_read_def cv_break_def\<close>)
  then show "CVBIG5_big5_to_unicode obj (Some 1) 2 [b] 1 =
      Some \<lparr>cv_ret = 0, cv_out = [], cv_err = CS_BAD_INPUT, cv_pos = Some 0\<rparr>"
    by (simp add: CVBIG5_big5_to_unicode_def cv_finish_def cv_truncated_def cv_start_def cs_codes)
qed

lemma big5_check_accepts_stray_example:
  "CVBIG5_check_big5 [0xFF] 1 = Some 0"
  using big5_check_accepts_stray [of "0xFF"] by (simp add: BIG51_def)

end
