(* ===== verification/Cv_Gb2312.thy ===== *)
theory Cv_Gb2312
  imports Cv_Multi
begin

text \<open>
  \<open>intl/cv_gb2312.c\<close>: GB 2312 text to and from Unicode, its well-formedness check, its packing into
  shorts and its single-character reader. The byte classes are the macros of \<open>intl/cv_gb2312.h\<close>.
\<close>

section \<open>Byte classes\<close>

definition GB1 :: "u8 \<Rightarrow> bool" where
  "GB1 uc \<longleftrightarrow> 0xA1 \<le> unat uc \<and> unat uc \<le> 0xFE"

definition GB2 :: "u8 \<Rightarrow> bool" where
  "GB2 uc \<longleftrightarrow> 0xA1 \<le> unat uc \<and> unat uc \<le> 0xFE"

section \<open>To Unicode\<close>

definition gb2312_store ::
  "csconvert \<Rightarrow> u16 \<Rightarrow> nat \<Rightarrow> (u8, u16) cv_state \<Rightarrow> (u8, u16) cv_state pass option" where
  "gb2312_store obj wide this_len st =
     do { ch \<leftarrow> two_level obj wide;
          if unat ch = CS_CANT_MAP \<and> unat wide \<noteq> CS_CANT_MAP
          then cv_break CS_CONVERT_ERROR st
          else do { st1 \<leftarrow> cv_write ch st;
                    Some (Next (cv_took this_len (cv_gave 2 st1))) } }"

definition gb2312_to_unicode_guard :: "(u8, u16) cv_state \<Rightarrow> bool" where
  "gb2312_to_unicode_guard st \<longleftrightarrow> cvs_src_len st \<noteq> 0 \<and> 1 < cvs_dest_len st"

definition gb2312_to_unicode_body ::
  "csconvert \<Rightarrow> (u8, u16) cv_state \<Rightarrow> (u8, u16) cv_state pass option" where
  "gb2312_to_unicode_body obj st =
     do { c \<leftarrow> cv_peek st;
          if c AND 0x80 \<noteq> 0
          then do { (c1, st1) \<leftarrow> cv_read st;
                    if GB1 c1
                    then (if cvs_src_len st1 = 1 then cv_break CS_BAD_INPUT st1
                          else do { (c2, st2) \<leftarrow> cv_read st1;
                                    if \<not> GB2 c2 then cv_break CS_BAD_INPUT st2
                                    else gb2312_store obj (wide2 c1 c2) 2 st2 })
                    else cv_break CS_BAD_INPUT st1 }
          else do { (c1, st1) \<leftarrow> cv_read st;
                    gb2312_store obj (ucast c1) 1 st1 } }"

definition CVGB_gb2312_to_unicode ::
  "csconvert \<Rightarrow> nat option \<Rightarrow> nat \<Rightarrow> u8 list \<Rightarrow> nat \<Rightarrow> u16 cv_result option" where
  "CVGB_gb2312_to_unicode obj dest dest_len src src_len =
     (case dest of
        None \<Rightarrow> Some (cv_estimate (src_len * 2))
      | Some room \<Rightarrow>
          do { st \<leftarrow> while_loop gb2312_to_unicode_guard (gb2312_to_unicode_body obj)
                      (cv_start src src_len dest_len room);
               Some (cv_finish 2 src_len (cv_truncated st)) })"

section \<open>From Unicode\<close>

definition unicode_to_gb2312_guard :: "(u16, u8) cv_state \<Rightarrow> bool" where
  "unicode_to_gb2312_guard st \<longleftrightarrow> cvs_dest_len st \<noteq> 0 \<and> 1 < cvs_src_len st"

definition unicode_to_gb2312_body ::
  "csconvert \<Rightarrow> (u16, u8) cv_state \<Rightarrow> (u16, u8) cv_state pass option" where
  "unicode_to_gb2312_body obj st =
     do { (wide, st1) \<leftarrow> cv_read st;
          ch \<leftarrow> two_level obj wide;
          if unat ch = CS_CANT_MAP \<and> unat wide \<noteq> CS_CANT_MAP
          then cv_break CS_CONVERT_ERROR st1
          else if unat ch div 256 = 0
          then do { st2 \<leftarrow> cv_write (word_of_nat (unat ch mod 256)) st1;
                    Some (Next (cv_took 2 (cv_gave 1 st2))) }
          else if cvs_dest_len st1 < 2 then cv_break CS_TRUNCATION_ERROR st1
          else do { st2 \<leftarrow> cv_write (word_of_nat (unat ch div 256)) st1;
                    st3 \<leftarrow> cv_write (word_of_nat (unat ch mod 256)) st2;
                    Some (Next (cv_gave 2 (cv_took 2 st3))) } }"

definition CVGB_unicode_to_gb2312 ::
  "csconvert \<Rightarrow> nat option \<Rightarrow> nat \<Rightarrow> u16 list \<Rightarrow> nat \<Rightarrow> u8 cv_result option" where
  "CVGB_unicode_to_gb2312 obj dest dest_len unicode_str unicode_len =
     (case dest of
        None \<Rightarrow> Some (cv_estimate unicode_len)
      | Some room \<Rightarrow>
          do { st \<leftarrow> while_loop unicode_to_gb2312_guard (unicode_to_gb2312_body obj)
                      (cv_start unicode_str unicode_len dest_len room);
               Some (cv_finish 1 unicode_len (cv_truncated st)) })"

section \<open>Checking, packing, reading one character\<close>

fun CVGB_check_gb2312 :: "u8 list \<Rightarrow> nat \<Rightarrow> nat option" where
  "CVGB_check_gb2312 s 0 = Some 0"
| "CVGB_check_gb2312 s (Suc n) =
     (case s of
        [] \<Rightarrow> None
      | c1 # s1 \<Rightarrow>
          if GB1 c1
          then (if n = 0 then Some 1 else CVGB_check_gb2312 (drop 2 s) (n - 1))
          else CVGB_check_gb2312 s1 n)"

definition gb2312_byte2short_guard :: "(u8, u16) cv_state \<Rightarrow> bool" where
  "gb2312_byte2short_guard st \<longleftrightarrow> cvs_src_len st \<noteq> 0 \<and> 1 < cvs_dest_len st"

definition gb2312_byte2short_body :: "(u8, u16) cv_state \<Rightarrow> (u8, u16) cv_state pass option" where
  "gb2312_byte2short_body st =
     do { c \<leftarrow> cv_peek st;
          if GB1 c
          then (if cvs_src_len st < 2 then cv_break CS_BAD_INPUT st
                else do { (c1, st1) \<leftarrow> cv_read st;
                          (c2, st2) \<leftarrow> cv_read st1;
                          st3 \<leftarrow> cv_write (wide2 c1 c2) (cv_took 2 st2);
                          Some (Next (cv_gave 2 st3)) })
          else do { (c1, st1) \<leftarrow> cv_read st;
                    st2 \<leftarrow> cv_write (ucast c1) (cv_took 1 st1);
                    Some (Next (cv_gave 2 st2)) } }"

definition CVGB_gb2312_byte2short ::
  "nat option \<Rightarrow> nat \<Rightarrow> u8 list \<Rightarrow> nat \<Rightarrow> u16 cv_result option" where
  "CVGB_gb2312_byte2short dst dst_len src src_len =
     (case dst of
        None \<Rightarrow> Some (cv_estimate (2 * src_len))
      | Some room \<Rightarrow>
          do { st \<leftarrow> while_loop gb2312_byte2short_guard gb2312_byte2short_body
                      (cv_start src src_len dst_len room);
               Some (cv_finish 2 src_len (cv_truncated st)) })"

text \<open>The return value, and what is stored at \<open>wc\<close> when it is not \<open>NULL\<close>.\<close>

definition CVGB_gb2312_mbtowc :: "u8 list \<Rightarrow> nat \<Rightarrow> (int \<times> u16 option) option" where
  "CVGB_gb2312_mbtowc src src_len =
     (if src_len = 0 then Some (-1, None)
      else do { c1 \<leftarrow> (case src of [] \<Rightarrow> None | c # _ \<Rightarrow> Some c);
                if GB1 c1
                then (if src_len < 2 then Some (-1, None)
                      else do { c2 \<leftarrow> (case src of _ # c # _ \<Rightarrow> Some c | _ \<Rightarrow> None);
                                Some (2, Some (wide2 c1 c2)) })
                else Some (1, Some (ucast c1)) })"

section \<open>The code keeps the contract\<close>

definition gb2312_single :: "u8 \<Rightarrow> bool" where
  "gb2312_single b \<longleftrightarrow> \<not> GB1 b"

interpretation gb2312: two_byte_code GB1 GB2 gb2312_single
  by unfold_locales (auto simp: GB1_def gb2312_single_def)

lemma gb2312_shapes:
  "gb2312_to_unicode_guard = mb_guard" "gb2312_byte2short_guard = mb_guard"
  "unicode_to_gb2312_guard = unicode_to_nc_guard"
  "gb2312_to_unicode_body = mb_to_unicode_body GB1 GB2"
  "unicode_to_gb2312_body = unicode_to_mb_body"
  "gb2312_byte2short_body = mb_byte2short_body GB1 gb2312_single"
proof -
  show "gb2312_to_unicode_body = mb_to_unicode_body GB1 GB2"
    by (auto simp: fun_eq_iff gb2312_to_unicode_body_def mb_to_unicode_body_def cv_peek_def cv_read_def
        gb2312_store_def mb_store_def split: list.split)
  show "unicode_to_gb2312_body = unicode_to_mb_body"
    by (simp only: fun_eq_iff unicode_to_gb2312_body_def unicode_to_mb_body_def word_of_div word_of_mod
        hi8_eq_0 simp_thms)
qed (auto simp: fun_eq_iff gb2312_to_unicode_guard_def gb2312_byte2short_guard_def mb_guard_def
    unicode_to_gb2312_guard_def unicode_to_nc_guard_def gb2312_byte2short_body_def mb_byte2short_body_def
    cv_peek_def cv_read_def gb2312_single_def split: list.split)

lemma gb2312_check_shape: "CVGB_check_gb2312 s n = mb_check GB1 gb2312_single s n"
  by (induction s n rule: CVGB_check_gb2312.induct) (auto simp: gb2312_single_def split: list.split)

lemma gb2312_mbtowc_shape: "CVGB_gb2312_mbtowc s n = mb_mbtowc GB1 gb2312_single s n"
  by (auto simp: CVGB_gb2312_mbtowc_def mb_mbtowc_def gb2312_single_def split: list.split)

lemma gb2312_convert_safe:
  assumes "slen < 65536" and "dlen < 65536"
    and "slen \<le> length bytes" and "slen \<le> 2 * length wides" and "dlen \<le> room"
    and obj: "obj = CV_convert_init t f fn (Short_Table d) (Short_Table m)"
  shows "cv_safe 2 slen dlen (CVGB_gb2312_to_unicode obj (Some room) dlen bytes slen) \<and>
    cv_safe 1 slen dlen (CVGB_unicode_to_gb2312 obj (Some room) dlen wides slen) \<and>
    cv_safe 2 slen dlen (CVGB_gb2312_byte2short (Some room) dlen bytes slen)"
proof (intro conjI)
  have ok: "cv_ok 1 2 (cv_start bytes slen dlen room :: (u8, u16) cv_state)"
    "cv_ok 2 1 (cv_start wides slen dlen room :: (u16, u8) cv_state)"
    using assms by (auto simp: cv_ok_def cv_start_def)
  show "cv_safe 2 slen dlen (CVGB_gb2312_to_unicode obj (Some room) dlen bytes slen)"
    using gb2312.tou.report_safe [OF ok(1) disjI1 [OF refl]]
    by (simp add: CVGB_gb2312_to_unicode_def gb2312_shapes obj)
  show "cv_safe 1 slen dlen (CVGB_unicode_to_gb2312 obj (Some room) dlen wides slen)"
    using unicode_to_mb_safe [OF ok(2) disjI1 [OF refl]]
    by (simp add: CVGB_unicode_to_gb2312_def gb2312_shapes obj)
  show "cv_safe 2 slen dlen (CVGB_gb2312_byte2short (Some room) dlen bytes slen)"
    using gb2312.b2s.report_safe [OF ok(1) disjI1 [OF refl]]
    by (simp add: CVGB_gb2312_byte2short_def gb2312_shapes)
qed

section \<open>Properties\<close>

text \<open>The characters of GB 2312 text: ASCII, and a lead byte with a trail byte.\<close>

definition gb2312_char :: "u16 \<Rightarrow> bool" where
  "gb2312_char w \<longleftrightarrow> (if hi8 w = 0 then unat (lo8 w) < 0x80 else GB1 (hi8 w) \<and> GB2 (lo8 w))"

text \<open>GB 2312 text converted to Unicode and back, through tables that are inverse on its
  characters and into buffers of the size the code's own estimates return, is the text, with no
  error reported on either way.\<close>

lemma gb2312_unicode_roundtrip:
  assumes "\<forall>w \<in> set ws. gb2312_char w \<and> mapped d m w \<and> mapped d' m' (via16 d m w) \<and>
      via16 d' m' (via16 d m w) = w"
    and "s = concat (map mb_bytes ws)" and "2 * length s < 65536"
    and "to_obj = CV_convert_init t f fn (Short_Table d) (Short_Table m)"
    and "from_obj = CV_convert_init t' f' fn' (Short_Table d') (Short_Table m')"
    and "CVGB_gb2312_to_unicode to_obj None 0 s (length s) = Some est"
    and "CVGB_unicode_to_gb2312 from_obj None 0 wide (2 * length ws) = Some est'"
    and "wide = map (via16 d m) ws"
  shows "CVGB_gb2312_to_unicode to_obj (Some (length s)) (cv_ret est) s (length s) =
      Some \<lparr>cv_ret = 2 * length ws, cv_out = wide, cv_err = 0, cv_pos = Some (length s)\<rparr> \<and>
    CVGB_unicode_to_gb2312 from_obj (Some (cv_ret est')) (cv_ret est') wide (2 * length ws) =
      Some \<lparr>cv_ret = length s, cv_out = s, cv_err = 0, cv_pos = Some (2 * length ws)\<rparr>"
proof -
  have est: "cv_ret est = 2 * length s" "cv_ret est' = 2 * length ws"
    using assms(2,3,6,7) mb_bytes_bounds [of ws]
    by (auto simp: CVGB_gb2312_to_unicode_def CVGB_unicode_to_gb2312_def cv_estimate_def)
  have tx: "\<forall>w \<in> set ws. gb2312.text_ok w \<and> mapped d m w \<and> mapped d' m' (via16 d m w) \<and>
      via16 d' m' (via16 d m w) = w"
    using assms(1) by (simp add: gb2312_char_def gb2312.text_ok_def)
  show ?thesis
    using gb2312.roundtrip(1) [OF tx, of t f fn] gb2312.roundtrip(2) [OF tx, of t' f' fn'] assms(2-5,8)
    by (simp add: CVGB_gb2312_to_unicode_def CVGB_unicode_to_gb2312_def gb2312_shapes est)
qed

lemma gb2312_unicode_roundtrip_example:
  "CVGB_unicode_to_gb2312 (CV_convert_init 0 8 Fn_CVGB_unicode_to_gb2312 (Short_Table word_of_nat)
      (Short_Table (\<lambda>i. word_of_nat (256 * i)))) (Some 4) 4 [0x41, 0xB0A1] 4 =
    Some \<lparr>cv_ret = 3, cv_out = [0x41, 0xB0, 0xA1], cv_err = 0, cv_pos = Some 4\<rparr>"
  using gb2312_unicode_roundtrip [of "[0x41, 0xB0A1]" word_of_nat "\<lambda>i. word_of_nat (256 * i)"
      word_of_nat "\<lambda>i. word_of_nat (256 * i)" "[0x41, 0xB0, 0xA1]"
      "CV_convert_init 8 0 Fn_CVGB_gb2312_to_unicode (Short_Table word_of_nat) (Short_Table (\<lambda>i. word_of_nat (256 * i)))"
      8 0 Fn_CVGB_gb2312_to_unicode
      "CV_convert_init 0 8 Fn_CVGB_unicode_to_gb2312 (Short_Table word_of_nat) (Short_Table (\<lambda>i. word_of_nat (256 * i)))"
      0 8 Fn_CVGB_unicode_to_gb2312 "cv_estimate 6" "[0x41, 0xB0A1]" "cv_estimate 4"]
  by (simp add: gb2312_char_def mb_bytes_def hi8_def lo8_def via16_def mapped_def GB1_def GB2_def
      CVGB_gb2312_to_unicode_def CVGB_unicode_to_gb2312_def cv_estimate_def)

text \<open>The well-formedness check, the packing into shorts and the single-character reader
  agree: the check accepts a string exactly when packing it into a buffer of the estimated size
  reports no error; the shorts written are the characters of the part before the reported
  position, and at that position, if it is not the end, the reader finds no character.\<close>

lemma gb2312_check_byte2short:
  assumes "2 * length s < 65536"
  shows "\<exists>ws pos err. CVGB_gb2312_byte2short (Some (length s)) (2 * length s) s (length s) =
        Some \<lparr>cv_ret = 2 * length ws, cv_out = ws, cv_err = err, cv_pos = Some pos\<rparr> \<and>
      take pos s = concat (map mb_bytes ws) \<and>
      CVGB_check_gb2312 s (length s) = Some (if err = 0 then 0 else 1) \<and>
      (if err = 0 then pos = length s
       else err = CS_BAD_INPUT \<and>
         CVGB_gb2312_mbtowc (drop pos s) (length s - pos) = Some (-1, None))"
  using gb2312.byte2short_check [OF assms]
  by (simp only: CVGB_gb2312_byte2short_def gb2312_shapes gb2312_check_shape gb2312_mbtowc_shape option.case)

end
