(* ===== verification/Cv_Jis.thy ===== *)
theory Cv_Jis
  imports Cv_Multi
begin

text \<open>
  \<open>intl/cv_jis.c\<close>: Shift-JIS and EUC-J text to and from Unicode and into each other, their
  packing into shorts and their single-character readers; the byte classes of \<open>intl/kanji.h\<close>.
  The two static tables of \<open>intl/charsets/cs_sjis.h\<close>, which only hold data, are the parameters
  \<open>kd\<close> and \<open>km\<close> (\<open>sjis_to_unicode_mapping_array\<close>, \<open>sjis_to_unicode_map\<close>; on the way back
  \<open>sjis_from_unicode_mapping_array\<close>, \<open>sjis_from_unicode_map\<close>).
\<close>

section \<open>Byte classes\<close>

definition SJIS1 :: "u8 \<Rightarrow> bool" where
  "SJIS1 uc \<longleftrightarrow> 0x80 \<le> unat uc \<and> unat uc \<le> 0x9F \<or> 0xE0 \<le> unat uc \<and> unat uc \<le> 0xEF"

definition SJIS2 :: "u8 \<Rightarrow> bool" where
  "SJIS2 uc \<longleftrightarrow> 0x40 \<le> unat uc \<and> unat uc \<le> 0xFC"

definition SJIS_SINGLE :: "u8 \<Rightarrow> bool" where
  "SJIS_SINGLE uc \<longleftrightarrow> 0xA0 \<le> unat uc \<and> unat uc \<le> 0xDF"

definition EUC1 :: "u8 \<Rightarrow> bool" where
  "EUC1 c \<longleftrightarrow> c AND 0x80 \<noteq> 0"

definition EUC2 :: "u8 \<Rightarrow> bool" where
  "EUC2 c \<longleftrightarrow> c AND 0x80 \<noteq> 0"

section \<open>EUC-J to Unicode\<close>

definition jis_store ::
  "u16 \<Rightarrow> nat \<Rightarrow> (u8, u16) cv_state \<Rightarrow> (u8, u16) cv_state pass option" where
  "jis_store ch this_len st =
     do { st1 \<leftarrow> cv_write ch st; Some (Next (cv_took this_len (cv_gave 2 st1))) }"

definition jis_guard :: "(u8, u16) cv_state \<Rightarrow> bool" where
  "jis_guard st \<longleftrightarrow> cvs_src_len st \<noteq> 0 \<and> 1 < cvs_dest_len st"

definition eucj_to_unicode_body ::
  "csconvert \<Rightarrow> (u8, u16) cv_state \<Rightarrow> (u8, u16) cv_state pass option" where
  "eucj_to_unicode_body obj st =
     do { (ch1, st1) \<leftarrow> cv_read st;
          if ch1 AND 0x80 = 0 then jis_store (ucast ch1) 1 st1
          else if cvs_src_len st1 = 0 then cv_break CS_BAD_INPUT st1
          else do { c \<leftarrow> cv_peek st1;
                    if c AND 0x80 = 0 then cv_break CS_BAD_INPUT st1
                    else do { (c2, st2) \<leftarrow> cv_read st1;
                              ch \<leftarrow> two_level obj (wide2 ch1 c2 AND NOT 0x8080);
                              jis_store ch 2 st2 } } }"

definition CVJIS_eucj_to_unicode ::
  "csconvert \<Rightarrow> nat option \<Rightarrow> nat \<Rightarrow> u8 list \<Rightarrow> nat \<Rightarrow> u16 cv_result option" where
  "CVJIS_eucj_to_unicode obj dest dest_len src src_len =
     (case dest of
        None \<Rightarrow> Some (cv_estimate src_len)
      | Some room \<Rightarrow>
          do { st \<leftarrow> while_loop jis_guard (eucj_to_unicode_body obj)
                      (cv_start src src_len dest_len room);
               Some (cv_finish 2 src_len (cv_truncated st)) })"

section \<open>Shift-JIS to Unicode\<close>

text \<open>The macro \<open>S2E\<close>, with its results stored in bytes as both its callers do.\<close>

definition S2E :: "u8 \<Rightarrow> u8 \<Rightarrow> u8 \<times> u8" where
  "S2E s1 s2 =
     (if 0x9F \<le> s2
      then (if 0xE0 \<le> s1 then s1 * 2 - 0xE0 else s1 * 2 - 0x60, s2 + 2)
      else (if 0xE0 \<le> s1 then s1 * 2 - 0xE1 else s1 * 2 - 0x61,
            if 0x7F \<le> s2 then s2 + 0x60 else s2 + 0x61))"

definition sjis_to_unicode_body ::
  "(nat \<Rightarrow> u16) \<Rightarrow> (nat \<Rightarrow> u16) \<Rightarrow> csconvert \<Rightarrow>
   (u8, u16) cv_state \<Rightarrow> (u8, u16) cv_state pass option" where
  "sjis_to_unicode_body kd km obj st =
     do { (c1, st1) \<leftarrow> cv_read st;
          let from_kana = (\<lambda>wide this_len st.
                let ch = via16 kd km wide in
                if unat ch = CS_CANT_MAP \<and> unat wide \<noteq> CS_CANT_MAP
                then cv_break CS_CONVERT_ERROR st else jis_store ch this_len st) in
          if c1 AND 0x80 \<noteq> 0
          then (if SJIS1 c1
                then (if cvs_src_len st1 = 1 then cv_break CS_BAD_INPUT st1
                      else do { (c2, st2) \<leftarrow> cv_read st1;
                                if \<not> SJIS2 c2 then cv_break CS_BAD_INPUT st2
                                else let (tmp1, tmp2) = S2E c1 c2;
                                         wide = wide2 tmp1 tmp2 AND NOT 0x8080 in
                                  do { ch \<leftarrow> two_level obj wide;
                                       if unat ch = CS_CANT_MAP \<and> unat wide \<noteq> CS_CANT_MAP
                                       then cv_break CS_CONVERT_ERROR st2
                                       else jis_store ch 2 st2 } })
                else if SJIS_SINGLE c1 then from_kana (ucast c1) 1 st1
                else cv_break CS_BAD_INPUT st1)
          else from_kana (ucast c1) 1 st1 }"

definition CVJIS_sjis_to_unicode ::
  "(nat \<Rightarrow> u16) \<Rightarrow> (nat \<Rightarrow> u16) \<Rightarrow>
   csconvert \<Rightarrow> nat option \<Rightarrow> nat \<Rightarrow> u8 list \<Rightarrow> nat \<Rightarrow> u16 cv_result option" where
  "CVJIS_sjis_to_unicode kd km obj dest dest_len sjis_str sjis_len =
     (case dest of
        None \<Rightarrow> Some (cv_estimate (sjis_len * 2))
      | Some room \<Rightarrow>
          do { st \<leftarrow> while_loop jis_guard (sjis_to_unicode_body kd km obj)
                      (cv_start sjis_str sjis_len dest_len room);
               Some (cv_finish 2 sjis_len (cv_truncated st)) })"

section \<open>Unicode to Shift-JIS and EUC-J\<close>

text \<open>Ken Lunde's conversion of a seven-bit JIS pair to Shift-JIS, on two \<open>USHORT\<close>s.\<close>

definition seven2eight :: "nat \<Rightarrow> nat \<Rightarrow> nat \<times> nat" where
  "seven2eight p1 p2 =
     (let q2 = ushort (if odd p1 then p2 + 31 else p2 + 126);
          q2' = (if 127 \<le> q2 \<and> q2 < 158 then ushort (q2 + 1) else q2);
          q1 = (if 33 \<le> p1 \<and> p1 \<le> 94
                then (if odd p1 then (p1 - 1) div 2 + 113 else p1 div 2 + 112)
                else if 95 \<le> p1 \<and> p1 \<le> 126
                then (if odd p1 then (p1 - 1) div 2 + 177 else p1 div 2 + 176)
                else p1)
      in (q1, q2'))"

definition unicode_to_jis_guard :: "(u16, u8) cv_state \<Rightarrow> bool" where
  "unicode_to_jis_guard st \<longleftrightarrow> cvs_dest_len st \<noteq> 0 \<and> 1 < cvs_src_len st"

definition put1 :: "nat \<Rightarrow> (u16, u8) cv_state \<Rightarrow> (u16, u8) cv_state pass option" where
  "put1 tmp st =
     do { st1 \<leftarrow> cv_write (word_of_nat tmp) st; Some (Next (cv_took 2 (cv_gave 1 st1))) }"

definition put2 :: "nat \<Rightarrow> nat \<Rightarrow> (u16, u8) cv_state \<Rightarrow> (u16, u8) cv_state pass option" where
  "put2 tmp1 tmp2 st =
     do { st1 \<leftarrow> cv_write (word_of_nat tmp1) st;
          st2 \<leftarrow> cv_write (word_of_nat tmp2) st1;
          Some (Next (cv_gave 2 (cv_took 2 st2))) }"

definition unicode_to_sjis_body ::
  "(nat \<Rightarrow> u16) \<Rightarrow> (nat \<Rightarrow> u16) \<Rightarrow> csconvert \<Rightarrow>
   (u16, u8) cv_state \<Rightarrow> (u16, u8) cv_state pass option" where
  "unicode_to_sjis_body kd km obj st =
     do { (wide, st1) \<leftarrow> cv_read st;
          jis \<leftarrow> two_level obj wide;
          let jis_ch = (if unat jis = CS_CANT_MAP \<and> unat wide \<noteq> CS_CANT_MAP
                        then via16 kd km wide else jis);
              tmp1 = unat jis_ch div 256; tmp2 = unat jis_ch mod 256 in
          if unat jis_ch = CS_CANT_MAP \<and> unat wide \<noteq> CS_CANT_MAP
          then cv_break CS_CONVERT_ERROR st1
          else if tmp1 = 0 then put1 tmp2 st1
          else let (tmp1, tmp2) = seven2eight tmp1 tmp2 in
               if tmp1 = 0 then put1 tmp2 st1
               else if cvs_dest_len st1 < 2 then cv_break CS_TRUNCATION_ERROR st1
               else put2 tmp1 tmp2 st1 }"

definition CVJIS_unicode_to_sjis ::
  "(nat \<Rightarrow> u16) \<Rightarrow> (nat \<Rightarrow> u16) \<Rightarrow>
   csconvert \<Rightarrow> nat option \<Rightarrow> nat \<Rightarrow> u16 list \<Rightarrow> nat \<Rightarrow> u8 cv_result option" where
  "CVJIS_unicode_to_sjis kd km obj dest sjis_len unicode_str unicode_len =
     (case dest of
        None \<Rightarrow> Some (cv_estimate unicode_len)
      | Some room \<Rightarrow>
          do { st \<leftarrow> while_loop unicode_to_jis_guard (unicode_to_sjis_body kd km obj)
                      (cv_start unicode_str unicode_len sjis_len room);
               Some (cv_finish 1 unicode_len (cv_truncated st)) })"

definition unicode_to_eucj_body ::
  "csconvert \<Rightarrow> (u16, u8) cv_state \<Rightarrow> (u16, u8) cv_state pass option" where
  "unicode_to_eucj_body obj st =
     do { (wide, st1) \<leftarrow> cv_read st;
          jis_ch \<leftarrow> (if unat wide \<le> 0x7F then Some wide else two_level obj wide);
          if unat jis_ch = CS_CANT_MAP \<and> unat wide \<noteq> CS_CANT_MAP
          then cv_break CS_CONVERT_ERROR st1
          else let tmp1 = unat jis_ch div 256; tmp2 = unat jis_ch mod 256 in
               if tmp1 = 0 then put1 tmp2 st1
               else if cvs_dest_len st1 < 2 then cv_break CS_TRUNCATION_ERROR st1
               else put2 (tmp1 OR 0x80) (tmp2 OR 0x80) st1 }"

definition CVJIS_unicode_to_eucj ::
  "csconvert \<Rightarrow> nat option \<Rightarrow> nat \<Rightarrow> u16 list \<Rightarrow> nat \<Rightarrow> u8 cv_result option" where
  "CVJIS_unicode_to_eucj obj dest eucj_len unicode_str unicode_len =
     (case dest of
        None \<Rightarrow> Some (cv_estimate unicode_len)
      | Some room \<Rightarrow>
          do { st \<leftarrow> while_loop unicode_to_jis_guard (unicode_to_eucj_body obj)
                      (cv_start unicode_str unicode_len eucj_len room);
               Some (cv_finish 1 unicode_len (cv_truncated st)) })"

section \<open>Between Shift-JIS and EUC-J\<close>

definition euc2sjis_body :: "(u8, u8) cv_state \<Rightarrow> (u8, u8) cv_state pass option" where
  "euc2sjis_body st =
     do { c \<leftarrow> cv_peek st;
          if c AND 0x80 \<noteq> 0
          then do { (c1, st1) \<leftarrow> cv_read st;
                    if EUC1 c1
                    then (if cvs_src_len st1 = 1 then cv_break CS_BAD_INPUT st1
                          else do { (c2, st2) \<leftarrow> cv_read st1;
                                    if \<not> EUC2 c2 then cv_break CS_BAD_INPUT st2
                                    else if c1 = 0x8E
                                    then do { st3 \<leftarrow> cv_write c2 (cv_gave 1 st2);
                                              Some (Next (cv_took 2 st3)) }
                                    else if cvs_dest_len st2 < 2
                                    then cv_break CS_TRUNCATION_ERROR st2
                                    else let c1 = c1 XOR 0x80; c2 = c2 XOR 0x80 in
                                      do { st3 \<leftarrow> cv_write (word_of_nat
                                             (ushort_sub (unat c1) 0x21 div 2 +
                                              (if unat c1 \<le> 0x5E then 0x81 else 0xC1)))
                                             (cv_took 2 (cv_gave 2 st2));
                                           st4 \<leftarrow> cv_write
                                             (if c1 AND 1 \<noteq> 0
                                              then c2 + (if unat c2 \<le> 0x5F then 0x1F else 0x20)
                                              else c2 + 0x7E) st3;
                                           Some (Next st4) } })
                    else cv_break CS_BAD_INPUT st1 }
          else do { (c1, st1) \<leftarrow> cv_read (cv_gave 1 (cv_took 1 st));
                    st2 \<leftarrow> cv_write c1 st1;
                    Some (Next st2) } }"

definition CVJIS_euc2sjis :: "nat option \<Rightarrow> nat \<Rightarrow> u8 list \<Rightarrow> nat \<Rightarrow> u8 cv_result option" where
  "CVJIS_euc2sjis dest sjis_len euc_str euc_len =
     (case dest of
        None \<Rightarrow> Some (cv_estimate euc_len)
      | Some room \<Rightarrow>
          do { st \<leftarrow> while_loop eight_bit_guard euc2sjis_body
                      (cv_start euc_str euc_len sjis_len room);
               Some (cv_finish 1 euc_len (cv_truncated st)) })"

definition sjis2euc_body :: "(u8, u8) cv_state \<Rightarrow> (u8, u8) cv_state pass option" where
  "sjis2euc_body st =
     do { c \<leftarrow> cv_peek st;
          if c AND 0x80 \<noteq> 0
          then do { (c1, st1) \<leftarrow> cv_read st;
                    if SJIS1 c1
                    then (if cvs_src_len st1 = 1 then cv_break CS_BAD_INPUT st1
                          else do { (c2, st2) \<leftarrow> cv_read st1;
                                    if \<not> SJIS2 c2 then cv_break CS_BAD_INPUT st2
                                    else if cvs_dest_len st2 < 2
                                    then cv_break CS_TRUNCATION_ERROR st2
                                    else let (j1, j2) = S2E c1 c2 in
                                      do { st3 \<leftarrow> cv_write j1 st2;
                                           st4 \<leftarrow> cv_write j2 st3;
                                           Some (Next (cv_took 2 (cv_gave 2 st4))) } })
                    else if SJIS_SINGLE c1
                    then (if cvs_dest_len st1 < 2 then cv_break CS_TRUNCATION_ERROR st1
                          else do { st2 \<leftarrow> cv_write 0x8E (cv_took 1 (cv_gave 2 st1));
                                    st3 \<leftarrow> cv_write c1 st2;
                                    Some (Next st3) })
                    else cv_break CS_BAD_INPUT st1 }
          else do { (c1, st1) \<leftarrow> cv_read (cv_took 1 (cv_gave 1 st));
                    st2 \<leftarrow> cv_write c1 st1;
                    Some (Next st2) } }"

definition CVJIS_sjis2euc :: "nat option \<Rightarrow> nat \<Rightarrow> u8 list \<Rightarrow> nat \<Rightarrow> u8 cv_result option" where
  "CVJIS_sjis2euc dest euc_len sjis_str sjis_len =
     (case dest of
        None \<Rightarrow> Some (cv_estimate (2 * sjis_len))
      | Some room \<Rightarrow>
          do { st \<leftarrow> while_loop eight_bit_guard sjis2euc_body
                      (cv_start sjis_str sjis_len euc_len room);
               Some (cv_finish 1 sjis_len (cv_truncated st)) })"

section \<open>Packing, reading one character\<close>

definition euc_byte2short_body :: "(u8, u16) cv_state \<Rightarrow> (u8, u16) cv_state pass option" where
  "euc_byte2short_body st =
     do { c \<leftarrow> cv_peek st;
          if EUC1 c
          then (if cvs_src_len st \<le> 1 then cv_break CS_BAD_INPUT st
                else do { (c1, st1) \<leftarrow> cv_read st;
                          (c2, st2) \<leftarrow> cv_read st1;
                          st3 \<leftarrow> cv_write (wide2 c1 c2) (cv_took 2 st2);
                          Some (Next (cv_gave 2 st3)) })
          else do { (c1, st1) \<leftarrow> cv_read st;
                    st2 \<leftarrow> cv_write (ucast c1) (cv_took 1 st1);
                    Some (Next (cv_gave 2 st2)) } }"

definition CVJIS_euc_byte2short ::
  "nat option \<Rightarrow> nat \<Rightarrow> u8 list \<Rightarrow> nat \<Rightarrow> u16 cv_result option" where
  "CVJIS_euc_byte2short dst dst_len src src_len =
     (case dst of
        None \<Rightarrow> Some (cv_estimate (2 * src_len))
      | Some room \<Rightarrow>
          do { st \<leftarrow> while_loop jis_guard euc_byte2short_body (cv_start src src_len dst_len room);
               Some (cv_finish 2 src_len (cv_truncated st)) })"

definition CVJIS_euc_mbtowc :: "u8 list \<Rightarrow> nat \<Rightarrow> (int \<times> u16 option) option" where
  "CVJIS_euc_mbtowc src src_len =
     (if src_len = 0 then Some (-1, None)
      else do { c1 \<leftarrow> (case src of [] \<Rightarrow> None | c # _ \<Rightarrow> Some c);
                if EUC1 c1
                then (if src_len \<le> 1 then Some (-1, None)
                      else do { c2 \<leftarrow> (case src of _ # c # _ \<Rightarrow> Some c | _ \<Rightarrow> None);
                                Some (2, Some (wide2 c1 c2)) })
                else Some (1, Some (ucast c1)) })"

definition sjis_byte2short_body :: "(u8, u16) cv_state \<Rightarrow> (u8, u16) cv_state pass option" where
  "sjis_byte2short_body st =
     do { c \<leftarrow> cv_peek st;
          if SJIS1 c
          then (if cvs_src_len st \<le> 1 then cv_break CS_BAD_INPUT st
                else do { (c1, st1) \<leftarrow> cv_read st;
                          (c2, st2) \<leftarrow> cv_read st1;
                          st3 \<leftarrow> cv_write (wide2 c1 c2) (cv_took 2 st2);
                          Some (Next (cv_gave 2 st3)) })
          else do { (c1, st1) \<leftarrow> cv_read st;
                    st2 \<leftarrow> cv_write (ucast c1) (cv_took 1 st1);
                    Some (Next (cv_gave 2 st2)) } }"

definition CVJIS_sjis_byte2short ::
  "nat option \<Rightarrow> nat \<Rightarrow> u8 list \<Rightarrow> nat \<Rightarrow> u16 cv_result option" where
  "CVJIS_sjis_byte2short dst dst_len src src_len =
     (case dst of
        None \<Rightarrow> Some (cv_estimate (2 * src_len))
      | Some room \<Rightarrow>
          do { st \<leftarrow> while_loop jis_guard sjis_byte2short_body (cv_start src src_len dst_len room);
               Some (cv_finish 2 src_len (cv_truncated st)) })"

definition CVJIS_sjis_mbtowc :: "u8 list \<Rightarrow> nat \<Rightarrow> (int \<times> u16 option) option" where
  "CVJIS_sjis_mbtowc src src_len =
     (if src_len = 0 then Some (-1, None)
      else do { c1 \<leftarrow> (case src of [] \<Rightarrow> None | c # _ \<Rightarrow> Some c);
                if SJIS1 c1
                then (if src_len \<le> 1 then Some (-1, None)
                      else do { c2 \<leftarrow> (case src of _ # c # _ \<Rightarrow> Some c | _ \<Rightarrow> None);
                                Some (2, Some (wide2 c1 c2)) })
                else Some (1, Some (ucast c1)) })"

section \<open>The arithmetic of the encodings\<close>

lemma xor_high: "0x80 \<le> unat j \<Longrightarrow> unat (j XOR 0x80) = unat j - 0x80" for j :: u8
proof -
  assume j: "0x80 \<le> unat j"
  have u: "uint j = int (unat j)" by (rule uint_nat)
  have "uint (j XOR 0x80) = uint j XOR 0x80" by (simp add: uint_xor)
  also have "\<dots> = uint j - 128"
  proof -
    have "0 \<le> uint j" "uint j < 256" "128 \<le> uint j" using j u u8_lt [of j] by linarith+
    then show ?thesis by (simp add: xor_0x80)
  qed
  finally have "int (unat (j XOR 0x80)) = int (unat j) - 128"
    by (simp only: uint_nat)
  then show ?thesis by linarith
qed

lemma and_1: "(c AND 1 \<noteq> 0) = odd (unat c)" for c :: u8
proof -
  have "unat (c AND 1) = unat c AND 1" by (subst unsigned_and_eq) simp
  then have "unat (c AND 1) = unat c mod 2" by (simp only: and_one_eq)
  then show ?thesis by (simp only: word_unat_eq_iff unsigned_0) presburger
qed

lemma word_of_nat_mod: "word_of_nat n = (b :: u8) \<longleftrightarrow> n mod 256 = unat b"
  by (simp add: word_unat_eq_iff unsigned_of_nat take_bit_eq_mod)

lemma unat_double_diff:
  "k \<le> 2 * unat s \<Longrightarrow> 2 * unat s - k < 256 \<Longrightarrow> k < 256 \<Longrightarrow> unat (s * 2 - word_of_nat k) = 2 * unat s - k"
  for s :: u8
proof -
  assume a: "k \<le> 2 * unat s" "2 * unat s - k < 256" "k < 256"
  have "s * 2 - word_of_nat k = (word_of_nat (2 * unat s - k) :: u8)"
    using a(1) by (simp add: of_nat_diff mult.commute)
  then show ?thesis using a(2) by (simp add: unsigned_of_nat take_bit_eq_mod)
qed

text \<open>The lead byte \<open>S2E\<close> makes, and what \<open>euc2sjis\<close> makes of it.\<close>

definition euc_lead :: "u8 \<Rightarrow> u8" where
  "euc_lead c = word_of_nat (ushort_sub (unat c) 0x21 div 2 + (if unat c \<le> 0x5E then 0x81 else 0xC1))"

definition euc_trail :: "u8 \<Rightarrow> u8 \<Rightarrow> u8" where
  "euc_trail c1 c2 =
     (if c1 AND 1 \<noteq> 0 then c2 + (if unat c2 \<le> 0x5F then 0x1F else 0x20) else c2 + 0x7E)"

lemma S2E_lead_unat:
  assumes "SJIS1 s1"
  shows "unat (fst (S2E s1 s2)) =
    (if 0xE0 \<le> unat s1 then 2 * unat s1 - 0xE0 else 2 * unat s1 - 0x60) -
    (if 0x9F \<le> unat s2 then 0 else 1)"
  using assms unat_double_diff [of "0xE0" s1] unat_double_diff [of "0xE1" s1]
    unat_double_diff [of "0x60" s1] unat_double_diff [of "0x61" s1]
  by (auto simp: S2E_def SJIS1_def word_le_nat_alt)

lemma euc_lead_arith:
  assumes "0x80 \<le> n \<and> n \<le> 0x9F \<and> c + 0xE0 = 2 * n - k \<or>
      0xE0 \<le> n \<and> n \<le> 0xEF \<and> c + 0x160 = 2 * n - k" and "k \<le> 1"
  shows "(ushort_sub c 0x21 div 2 + (if c \<le> 0x5E then 0x81 else 0xC1)) mod 256 = n"
proof (cases "0x21 \<le> c")
  case True
  then have "ushort_sub c 0x21 = c - 0x21" using assms by (intro ushort_sub_id) auto
  with True assms show ?thesis by (auto split: if_splits)
next
  case False
  then have "ushort_sub c 0x21 = c + 65536 - 0x21" by (intro ushort_sub_wraps) auto
  moreover have "n = 128 \<and> c = 32 - k"
  proof -
    have "k = 0 \<or> k = 1" using assms(2) by auto
    then show ?thesis using assms(1) False by (elim disjE conjE; intro conjI; arith)
  qed
  moreover have "k = 0 \<or> k = 1" using assms(2) by auto
  ultimately show ?thesis by auto
qed

lemma euc_lead_S2E:
  assumes "SJIS1 s1"
  shows "0x80 \<le> unat (fst (S2E s1 s2))" "fst (S2E s1 s2) \<noteq> 0x8E"
    "euc_lead (fst (S2E s1 s2) XOR 0x80) = s1"
    "((fst (S2E s1 s2) XOR 0x80) AND 1 \<noteq> 0) = (unat s2 < 0x9F)"
proof -
  let ?j = "fst (S2E s1 s2)" and ?n = "unat s1"
  note u = S2E_lead_unat [OF assms, of s2]
  have n: "0x80 \<le> ?n \<and> ?n \<le> 0x9F \<or> 0xE0 \<le> ?n \<and> ?n \<le> 0xEF"
    using assms by (simp add: SJIS1_def)
  show j: "0x80 \<le> unat ?j" using u n by (auto split: if_splits)
  have "unat ?j \<noteq> 0x8E" using u n by (auto split: if_splits)
  then show "?j \<noteq> 0x8E" by auto
  have c: "unat (?j XOR 0x80) = unat ?j - 0x80" using j by (rule xor_high)
  show "euc_lead (?j XOR 0x80) = s1"
    unfolding euc_lead_def word_of_nat_mod c
    by (rule euc_lead_arith [of _ _ "if 0x9F \<le> unat s2 then 0 else 1"])
      (use u n in \<open>auto split: if_splits\<close>)
  show "((?j XOR 0x80) AND 1 \<noteq> 0) = (unat s2 < 0x9F)"
    unfolding and_1 c using u n by (auto split: if_splits)
qed

lemma S2E_trail_unat:
  assumes "SJIS2 s2"
  shows "unat (snd (S2E s1 s2)) =
    (if 0x9F \<le> unat s2 then unat s2 + 2 else if 0x7F \<le> unat s2 then unat s2 + 0x60
     else unat s2 + 0x61)"
  using assms by (auto simp: S2E_def SJIS2_def word_le_nat_alt unat_word_ariths)

lemma euc_trail_S2E:
  assumes "SJIS2 s2" "s2 \<noteq> 0x7F"
    and "(c1 AND 1 \<noteq> 0) = (unat s2 < 0x9F)"
  shows "0x80 \<le> unat (snd (S2E s1 s2))" "euc_trail c1 (snd (S2E s1 s2) XOR 0x80) = s2"
proof -
  let ?j = "snd (S2E s1 s2)" and ?n = "unat s2"
  note u = S2E_trail_unat [OF assms(1), of s1]
  have n: "0x40 \<le> ?n" "?n \<le> 0xFC" "?n \<noteq> 0x7F"
    using assms(1,2) by (auto simp: SJIS2_def word_unat_eq_iff)
  show j: "0x80 \<le> unat ?j" using u n by (auto split: if_splits)
  have c: "unat (?j XOR 0x80) = unat ?j - 0x80" using j by (rule xor_high)
  have "euc_trail c1 (?j XOR 0x80) = word_of_nat
      (if ?n < 0x9F then (if unat ?j - 0x80 \<le> 0x5F then unat ?j - 0x80 + 0x1F else unat ?j - 0x80 + 0x20)
       else unat ?j - 0x80 + 0x7E)"
    unfolding euc_trail_def assms(3) c [symmetric] by simp
  also have "\<dots> = s2"
    unfolding word_of_nat_mod using u n by (auto split: if_splits)
  finally show "euc_trail c1 (?j XOR 0x80) = s2" .
qed

section \<open>Shift-JIS and EUC-J into each other\<close>

text \<open>The characters both encodings write: ASCII, half-width Katakana, and Kanji.\<close>

datatype jis_char = Ascii u8 | Kana u8 | Kanji u8 u8

fun sjis_bytes :: "jis_char \<Rightarrow> u8 list" where
  "sjis_bytes (Ascii b) = [b]"
| "sjis_bytes (Kana b) = [b]"
| "sjis_bytes (Kanji s1 s2) = [s1, s2]"

fun euc_bytes :: "jis_char \<Rightarrow> u8 list" where
  "euc_bytes (Ascii b) = [b]"
| "euc_bytes (Kana b) = [0x8E, b]"
| "euc_bytes (Kanji s1 s2) = [fst (S2E s1 s2), snd (S2E s1 s2)]"

fun sjis_ok :: "jis_char \<Rightarrow> bool" where
  "sjis_ok (Ascii b) \<longleftrightarrow> unat b < 0x80"
| "sjis_ok (Kana b) \<longleftrightarrow> SJIS_SINGLE b"
| "sjis_ok (Kanji s1 s2) \<longleftrightarrow> SJIS1 s1 \<and> SJIS2 s2"

fun unshifted :: "jis_char \<Rightarrow> bool" where
  "unshifted (Kanji s1 s2) \<longleftrightarrow> s2 \<noteq> 0x7F"
| "unshifted _ \<longleftrightarrow> True"

lemma sjis_classes:
  "SJIS1 b \<Longrightarrow> 0x80 \<le> unat b" "SJIS_SINGLE b \<Longrightarrow> 0x80 \<le> unat b"
  "SJIS_SINGLE b \<Longrightarrow> \<not> SJIS1 b"
  by (auto simp: SJIS1_def SJIS_SINGLE_def)

text \<open>Both loops have room for a character, or stop before it.\<close>

lemma sjis2euc_next:
  assumes "sjis_ok c" "cvs_src st = sjis_bytes c @ rest"
    and "cv_fits 1 1 (length (sjis_bytes c)) (euc_bytes c) st"
  shows "sjis2euc_body st =
    Some (Next (cv_adv 1 1 (length (sjis_bytes c)) (euc_bytes c) st))"
proof (cases c)
  case (Kanji s1 s2)
  with assms show ?thesis
    using sjis_classes(1) [of s1]
    by (simp add: sjis2euc_body_def and_0x80 cv_simps cv_fits_def cv_adv_def split_beta
        numeral_2_eq_2)
qed (use assms sjis_classes in \<open>auto simp: sjis2euc_body_def and_0x80 cv_simps cv_fits_def
  cv_adv_def numeral_2_eq_2\<close>)

lemma euc2sjis_next:
  assumes "sjis_ok c" "unshifted c" "cvs_src st = euc_bytes c @ rest"
    and "cv_fits 1 1 (length (euc_bytes c)) (sjis_bytes c) st"
  shows "euc2sjis_body st =
    Some (Next (cv_adv 1 1 (length (euc_bytes c)) (sjis_bytes c) st))"
proof (cases c)
  case (Kanji s1 s2)
  let ?j1 = "fst (S2E s1 s2)" and ?j2 = "snd (S2E s1 s2)"
  have k: "SJIS1 s1" "SJIS2 s2" "s2 \<noteq> 0x7F" using assms(1,2) Kanji by simp_all
  note j = euc_lead_S2E [OF k(1), of s2]
  note t = euc_trail_S2E [OF k(2,3) j(4)]
  show ?thesis
    using assms(3,4) Kanji j(1,2) t(1)
      j(3) [unfolded euc_lead_def] t(2) [of s1, unfolded euc_trail_def]
    by (simp add: euc2sjis_body_def EUC1_def EUC2_def and_0x80 cv_simps cv_fits_def cv_adv_def
        Let_def numeral_2_eq_2)
next
  case (Kana b)
  have "unat (0x8E :: u8) = 142" by simp
  with Kana assms show ?thesis
    using sjis_classes(2) [of b]
    by (simp add: euc2sjis_body_def EUC1_def EUC2_def and_0x80 cv_simps cv_fits_def cv_adv_def
        del: unsigned_numeral flip: numeral_2_eq_2)
qed (use assms in \<open>auto simp: euc2sjis_body_def and_0x80 cv_simps cv_fits_def cv_adv_def\<close>)

text \<open>The seven-bit JIS code behind a Shift-JIS pair.\<close>

definition jis_code :: "u8 \<Rightarrow> u8 \<Rightarrow> u16" where
  "jis_code s1 s2 = wide2 (fst (S2E s1 s2)) (snd (S2E s1 s2)) AND NOT 0x8080"

lemma wide2_or: "wide2 a b = push_bit 8 (ucast a) OR ucast b"
  unfolding wide2_def
  by (rule disjunctive_add_eq_or) (auto simp: bit_eq_iff bit_simps dest: bit_imp_le_length)

lemma wide2_and_not: "wide2 a b AND NOT (wide2 c d) = wide2 (a AND NOT c) (b AND NOT d)"
  unfolding wide2_or
  by (rule bit_eqI) (auto simp: bit_simps dest: bit_imp_le_length)

lemma high_bit: "0x80 \<le> unat a \<Longrightarrow> NOT a AND 0x80 = 0" for a :: u8
proof -
  assume a: "0x80 \<le> unat a"
  have "unat (NOT a) = 255 - unat a"
  proof -
    have "NOT a = 255 - a" by (simp add: not_eq_complement)
    moreover have "unat a \<le> 255" using u8_lt [of a] by linarith
    then have "a \<le> 255" by (simp add: word_le_nat_alt)
    ultimately show ?thesis by (simp add: unat_sub)
  qed
  then show ?thesis
    using a and_0x80 [of "NOT a"] by auto
qed

lemma clear_high: "0x80 \<le> unat a \<Longrightarrow> a AND NOT 0x80 = a XOR 0x80" for a :: u8
  by (rule disjunctive_and_not_eq_xor) (rule high_bit)

lemma restore_high:
  assumes "0x80 \<le> unat (a :: u8)"
  shows "word_of_nat (unat (a XOR 0x80) OR 0x80) = a"
proof -
  have "unat (a XOR 0x80) OR 0x80 = unat ((a XOR 0x80) OR 0x80)"
    by (subst unsigned_or_eq) simp
  moreover have "(a XOR 0x80) OR 0x80 = a"
    using high_bit [OF assms] by (auto simp: bit_eq_iff bit_simps)
  ultimately show ?thesis by simp
qed

lemma jis_code_wide:
  assumes "SJIS1 s1" "SJIS2 s2" "s2 \<noteq> 0x7F"
  shows "jis_code s1 s2 = wide2 (fst (S2E s1 s2) XOR 0x80) (snd (S2E s1 s2) XOR 0x80)"
proof -
  have w: "(0x8080 :: u16) = wide2 0x80 0x80" by (simp add: wide2_def)
  note j = euc_lead_S2E [OF assms(1), of s2]
  show ?thesis
    by (simp only: jis_code_def w wide2_and_not clear_high [OF j(1)]
        clear_high [OF euc_trail_S2E(1) [OF assms(2,3) j(4), of s1]])
qed


lemma seven2eight_arith:
  assumes "0x81 \<le> n \<and> n \<le> 0x9F \<and> p1 + 0xE0 = 2 * n - k \<or>
      0xE0 \<le> n \<and> n \<le> 0xEF \<and> p1 + 0x160 = 2 * n - k"
    and "k = (if 0x9F \<le> m then 0 else 1)" "0x40 \<le> m" "m \<le> 0xFC" "m \<noteq> 0x7F"
    and "p2 + 0x80 = (if 0x9F \<le> m then m + 2 else if 0x7F \<le> m then m + 0x60 else m + 0x61)"
  shows "seven2eight p1 p2 = (n, m)"
proof -
  have p1: "odd p1 = (m < 0x9F)"
  proof (cases "0x9F \<le> m")
    case True
    with assms(1,2) have "p1 + 0x160 = 2 * n + 0x80 \<or> p1 + 0x160 = 2 * n" by auto
    with True show ?thesis by presburger
  next
    case False
    with assms(1,2) have "p1 + 0x161 = 2 * n + 0x80 \<or> p1 + 0x161 = 2 * n" by auto
    with False show ?thesis by presburger
  qed
  have q2: "(let q2 = ushort (if odd p1 then p2 + 31 else p2 + 126) in
      if 127 \<le> q2 \<and> q2 < 158 then ushort (q2 + 1) else q2) = m"
  proof -
    consider "0x9F \<le> m" | "m < 0x9F" "0x7F < m" | "m < 0x7F" using assms(5) by linarith
    then show ?thesis
      using p1 assms(3,4,6) by cases (auto simp: Let_def)
  qed
  have q1: "(if 33 \<le> p1 \<and> p1 \<le> 94
        then (if odd p1 then (p1 - 1) div 2 + 113 else p1 div 2 + 112)
        else if 95 \<le> p1 \<and> p1 \<le> 126
        then (if odd p1 then (p1 - 1) div 2 + 177 else p1 div 2 + 176) else p1) = n"
  proof (cases "0x9F \<le> m")
    case True
    with p1 assms(1,2) show ?thesis by auto
  next
    case False
    with p1 assms(1,2) show ?thesis by auto
  qed
  show ?thesis
    using q1 q2 by (simp only: seven2eight_def Let_def)
qed

lemma seven2eight_jis:
  assumes "SJIS1 s1" "s1 \<noteq> 0x80" "SJIS2 s2" "s2 \<noteq> 0x7F"
  shows "seven2eight (unat (hi8 (jis_code s1 s2))) (unat (lo8 (jis_code s1 s2))) = (unat s1, unat s2)"
    "hi8 (jis_code s1 s2) \<noteq> 0"
proof -
  let ?j1 = "fst (S2E s1 s2)" and ?j2 = "snd (S2E s1 s2)"
  note j = euc_lead_S2E [OF assms(1), of s2]
  note t = euc_trail_S2E [OF assms(3,4) j(4)]
  have c: "unat (hi8 (jis_code s1 s2)) = unat ?j1 - 0x80" "unat (lo8 (jis_code s1 s2)) = unat ?j2 - 0x80"
    using jis_code_wide [OF assms(1,3,4)] xor_high [OF j(1)] xor_high [OF t(1) [of s1]] by simp_all
  note u = S2E_lead_unat [OF assms(1), of s2] S2E_trail_unat [OF assms(3), of s1]
  have n: "0x81 \<le> unat s1 \<and> unat s1 \<le> 0x9F \<or> 0xE0 \<le> unat s1 \<and> unat s1 \<le> 0xEF"
    using assms(1,2) by (auto simp: SJIS1_def word_unat_eq_iff)
  have m: "0x40 \<le> unat s2" "unat s2 \<le> 0xFC" "unat s2 \<noteq> 0x7F"
    using assms(3,4) by (auto simp: SJIS2_def word_unat_eq_iff)
  show "seven2eight (unat (hi8 (jis_code s1 s2))) (unat (lo8 (jis_code s1 s2))) =
      (unat s1, unat s2)"
    unfolding c
    by (rule seven2eight_arith [OF _ refl m]) (use u n j(1) t(1) [of s1] in \<open>auto split: if_splits\<close>)
  have "unat (hi8 (jis_code s1 s2)) \<noteq> 0" using c(1) u(1) n by (auto split: if_splits)
  then show "hi8 (jis_code s1 s2) \<noteq> 0" by auto
qed

section \<open>The loops keep the contract\<close>

lemmas cv_brk = cv_break_def cv_pass_ok_def cv_stopped_def cs_codes

lemma cv_start_guard:
  "cv_ok 1 dsz st \<Longrightarrow> 0 < cvs_src_len st \<Longrightarrow> \<exists>c rest. cvs_src st = c # rest"
  by (cases "cvs_src st") (auto simp: cv_ok_def)

lemma cv_second:
  "cv_ok 1 dsz st \<Longrightarrow> cvs_src st = c1 # rest \<Longrightarrow> 0 < cvs_src_len st \<Longrightarrow> cvs_src_len st \<noteq> 1 \<Longrightarrow>
   \<exists>c2 rest'. rest = c2 # rest'"
  by (cases rest) (auto simp: cv_ok_def)

lemma sjis2euc_pass:
  assumes "cv_ok 1 1 st" "eight_bit_guard st"
  shows "cv_pass_ok 1 1 st (sjis2euc_body st)"
proof -
  have g: "0 < cvs_src_len st" "0 < cvs_dest_len st"
    using assms(2) by (auto simp: eight_bit_guard_def)
  obtain c1 rest where s: "cvs_src st = c1 # rest"
    using cv_start_guard [OF assms(1) g(1)] by blast
  have fin: ?thesis if c: "sjis_ok c" "cvs_src st = sjis_bytes c @ r"
    "length (sjis_bytes c) \<le> cvs_src_len st" for c r
  proof (cases "length (euc_bytes c) \<le> cvs_dest_len st")
    case True
    then have f: "cv_fits 1 1 (length (sjis_bytes c)) (euc_bytes c) st"
      using assms c(3) by (auto simp: cv_ok_def cv_fits_def)
    moreover have "0 < length (sjis_bytes c)" by (cases c) auto
    ultimately show ?thesis using sjis2euc_next [OF c(1,2) f] by (simp add: cv_pass_ok_adv)
  next
    case False
    then show ?thesis
      using c g s sjis_classes
      by (cases c) (auto simp: sjis2euc_body_def and_0x80 cv_peek_def cv_read_def cv_brk)
  qed
  consider "unat c1 < 0x80" | "SJIS1 c1" | "SJIS_SINGLE c1" "\<not> SJIS1 c1"
    | "0x80 \<le> unat c1" "\<not> SJIS1 c1" "\<not> SJIS_SINGLE c1" by linarith
  then show ?thesis
  proof cases
    case 1
    then show ?thesis using fin [of "Ascii c1" rest] s g by simp
  next
    case 2
    show ?thesis
    proof (cases "cvs_src_len st = 1")
      case True
      with 2 s show ?thesis
        using sjis_classes(1) [of c1]
        by (simp add: sjis2euc_body_def and_0x80 cv_peek_def cv_read_def cv_brk)
    next
      case False
      then obtain c2 r where r: "rest = c2 # r" using cv_second [OF assms(1) s g(1)] by blast
      show ?thesis
      proof (cases "SJIS2 c2")
        case True
        then show ?thesis using fin [of "Kanji c1 c2" r] s r g False 2 by simp
      next
        case no: False
        with 2 s r False show ?thesis
          using sjis_classes(1) [of c1]
          by (simp add: sjis2euc_body_def and_0x80 cv_peek_def cv_read_def cv_brk)
      qed
    qed
  next
    case 3
    then show ?thesis using fin [of "Kana c1" rest] s g by simp
  next
    case 4
    with s show ?thesis
      by (simp add: sjis2euc_body_def and_0x80 cv_peek_def cv_read_def cv_brk)
  qed
qed

lemma euc2sjis_pass:
  assumes "cv_ok 1 1 st" "eight_bit_guard st"
  shows "cv_pass_ok 1 1 st (euc2sjis_body st)"
proof -
  have g: "0 < cvs_src_len st" "0 < cvs_dest_len st"
    using assms(2) by (auto simp: eight_bit_guard_def)
  obtain c1 rest where s: "cvs_src st = c1 # rest"
    using cv_start_guard [OF assms(1) g(1)] by blast
  note ev = euc2sjis_body_def EUC1_def EUC2_def and_0x80 cv_peek_def cv_read_def
  show ?thesis
  proof (cases "unat c1 < 0x80 \<or> cvs_src_len st = 1")
    case True
    have "cv_fits 1 1 1 [c1] st" using assms g by (auto simp: cv_ok_def cv_fits_def)
    then show ?thesis
      using True s euc2sjis_next [of "Ascii c1" st rest] cv_pass_ok_adv [of 1 1 1 "[c1]" st]
      by (cases "unat c1 < 0x80") (auto simp: ev cv_brk)
  next
    case False
    then obtain c2 r where r: "rest = c2 # r" using cv_second [OF assms(1) s g(1)] by blast
    have room: "cvs_room st \<noteq> 0" "2 \<le> cvs_dest_len st \<longrightarrow> 2 \<le> cvs_room st" "2 \<le> cvs_src_len st"
      "cvs_src_len st < 65536" "cvs_dest_len st < 65536"
      using assms g False by (auto simp: cv_ok_def)
    have two: "cv_pass_ok 1 1 st (Some (Next (cv_adv 1 1 2 ds st)))"
      if "length ds \<le> cvs_dest_len st" for ds
      by (rule cv_pass_ok_adv) (use that assms room in \<open>auto simp: cv_fits_def cv_ok_def\<close>)
    consider "unat c2 < 0x80" | "0x80 \<le> unat c2" "c1 = 0x8E"
      | "0x80 \<le> unat c2" "c1 \<noteq> 0x8E" "cvs_dest_len st < 2"
      | "0x80 \<le> unat c2" "c1 \<noteq> 0x8E" "2 \<le> cvs_dest_len st" by linarith
    then show ?thesis
    proof cases
      case 1
      with s r False show ?thesis by (simp add: ev cv_brk)
    next
      case 2
      then have "euc2sjis_body st = Some (Next (cv_adv 1 1 2 [c2] st))"
        using s r False room g by (simp add: ev cv_simps cv_adv_def numeral_2_eq_2)
      with two [of "[c2]"] g show ?thesis by simp
    next
      case 3
      with s r False show ?thesis by (simp add: ev cv_brk)
    next
      case 4
      let ?x = "c1 XOR 0x80" and ?y = "c2 XOR 0x80"
      have "euc2sjis_body st =
          Some (Next (cv_adv 1 1 2 [euc_lead ?x, euc_trail ?x ?y] st))"
        unfolding euc_lead_def euc_trail_def
        using 4 s r False room by (simp add: ev cv_simps cv_adv_def Let_def numeral_2_eq_2)
      with two [of "[euc_lead ?x, euc_trail ?x ?y]"] 4 show ?thesis by simp
    qed
  qed
qed

interpretation s2e: cs_decoder eight_bit_guard sjis2euc_body 1 1 sjis_bytes euc_bytes sjis_ok
proof unfold_locales
  show "cv_ok 1 1 st \<Longrightarrow> eight_bit_guard st \<Longrightarrow> cv_pass_ok 1 1 st (sjis2euc_body st)" for st
    by (rule sjis2euc_pass)
  show "eight_bit_guard st \<and> sjis2euc_body st =
      Some (Next (cv_adv 1 1 (length (sjis_bytes c)) (euc_bytes c) st))"
    if "sjis_ok c" "cvs_src st = sjis_bytes c @ rest"
      "cv_fits 1 1 (length (sjis_bytes c)) (euc_bytes c) st" for c st rest
    using sjis2euc_next [OF that] that(3)
    by (cases c) (auto simp: eight_bit_guard_def cv_fits_def)
qed

interpretation e2s: cs_decoder eight_bit_guard euc2sjis_body 1 1 euc_bytes sjis_bytes
  "\<lambda>c. sjis_ok c \<and> unshifted c"
proof unfold_locales
  show "cv_ok 1 1 st \<Longrightarrow> eight_bit_guard st \<Longrightarrow> cv_pass_ok 1 1 st (euc2sjis_body st)" for st
    by (rule euc2sjis_pass)
  show "eight_bit_guard st \<and> euc2sjis_body st =
      Some (Next (cv_adv 1 1 (length (euc_bytes c)) (sjis_bytes c) st))"
    if "sjis_ok c \<and> unshifted c" "cvs_src st = euc_bytes c @ rest"
      "cv_fits 1 1 (length (euc_bytes c)) (sjis_bytes c) st" for c st rest
    using euc2sjis_next [OF _ _ that(2,3)] that(1,3)
    by (cases c) (auto simp: eight_bit_guard_def cv_fits_def)
qed

section \<open>Shift-JIS to and from Unicode\<close>

text \<open>The Unicode value of a character, and whether the tables have one.\<close>

definition sjis_uni ::
  "(nat \<Rightarrow> u16) \<Rightarrow> (nat \<Rightarrow> u16) \<Rightarrow> (nat \<Rightarrow> u16) \<Rightarrow> (nat \<Rightarrow> u16) \<Rightarrow> jis_char \<Rightarrow> u16" where
  "sjis_uni kd km d m c =
     (case c of Kanji s1 s2 \<Rightarrow> via16 d m (jis_code s1 s2)
      | Ascii b \<Rightarrow> via16 kd km (ucast b) | Kana b \<Rightarrow> via16 kd km (ucast b))"

definition sjis_mapped ::
  "(nat \<Rightarrow> u16) \<Rightarrow> (nat \<Rightarrow> u16) \<Rightarrow> (nat \<Rightarrow> u16) \<Rightarrow> (nat \<Rightarrow> u16) \<Rightarrow> jis_char \<Rightarrow> bool" where
  "sjis_mapped kd km d m c \<longleftrightarrow>
     (case c of Kanji s1 s2 \<Rightarrow> mapped d m (jis_code s1 s2)
      | Ascii b \<Rightarrow> mapped kd km (ucast b) | Kana b \<Rightarrow> mapped kd km (ucast b))"

lemmas sjis_uni_body = sjis_to_unicode_body_def jis_store_def mapped_def cs_codes and_0x80
  unat_eq_0 Let_def cv_read_def split_beta jis_code_def

lemma sjis_to_unicode_next:
  assumes "sjis_ok c \<and> sjis_mapped kd km d m c" "cvs_src st = sjis_bytes c @ rest"
    and "cv_fits 1 2 (length (sjis_bytes c)) [sjis_uni kd km d m c] st"
  shows "sjis_to_unicode_body kd km (CV_convert_init t f fn (Short_Table d) (Short_Table m)) st =
    Some (Next (cv_adv 1 2 (length (sjis_bytes c)) [sjis_uni kd km d m c] st))"
proof (cases c)
  case (Kanji s1 s2)
  with assms sjis_classes(1) [of s1] show ?thesis
    by (simp add: sjis_uni_body sjis_mapped_def sjis_uni_def cv_simps cv_fits_def cv_adv_def
        numeral_2_eq_2)
next
  case (Kana b)
  with assms sjis_classes(2,3) [of b] show ?thesis
    by (simp add: sjis_uni_body sjis_mapped_def sjis_uni_def cv_simps cv_fits_def cv_adv_def)
next
  case (Ascii b)
  with assms show ?thesis
    by (simp add: sjis_uni_body sjis_mapped_def sjis_uni_def cv_simps cv_fits_def cv_adv_def)
qed

lemma sjis_to_unicode_pass:
  fixes kd km d m t f fn
  defines "obj \<equiv> CV_convert_init t f fn (Short_Table d) (Short_Table m)"
  assumes "cv_ok 1 2 st" "jis_guard st"
  shows "cv_pass_ok 1 2 st (sjis_to_unicode_body kd km obj st)"
proof -
  have g: "0 < cvs_src_len st" "2 \<le> cvs_dest_len st"
    using assms(3) by (auto simp: jis_guard_def)
  obtain c1 rest where s: "cvs_src st = c1 # rest"
    using cv_start_guard [OF assms(2) g(1)] by blast
  have fin: ?thesis if c: "sjis_ok c" "cvs_src st = sjis_bytes c @ r"
    "length (sjis_bytes c) \<le> cvs_src_len st" for c r
  proof (cases "sjis_mapped kd km d m c")
    case True
    have f: "cv_fits 1 2 (length (sjis_bytes c)) [sjis_uni kd km d m c] st"
      using assms(2) g c(3) by (auto simp: cv_ok_def cv_fits_def)
    moreover have "0 < length (sjis_bytes c)" by (cases c) auto
    ultimately show ?thesis
      using sjis_to_unicode_next [OF conjI [OF c(1) True] c(2) f] by (simp add: cv_pass_ok_adv obj_def)
  next
    case False
    then show ?thesis
      using c g s sjis_classes
      by (cases c) (auto simp: obj_def sjis_uni_body sjis_mapped_def cv_brk)
  qed
  have brk: ?thesis if "sjis_to_unicode_body kd km obj st = Some (Break (st\<lparr>cvs_src := r,
      cvs_err := CS_BAD_INPUT\<rparr>))" for r
    using that by (simp add: cv_brk)
  consider "unat c1 < 0x80" | "SJIS1 c1" | "SJIS_SINGLE c1" "\<not> SJIS1 c1"
    | "0x80 \<le> unat c1" "\<not> SJIS1 c1" "\<not> SJIS_SINGLE c1" by linarith
  then show ?thesis
  proof cases
    case 1
    then show ?thesis using fin [of "Ascii c1" rest] s g by simp
  next
    case 2
    show ?thesis
    proof (cases "cvs_src_len st = 1")
      case True
      with 2 s show ?thesis
        using sjis_classes(1) [of c1]
        by (intro brk [of rest]) (simp add: sjis_uni_body cv_break_def)
    next
      case False
      then obtain c2 r where r: "rest = c2 # r" using cv_second [OF assms(2) s g(1)] by blast
      show ?thesis
      proof (cases "SJIS2 c2")
        case True
        then show ?thesis using fin [of "Kanji c1 c2" r] s r g False 2 by simp
      next
        case no: False
        with 2 s r False show ?thesis
          using sjis_classes(1) [of c1]
          by (intro brk [of r]) (simp add: sjis_uni_body cv_break_def)
      qed
    qed
  next
    case 3
    then show ?thesis using fin [of "Kana c1" rest] s g by simp
  next
    case 4
    with s show ?thesis
      by (intro brk [of rest]) (simp add: sjis_uni_body cv_break_def)
  qed
qed

interpretation s2u: cs_decoder jis_guard
  "sjis_to_unicode_body kd km (CV_convert_init t f fn (Short_Table d) (Short_Table m))" 1 2
  sjis_bytes "\<lambda>c. [sjis_uni kd km d m c]" "\<lambda>c. sjis_ok c \<and> sjis_mapped kd km d m c"
  for kd km t f fn d m
proof unfold_locales
  show "0 < cvs_src_len st" if "jis_guard st" for st
    using that by (simp add: jis_guard_def)
  show "cv_ok 1 2 st \<Longrightarrow> jis_guard st \<Longrightarrow> cv_pass_ok 1 2 st (sjis_to_unicode_body kd km
      (CV_convert_init t f fn (Short_Table d) (Short_Table m)) st)" for st
    by (rule sjis_to_unicode_pass)
  show "jis_guard st \<and> sjis_to_unicode_body kd km
        (CV_convert_init t f fn (Short_Table d) (Short_Table m)) st =
      Some (Next (cv_adv 1 2 (length (sjis_bytes c)) [sjis_uni kd km d m c] st))"
    if "sjis_ok c \<and> sjis_mapped kd km d m c" "cvs_src st = sjis_bytes c @ rest"
      "cv_fits 1 2 (length (sjis_bytes c)) [sjis_uni kd km d m c] st" for c st rest
    using sjis_to_unicode_next [OF that] that(3)
    by (cases c) (auto simp: jis_guard_def cv_fits_def)
qed simp_all

text \<open>On the way back: the JIS code of a Unicode value, and the bytes written for it.\<close>

definition sjis_of_uni ::
  "(nat \<Rightarrow> u16) \<Rightarrow> (nat \<Rightarrow> u16) \<Rightarrow> (nat \<Rightarrow> u16) \<Rightarrow> (nat \<Rightarrow> u16) \<Rightarrow> u16 \<Rightarrow> u16" where
  "sjis_of_uni kd km d m w =
     (if via16 d m w = 0 \<and> w \<noteq> 0 then via16 kd km w else via16 d m w)"

definition sjis_out :: "u16 \<Rightarrow> u8 list" where
  "sjis_out jis =
     (let tmp1 = unat jis div 256; tmp2 = unat jis mod 256; (t1, t2) = seven2eight tmp1 tmp2 in
      if tmp1 = 0 then [word_of_nat tmp2]
      else if t1 = 0 then [word_of_nat t2] else [word_of_nat t1, word_of_nat t2])"

definition eucj_of_uni :: "(nat \<Rightarrow> u16) \<Rightarrow> (nat \<Rightarrow> u16) \<Rightarrow> u16 \<Rightarrow> u16" where
  "eucj_of_uni d m w = (if unat w \<le> 0x7F then w else via16 d m w)"

definition eucj_out :: "u16 \<Rightarrow> u8 list" where
  "eucj_out jis =
     (let tmp1 = unat jis div 256; tmp2 = unat jis mod 256 in
      if tmp1 = 0 then [word_of_nat tmp2]
      else [word_of_nat (tmp1 OR 0x80), word_of_nat (tmp2 OR 0x80)])"

text \<open>Both loops write what they looked up, one or two bytes, or stop.\<close>

definition put_bytes :: "u8 list \<Rightarrow> (u16, u8) cv_state \<Rightarrow> (u16, u8) cv_state pass option" where
  "put_bytes ds st =
     (if cvs_dest_len st < length ds then cv_break CS_TRUNCATION_ERROR st
      else case ds of [a] \<Rightarrow> do { st1 \<leftarrow> cv_write a st; Some (Next (cv_took 2 (cv_gave 1 st1))) }
           | a # b # _ \<Rightarrow> do { st1 \<leftarrow> cv_write a st; st2 \<leftarrow> cv_write b st1;
                               Some (Next (cv_gave 2 (cv_took 2 st2))) }
           | [] \<Rightarrow> Some (Next st))"

lemma put_bytes_next:
  assumes "cvs_src st = w # rest" "cv_fits 2 1 1 ds st" "length ds \<in> {1, 2}"
  shows "put_bytes ds (st\<lparr>cvs_src := rest\<rparr>) = Some (Next (cv_adv 2 1 1 ds st))"
proof -
  from assms(3) consider a where "ds = [a]" | a b where "ds = [a, b]"
    by (auto simp: length_Suc_conv numeral_2_eq_2)
  then show ?thesis
    using assms(1,2)
    by cases (simp_all add: put_bytes_def put1_def put2_def cv_simps cv_fits_def cv_adv_def
        numeral_2_eq_2)
qed

lemma unicode_to_sjis_step:
  assumes "cvs_src st = w # rest" "cvs_dest_len st \<noteq> 0"
  shows "unicode_to_sjis_body kd km (CV_convert_init t f fn (Short_Table d) (Short_Table m)) st =
    (if sjis_of_uni kd km d m w = 0 \<and> w \<noteq> 0
     then cv_break CS_CONVERT_ERROR (st\<lparr>cvs_src := rest\<rparr>)
     else put_bytes (sjis_out (sjis_of_uni kd km d m w)) (st\<lparr>cvs_src := rest\<rparr>))"
proof -
  let ?j = "sjis_of_uni kd km d m w" and ?st = "st\<lparr>cvs_src := rest\<rparr>"
  obtain t1 t2 where t: "seven2eight (unat ?j div 256) (unat ?j mod 256) = (t1, t2)" by force
  have "unicode_to_sjis_body kd km (CV_convert_init t f fn (Short_Table d) (Short_Table m)) st =
    (if ?j = 0 \<and> w \<noteq> 0 then cv_break CS_CONVERT_ERROR ?st
     else if unat ?j div 256 = 0 then put1 (unat ?j mod 256) ?st
     else if t1 = 0 then put1 t2 ?st
     else if cvs_dest_len ?st < 2 then cv_break CS_TRUNCATION_ERROR ?st else put2 t1 t2 ?st)"
    using assms(1) t
    by (simp add: unicode_to_sjis_body_def cv_read_def cs_codes unat_eq_0 Let_def
        flip: sjis_of_uni_def)
  also have "\<dots> = (if ?j = 0 \<and> w \<noteq> 0 then cv_break CS_CONVERT_ERROR ?st
      else put_bytes (sjis_out ?j) ?st)"
    using assms(2) t by (simp add: sjis_out_def put_bytes_def Let_def put1_def put2_def)
  finally show ?thesis .
qed

lemma unicode_to_eucj_step:
  assumes "cvs_src st = w # rest" "cvs_dest_len st \<noteq> 0"
  shows "unicode_to_eucj_body (CV_convert_init t f fn (Short_Table d) (Short_Table m)) st =
    (if eucj_of_uni d m w = 0 \<and> w \<noteq> 0
     then cv_break CS_CONVERT_ERROR (st\<lparr>cvs_src := rest\<rparr>)
     else put_bytes (eucj_out (eucj_of_uni d m w)) (st\<lparr>cvs_src := rest\<rparr>))"
proof -
  let ?j = "eucj_of_uni d m w" and ?st = "st\<lparr>cvs_src := rest\<rparr>"
  let ?t1 = "unat ?j div 256" and ?t2 = "unat ?j mod 256"
  have "(if unat w \<le> 0x7F then Some w
         else two_level (CV_convert_init t f fn (Short_Table d) (Short_Table m)) w) = Some ?j"
    by (simp add: eucj_of_uni_def)
  then have "unicode_to_eucj_body (CV_convert_init t f fn (Short_Table d) (Short_Table m)) st =
    (if ?j = 0 \<and> w \<noteq> 0 then cv_break CS_CONVERT_ERROR ?st
     else if ?t1 = 0 then put1 ?t2 ?st
     else if cvs_dest_len ?st < 2 then cv_break CS_TRUNCATION_ERROR ?st
     else put2 (?t1 OR 0x80) (?t2 OR 0x80) ?st)"
    using assms(1)
    by (simp only: unicode_to_eucj_body_def cv_read_def list.case option.case bind.bind_lunit
        prod.case cs_codes unat_eq_0 Let_def)
  also have "\<dots> = (if ?j = 0 \<and> w \<noteq> 0 then cv_break CS_CONVERT_ERROR ?st
      else put_bytes (eucj_out ?j) ?st)"
    using assms(2) by (simp add: eucj_out_def put_bytes_def Let_def put1_def put2_def)
  finally show ?thesis .
qed

lemma out_length: "length (sjis_out j) \<in> {1, 2}" "length (eucj_out j) \<in> {1, 2}"
  by (auto simp: sjis_out_def eucj_out_def Let_def split: prod.splits)

lemma put_bytes_pass:
  assumes "cv_ok 2 1 st" "1 < cvs_src_len st" "cvs_src st = w # rest" "length ds \<in> {1, 2}"
  shows "cv_pass_ok 2 1 st (put_bytes ds (st\<lparr>cvs_src := rest\<rparr>))"
proof (cases "cv_fits 2 1 1 ds st")
  case True
  then show ?thesis
    using put_bytes_next [OF assms(3) True assms(4)] by (simp add: cv_pass_ok_adv)
next
  case False
  then have "cvs_dest_len st < length ds"
    using assms(1,2) by (auto simp: cv_ok_def cv_fits_def)
  then show ?thesis by (simp add: put_bytes_def cv_brk)
qed

lemma cv_break_pass: "cv_pass_ok 2 1 st (cv_break CS_CONVERT_ERROR (st\<lparr>cvs_src := rest\<rparr>))"
  by (simp add: cv_brk)

lemma unicode_to_jis_pass:
  assumes "cv_ok 2 1 st" "unicode_to_jis_guard st"
  shows "cv_pass_ok 2 1 st
      (unicode_to_sjis_body kd km (CV_convert_init t f fn (Short_Table d) (Short_Table m)) st)"
    and "cv_pass_ok 2 1 st
      (unicode_to_eucj_body (CV_convert_init t f fn (Short_Table d) (Short_Table m)) st)"
proof -
  obtain w rest where s: "cvs_src st = w # rest" "1 < cvs_src_len st" "cvs_dest_len st \<noteq> 0"
    using cv_src_Cons [OF assms(1)] assms(2) by (auto simp: unicode_to_jis_guard_def)
  note p = put_bytes_pass [OF assms(1) s(2,1)] out_length cv_break_pass
  show "cv_pass_ok 2 1 st
      (unicode_to_sjis_body kd km (CV_convert_init t f fn (Short_Table d) (Short_Table m)) st)"
    unfolding unicode_to_sjis_step [OF s(1,3)] by (simp only: p split: if_split) simp
  show "cv_pass_ok 2 1 st
      (unicode_to_eucj_body (CV_convert_init t f fn (Short_Table d) (Short_Table m)) st)"
    unfolding unicode_to_eucj_step [OF s(1,3)] by (simp only: p split: if_split) simp
qed

interpretation u2s: cs_decoder unicode_to_jis_guard
  "unicode_to_sjis_body kd km (CV_convert_init t f fn (Short_Table d) (Short_Table m))" 2 1
  "\<lambda>w. [w]" "\<lambda>w. sjis_out (sjis_of_uni kd km d m w)" "\<lambda>w. sjis_of_uni kd km d m w \<noteq> 0 \<or> w = 0"
  for kd km t f fn d m
proof unfold_locales
  show "0 < cvs_src_len st" if "unicode_to_jis_guard st" for st :: "(u16, u8) cv_state"
    using that by (simp add: unicode_to_jis_guard_def)
  show "cv_ok 2 1 st \<Longrightarrow> unicode_to_jis_guard st \<Longrightarrow> cv_pass_ok 2 1 st (unicode_to_sjis_body kd km
      (CV_convert_init t f fn (Short_Table d) (Short_Table m)) st)" for st
    by (rule unicode_to_jis_pass)
  show "unicode_to_jis_guard st \<and>
      unicode_to_sjis_body kd km (CV_convert_init t f fn (Short_Table d) (Short_Table m)) st =
      Some (Next (cv_adv 2 1 (length [w]) (sjis_out (sjis_of_uni kd km d m w)) st))"
    if "sjis_of_uni kd km d m w \<noteq> 0 \<or> w = 0" "cvs_src st = [w] @ rest"
      "cv_fits 2 1 (length [w]) (sjis_out (sjis_of_uni kd km d m w)) st" for w st rest
  proof -
    note l = out_length(1) [of "sjis_of_uni kd km d m w"]
    then have "cvs_dest_len st \<noteq> 0" "1 < cvs_src_len st" using that(3) by (auto simp: cv_fits_def)
    then show ?thesis
      using put_bytes_next [of st w rest, OF _ _ l] unicode_to_sjis_step [of st w rest] that
      by (auto simp: unicode_to_jis_guard_def)
  qed
qed simp_all

interpretation u2e: cs_decoder unicode_to_jis_guard
  "unicode_to_eucj_body (CV_convert_init t f fn (Short_Table d) (Short_Table m))" 2 1
  "\<lambda>w. [w]" "\<lambda>w. eucj_out (eucj_of_uni d m w)" "\<lambda>w. eucj_of_uni d m w \<noteq> 0 \<or> w = 0"
  for t f fn d m
proof unfold_locales
  show "cv_ok 2 1 st \<Longrightarrow> unicode_to_jis_guard st \<Longrightarrow> cv_pass_ok 2 1 st (unicode_to_eucj_body
      (CV_convert_init t f fn (Short_Table d) (Short_Table m)) st)" for st
    by (rule unicode_to_jis_pass)
  show "unicode_to_jis_guard st \<and>
      unicode_to_eucj_body (CV_convert_init t f fn (Short_Table d) (Short_Table m)) st =
      Some (Next (cv_adv 2 1 (length [w]) (eucj_out (eucj_of_uni d m w)) st))"
    if "eucj_of_uni d m w \<noteq> 0 \<or> w = 0" "cvs_src st = [w] @ rest"
      "cv_fits 2 1 (length [w]) (eucj_out (eucj_of_uni d m w)) st" for w st rest
  proof -
    note l = out_length(2) [of "eucj_of_uni d m w"]
    then have "cvs_dest_len st \<noteq> 0" "1 < cvs_src_len st" using that(3) by (auto simp: cv_fits_def)
    then show ?thesis
      using put_bytes_next [of st w rest, OF _ _ l] unicode_to_eucj_step [of st w rest] that
      by (auto simp: unicode_to_jis_guard_def)
  qed
qed

text \<open>The packing loops and the readers are those of the two-byte codes.\<close>

interpretation euc: two_byte_code EUC1 "\<lambda>_. True" "\<lambda>b. \<not> EUC1 b"
  by unfold_locales (auto simp: EUC1_def and_0x80)

interpretation sjis: two_byte_code SJIS1 SJIS2 "\<lambda>b. \<not> SJIS1 b"
  by unfold_locales (auto simp: SJIS1_def)

lemma jis_shapes:
  "jis_guard = mb_guard"
  "euc_byte2short_body = mb_byte2short_body EUC1 (\<lambda>b. \<not> EUC1 b)"
  "sjis_byte2short_body = mb_byte2short_body SJIS1 (\<lambda>b. \<not> SJIS1 b)"
  by (auto simp: fun_eq_iff jis_guard_def mb_guard_def euc_byte2short_body_def
      sjis_byte2short_body_def mb_byte2short_body_def cv_peek_def cv_read_def split: list.split)

text \<open>
  The loop of \<open>CVJIS_eucj_to_unicode\<close> keeps no such contract (see the property below), but on
  EUC-J text it handles one character per pass.
\<close>

definition euc_ok :: "u16 \<Rightarrow> bool" where
  "euc_ok w \<longleftrightarrow> (if hi8 w = 0 then unat (lo8 w) < 0x80 else EUC1 (hi8 w) \<and> EUC2 (lo8 w))"

definition eucj_uni :: "(nat \<Rightarrow> u16) \<Rightarrow> (nat \<Rightarrow> u16) \<Rightarrow> u16 \<Rightarrow> u16" where
  "eucj_uni d m w = (if hi8 w = 0 then w else via16 d m (w AND NOT 0x8080))"

interpretation e2u: cs_char_loop jis_guard
  "eucj_to_unicode_body (CV_convert_init t f fn (Short_Table d) (Short_Table m))" 1 2
  mb_bytes "\<lambda>w. [eucj_uni d m w]" euc_ok
  for t f fn d m
proof unfold_locales
  show "jis_guard st \<and>
      eucj_to_unicode_body (CV_convert_init t f fn (Short_Table d) (Short_Table m)) st =
      Some (Next (cv_adv 1 2 (length (mb_bytes w)) [eucj_uni d m w] st))"
    if "euc_ok w" "cvs_src st = mb_bytes w @ rest"
      "cv_fits 1 2 (length (mb_bytes w)) [eucj_uni d m w] st" for w st rest
  proof (cases "hi8 w = 0")
    case True
    with that show ?thesis
      by (simp add: euc_ok_def mb_bytes_def eucj_to_unicode_body_def eucj_uni_def jis_store_def
          jis_guard_def and_0x80 cv_simps cv_fits_def cv_adv_def ucast_lo8)
  next
    case False
    with that have "hi8 w AND 0x80 \<noteq> 0" "lo8 w AND 0x80 \<noteq> 0"
      by (simp_all add: euc_ok_def EUC1_def EUC2_def)
    with that False show ?thesis
      by (simp add: mb_bytes_def eucj_to_unicode_body_def eucj_uni_def jis_store_def
          jis_guard_def cv_simps cv_fits_def cv_adv_def numeral_2_eq_2)
  qed
qed


section \<open>Properties\<close>

lemma jis_bytes_bounds:
  "length cs \<le> length (concat (map sjis_bytes cs)) \<and>
   length (concat (map sjis_bytes cs)) \<le> length (concat (map euc_bytes cs)) \<and>
   length (concat (map euc_bytes cs)) \<le> 2 * length (concat (map sjis_bytes cs))"
proof (induction cs)
  case (Cons c cs)
  then show ?case by (cases c) auto
qed simp

text \<open>C30. Shift-JIS text, of fewer than 32768 bytes, of ASCII, half-width Katakana and Kanji converted to EUC-J, into a buffer
  of the size the code's estimate returns, and back to Shift-JIS, is the text, with no error on
  either way; a Kanji whose second byte is 0x7F is excluded (it shares its EUC-J form with 0x7E).\<close>

theorem sjis_euc_roundtrip:
  assumes "\<forall>c \<in> set cs. sjis_ok c \<and> unshifted c" and "s = concat (map sjis_bytes cs)"
    and "2 * length s < 65536"
    and "CVJIS_sjis2euc None 0 s (length s) = Some est"
  shows "\<exists>e. CVJIS_sjis2euc (Some (cv_ret est)) (cv_ret est) s (length s) =
        Some \<lparr>cv_ret = length e, cv_out = e, cv_err = 0, cv_pos = Some (length s)\<rparr> \<and>
      CVJIS_euc2sjis (Some (length e)) (length e) e (length e) =
        Some \<lparr>cv_ret = length s, cv_out = s, cv_err = 0, cv_pos = Some (length e)\<rparr>"
proof (intro exI conjI)
  let ?e = "concat (map euc_bytes cs)"
  note b = jis_bytes_bounds [of cs]
  have est: "cv_ret est = 2 * length s"
    using assms(3,4) by (auto simp: CVJIS_sjis2euc_def cv_estimate_def)
  have ok: "\<forall>c \<in> set cs. sjis_ok c" using assms(1) by blast
  show "CVJIS_sjis2euc (Some (cv_ret est)) (cv_ret est) s (length s) =
      Some \<lparr>cv_ret = length ?e, cv_out = ?e, cv_err = 0, cv_pos = Some (length s)\<rparr>"
    using s2e.decode_all [OF ok, of "length s" "2 * length s" "2 * length s" cv_truncated]
      assms(2,3) b est by (simp add: CVJIS_sjis2euc_def)
  show "CVJIS_euc2sjis (Some (length ?e)) (length ?e) ?e (length ?e) =
      Some \<lparr>cv_ret = length s, cv_out = s, cv_err = 0, cv_pos = Some (length ?e)\<rparr>"
    using e2s.decode_all [OF assms(1), of "length ?e" "length ?e" "length ?e" cv_truncated]
      assms(2,3) b by (simp add: CVJIS_euc2sjis_def)
qed

theorem sjis_euc_roundtrip_witness:
  "let s = [0x41, 0xB1, 0x88, 0x9F] in
   \<exists>e. CVJIS_sjis2euc (Some 8) 8 s (length s) =
        Some \<lparr>cv_ret = length e, cv_out = e, cv_err = 0, cv_pos = Some (length s)\<rparr> \<and>
      CVJIS_euc2sjis (Some (length e)) (length e) e (length e) =
        Some \<lparr>cv_ret = length s, cv_out = s, cv_err = 0, cv_pos = Some (length e)\<rparr>"
  unfolding Let_def
  by (rule sjis_euc_roundtrip [of "[Ascii 0x41, Kana 0xB1, Kanji 0x88 0x9F]" _ "cv_estimate 8",
        unfolded cv_estimate_def, simplified cv_result.simps ushort_id, simplified])
    (simp_all add: SJIS1_def SJIS2_def SJIS_SINGLE_def CVJIS_sjis2euc_def cv_estimate_def)

lemma ucast_eq_0: "(ucast (b :: u8) = (0 :: u16)) = (b = 0)"
  by (metis lo8_ucast unsigned_0)

text \<open>The JIS code of a character, written as Shift-JIS, is the character.\<close>

lemma sjis_char_back:
  assumes "sjis_ok c" "unshifted c" "\<forall>s1 s2. c = Kanji s1 s2 \<longrightarrow> s1 \<noteq> 0x80 \<and> v = jis_code s1 s2"
    and "\<forall>b. c = Ascii b \<or> c = Kana b \<longrightarrow> v = ucast b \<and> (b = 0 \<longrightarrow> w = 0)"
  shows "sjis_out v = sjis_bytes c \<and> (v \<noteq> 0 \<or> w = 0)"
proof (cases c)
  case (Kanji s1 s2)
  then have k: "SJIS1 s1" "s1 \<noteq> 0x80" "SJIS2 s2" "s2 \<noteq> 0x7F" and u: "v = jis_code s1 s2"
    using assms by auto
  have "s1 \<noteq> 0" using k(1) by (auto simp: SJIS1_def)
  then have "unat s1 \<noteq> 0" by (simp add: unat_eq_0)
  moreover have "jis_code s1 s2 \<noteq> 0"
    using seven2eight_jis(2) [OF k] by (auto simp: hi8_def)
  ultimately show ?thesis
    using seven2eight_jis [OF k] Kanji
    by (simp add: u sjis_out_def Let_def unat_eq_0 flip: unat_hi8 unat_lo8)
qed (use assms in \<open>auto simp: sjis_out_def ucast_eq_0 split: prod.splits\<close>)

text \<open>The seven-bit code of a EUC-J character, written as EUC-J, is the character.\<close>

lemma eucj_char_back:
  assumes "euc_ok w" and "hi8 w \<noteq> 0 \<longrightarrow> hi8 w \<noteq> 0x80 \<and> 0x7F < unat (eucj_uni d m w) \<and>
      via16 d' m' (eucj_uni d m w) = w AND NOT 0x8080"
  shows "eucj_out (eucj_of_uni d' m' (eucj_uni d m w)) = mb_bytes w \<and>
      (eucj_of_uni d' m' (eucj_uni d m w) \<noteq> 0 \<or> eucj_uni d m w = 0)"
proof (cases "hi8 w = 0")
  case True
  with assms have "unat w < 0x80" using ucast_lo8 [OF True]
    by (auto simp: euc_ok_def) (metis unat_u8_to_u16)
  then show ?thesis
    using True by (simp add: eucj_uni_def eucj_of_uni_def eucj_out_def mb_bytes_def lo8_def)
next
  case False
  then have h: "0x80 \<le> unat (hi8 w)" "0x80 \<le> unat (lo8 w)" "hi8 w \<noteq> 0x80"
    and u: "0x7F < unat (eucj_uni d m w)" "via16 d' m' (eucj_uni d m w) = w AND NOT 0x8080"
    using assms by (auto simp: euc_ok_def EUC1_def EUC2_def and_0x80)
  have "(0x8080 :: u16) = wide2 0x80 0x80" by (simp add: wide2_def)
  then have j: "w AND NOT 0x8080 = wide2 (hi8 w XOR 0x80) (lo8 w XOR 0x80)"
    using wide2_and_not [of "hi8 w" "lo8 w" "0x80" "0x80"] clear_high [OF h(1)] clear_high [OF h(2)]
    by (simp only: wide2_hi_lo)
  have "unat (hi8 w) \<noteq> 0x80" using h(3) by (simp add: word_unat_eq_iff)
  then have n: "unat (hi8 w XOR 0x80) \<noteq> 0" using h(1) xor_high [OF h(1)] by simp
  define jc where "jc = w AND NOT 0x8080"
  have jc: "hi8 jc = hi8 w XOR 0x80" "lo8 jc = lo8 w XOR 0x80" "via16 d' m' (eucj_uni d m w) = jc"
    using j u(2) by (simp_all only: jc_def hi8_wide2 lo8_wide2)
  have "jc \<noteq> 0"
  proof
    assume "jc = 0"
    then have "unat (hi8 jc) = 0" by (simp add: unat_hi8)
    with n jc(1) show False by simp
  qed
  then show ?thesis
    using u(1) jc n False restore_high [OF h(1)] restore_high [OF h(2)]
    by (simp add: eucj_of_uni_def eucj_out_def mb_bytes_def Let_def flip: unat_hi8 unat_lo8)
qed

text \<open>Shift-JIS text converted to Unicode and back is the text, with no error on either way,
  when the tables map each character to a Unicode value and that value back to the character's
  JIS code (a single-byte code for ASCII and Katakana). In particular Ken Lunde's \<open>seven2eight\<close>
  undoes the arithmetic of \<open>S2E\<close>.\<close>

lemma sjis_unicode_roundtrip:
  assumes "\<forall>c \<in> set cs. sjis_ok c \<and> unshifted c \<and> sjis_mapped kd km d m c \<and>
      (\<forall>s1 s2. c = Kanji s1 s2 \<longrightarrow> s1 \<noteq> 0x80 \<and>
         sjis_of_uni kd' km' d' m' (sjis_uni kd km d m c) = jis_code s1 s2) \<and>
      (\<forall>b. c = Ascii b \<or> c = Kana b \<longrightarrow>
         sjis_of_uni kd' km' d' m' (sjis_uni kd km d m c) = ucast b \<and>
         (b = 0 \<longrightarrow> sjis_uni kd km d m c = 0))"
    and "s = concat (map sjis_bytes cs)" and "2 * length s < 65536"
    and "to_obj = CV_convert_init t f fn (Short_Table d) (Short_Table m)"
    and "from_obj = CV_convert_init t' f' fn' (Short_Table d') (Short_Table m')"
    and "wide = map (sjis_uni kd km d m) cs"
  shows "CVJIS_sjis_to_unicode kd km to_obj (Some (length s)) (2 * length s) s (length s) =
      Some \<lparr>cv_ret = 2 * length cs, cv_out = wide, cv_err = 0, cv_pos = Some (length s)\<rparr> \<and>
    CVJIS_unicode_to_sjis kd' km' from_obj (Some (2 * length cs)) (2 * length cs) wide (2 * length cs) =
      Some \<lparr>cv_ret = length s, cv_out = s, cv_err = 0, cv_pos = Some (2 * length cs)\<rparr>"
proof
  note b = jis_bytes_bounds [of cs]
  have one: "concat (map (\<lambda>c. [f c]) xs) = map f xs" for f :: "jis_char \<Rightarrow> u16" and xs
    by (induction xs) auto
  have one': "concat (map (\<lambda>c. [c]) xs) = xs" for xs :: "u16 list"
    by (induction xs) auto
  have ok: "\<forall>c \<in> set cs. sjis_ok c \<and> sjis_mapped kd km d m c" using assms(1) by blast
  show "CVJIS_sjis_to_unicode kd km to_obj (Some (length s)) (2 * length s) s (length s) =
      Some \<lparr>cv_ret = 2 * length cs, cv_out = wide, cv_err = 0, cv_pos = Some (length s)\<rparr>"
    using s2u.decode_all [OF ok, of "length s" "2 * length s" "length s" cv_truncated t f fn]
      assms(2-6) b
    by (simp add: CVJIS_sjis_to_unicode_def one)
  have out: "sjis_out (sjis_of_uni kd' km' d' m' (sjis_uni kd km d m c)) = sjis_bytes c \<and>
      (sjis_of_uni kd' km' d' m' (sjis_uni kd km d m c) \<noteq> 0 \<or> sjis_uni kd km d m c = 0)"
    if "c \<in> set cs" for c
    using assms(1) that by (intro sjis_char_back) auto
  have ok': "\<forall>w \<in> set wide. sjis_of_uni kd' km' d' m' w \<noteq> 0 \<or> w = 0"
    using out assms(6) by auto
  have "map (\<lambda>w. sjis_out (sjis_of_uni kd' km' d' m' w)) wide = map sjis_bytes cs"
    using out assms(6) by simp
  then have r: "concat (map (\<lambda>w. sjis_out (sjis_of_uni kd' km' d' m' w)) wide) = s"
    using assms(2) by simp
  have "length s \<le> 2 * length cs"
    unfolding assms(2)
  proof (induction cs)
    case (Cons c cs)
    then show ?case by (cases c) auto
  qed simp
  then show "CVJIS_unicode_to_sjis kd' km' from_obj (Some (2 * length cs)) (2 * length cs) wide
      (2 * length cs) =
      Some \<lparr>cv_ret = length s, cv_out = s, cv_err = 0, cv_pos = Some (2 * length cs)\<rparr>"
    using u2s.decode_all [OF ok', of "2 * length cs" "2 * length cs" "2 * length cs" cv_truncated
      t' f' fn', unfolded r one'] assms(2,3,5,6) b
    by (simp add: CVJIS_unicode_to_sjis_def)
qed

lemma sjis_unicode_roundtrip_example:
  "let s = [0x41, 0xB1, 0x88, 0x9F]; wide = [0x41, 0xB1, 0x3021] in
   CVJIS_unicode_to_sjis word_of_nat (\<lambda>i. 256 * word_of_nat i)
      (CV_convert_init 5 8 Fn_CVJIS_unicode_to_sjis (Short_Table word_of_nat)
        (Short_Table (\<lambda>i. 256 * word_of_nat i))) (Some 6) 6 wide 6 =
    Some \<lparr>cv_ret = length s, cv_out = s, cv_err = 0, cv_pos = Some 6\<rparr>"
proof -
  let ?m = "\<lambda>i. 256 * word_of_nat i :: u16" and ?d = "word_of_nat :: nat \<Rightarrow> u16"
  let ?cs = "[Ascii 0x41, Kana 0xB1, Kanji 0x88 0x9F]"
  have id: "via16 ?d ?m 0x41 = 0x41" "via16 ?d ?m 0xB1 = 0xB1" "via16 ?d ?m 0x3021 = 0x3021"
    by (simp_all add: via16_def)
  have k: "jis_code 0x88 0x9F = 0x3021" by (simp add: jis_code_def S2E_def wide2_def)
  have u: "sjis_uni ?d ?m ?d ?m (Ascii 0x41) = 0x41" "sjis_uni ?d ?m ?d ?m (Kana 0xB1) = 0xB1"
    "sjis_uni ?d ?m ?d ?m (Kanji 0x88 0x9F) = 0x3021"
    by (simp_all add: sjis_uni_def k id)
  have o: "sjis_of_uni ?d ?m ?d ?m 0x41 = 0x41" "sjis_of_uni ?d ?m ?d ?m 0xB1 = 0xB1"
    "sjis_of_uni ?d ?m ?d ?m 0x3021 = 0x3021"
    by (simp_all add: sjis_of_uni_def id)
  have h: "\<forall>c \<in> set ?cs. sjis_ok c \<and> unshifted c \<and> sjis_mapped ?d ?m ?d ?m c \<and>
      (\<forall>s1 s2. c = Kanji s1 s2 \<longrightarrow> s1 \<noteq> 0x80 \<and>
         sjis_of_uni ?d ?m ?d ?m (sjis_uni ?d ?m ?d ?m c) = jis_code s1 s2) \<and>
      (\<forall>b. c = Ascii b \<or> c = Kana b \<longrightarrow>
         sjis_of_uni ?d ?m ?d ?m (sjis_uni ?d ?m ?d ?m c) = ucast b \<and>
         (b = 0 \<longrightarrow> sjis_uni ?d ?m ?d ?m c = 0))"
    by (simp add: u o k SJIS1_def SJIS2_def SJIS_SINGLE_def sjis_mapped_def mapped_def id)
  have s: "concat (map sjis_bytes ?cs) = [0x41, 0xB1, 0x88, 0x9F]" by simp
  have w: "map (sjis_uni ?d ?m ?d ?m) ?cs = [0x41, 0xB1, 0x3021]" by (simp add: u)
  have "2 * length (concat (map sjis_bytes ?cs)) < 65536" by simp
  note r = sjis_unicode_roundtrip [OF h refl this refl refl refl, THEN conjunct2,
      of 5 8 Fn_CVJIS_unicode_to_sjis]
  have n: "2 * length ?cs = 6" by simp
  show ?thesis using r unfolding s w n Let_def .
qed

text \<open>EUC-J text of ASCII and two-byte characters converted to Unicode and back is the text,
  with no error on either way, when the tables are inverse on its seven-bit JIS codes and map
  them outside ASCII.\<close>

lemma eucj_unicode_roundtrip:
  assumes "\<forall>w \<in> set ws. euc_ok w \<and> (hi8 w \<noteq> 0 \<longrightarrow> hi8 w \<noteq> 0x80 \<and> 0x7F < unat (eucj_uni d m w) \<and>
      via16 d' m' (eucj_uni d m w) = w AND NOT 0x8080)"
    and "s = concat (map mb_bytes ws)" and "2 * length s < 65536"
    and "to_obj = CV_convert_init t f fn (Short_Table d) (Short_Table m)"
    and "from_obj = CV_convert_init t' f' fn' (Short_Table d') (Short_Table m')"
    and "wide = map (eucj_uni d m) ws"
  shows "CVJIS_eucj_to_unicode to_obj (Some (length s)) (2 * length s) s (length s) =
      Some \<lparr>cv_ret = 2 * length ws, cv_out = wide, cv_err = 0, cv_pos = Some (length s)\<rparr> \<and>
    CVJIS_unicode_to_eucj from_obj (Some (2 * length ws)) (2 * length ws) wide (2 * length ws) =
      Some \<lparr>cv_ret = length s, cv_out = s, cv_err = 0, cv_pos = Some (2 * length ws)\<rparr>"
proof
  note b = mb_bytes_bounds [of ws]
  have one: "concat (map (\<lambda>c. [f c]) xs) = map f xs" for f :: "u16 \<Rightarrow> u16" and xs
    by (induction xs) auto
  have one': "concat (map (\<lambda>c. [c]) xs) = xs" for xs :: "u16 list"
    by (induction xs) auto
  have ok: "\<forall>w \<in> set ws. euc_ok w" using assms(1) by blast
  show "CVJIS_eucj_to_unicode to_obj (Some (length s)) (2 * length s) s (length s) =
      Some \<lparr>cv_ret = 2 * length ws, cv_out = wide, cv_err = 0, cv_pos = Some (length s)\<rparr>"
    using e2u.decode_all [OF ok, of "length s" d m "2 * length s" "length s" cv_truncated t f fn]
      assms(2-6) b
    by (simp add: CVJIS_eucj_to_unicode_def one)
  have out: "eucj_out (eucj_of_uni d' m' (eucj_uni d m w)) = mb_bytes w \<and>
      (eucj_of_uni d' m' (eucj_uni d m w) \<noteq> 0 \<or> eucj_uni d m w = 0)"
    if "w \<in> set ws" for w
    using assms(1) that by (intro eucj_char_back) auto
  show "CVJIS_unicode_to_eucj from_obj (Some (2 * length ws)) (2 * length ws) wide (2 * length ws) =
      Some \<lparr>cv_ret = length s, cv_out = s, cv_err = 0, cv_pos = Some (2 * length ws)\<rparr>"
  proof -
    have ok': "\<forall>w \<in> set wide. eucj_of_uni d' m' w \<noteq> 0 \<or> w = 0" using out assms(6) by auto
    have "map (\<lambda>w. eucj_out (eucj_of_uni d' m' w)) wide = map mb_bytes ws"
      using out assms(6) by simp
    then have r: "concat (map (\<lambda>w. eucj_out (eucj_of_uni d' m' w)) wide) = s"
      using assms(2) by simp
    show ?thesis
      using u2e.decode_all [OF ok', of "2 * length ws" "2 * length ws" "2 * length ws" cv_truncated
        t' f' fn', unfolded r one'] assms(2,3,5,6) b
      by (simp add: CVJIS_unicode_to_eucj_def)
  qed
qed

lemma eucj_unicode_roundtrip_example:
  "let s = [0x41, 0xB0, 0xA1]; wide = [0x41, 0x3021] in
   CVJIS_unicode_to_eucj (CV_convert_init 6 8 Fn_CVJIS_unicode_to_eucj (Short_Table word_of_nat)
        (Short_Table (\<lambda>i. 256 * word_of_nat i))) (Some 4) 4 wide 4 =
    Some \<lparr>cv_ret = length s, cv_out = s, cv_err = 0, cv_pos = Some 4\<rparr>"
proof -
  let ?m = "\<lambda>i. 256 * word_of_nat i :: u16" and ?d = "word_of_nat :: nat \<Rightarrow> u16"
  let ?ws = "[0x41, 0xB0A1] :: u16 list"
  have id: "via16 ?d ?m 0x3021 = 0x3021" by (simp add: via16_def)
  have c: "hi8 0x41 = 0" "lo8 0x41 = 0x41" "hi8 0xB0A1 = 0xB0" "lo8 0xB0A1 = 0xA1"
    by (simp_all add: hi8_def lo8_def)
  have a: "(0xB0A1 :: u16) AND NOT 0x8080 = 0x3021" by simp
  have u: "eucj_uni ?d ?m 0x41 = 0x41" "eucj_uni ?d ?m 0xB0A1 = 0x3021"
    by (simp_all only: eucj_uni_def c a id if_True) simp_all
  have h: "\<forall>w \<in> set ?ws. euc_ok w \<and> (hi8 w \<noteq> 0 \<longrightarrow> hi8 w \<noteq> 0x80 \<and>
      0x7F < unat (eucj_uni ?d ?m w) \<and> via16 ?d ?m (eucj_uni ?d ?m w) = w AND NOT 0x8080)"
    by (simp add: euc_ok_def EUC1_def EUC2_def c u id)
  have s: "concat (map mb_bytes ?ws) = [0x41, 0xB0, 0xA1]" by (simp add: mb_bytes_def c)
  have w: "map (eucj_uni ?d ?m) ?ws = [0x41, 0x3021]" by (simp add: u)
  have "2 * length (concat (map mb_bytes ?ws)) < 65536" by (simp add: mb_bytes_def c)
  note r = eucj_unicode_roundtrip [OF h refl this refl refl refl, THEN conjunct2,
      of 6 8 Fn_CVJIS_unicode_to_eucj]
  have n: "2 * length ?ws = 4" by simp
  show ?thesis using r unfolding s w n Let_def .
qed

text \<open>\<open>CVJIS_eucj_to_unicode\<close> reads past its input: on a string that ends in the first byte of a
  two-byte character it looks at the byte after the end (an out-of-bounds read when the memory
  stops there), and when that byte has its high bit set it takes both as a character, counts the
  length down through zero, and reports a position behind the end of the string.\<close>

lemma eucj_overread:
  fixes t f :: int and fn :: convert_fn and d m :: "nat \<Rightarrow> u16"
  assumes "0x80 \<le> unat c1" and "0x80 \<le> unat c2"
  defines "obj \<equiv> CV_convert_init t f fn (Short_Table d) (Short_Table m)"
  shows "CVJIS_eucj_to_unicode obj (Some 1) 2 [c1] 1 = None \<and>
    CVJIS_eucj_to_unicode obj (Some 1) 2 [c1, c2] 1 =
      Some \<lparr>cv_ret = 2, cv_out = [via16 d m (wide2 c1 c2 AND NOT 0x8080)],
            cv_err = CS_TRUNCATION_ERROR, cv_pos = Some 2\<rparr>"
proof
  have h: "c1 AND 0x80 \<noteq> 0" "c2 AND 0x80 \<noteq> 0" using assms(1,2) by (simp_all add: and_0x80)
  show "CVJIS_eucj_to_unicode obj (Some 1) 2 [c1] 1 = None"
    using h while_loop_fault [of jis_guard "cv_start [c1] 1 2 1" "eucj_to_unicode_body obj"]
    by (simp add: CVJIS_eucj_to_unicode_def jis_guard_def eucj_to_unicode_body_def cv_start_def
        cv_read_def cv_peek_def)
  let ?st = "cv_start [c1, c2] 1 2 1 :: (u8, u16) cv_state"
  let ?st' = "\<lparr>cvs_src = [], cvs_src_len = 65535,
      cvs_dest = [via16 d m (wide2 c1 c2 AND NOT 0x8080)], cvs_dest_len = 0, cvs_room = 0,
      cvs_err = 0\<rparr>"
  have "while_loop jis_guard (eucj_to_unicode_body obj) ?st =
      while_loop jis_guard (eucj_to_unicode_body obj) ?st'"
    by (rule while_loop_next)
      (use h in \<open>simp_all add: obj_def jis_guard_def eucj_to_unicode_body_def jis_store_def
        cv_start_def cv_simps ushort_sub_def\<close>)
  also have "\<dots> = Some ?st'" by (simp add: jis_guard_def)
  finally show "CVJIS_eucj_to_unicode obj (Some 1) 2 [c1, c2] 1 =
      Some \<lparr>cv_ret = 2, cv_out = [via16 d m (wide2 c1 c2 AND NOT 0x8080)],
            cv_err = CS_TRUNCATION_ERROR, cv_pos = Some 2\<rparr>"
    by (simp add: CVJIS_eucj_to_unicode_def cv_finish_def cv_truncated_def ushort_sub_def)
qed

lemma eucj_overread_example:
  "CVJIS_eucj_to_unicode (CV_convert_init 8 6 Fn_CVJIS_eucj_to_unicode (Short_Table word_of_nat)
      (Short_Table (\<lambda>i. 0))) (Some 1) 2 [0xB0] 1 = None"
  using eucj_overread [where ?c1.0 = "0xB0" and ?c2.0 = "0xA1"
      and t = 8 and f = 6 and fn = Fn_CVJIS_eucj_to_unicode and d = word_of_nat and m = "\<lambda>i. 0"]
  by simp

text \<open>Whatever the bytes, every other converter and packer of \<open>cv_jis.c\<close> returns, keeps inside
  the source and the destination it was given, and reports no error exactly when all of the
  source was converted.\<close>

lemma jis_convert_safe:
  assumes "slen < 65536" and "dlen < 65536"
    and "slen \<le> length bytes" and "slen \<le> 2 * length wides" and "dlen \<le> room"
    and "obj = CV_convert_init t f fn (Short_Table d) (Short_Table m)"
  shows "cv_safe 2 slen dlen (CVJIS_sjis_to_unicode kd km obj (Some room) dlen bytes slen) \<and>
    cv_safe 1 slen dlen (CVJIS_unicode_to_sjis kd km obj (Some room) dlen wides slen) \<and>
    cv_safe 1 slen dlen (CVJIS_unicode_to_eucj obj (Some room) dlen wides slen) \<and>
    cv_safe 1 slen dlen (CVJIS_sjis2euc (Some room) dlen bytes slen) \<and>
    cv_safe 1 slen dlen (CVJIS_euc2sjis (Some room) dlen bytes slen) \<and>
    cv_safe 2 slen dlen (CVJIS_euc_byte2short (Some room) dlen bytes slen) \<and>
    cv_safe 2 slen dlen (CVJIS_sjis_byte2short (Some room) dlen bytes slen)"
proof -
  have ok: "cv_ok 1 2 (cv_start bytes slen dlen room :: (u8, u16) cv_state)"
    "cv_ok 2 1 (cv_start wides slen dlen room :: (u16, u8) cv_state)"
    "cv_ok 1 1 (cv_start bytes slen dlen room :: (u8, u8) cv_state)"
    using assms by (auto simp: cv_ok_def cv_start_def)
  note fin = disjI1 [OF refl]
  show ?thesis
    using s2u.report_safe [OF ok(1) fin] u2s.report_safe [OF ok(2) fin]
      u2e.report_safe [OF ok(2) fin] s2e.report_safe [OF ok(3) fin] e2s.report_safe [OF ok(3) fin]
      euc.b2s.report_safe [OF ok(1) fin] sjis.b2s.report_safe [OF ok(1) fin]
    by (simp add: CVJIS_sjis_to_unicode_def CVJIS_unicode_to_sjis_def CVJIS_unicode_to_eucj_def
        CVJIS_sjis2euc_def CVJIS_euc2sjis_def CVJIS_euc_byte2short_def CVJIS_sjis_byte2short_def
        jis_shapes assms(6))
qed

lemma jis_convert_safe_example:
  "cv_safe 1 3 4 (CVJIS_sjis2euc (Some 4) 4 [0x88, 0x9F, 0x88] 3)"
  using jis_convert_safe [of 3 4 "[0x88, 0x9F, 0x88]" "[0, 0]" 4 _ 0 0 Fn_CVJIS_sjis2euc "\<lambda>_. 0"
      "\<lambda>_. 0", OF _ _ _ _ _ refl] by simp

end
