(* ===== verification/Lc_Ascii.thy ===== *)
theory Lc_Ascii
  imports Intl_Obj
begin

text \<open>
  \<open>intl/lc_ascii.c\<close>: the collation family of codepoint order. Sort keys, comparison and case
  mapping for ASCII and for Windows code page 1251. A string argument is the readable memory at
  its pointer; a read past its end is \<open>None\<close>.
\<close>

section \<open>Case mapping\<close>

definition ASCII7_UPPER :: "u8 \<Rightarrow> u8" where
  "ASCII7_UPPER ch = (if 97 \<le> ch \<and> ch \<le> 122 then ch - 97 + 65 else ch)"

definition ASCII7_LOWER :: "u8 \<Rightarrow> u8" where
  "ASCII7_LOWER ch = (if 65 \<le> ch \<and> ch \<le> 90 then ch - 65 + 97 else ch)"

definition CP1251_UPPER :: "u8 \<Rightarrow> u8" where
  "CP1251_UPPER ch =
     (if 97 \<le> ch \<and> ch \<le> 122 then ch - 97 + 65
      else if 0xE0 \<le> ch \<and> ch \<le> 0xFF then ch - 0xE0 + 0xC0
      else if ch = 0xB8 then 0xA8
      else if ch = 0xB4 then 0xA5
      else if ch = 0xBA then 0xAA
      else if ch = 0xBF then 0xAF
      else if ch = 0xB3 then 0xB2
      else ch)"

definition CP1251_LOWER :: "u8 \<Rightarrow> u8" where
  "CP1251_LOWER ch =
     (if 65 \<le> ch \<and> ch \<le> 90 then ch - 65 + 97
      else if 0xC0 \<le> ch \<and> ch \<le> 0xDF then ch - 0xC0 + 0xE0
      else if ch = 0xA8 then 0xB8
      else if ch = 0xA5 then 0xB4
      else if ch = 0xAA then 0xBA
      else if ch = 0xAF then 0xBF
      else if ch = 0xB2 then 0xB3
      else ch)"

definition famasc_to_upper :: "u8 \<Rightarrow> u16" where
  "famasc_to_upper ch = ucast (ASCII7_UPPER ch)"

definition famasc_to_lower :: "u8 \<Rightarrow> u16" where
  "famasc_to_lower ch = ucast (ASCII7_LOWER ch)"

definition cp1251_to_upper :: "u8 \<Rightarrow> u16" where
  "cp1251_to_upper ch = ucast (CP1251_UPPER ch)"

definition cp1251_to_lower :: "u8 \<Rightarrow> u16" where
  "cp1251_to_lower ch = ucast (CP1251_LOWER ch)"

text \<open>
  \<open>while (iLen && iOutLen) { *pOutStr++ = UPPER (*pStr); pStr++; iLen--; iOutLen--; }\<close>:
  the bytes written and the \<open>iLen\<close> left over.
\<close>

fun upper_loop :: "(u8 \<Rightarrow> u8) \<Rightarrow> nat \<Rightarrow> u8 list \<Rightarrow> nat \<Rightarrow> (u8 list \<times> nat) option" where
  "upper_loop up 0 s m = Some ([], 0)"
| "upper_loop up (Suc n) s 0 = Some ([], Suc n)"
| "upper_loop up (Suc n) [] (Suc m) = None"
| "upper_loop up (Suc n) (c # s) (Suc m) =
     do { (out, left) \<leftarrow> upper_loop up n s m; Some (up c # out, left) }"

definition famasc_str_to_upper :: "nat \<Rightarrow> u8 list \<Rightarrow> nat \<Rightarrow> (int \<times> u8 list) option" where
  "famasc_str_to_upper iLen pStr iOutLen =
     do { (out, left) \<leftarrow> upper_loop ASCII7_UPPER iLen pStr iOutLen;
          Some (if left \<noteq> 0 then -1 else sshort (int (length out)), out) }"

definition cp1251_str_to_upper :: "nat \<Rightarrow> u8 list \<Rightarrow> nat \<Rightarrow> (int \<times> u8 list) option" where
  "cp1251_str_to_upper iLen pStr iOutLen =
     do { (out, left) \<leftarrow> upper_loop CP1251_UPPER iLen pStr iOutLen;
          Some (if left \<noteq> 0 then -1 else sshort (int (length out)), out) }"

section \<open>Sort keys\<close>

definition famasc_key_length :: "nat \<Rightarrow> nat" where
  "famasc_key_length inLen = min inLen MAX_KEY"

text \<open>\<open>while (iInLen-- && iOutLen--) *outbuff++ = *pInChar++;\<close>\<close>

fun key_copy :: "nat \<Rightarrow> nat \<Rightarrow> u8 list \<Rightarrow> u8 list option" where
  "key_copy 0 m s = Some []"
| "key_copy (Suc n) 0 s = Some []"
| "key_copy (Suc n) (Suc m) [] = None"
| "key_copy (Suc n) (Suc m) (c # s) = do { out \<leftarrow> key_copy n m s; Some (c # out) }"

definition famasc_string_to_key :: "nat \<Rightarrow> u8 list \<Rightarrow> nat \<Rightarrow> u8 list option" where
  "famasc_string_to_key iInLen pInChar iOutLen =
     (if length pInChar < iInLen then None
      else key_copy (skip_back pInChar iInLen) iOutLen pInChar)"

section \<open>Comparison\<close>

text \<open>\<open>len\<close> is a \<open>SSHORT\<close>: a count of 32768 or more arrives as a negative number.\<close>

fun all_spaces_loop :: "u8 list \<Rightarrow> nat \<Rightarrow> bool option" where
  "all_spaces_loop s 0 = Some True"
| "all_spaces_loop [] (Suc n) = None"
| "all_spaces_loop (c # s) (Suc n) = (if c \<noteq> 32 then Some False else all_spaces_loop s n)"

definition all_spaces :: "u8 list \<Rightarrow> int \<Rightarrow> bool option" where
  "all_spaces s len = all_spaces_loop s (nat (sshort len))"

text \<open>
  The \<open>for\<close> loop and what follows it; \<open>k\<close> is \<open>len - i\<close>, the strings and their lengths are those
  from position \<open>i\<close> on.
\<close>

fun famasc_loop :: "nat \<Rightarrow> u8 list \<Rightarrow> nat \<Rightarrow> u8 list \<Rightarrow> nat \<Rightarrow> int option" where
  "famasc_loop 0 s1 l1 s2 l2 =
     (if 0 < l1 then do { sp \<leftarrow> all_spaces s1 (int l1); Some (if sp then 0 else 1) }
      else if 0 < l2 then do { sp \<leftarrow> all_spaces s2 (int l2); Some (if sp then 0 else -1) }
      else Some 0)"
| "famasc_loop (Suc k) s1 l1 s2 l2 =
     (case (s1, s2) of
        (a # t1, b # t2) \<Rightarrow>
          (if a = b then famasc_loop k t1 (l1 - 1) t2 (l2 - 1)
           else do { sp1 \<leftarrow> all_spaces s1 (int l1);
                     if sp1 then Some (-1)
                     else do { sp2 \<leftarrow> all_spaces s2 (int l2);
                               if sp2 then Some 1 else if a < b then Some (-1) else Some 1 } })
      | _ \<Rightarrow> None)"

definition famasc_compare :: "nat \<Rightarrow> u8 list \<Rightarrow> nat \<Rightarrow> u8 list \<Rightarrow> int option" where
  "famasc_compare l1 s1 l2 s2 = famasc_loop (min l1 l2) s1 l1 s2 l2"

section \<open>What the loops compute\<close>

lemma upper_loop_spec:
  "n \<le> length s \<Longrightarrow> upper_loop up n s m = Some (map up (take (min n m) s), n - m)"
  by (induction up n s m rule: upper_loop.induct) auto

lemma key_copy_spec: "n \<le> length s \<Longrightarrow> key_copy n m s = Some (take (min n m) s)"
  by (induction n m s rule: key_copy.induct) auto

lemma all_spaces_spec:
  "n \<le> length s \<Longrightarrow> n \<le> 32767 \<Longrightarrow> all_spaces s (int n) = Some (strip (take n s) = [])"
proof -
  have "all_spaces_loop s n = Some (\<forall>c \<in> set (take n s). c = 32)" if "n \<le> length s" for n
    using that by (induction s n rule: all_spaces_loop.induct) auto
  moreover have "(\<forall>c \<in> set t. c = 32) = (strip t = [])" for t
    by (induction t rule: rev_induct) (auto simp: strip_snoc)
  moreover assume "n \<le> length s" "n \<le> 32767"
  ultimately show ?thesis by (simp add: all_spaces_def sshort_id)
qed

lemma strip_Cons: "strip (c # s) = (if strip s = [] \<and> c = 32 then [] else c # strip s)"
proof (induction s rule: rev_induct)
  case Nil
  show ?case using strip_snoc [of "[]" c] by simp
next
  case (snoc x s)
  show ?case
    using snoc strip_snoc [of "c # s" x] strip_snoc [of s x] by (cases "c = 32"; cases "x = 32") auto
qed

lemma byte_cmp_strip_Cons:
  "byte_cmp (strip (a # s)) (strip (a # t)) = byte_cmp (strip s) (strip t)"
  by (auto simp: strip_Cons neq_Nil_conv)

lemma byte_cmp_strip_diff:
  assumes "a \<noteq> b"
  shows "byte_cmp (strip (a # s)) (strip (b # t)) =
    (if strip (a # s) = [] then -1 else if strip (b # t) = [] then 1 else if a < b then -1 else 1)"
  using assms by (auto simp: strip_Cons neq_Nil_conv)

lemma byte_cmp_Nil: "byte_cmp s [] = (if s = [] then 0 else 1)" "byte_cmp [] s = (if s = [] then 0 else -1)"
  by (cases s; simp)+

lemma famasc_loop_spec:
  "k = min l1 l2 \<Longrightarrow> l1 \<le> length s1 \<Longrightarrow> l2 \<le> length s2 \<Longrightarrow> l1 \<le> 32767 \<Longrightarrow> l2 \<le> 32767 \<Longrightarrow>
   famasc_loop k s1 l1 s2 l2 = Some (byte_cmp (strip (take l1 s1)) (strip (take l2 s2)))"
proof (induction k s1 l1 s2 l2 rule: famasc_loop.induct)
  case (1 s1 l1 s2 l2)
  then show ?case
    by (cases l1; cases l2) (auto simp: all_spaces_spec byte_cmp_Nil simp del: of_nat_Suc)
next
  case (2 k s1 l1 s2 l2)
  then obtain a t1 b t2 where s: "s1 = a # t1" "s2 = b # t2"
    by (cases s1; cases s2) auto
  obtain n1 n2 where n: "l1 = Suc n1" "l2 = Suc n2" using 2(2) by (cases l1; cases l2) auto
  show ?case
  proof (cases "a = b")
    case True
    with 2 s n show ?thesis by (simp add: byte_cmp_strip_Cons)
  next
    case False
    then have "byte_cmp (strip (take l1 s1)) (strip (take l2 s2)) =
      (if strip (take l1 s1) = [] then -1 else if strip (take l2 s2) = [] then 1
       else if a < b then -1 else 1)"
      using s n byte_cmp_strip_diff by simp
    with False 2(3-) s show ?thesis by (simp add: all_spaces_spec del: of_nat_Suc)
  qed
qed

text \<open>The byte functions, checked on all 256 values.\<close>

lemma upper_upper:
  "all_bytes (\<lambda>c. ASCII7_UPPER (ASCII7_UPPER c) = ASCII7_UPPER c \<and>
     CP1251_UPPER (CP1251_UPPER c) = CP1251_UPPER c)"
  by code_simp

lemma upper_lower:
  "all_bytes (\<lambda>c. ASCII7_UPPER (ASCII7_LOWER c) = ASCII7_UPPER c \<and>
     CP1251_UPPER (CP1251_LOWER c) = CP1251_UPPER c)"
  by code_simp

section \<open>Properties\<close>

text \<open>C31. Key order is comparison order: for strings of up to \<open>MAX_KEY\<close> bytes, with key buffers as
  long as \<open>famasc_key_length\<close> asks, the keys exist, are the strings without their trailing
  spaces, and comparing them byte by byte (the shorter first) gives exactly what
  \<open>famasc_compare\<close> returns for the strings.\<close>

theorem famasc_key_order:
  assumes "length s1 \<le> MAX_KEY" and "length s2 \<le> MAX_KEY"
    and "famasc_key_length (length s1) \<le> out1" and "famasc_key_length (length s2) \<le> out2"
  shows "\<exists>k1 k2. famasc_string_to_key (length s1) s1 out1 = Some k1 \<and>
      famasc_string_to_key (length s2) s2 out2 = Some k2 \<and>
      k1 = strip s1 \<and> k2 = strip s2 \<and> length k1 \<le> out1 \<and> length k2 \<le> out2 \<and>
      famasc_compare (length s1) s1 (length s2) s2 = Some (byte_cmp k1 k2)"
proof -
  have key: "famasc_string_to_key (length s) s out = Some (strip s) \<and> length (strip s) \<le> out"
    if "length s \<le> MAX_KEY" "famasc_key_length (length s) \<le> out" for s out
    using that skip_back_le [of s "length s"] length_strip_le [of s]
    by (simp add: famasc_string_to_key_def key_copy_spec famasc_key_length_def strip_def min_def)
  show ?thesis
    using key [of s1 out1] key [of s2 out2] assms
      famasc_loop_spec [of "min (length s1) (length s2)" "length s1" "length s2" s1 s2]
    by (simp add: famasc_compare_def MAX_KEY_def)
qed

theorem famasc_key_order_witness:
  "let s = [0x61, 0x62, 0x20]; t = [0x61, 0x63] in
   famasc_compare (length s) s (length t) t = Some (-1)"
  using famasc_key_order [of "[0x61, 0x62, 0x20]" "[0x61, 0x63]" 3 2]
  by (simp add: MAX_KEY_def famasc_key_length_def strip_Cons)

text \<open>Comparison ignores trailing spaces and orders all strings that reach it (up to 32767
  bytes): it returns 0 exactly when the strings are equal without their trailing spaces, changes
  sign when the arguments are swapped, and is transitive.\<close>

lemma famasc_compare_order:
  assumes "length s \<le> 32767" "length t \<le> 32767" "length u \<le> 32767"
  shows "\<exists>st ts tu su. famasc_compare (length s) s (length t) t = Some st \<and>
      famasc_compare (length t) t (length s) s = Some ts \<and>
      famasc_compare (length t) t (length u) u = Some tu \<and>
      famasc_compare (length s) s (length u) u = Some su \<and>
      ts = - st \<and> (st = 0 \<longleftrightarrow> strip s = strip t) \<and> (st < 0 \<and> tu < 0 \<longrightarrow> su < 0)"
proof -
  have c: "famasc_compare (length s) s (length t) t = Some (byte_cmp (strip s) (strip t))"
    if "length s \<le> 32767" "length t \<le> 32767" for s t
    using that famasc_loop_spec [of "min (length s) (length t)" "length s" "length t" s t]
    by (simp add: famasc_compare_def)
  show ?thesis
    using c assms byte_cmp_sym [of "strip t" "strip s"] byte_cmp_eq_0 [of "strip s" "strip t"]
      byte_cmp_trans [of "strip s" "strip t" "strip u"] by simp
qed

lemma famasc_compare_order_example:
  "let s = [0x61, 0x20]; t = [0x61] in famasc_compare (length s) s (length t) t = Some 0"
  using famasc_compare_order [of "[0x61, 0x20]" "[0x61]" "[]"] by (auto simp: strip_Cons)

text \<open>Case mapping: for both families \<open>str_to_upper\<close> maps every byte and returns the length
  when the output buffer is long enough, and returns -1 otherwise; mapping a result again
  changes nothing, and a letter and its lower-case form have the same upper-case form.\<close>

lemma ascii_str_to_upper:
  assumes "length s \<le> 32000"
    and "(up, low, str_to_upper) \<in> {(ASCII7_UPPER, ASCII7_LOWER, famasc_str_to_upper),
      (CP1251_UPPER, CP1251_LOWER, cp1251_str_to_upper)}"
  shows "\<exists>r out. str_to_upper (length s) s n = Some (r, out) \<and> length out \<le> n \<and>
      (if length s \<le> n then r = int (length s) \<and> out = map up s else r = -1) \<and>
      (length s \<le> n \<longrightarrow> str_to_upper (length s) out n = Some (r, out) \<and>
         str_to_upper (length s) (map low s) n = Some (r, out))"
proof -
  have u: "up (up c) = up c" "up (low c) = up c" for c
    using all_u8 [OF upper_upper] all_u8 [OF upper_lower] assms(2) by auto
  have l: "str_to_upper (length t) t n =
      Some (if length t \<le> n then int (length t) else -1, map up (take n t))"
    if "length t \<le> 32000" for t
    using assms(2) that
    by (auto simp: famasc_str_to_upper_def cp1251_str_to_upper_def upper_loop_spec sshort_id
        min_def)
  have "map up (map up s) = map up s" "map up (map low s) = map up s" by (simp_all add: u)
  then show ?thesis
    using l [OF assms(1)] l [of "map up s"] l [of "map low s"] assms(1) by auto
qed

lemma ascii_str_to_upper_example:
  "let s = [0x61, 0x31] in \<exists>r out. famasc_str_to_upper (length s) s 1 = Some (r, out) \<and> r = -1"
  using ascii_str_to_upper [of "[0x61, 0x31]" ASCII7_UPPER ASCII7_LOWER famasc_str_to_upper 1]
  by auto

end
