(* ===== verification/Lc_Narrow.thy ===== *)
theory Lc_Narrow
  imports Intl_Obj
begin

text \<open>
  \<open>intl/lc_narrow.c\<close>: the multi-level collation of the narrow character sets. A byte has a
  primary, a secondary and a tertiary weight (the bit fields of \<open>struct SortOrderTblEntry\<close>), may
  expand to two collation elements, may join with the next byte into one, or may be a special
  that counts only when everything else is equal. The theory holds the data structures of
  \<open>intl/ld.h\<close>, the key builder \<open>LC_NARROW_string_to_key\<close> and the comparison
  \<open>LC_NARROW_compare\<close>; the theory Narrow_Order relates the two.

  A string argument is the memory at its pointer with its length. A read or a write outside a
  buffer is \<open>None\<close>, and so is running past the end of an unterminated expansion or compression
  table. The \<open>assert\<close>s of the code are empty in a production build (\<open>ldcommon.h\<close>) and have no
  counterpart here.
\<close>

section \<open>Tables\<close>

record SortOrderTblEntry =
  Primary :: u8
  Secondary :: "4 word"
  Tertiary :: "2 word"
  IsExpand :: bool
  IsCompress :: bool

record ExpandChar =
  Ch :: u8
  ExpCh1 :: u8
  ExpCh2 :: u8

record CompressPair =
  CharPair0 :: u8
  CharPair1 :: u8
  CaseWeight :: SortOrderTblEntry
  NoCaseWeight :: SortOrderTblEntry

definition TEXTTYPE_reverse_secondary :: u16 where "TEXTTYPE_reverse_secondary = 2"
definition TEXTTYPE_ignore_specials :: u16 where "TEXTTYPE_ignore_specials = 4"
definition TEXTTYPE_expand_before :: u16 where "TEXTTYPE_expand_before = 8"

text \<open>The fields of \<open>struct texttype\<close> that the routines of this file read.\<close>

record texttype =
  texttype_flags :: u16
  texttype_collation_table :: "u8 \<Rightarrow> SortOrderTblEntry"
  texttype_expand_table :: "ExpandChar list"
  texttype_compress_table :: "CompressPair list"

definition flag_set :: "texttype \<Rightarrow> u16 \<Rightarrow> bool" where
  "flag_set obj f \<longleftrightarrow> texttype_flags obj AND f \<noteq> 0"

text \<open>\<open>while (exp->Ch && exp->Ch != c) exp++;\<close>: the entry the loop stops at.\<close>

fun find_expand :: "ExpandChar list \<Rightarrow> u8 \<Rightarrow> ExpandChar option" where
  "find_expand [] c = None"
| "find_expand (e # es) c = (if Ch e \<noteq> 0 \<and> Ch e \<noteq> c then find_expand es c else Some e)"

text \<open>
  \<open>while (cmp->CharPair[0]) { if (match) ...; cmp++; }\<close>: the weight of the pair, if it is in
  the table.
\<close>

fun find_compress ::
  "CompressPair list \<Rightarrow> u8 \<Rightarrow> u8 \<Rightarrow> SortOrderTblEntry option option" where
  "find_compress [] c d = None"
| "find_compress (p # ps) c d =
     (if CharPair0 p = 0 then Some None
      else if CharPair0 p = c \<and> CharPair1 p = d then Some (Some (NoCaseWeight p))
      else find_compress ps c d)"

definition is_special :: "SortOrderTblEntry \<Rightarrow> bool" where
  "is_special col \<longleftrightarrow> IsExpand col \<and> IsCompress col"

definition is_plain :: "SortOrderTblEntry \<Rightarrow> bool" where
  "is_plain col \<longleftrightarrow> \<not> (IsExpand col \<or> IsCompress col)"

section \<open>Sort keys\<close>

definition LC_NARROW_key_length :: "nat \<Rightarrow> nat" where
  "LC_NARROW_key_length inLen = min (ushort (3 * max inLen 2)) MAX_KEY"

text \<open>The caller's buffer so far, and the local arrays \<open>secondary\<close>, \<open>tertiary\<close>, \<open>special\<close>.\<close>

record key_bufs =
  kb_out :: "u8 list"
  kb_secondary :: "u8 list"
  kb_tertiary :: "u8 list"
  kb_special :: "u8 list"

text \<open>\<open>buf[len++] = x\<close> in an array of \<open>cap\<close> bytes.\<close>

definition put :: "nat \<Rightarrow> u8 list \<Rightarrow> u8 \<Rightarrow> u8 list option" where
  "put cap buf x = (if length buf < cap then Some (buf @ [x]) else None)"

text \<open>The three \<open>if (coll->... != NULL_...)\<close> statements.\<close>

definition put_weights :: "nat \<Rightarrow> SortOrderTblEntry \<Rightarrow> key_bufs \<Rightarrow> key_bufs option" where
  "put_weights iOutLen coll b =
     do { p \<leftarrow> (if Primary coll \<noteq> 0 then put iOutLen (kb_out b) (Primary coll)
                else Some (kb_out b));
          s \<leftarrow> (if Secondary coll \<noteq> 0
                then put MAX_KEY (kb_secondary b) (ucast (Secondary coll))
                else Some (kb_secondary b));
          t \<leftarrow> (if Tertiary coll \<noteq> 0
                then put MAX_KEY (kb_tertiary b) (ucast (Tertiary coll))
                else Some (kb_tertiary b));
          Some (b\<lparr>kb_out := p, kb_secondary := s, kb_tertiary := t\<rparr>) }"

text \<open>A special: its position (in a byte) and its primary weight.\<close>

definition put_special :: "nat \<Rightarrow> SortOrderTblEntry \<Rightarrow> key_bufs \<Rightarrow> key_bufs option" where
  "put_special i coll b =
     do { s \<leftarrow> put (2 * MAX_KEY) (kb_special b) (word_of_nat (i + 1));
          s' \<leftarrow> put (2 * MAX_KEY) s (Primary coll);
          Some (b\<lparr>kb_special := s'\<rparr>) }"

text \<open>The loop over the input; the list is what is left of the string at position \<open>i\<close>.\<close>

fun key_loop :: "texttype \<Rightarrow> nat \<Rightarrow> nat \<Rightarrow> u8 list \<Rightarrow> key_bufs \<Rightarrow> key_bufs option" where
  "key_loop obj iOutLen i [] b = Some b"
| "key_loop obj iOutLen i (c # s) b =
     (let coll = texttype_collation_table obj c in
      if is_plain coll
      then do { b' \<leftarrow> put_weights iOutLen coll b; key_loop obj iOutLen (i + 1) s b' }
      else if is_special coll
      then (if Primary coll \<noteq> 0 \<and> \<not> flag_set obj TEXTTYPE_ignore_specials
            then do { b' \<leftarrow> put_special i coll b; key_loop obj iOutLen (i + 1) s b' }
            else key_loop obj iOutLen (i + 1) s b)
      else if IsExpand coll
      then do { e \<leftarrow> find_expand (texttype_expand_table obj) c;
                b' \<leftarrow> put_weights iOutLen coll b;
                b'' \<leftarrow> put_weights iOutLen (texttype_collation_table obj (ExpCh2 e)) b';
                key_loop obj iOutLen (i + 1) s b'' }
      else (case s of
              [] \<Rightarrow> do { b' \<leftarrow> put_weights iOutLen coll b; key_loop obj iOutLen (i + 1) s b' }
            | d # s' \<Rightarrow>
                do { m \<leftarrow> find_compress (texttype_compress_table obj) c d;
                     case m of
                       Some w \<Rightarrow> do { b' \<leftarrow> put_weights iOutLen w b;
                                      key_loop obj iOutLen (i + 2) s' b' }
                     | None \<Rightarrow> do { b' \<leftarrow> put_weights iOutLen coll b;
                                    key_loop obj iOutLen (i + 1) s b' } }))"

text \<open>
  The loops \<open>for (i = 0; i < n && iOutLen; i++) { *outbuff++ = ...; iOutLen--; }\<close> append as much
  of a list as there is room for.
\<close>

definition add_room :: "nat \<Rightarrow> u8 list \<Rightarrow> u8 list \<Rightarrow> u8 list" where
  "add_room iOutLen key new = key @ take (iOutLen - length key) new"

definition LC_NARROW_string_to_key ::
  "texttype \<Rightarrow> nat \<Rightarrow> u8 list \<Rightarrow> nat \<Rightarrow> bool \<Rightarrow> u8 list option" where
  "LC_NARROW_string_to_key obj iInLen pInChar iOutLen partial =
     (if length pInChar < iInLen then None
      else do {
        b \<leftarrow> key_loop obj iOutLen 0 (take (skip_back pInChar iInLen) pInChar)
               \<lparr>kb_out = [], kb_secondary = [], kb_tertiary = [], kb_special = []\<rparr>;
        if partial then Some (kb_out b)
        else
          let k1 = add_room iOutLen (kb_out b)
                     (if flag_set obj TEXTTYPE_reverse_secondary then rev (kb_secondary b)
                      else kb_secondary b);
              k2 = add_room iOutLen k1 (kb_tertiary b);
              k3 = (if kb_special b \<noteq> [] \<and> length k2 < iOutLen
                       \<and> \<not> flag_set obj TEXTTYPE_ignore_specials
                    then add_room iOutLen (k2 @ [0]) (kb_special b) else k2)
          in Some k3 })"

section \<open>Comparison\<close>

text \<open>\<open>stat_flags\<close> is the two booleans for its bits \<open>HAVE_WAITING\<close> and \<open>HAVE_SPECIAL\<close>.\<close>

record coltab_status =
  have_waiting :: bool
  have_special :: bool
  stat_waiting :: "SortOrderTblEntry option"

text \<open>The \<open>while ( *l )\<close> loop of \<open>get_coltab_entry\<close>; the list is the string at \<open>*p\<close>.\<close>

fun coltab_scan :: "texttype \<Rightarrow> u8 list \<Rightarrow> coltab_status \<Rightarrow>
    (SortOrderTblEntry option \<times> u8 list \<times> coltab_status) option" where
  "coltab_scan obj [] st = Some (None, [], st)"
| "coltab_scan obj (c # s) st =
     (let col = texttype_collation_table obj c in
      if is_plain col then Some (Some col, s, st)
      else if is_special col then coltab_scan obj s (st\<lparr>have_special := True\<rparr>)
      else if IsExpand col
      then do { e \<leftarrow> find_expand (texttype_expand_table obj) c;
                Some (Some col, c # s,
                  st\<lparr>stat_waiting := Some (texttype_collation_table obj (ExpCh2 e)),
                     have_waiting := True\<rparr>) }
      else (case s of
              [] \<Rightarrow> Some (Some col, s, st)
            | d # s' \<Rightarrow>
                do { m \<leftarrow> find_compress (texttype_compress_table obj) c d;
                     Some (case m of Some w \<Rightarrow> (Some w, s', st) | None \<Rightarrow> (Some col, s, st)) }))"

definition get_coltab_entry :: "texttype \<Rightarrow> u8 list \<Rightarrow> coltab_status \<Rightarrow>
    (SortOrderTblEntry option \<times> u8 list \<times> coltab_status) option" where
  "get_coltab_entry obj s st =
     (if have_waiting st
      then (if s = [] then None
            else Some (stat_waiting st, tl s, st\<lparr>have_waiting := False\<rparr>))
      else coltab_scan obj s (st\<lparr>stat_waiting := None\<rparr>))"

text \<open>The inner loops of \<open>special_scan\<close>: skip to the next special, counting positions.\<close>

fun special_skip :: "texttype \<Rightarrow> nat \<Rightarrow> u8 list \<Rightarrow> nat \<times> u8 list" where
  "special_skip obj index [] = (index, [])"
| "special_skip obj index (c # s) =
     (if is_special (texttype_collation_table obj c) then (index, c # s)
      else special_skip obj (index + 1) s)"

lemma special_skip_le: "special_skip obj i s = (j, t) \<Longrightarrow> length t \<le> length s"
  by (induction obj i s rule: special_skip.induct) (auto split: if_splits)

function special_scan ::
  "texttype \<Rightarrow> nat \<Rightarrow> u8 list \<Rightarrow> nat \<Rightarrow> u8 list \<Rightarrow> int" where
  "special_scan obj index1 s1 index2 s2 =
     (case special_skip obj index1 s1 of (i1, t1) \<Rightarrow>
      case special_skip obj index2 s2 of (i2, t2) \<Rightarrow>
      case t1 of
        [] \<Rightarrow> (case t2 of [] \<Rightarrow> 0 | _ # _ \<Rightarrow> -1000)
      | a # u1 \<Rightarrow>
          (case t2 of
             [] \<Rightarrow> 1000
           | b # u2 \<Rightarrow>
               if i1 < i2 then -2000
               else if i2 < i1 then 2000
               else let p1 = Primary (texttype_collation_table obj a);
                        p2 = Primary (texttype_collation_table obj b) in
                    if p1 \<noteq> p2 then int (unat p1) - int (unat p2)
                    else special_scan obj (i1 + 1) u1 (i2 + 1) u2))"
  by auto
termination
  by (relation "measure (\<lambda>(obj, i1, s1, i2, s2). length s1)")
    (auto dest!: special_skip_le [OF sym])

text \<open>The locals of \<open>LC_NARROW_compare\<close>; \<open>cm_ret\<close> is set by a \<open>return\<close> inside the loop.\<close>

record cmp_state =
  cm_s1 :: "u8 list"
  cm_s2 :: "u8 list"
  cm_stat1 :: coltab_status
  cm_stat2 :: coltab_status
  cm_col1 :: "SortOrderTblEntry option"
  cm_col2 :: "SortOrderTblEntry option"
  save_secondary :: int
  save_tertiary :: int
  save_quandary :: int
  cm_ret :: "int option"

definition compare_weights ::
  "texttype \<Rightarrow> SortOrderTblEntry \<Rightarrow> SortOrderTblEntry \<Rightarrow> cmp_state \<Rightarrow> cmp_state pass" where
  "compare_weights obj col1 col2 st =
     (let w1 = have_waiting (cm_stat1 st); w2 = have_waiting (cm_stat2 st) in
      if Primary col1 \<noteq> Primary col2
      then Break (st\<lparr>cm_ret := Some (int (unat (Primary col1)) - int (unat (Primary col2)))\<rparr>)
      else if Secondary col1 \<noteq> Secondary col2
      then (if flag_set obj TEXTTYPE_reverse_secondary \<or> save_secondary st = 0
            then Next (st\<lparr>save_secondary :=
                   int (unat (Secondary col1)) - int (unat (Secondary col2))\<rparr>)
            else Next st)
      else if Tertiary col1 \<noteq> Tertiary col2
      then (if save_tertiary st = 0
            then Next (st\<lparr>save_tertiary :=
                   int (unat (Tertiary col1)) - int (unat (Tertiary col2))\<rparr>)
            else Next st)
      else if (w1 \<noteq> w2) \<and> save_quandary st = 0
      then (if flag_set obj TEXTTYPE_expand_before
            then Next (st\<lparr>save_quandary := if w1 then -1 else 1\<rparr>)
            else Next (st\<lparr>save_quandary := if w1 then 1 else -1\<rparr>))
      else Next st)"

definition compare_pass :: "texttype \<Rightarrow> cmp_state \<Rightarrow> cmp_state pass option" where
  "compare_pass obj st =
     do { (col1, s1, stat1) \<leftarrow> get_coltab_entry obj (cm_s1 st) (cm_stat1 st);
          (col2, s2, stat2) \<leftarrow> get_coltab_entry obj (cm_s2 st) (cm_stat2 st);
          let st' = st\<lparr>cm_s1 := s1, cm_stat1 := stat1, cm_col1 := col1,
                       cm_s2 := s2, cm_stat2 := stat2, cm_col2 := col2\<rparr> in
          Some (case (col1, col2) of
                  (Some c1, Some c2) \<Rightarrow> compare_weights obj c1 c2 st'
                | _ \<Rightarrow> Break st') }"

text \<open>What follows the loop; \<open>t1\<close> and \<open>t2\<close> are the saved strings.\<close>

definition compare_end :: "texttype \<Rightarrow> u8 list \<Rightarrow> u8 list \<Rightarrow> cmp_state \<Rightarrow> int" where
  "compare_end obj t1 t2 st =
     (if cm_col1 st \<noteq> None \<and> cm_col2 st = None then 500
      else if cm_col1 st = None \<and> cm_col2 st \<noteq> None then -500
      else if cm_s1 st = [] \<and> cm_s2 st = []
      then (if save_secondary st \<noteq> 0 then save_secondary st
            else if save_tertiary st \<noteq> 0 then save_tertiary st
            else if save_quandary st \<noteq> 0 then save_quandary st
            else if (have_special (cm_stat1 st) \<or> have_special (cm_stat2 st))
                    \<and> \<not> flag_set obj TEXTTYPE_ignore_specials
            then special_scan obj 0 t1 0 t2
            else 0)
      else if cm_s1 st \<noteq> [] then 600 else -600)"

definition stat_init :: coltab_status where
  "stat_init = \<lparr>have_waiting = False, have_special = False, stat_waiting = None\<rparr>"

definition compare_start :: "u8 list \<Rightarrow> u8 list \<Rightarrow> cmp_state" where
  "compare_start t1 t2 =
     \<lparr>cm_s1 = t1, cm_s2 = t2, cm_stat1 = stat_init, cm_stat2 = stat_init,
      cm_col1 = None, cm_col2 = None,
      save_secondary = 0, save_tertiary = 0, save_quandary = 0, cm_ret = None\<rparr>"

definition LC_NARROW_compare ::
  "texttype \<Rightarrow> nat \<Rightarrow> u8 list \<Rightarrow> nat \<Rightarrow> u8 list \<Rightarrow> int option" where
  "LC_NARROW_compare obj l1 s1 l2 s2 =
     (if length s1 < l1 \<or> length s2 < l2 then None
      else
        let t1 = take (skip_back s1 l1) s1; t2 = take (skip_back s2 l2) s2 in
        do { st \<leftarrow> while_loop (\<lambda>_. True) (compare_pass obj) (compare_start t1 t2);
             Some (case cm_ret st of Some r \<Rightarrow> r | None \<Rightarrow> compare_end obj t1 t2 st) })"

end
