(* ===== verification/Narrow_Order.thy ===== *)
theory Narrow_Order
  imports Lc_Narrow
begin

text \<open>
  What the routines of \<open>lc_narrow.c\<close> compute: a string is a list of collation elements and a
  list of specials; comparison is lexicographic on its levels, and a sort key is the levels one
  after the other.
\<close>

section \<open>The collation elements of a string\<close>

text \<open>
  Each element comes with the bit \<open>HAVE_WAITING\<close> after it has been delivered: set on the first
  of the two elements of an expansion.
\<close>

fun weights :: "texttype \<Rightarrow> u8 list \<Rightarrow> (SortOrderTblEntry \<times> bool) list" where
  "weights obj [] = []"
| "weights obj (c # s) =
     (let col = texttype_collation_table obj c in
      if is_plain col then (col, False) # weights obj s
      else if is_special col then weights obj s
      else if IsExpand col
      then (case find_expand (texttype_expand_table obj) c of
              None \<Rightarrow> []
            | Some e \<Rightarrow> (col, True) # (texttype_collation_table obj (ExpCh2 e), False) # weights obj s)
      else (case s of
              [] \<Rightarrow> [(col, False)]
            | d # s' \<Rightarrow>
                (case find_compress (texttype_compress_table obj) c d of
                   Some (Some w) \<Rightarrow> (w, False) # weights obj s'
                 | _ \<Rightarrow> (col, False) # weights obj s)))"

text \<open>The specials from position \<open>i\<close> on: position, primary weight, position, ...\<close>

fun specials :: "texttype \<Rightarrow> nat \<Rightarrow> u8 list \<Rightarrow> nat list" where
  "specials obj i [] = []"
| "specials obj i (c # s) =
     (if is_special (texttype_collation_table obj c)
      then i # unat (Primary (texttype_collation_table obj c)) # specials obj (i + 1) s
      else specials obj (i + 1) s)"

text \<open>
  The tables end as their loops expect, and no pair of the compression table has a special as
  its second byte.
\<close>

definition terminated :: "texttype \<Rightarrow> bool" where
  "terminated obj \<longleftrightarrow>
     (\<exists>e \<in> set (texttype_expand_table obj). Ch e = 0) \<and>
     (\<exists>p \<in> set (texttype_compress_table obj). CharPair0 p = 0) \<and>
     (\<forall>p \<in> set (texttype_compress_table obj).
        CharPair0 p \<noteq> 0 \<longrightarrow> \<not> is_special (texttype_collation_table obj (CharPair1 p)))"

lemma find_expand_Some: "terminated obj \<Longrightarrow> \<exists>e. find_expand (texttype_expand_table obj) c = Some e"
proof -
  have "\<exists>e \<in> set es. Ch e = 0 \<Longrightarrow> \<exists>e. find_expand es c = Some e" for es by (induction es) auto
  then show "terminated obj \<Longrightarrow> ?thesis" by (auto simp: terminated_def)
qed

lemma find_compress_Some:
  assumes "terminated obj"
  shows "\<exists>m. find_compress (texttype_compress_table obj) c d = Some m"
proof -
  have "\<exists>p \<in> set ps. CharPair0 p = 0 \<Longrightarrow> \<exists>m. find_compress ps c d = Some m" for ps
    by (induction ps) auto
  with assms show ?thesis by (auto simp: terminated_def)
qed

lemma find_compress_mem:
  "find_compress ps c d = Some (Some w) \<Longrightarrow>
   \<exists>p \<in> set ps. CharPair0 p \<noteq> 0 \<and> CharPair0 p = c \<and> CharPair1 p = d \<and> w = NoCaseWeight p"
  by (induction ps) (auto split: if_splits)

lemma compress_not_special:
  "terminated obj \<Longrightarrow> find_compress (texttype_compress_table obj) c d = Some (Some w) \<Longrightarrow>
   \<not> is_special (texttype_collation_table obj d)"
  using find_compress_mem [of "texttype_compress_table obj" c d w] by (auto simp: terminated_def)

lemma special_not_plain: "is_special e \<Longrightarrow> \<not> is_plain e"
  by (auto simp: is_special_def is_plain_def)

section \<open>Fetching the elements one by one\<close>

definition waiting_ok :: "u8 list \<Rightarrow> coltab_status \<Rightarrow> bool" where
  "waiting_ok s st \<longleftrightarrow> (have_waiting st \<longrightarrow> s \<noteq> [] \<and> stat_waiting st \<noteq> None)"

definition remaining ::
  "texttype \<Rightarrow> u8 list \<Rightarrow> coltab_status \<Rightarrow> (SortOrderTblEntry \<times> bool) list" where
  "remaining obj s st =
     (if have_waiting st then (the (stat_waiting st), False) # weights obj (tl s)
      else weights obj s)"

text \<open>A special has been seen, or is still to come.\<close>

definition specials_seen :: "texttype \<Rightarrow> u8 list \<Rightarrow> coltab_status \<Rightarrow> bool" where
  "specials_seen obj s st \<longleftrightarrow>
     have_special st \<or> (\<exists>c \<in> set (if have_waiting st then tl s else s).
        is_special (texttype_collation_table obj c))"

definition fetched :: "texttype \<Rightarrow> u8 list \<Rightarrow> coltab_status \<Rightarrow>
    (SortOrderTblEntry \<times> bool) list \<Rightarrow> bool \<Rightarrow> bool" where
  "fetched obj s st ws seen \<longleftrightarrow> waiting_ok s st \<and> remaining obj s st = ws \<and> specials_seen obj s st = seen"

lemma coltab_scan_spec:
  assumes "terminated obj" and "\<not> have_waiting st"
  shows "case weights obj s of
      [] \<Rightarrow> \<exists>st'. coltab_scan obj s st = Some (None, [], st') \<and>
             fetched obj [] st' [] (specials_seen obj s st)
    | (w, b) # ws \<Rightarrow> \<exists>s' st'. coltab_scan obj s st = Some (Some w, s', st') \<and> have_waiting st' = b \<and>
             fetched obj s' st' ws (specials_seen obj s st)"
  using assms
proof (induction obj s st rule: coltab_scan.induct)
  case (1 obj st)
  then show ?case by (simp add: fetched_def waiting_ok_def remaining_def)
next
  case (2 obj c s st)
  let ?col = "texttype_collation_table obj c"
  consider (plain) "is_plain ?col" | (special) "is_special ?col"
    | (expand) "\<not> is_plain ?col" "\<not> is_special ?col" "IsExpand ?col"
    | (compress) "\<not> is_plain ?col" "\<not> is_special ?col" "\<not> IsExpand ?col" by blast
  then show ?case
  proof cases
    case plain
    then show ?thesis using 2(3)
      by (auto simp: Let_def fetched_def waiting_ok_def remaining_def specials_seen_def
          dest: special_not_plain)
  next
    case special
    then have "\<not> is_plain ?col" by (rule special_not_plain)
    with special show ?thesis using 2
      by (auto simp: Let_def specials_seen_def split: list.splits prod.splits)
  next
    case expand
    then show ?thesis using 2(3) find_expand_Some [OF 2(2), of c]
      by (auto simp: Let_def fetched_def waiting_ok_def remaining_def specials_seen_def)
  next
    case compress
    show ?thesis
    proof (cases s)
      case Nil
      with compress show ?thesis using 2(3)
        by (simp add: Let_def fetched_def waiting_ok_def remaining_def specials_seen_def)
    next
      case (Cons d s')
      obtain m where m: "find_compress (texttype_compress_table obj) c d = Some m"
        using find_compress_Some [OF 2(2)] by blast
      with compress Cons show ?thesis using 2(3) compress_not_special [OF 2(2), of c d]
        by (cases m)
          (simp_all add: Let_def fetched_def waiting_ok_def remaining_def specials_seen_def)
    qed
  qed
qed

text \<open>One call of \<open>get_coltab_entry\<close> delivers the next element, or the end.\<close>

lemma get_coltab_entry_spec:
  assumes "terminated obj" and "fetched obj s st ws seen"
  shows "case ws of
      [] \<Rightarrow> \<exists>st'. get_coltab_entry obj s st = Some (None, [], st') \<and> fetched obj [] st' [] seen
    | (w, b) # ws' \<Rightarrow> \<exists>s' st'. get_coltab_entry obj s st = Some (Some w, s', st') \<and>
             have_waiting st' = b \<and> fetched obj s' st' ws' seen"
proof (cases "have_waiting st")
  case True
  with assms(2) show ?thesis
    by (cases s) (auto simp: fetched_def waiting_ok_def remaining_def specials_seen_def
        get_coltab_entry_def)
next
  case False
  then have "specials_seen obj s (st\<lparr>stat_waiting := None\<rparr>) = seen" "weights obj s = ws"
    "get_coltab_entry obj s st = coltab_scan obj s (st\<lparr>stat_waiting := None\<rparr>)"
    using assms(2) by (simp_all add: fetched_def remaining_def specials_seen_def get_coltab_entry_def)
  with coltab_scan_spec [OF assms(1), of "st\<lparr>stat_waiting := None\<rparr>" s] False show ?thesis
    by (cases ws) auto
qed

section \<open>The comparison loop on element lists\<close>

text \<open>\<open>Inl\<close>: the result; \<open>Inr\<close>: both strings ended, with the three saved differences.\<close>

fun cmp_lists :: "texttype \<Rightarrow> (SortOrderTblEntry \<times> bool) list \<Rightarrow> (SortOrderTblEntry \<times> bool) list \<Rightarrow>
    int \<times> int \<times> int \<Rightarrow> int + int \<times> int \<times> int" where
  "cmp_lists obj [] [] acc = Inr acc"
| "cmp_lists obj (_ # _) [] acc = Inl 500"
| "cmp_lists obj [] (_ # _) acc = Inl (-500)"
| "cmp_lists obj ((w1, b1) # ws1) ((w2, b2) # ws2) (sec, ter, qua) =
     (if Primary w1 \<noteq> Primary w2 then Inl (int (unat (Primary w1)) - int (unat (Primary w2)))
      else if Secondary w1 \<noteq> Secondary w2
      then cmp_lists obj ws1 ws2
             (if flag_set obj TEXTTYPE_reverse_secondary \<or> sec = 0
              then int (unat (Secondary w1)) - int (unat (Secondary w2)) else sec, ter, qua)
      else if Tertiary w1 \<noteq> Tertiary w2
      then cmp_lists obj ws1 ws2
             (sec, if ter = 0 then int (unat (Tertiary w1)) - int (unat (Tertiary w2)) else ter, qua)
      else cmp_lists obj ws1 ws2
             (sec, ter, if b1 \<noteq> b2 \<and> qua = 0
                        then (if flag_set obj TEXTTYPE_expand_before = b1 then -1 else 1)
                        else qua))"

definition finish ::
  "texttype \<Rightarrow> u8 list \<Rightarrow> u8 list \<Rightarrow> bool \<Rightarrow> int + int \<times> int \<times> int \<Rightarrow> int" where
  "finish obj t1 t2 seen res =
     (case res of
        Inl r \<Rightarrow> r
      | Inr (sec, ter, qua) \<Rightarrow>
          if sec \<noteq> 0 then sec else if ter \<noteq> 0 then ter else if qua \<noteq> 0 then qua
          else if seen \<and> \<not> flag_set obj TEXTTYPE_ignore_specials
          then special_scan obj 0 t1 0 t2 else 0)"

definition result_of :: "texttype \<Rightarrow> u8 list \<Rightarrow> u8 list \<Rightarrow> cmp_state \<Rightarrow> int" where
  "result_of obj t1 t2 st =
     (case cm_ret st of Some r \<Rightarrow> r | None \<Rightarrow> compare_end obj t1 t2 st)"

text \<open>The saved differences are the only fields of the state a pass keeps.\<close>

definition saved :: "cmp_state \<Rightarrow> int \<times> int \<times> int" where
  "saved st = (save_secondary st, save_tertiary st, save_quandary st)"

lemma fetch_none:
  "terminated obj \<Longrightarrow> fetched obj s st [] seen \<Longrightarrow>
   \<exists>st'. get_coltab_entry obj s st = Some (None, [], st') \<and> fetched obj [] st' [] seen"
  using get_coltab_entry_spec [of obj s st "[]" seen] by simp

lemma fetch_some:
  "terminated obj \<Longrightarrow> fetched obj s st ((w, b) # ws) seen \<Longrightarrow>
   \<exists>s' st'. get_coltab_entry obj s st = Some (Some w, s', st') \<and> have_waiting st' = b \<and>
     fetched obj s' st' ws seen"
  using get_coltab_entry_spec [of obj s st "(w, b) # ws" seen] by simp

lemma fetched_end: "fetched obj [] st [] seen \<Longrightarrow> have_special st = seen"
  by (auto simp: fetched_def waiting_ok_def specials_seen_def)

lemma compare_loop:
  assumes T: "terminated obj"
    and "fetched obj (cm_s1 st) (cm_stat1 st) ws1 e1" "fetched obj (cm_s2 st) (cm_stat2 st) ws2 e2"
    and "cm_ret st = None"
  shows "\<exists>st'. while_loop (\<lambda>_. True) (compare_pass obj) st = Some st' \<and>
      result_of obj t1 t2 st' = finish obj t1 t2 (e1 \<or> e2) (cmp_lists obj ws1 ws2 (saved st))"
  using assms(2-)
proof (induction ws1 arbitrary: ws2 st)
  case Nil
  show ?case
  proof (cases ws2)
    case ws2: Nil
    from fetch_none [OF T Nil(1)] fetch_none [OF T Nil(2) [unfolded ws2]] show ?thesis
      using Nil(3) ws2 by (auto simp: compare_pass_def while_loop_break result_of_def
          compare_end_def finish_def saved_def dest!: fetched_end)
  next
    case (Cons x xs)
    obtain w b where x: "x = (w, b)" by (cases x)
    from fetch_none [OF T Nil(1)] fetch_some [OF T Nil(2) [unfolded Cons x]] show ?thesis
      using Nil(3) Cons by (auto simp: compare_pass_def while_loop_break result_of_def
          compare_end_def finish_def)
  qed
next
  case (Cons x1 ws1)
  obtain w1 b1 where x1: "x1 = (w1, b1)" by (cases x1)
  obtain s1 st1 where f1: "get_coltab_entry obj (cm_s1 st) (cm_stat1 st) = Some (Some w1, s1, st1)"
      "have_waiting st1 = b1" "fetched obj s1 st1 ws1 e1"
    using fetch_some [OF T Cons(2) [unfolded x1]] by blast
  show ?case
  proof (cases ws2)
    case Nil
    from fetch_none [OF T Cons(3) [unfolded Nil]] show ?thesis
      using Cons(4) f1(1) Nil by (auto simp: compare_pass_def while_loop_break result_of_def
          compare_end_def finish_def)
  next
    case ws2: (Cons x2 ws2')
    obtain w2 b2 where x2: "x2 = (w2, b2)" by (cases x2)
    obtain s2 st2 where f2: "get_coltab_entry obj (cm_s2 st) (cm_stat2 st) = Some (Some w2, s2, st2)"
        "have_waiting st2 = b2" "fetched obj s2 st2 ws2' e2"
      using fetch_some [OF T Cons(3) [unfolded ws2 x2]] by blast
    let ?st = "st\<lparr>cm_s1 := s1, cm_stat1 := st1, cm_col1 := Some w1,
                  cm_s2 := s2, cm_stat2 := st2, cm_col2 := Some w2\<rparr>"
    have pass: "compare_pass obj st = Some (compare_weights obj w1 w2 ?st)"
      by (simp add: compare_pass_def f1(1) f2(1))
    show ?thesis
    proof (cases "Primary w1 = Primary w2")
      case False
      then show ?thesis using pass ws2 x1 x2
        by (simp add: compare_weights_def while_loop_break result_of_def finish_def saved_def Let_def)
    next
      case True
      then have "\<exists>st'. compare_weights obj w1 w2 ?st = Next st' \<and> cm_s1 st' = s1 \<and>
          cm_stat1 st' = st1 \<and> cm_s2 st' = s2 \<and> cm_stat2 st' = st2 \<and> cm_ret st' = None \<and>
          cmp_lists obj (x1 # ws1) ws2 (saved st) = cmp_lists obj ws1 ws2' (saved st')"
        using Cons(4) f1(2) f2(2) ws2 x1 x2 by (auto simp: compare_weights_def saved_def)
      then show ?thesis
        using pass Cons(1) f1(3) f2(3) by (metis while_loop_next)
    qed
  qed
qed

text \<open>The comparison is total, and is that of the element lists of the stripped strings.\<close>

lemma narrow_compare_spec:
  assumes "terminated obj"
  shows "LC_NARROW_compare obj (length s) s (length t) t =
    Some (finish obj (strip s) (strip t)
      (\<exists>c \<in> set (strip s) \<union> set (strip t). is_special (texttype_collation_table obj c))
      (cmp_lists obj (weights obj (strip s)) (weights obj (strip t)) (0, 0, 0)))"
proof -
  let ?st = "compare_start (strip s) (strip t)"
  have "fetched obj u stat_init (weights obj u)
      (\<exists>c \<in> set u. is_special (texttype_collation_table obj c))" for u
    by (simp add: fetched_def waiting_ok_def remaining_def specials_seen_def stat_init_def)
  then have f: "fetched obj (cm_s1 ?st) (cm_stat1 ?st) (weights obj (strip s))
        (\<exists>c \<in> set (strip s). is_special (texttype_collation_table obj c))"
      "fetched obj (cm_s2 ?st) (cm_stat2 ?st) (weights obj (strip t))
        (\<exists>c \<in> set (strip t). is_special (texttype_collation_table obj c))"
    by (simp_all add: compare_start_def)
  have "cm_ret ?st = None" by (simp add: compare_start_def)
  from compare_loop [OF assms f this, of "strip s" "strip t"]
  obtain st' where "while_loop (\<lambda>_. True) (compare_pass obj) ?st = Some st'"
    "result_of obj (strip s) (strip t) st' = finish obj (strip s) (strip t)
      (\<exists>c \<in> set (strip s) \<union> set (strip t). is_special (texttype_collation_table obj c))
      (cmp_lists obj (weights obj (strip s)) (weights obj (strip t)) (0, 0, 0))"
    by (auto simp: bex_Un saved_def compare_start_def)
  then show ?thesis by (simp add: LC_NARROW_compare_def result_of_def strip_def Let_def)
qed

section \<open>Comparison is lexicographic on the levels\<close>

definition primaries :: "(SortOrderTblEntry \<times> bool) list \<Rightarrow> nat list" where
  "primaries ws = map (\<lambda>(w, b). unat (Primary w)) ws"

definition secondaries :: "texttype \<Rightarrow> (SortOrderTblEntry \<times> bool) list \<Rightarrow> nat list" where
  "secondaries obj ws =
     (let l = map (\<lambda>(w, b). unat (Secondary w)) ws in
      if flag_set obj TEXTTYPE_reverse_secondary then rev l else l)"

definition tertiaries :: "(SortOrderTblEntry \<times> bool) list \<Rightarrow> nat list" where
  "tertiaries ws = map (\<lambda>(w, b). unat (Tertiary w)) ws"

text \<open>An element still waiting for its second half sorts before others, or after them.\<close>

definition quandaries :: "texttype \<Rightarrow> (SortOrderTblEntry \<times> bool) list \<Rightarrow> nat list" where
  "quandaries obj ws = map (\<lambda>(w, b). if flag_set obj TEXTTYPE_expand_before = b then 0 else 1) ws"

definition special_level :: "texttype \<Rightarrow> u8 list \<Rightarrow> nat list" where
  "special_level obj s =
     (if flag_set obj TEXTTYPE_ignore_specials then [] else specials obj 0 s)"

lemmas level_defs = primaries_def secondaries_def tertiaries_def quandaries_def

text \<open>\<open>then_by a b\<close>: the first level that decides.\<close>

definition then_by :: "int \<Rightarrow> int \<Rightarrow> int" where
  "then_by a b = (if a \<noteq> 0 then a else b)"

lemma sgn_diff: "sgn (uint a - uint b) = (if a = b then 0 else if a < b then -1 else 1)"
  for a b :: "'a::len word"
  by (auto simp: word_less_def word_uint_eq_iff)

lemma cmp_lists_primary:
  "primaries ws1 \<noteq> primaries ws2 \<Longrightarrow>
   \<exists>r. cmp_lists obj ws1 ws2 acc = Inl r \<and> sgn r = byte_cmp (primaries ws1) (primaries ws2)"
  by (induction obj ws1 ws2 acc rule: cmp_lists.induct)
    (auto simp: primaries_def sgn_diff word_less_nat_alt word_unat_eq_iff)

lemma unat_eq: "unat a = unat b \<longleftrightarrow> a = b" for a b :: "'a::len word"
  by (simp add: word_unat_eq_iff)

lemma byte_cmp_pair:
  "byte_cmp (unat a # s) (unat b # t) = then_by (sgn (uint a - uint b)) (byte_cmp s t)"
  for a b :: "'a::len word"
  by (auto simp: then_by_def sgn_diff word_less_nat_alt word_unat_eq_iff)

lemma secondaries_Cons:
  assumes "length ws1 = length ws2"
  shows "byte_cmp (secondaries obj ((w1, b1) # ws1)) (secondaries obj ((w2, b2) # ws2)) =
      (if flag_set obj TEXTTYPE_reverse_secondary
       then then_by (byte_cmp (secondaries obj ws1) (secondaries obj ws2))
              (sgn (uint (Secondary w1) - uint (Secondary w2)))
       else then_by (sgn (uint (Secondary w1) - uint (Secondary w2)))
              (byte_cmp (secondaries obj ws1) (secondaries obj ws2)))"
    and "secondaries obj ((w1, b1) # ws1) = secondaries obj ((w2, b2) # ws2) \<longleftrightarrow>
      Secondary w1 = Secondary w2 \<and> secondaries obj ws1 = secondaries obj ws2"
  using assms
  by (auto simp: secondaries_def Let_def byte_cmp_append_eq_len then_by_def sgn_diff
      byte_cmp_eq_0 word_unat_eq_iff word_less_nat_alt)

lemma other_levels_Cons:
  "tertiaries ((w, b) # ws) = unat (Tertiary w) # tertiaries ws"
  "quandaries obj ((w, b) # ws) =
     (if flag_set obj TEXTTYPE_expand_before = b then 0 else 1) # quandaries obj ws"
  "primaries ((w, b) # ws) = unat (Primary w) # primaries ws"
  by (simp_all add: level_defs)

lemma then_by_simps [simp]:
  "then_by 0 a = a" "then_by a 0 = a" "a \<noteq> 0 \<Longrightarrow> then_by a b = a"
  "then_by (then_by a b) c = then_by a (then_by b c)"
  by (simp_all add: then_by_def)

lemma cmp_lists_levels:
  assumes "primaries ws1 = primaries ws2"
  shows "\<exists>s t q. cmp_lists obj ws1 ws2 (sec, ter, qua) = Inr (s, t, q) \<and>
      sgn s = (if flag_set obj TEXTTYPE_reverse_secondary
               then then_by (byte_cmp (secondaries obj ws1) (secondaries obj ws2)) (sgn sec)
               else then_by (sgn sec) (byte_cmp (secondaries obj ws1) (secondaries obj ws2))) \<and>
      (secondaries obj ws1 = secondaries obj ws2 \<longrightarrow>
         sgn t = then_by (sgn ter) (byte_cmp (tertiaries ws1) (tertiaries ws2)) \<and>
         (tertiaries ws1 = tertiaries ws2 \<longrightarrow>
            sgn q = then_by (sgn qua) (byte_cmp (quandaries obj ws1) (quandaries obj ws2))))"
  using assms
proof (induction obj ws1 ws2 "(sec, ter, qua)" arbitrary: sec ter qua rule: cmp_lists.induct)
  case (4 obj w1 b1 ws1 w2 b2 ws2 sec ter qua)
  have P: "Primary w1 = Primary w2" "primaries ws1 = primaries ws2"
    using 4(4) by (auto simp: primaries_def word_unat_eq_iff)
  have L: "length ws1 = length ws2"
    using P(2) by (metis length_map primaries_def)
  note hints = secondaries_Cons [OF L] other_levels_Cons byte_cmp_pair sgn_eq_0_iff unat_eq
  consider "Secondary w1 \<noteq> Secondary w2" | "Secondary w1 = Secondary w2" "Tertiary w1 \<noteq> Tertiary w2"
    | "Secondary w1 = Secondary w2" "Tertiary w1 = Tertiary w2" by blast
  then show ?case
  proof cases
    case 1
    from 4(1) [OF _ 1 P(2)] show ?thesis
      using P(1) 1 by (cases "sec = 0"; cases "flag_set obj TEXTTYPE_reverse_secondary")
        (auto simp: hints then_by_def byte_cmp_eq_0 word_uint_eq_iff simp del: byte_cmp.simps)
  next
    case 2
    from 4(2) [OF _ _ 2(2) P(2)] show ?thesis
      using P(1) 2 by (cases "ter = 0"; cases "flag_set obj TEXTTYPE_reverse_secondary")
        (auto simp: hints simp del: byte_cmp.simps)
  next
    case 3
    from 4(3) [OF _ _ _ P(2)] show ?thesis
      using P(1) 3 by (cases "b1 = b2"; cases "qua = 0"; cases "flag_set obj TEXTTYPE_reverse_secondary")
        (auto simp: hints)
  qed
qed (auto simp: level_defs then_by_def)

lemma special_skip_specials:
  "special_skip obj i s = (j, t) \<Longrightarrow>
   specials obj i s = specials obj j t \<and>
   (case t of [] \<Rightarrow> True | c # _ \<Rightarrow> is_special (texttype_collation_table obj c))"
  by (induction obj i s rule: special_skip.induct) (auto split: if_splits)

lemma special_scan_spec:
  "sgn (special_scan obj i s j t) = byte_cmp (specials obj i s) (specials obj j t)"
proof (induction obj i s j t rule: special_scan.induct)
  case (1 obj i s j t)
  obtain i' s' where s: "special_skip obj i s = (i', s')" by fastforce
  obtain j' t' where t: "special_skip obj j t = (j', t')" by fastforce
  show ?case
    using 1 [OF s [symmetric] t [symmetric]] special_skip_specials [OF s]
      special_skip_specials [OF t]
    by (subst special_scan.simps, cases s'; cases t')
      (auto simp: s t sgn_diff word_less_nat_alt unat_eq Let_def)
qed

text \<open>The sign of the result, level by level.\<close>

definition level_cmp :: "texttype \<Rightarrow> u8 list \<Rightarrow> u8 list \<Rightarrow> int" where
  "level_cmp obj s t =
     (let ws = weights obj s; wt = weights obj t in
      then_by (byte_cmp (primaries ws) (primaries wt))
        (then_by (byte_cmp (secondaries obj ws) (secondaries obj wt))
          (then_by (byte_cmp (tertiaries ws) (tertiaries wt))
            (then_by (byte_cmp (quandaries obj ws) (quandaries obj wt))
              (byte_cmp (special_level obj s) (special_level obj t))))))"

lemma no_specials: "\<forall>c \<in> set s. \<not> is_special (texttype_collation_table obj c) \<Longrightarrow> specials obj i s = []"
  by (induction obj i s rule: specials.induct) auto

lemma special_result:
  "sgn (if (\<exists>c \<in> set s \<union> set t. is_special (texttype_collation_table obj c)) \<and>
          \<not> flag_set obj TEXTTYPE_ignore_specials
        then special_scan obj 0 s 0 t else 0) =
   byte_cmp (special_level obj s) (special_level obj t)"
  using no_specials [of s obj 0] no_specials [of t obj 0]
  by (auto simp: special_level_def special_scan_spec simp del: special_scan.simps)

lemma narrow_compare_levels:
  assumes "terminated obj"
  shows "\<exists>r. LC_NARROW_compare obj (length s) s (length t) t = Some r \<and>
    sgn r = level_cmp obj (strip s) (strip t)"
proof -
  let ?ws = "weights obj (strip s)" and ?wt = "weights obj (strip t)"
  show ?thesis
  proof (cases "primaries ?ws = primaries ?wt")
    case False
    then have "byte_cmp (primaries ?ws) (primaries ?wt) \<noteq> 0" by (simp add: byte_cmp_eq_0)
    with cmp_lists_primary [OF False, of obj "(0, 0, 0)"] show ?thesis
      by (auto simp: narrow_compare_spec [OF assms] finish_def level_cmp_def Let_def)
  next
    case True
    from cmp_lists_levels [OF True, of obj 0 0 0] obtain a b c where
      r: "cmp_lists obj ?ws ?wt (0, 0, 0) = Inr (a, b, c)"
      and s: "sgn a = byte_cmp (secondaries obj ?ws) (secondaries obj ?wt)"
      and t: "secondaries obj ?ws = secondaries obj ?wt \<Longrightarrow>
        sgn b = byte_cmp (tertiaries ?ws) (tertiaries ?wt)"
      and q: "secondaries obj ?ws = secondaries obj ?wt \<Longrightarrow> tertiaries ?ws = tertiaries ?wt \<Longrightarrow>
        sgn c = byte_cmp (quandaries obj ?ws) (quandaries obj ?wt)"
      by auto
    show ?thesis
      using True r s t q special_result [of "strip s" "strip t" obj] 
      by (auto simp: narrow_compare_spec [OF assms] finish_def level_cmp_def Let_def then_by_def
          byte_cmp_eq_0 sgn_eq_0_iff simp del: special_scan.simps)
  qed
qed

text \<open>Lexicographic comparisons are transitive, level by level.\<close>

definition chains :: "int \<Rightarrow> int \<Rightarrow> int \<Rightarrow> bool" where
  "chains st tu su \<longleftrightarrow> (st < 0 \<and> tu < 0 \<longrightarrow> su < 0) \<and> (st = 0 \<longrightarrow> su = tu) \<and> (tu = 0 \<longrightarrow> su = st)"

lemma chains_byte_cmp: "chains (byte_cmp s t) (byte_cmp t u) (byte_cmp s u)"
  using byte_cmp_trans [of s t u] by (auto simp: chains_def byte_cmp_eq_0)

lemma chains_then_by:
  "chains a b c \<Longrightarrow> chains a' b' c' \<Longrightarrow> chains (then_by a a') (then_by b b') (then_by c c')"
  unfolding chains_def then_by_def by (smt (verit))

lemma level_cmp_chains: "chains (level_cmp obj s t) (level_cmp obj t u) (level_cmp obj s u)"
  unfolding level_cmp_def Let_def by (intro chains_then_by chains_byte_cmp)

lemma then_by_neg: "a = - b \<Longrightarrow> c = - d \<Longrightarrow> then_by a c = - then_by b d"
  by (simp add: then_by_def)

lemma level_cmp_sym: "level_cmp obj s t = - level_cmp obj t s"
  unfolding level_cmp_def Let_def by (intro then_by_neg byte_cmp_sym)

lemma level_cmp_refl [simp]: "level_cmp obj s s = 0"
  by (simp add: level_cmp_def Let_def then_by_def)

section \<open>Properties\<close>

text \<open>C2. For every collation whose tables end as their loops expect, \<open>LC_NARROW_compare\<close> returns a
  value for all strings and is a total preorder on them: it changes sign when the arguments are
  swapped, is transitive, gives the same answer for strings it calls equal, and does not see
  trailing spaces.\<close>

theorem narrow_compare_order:
  assumes "terminated obj"
  shows "\<exists>st ts tu su. LC_NARROW_compare obj (length s) s (length t) t = Some st \<and>
      LC_NARROW_compare obj (length t) t (length s) s = Some ts \<and>
      LC_NARROW_compare obj (length t) t (length u) u = Some tu \<and>
      LC_NARROW_compare obj (length s) s (length u) u = Some su \<and>
      sgn ts = - sgn st \<and> (st < 0 \<and> tu < 0 \<longrightarrow> su < 0) \<and> (st = 0 \<longrightarrow> sgn su = sgn tu) \<and>
      (strip s = strip t \<longrightarrow> st = 0)"
proof -
  obtain st ts tu su where
    "LC_NARROW_compare obj (length s) s (length t) t = Some st"
      "sgn st = level_cmp obj (strip s) (strip t)"
    "LC_NARROW_compare obj (length t) t (length s) s = Some ts"
      "sgn ts = level_cmp obj (strip t) (strip s)"
    "LC_NARROW_compare obj (length t) t (length u) u = Some tu"
      "sgn tu = level_cmp obj (strip t) (strip u)"
    "LC_NARROW_compare obj (length s) s (length u) u = Some su"
      "sgn su = level_cmp obj (strip s) (strip u)"
    using narrow_compare_levels [OF assms] by metis
  moreover from this level_cmp_chains [of obj "strip s" "strip t" "strip u"]
    level_cmp_sym [of obj "strip t" "strip s"]
  have "sgn ts = - sgn st" "chains (sgn st) (sgn tu) (sgn su)" by simp_all
  moreover from this have "(st < 0 \<and> tu < 0 \<longrightarrow> su < 0) \<and> (st = 0 \<longrightarrow> sgn su = sgn tu)"
    by (simp add: chains_def sgn_less sgn_eq_0_iff)
  moreover have "strip s = strip t \<longrightarrow> st = 0"
    using \<open>sgn st = level_cmp obj (strip s) (strip t)\<close> by (auto simp: sgn_eq_0_iff)
  ultimately show ?thesis by blast
qed

end
