(* ===== verification/Narrow_Keys.thy ===== *)
theory Narrow_Keys
  imports Narrow_Order
begin

text \<open>
  The sort keys of \<open>lc_narrow.c\<close>: what a key consists of, when it fits its buffer, and that for
  tables laid out as the shipped ones are, comparing keys byte by byte is comparing strings.
\<close>

section \<open>Tables laid out for sort keys\<close>

text \<open>
  \<open>hs\<close> and \<open>ht\<close> tell which primary weights come with a secondary and a tertiary weight, \<open>m\<close> is a
  bound of both that is below every primary weight, and \<open>xs\<close> lists the weights of the expanding
  bytes, which no other collation element has.
\<close>

definition weight_ok ::
  "(u8 \<Rightarrow> bool) \<Rightarrow> (u8 \<Rightarrow> bool) \<Rightarrow> nat \<Rightarrow> SortOrderTblEntry \<Rightarrow> bool" where
  "weight_ok hs ht m e \<longleftrightarrow>
     m < unat (Primary e) \<and> unat (Secondary e) \<le> m \<and> unat (Tertiary e) \<le> m \<and>
     (Secondary e \<noteq> 0 \<longleftrightarrow> hs (Primary e)) \<and> (Tertiary e \<noteq> 0 \<longleftrightarrow> ht (Primary e))"

definition weight3 :: "SortOrderTblEntry \<Rightarrow> u8 \<times> 4 word \<times> 2 word" where
  "weight3 e = (Primary e, Secondary e, Tertiary e)"

definition entry_ok ::
  "(u8 \<Rightarrow> bool) \<Rightarrow> (u8 \<Rightarrow> bool) \<Rightarrow> nat \<Rightarrow> (u8 \<times> 4 word \<times> 2 word) list \<Rightarrow> SortOrderTblEntry \<Rightarrow> bool"
  where
  "entry_ok hs ht m xs e \<longleftrightarrow>
     (if is_special e then Primary e \<noteq> 0
      else weight_ok hs ht m e \<and> (IsExpand e \<longleftrightarrow> List.member xs (weight3 e)))"

definition expands :: "texttype \<Rightarrow> u8 \<Rightarrow> bool" where
  "expands obj c \<longleftrightarrow>
     IsExpand (texttype_collation_table obj c) \<and> \<not> IsCompress (texttype_collation_table obj c)"

definition expand_ok :: "texttype \<Rightarrow> u8 \<Rightarrow> bool" where
  "expand_ok obj c \<longleftrightarrow>
     (expands obj c \<longrightarrow>
        (case find_expand (texttype_expand_table obj) c of
           None \<Rightarrow> False
         | Some x \<Rightarrow> \<not> IsExpand (texttype_collation_table obj (ExpCh2 x))))"

definition layered :: "(u8 \<Rightarrow> bool) \<Rightarrow> (u8 \<Rightarrow> bool) \<Rightarrow> nat \<Rightarrow> (u8 \<times> 4 word \<times> 2 word) list \<Rightarrow>
    texttype \<Rightarrow> bool" where
  "layered hs ht m xs obj \<longleftrightarrow>
     terminated obj \<and>
     (\<forall>c. entry_ok hs ht m xs (texttype_collation_table obj c) \<and> expand_ok obj c) \<and>
     (\<forall>p \<in> set (texttype_compress_table obj). CharPair0 p \<noteq> 0 \<longrightarrow>
        weight_ok hs ht m (NoCaseWeight p) \<and> \<not> List.member xs (weight3 (NoCaseWeight p)))"

text \<open>The five shapes a string can start with.\<close>

definition compresses :: "texttype \<Rightarrow> u8 \<Rightarrow> bool" where
  "compresses obj c \<longleftrightarrow>
     IsCompress (texttype_collation_table obj c) \<and> \<not> IsExpand (texttype_collation_table obj c)"

definition no_pair :: "texttype \<Rightarrow> u8 \<Rightarrow> u8 list \<Rightarrow> bool" where
  "no_pair obj c s \<longleftrightarrow>
     (case s of [] \<Rightarrow> True | d # s' \<Rightarrow> find_compress (texttype_compress_table obj) c d = Some None)"

lemma string_induct [consumes 1, case_names Nil plain special expand pair single]:
  assumes T: "terminated obj" and "P []"
    and plain: "\<And>c s. is_plain (texttype_collation_table obj c) \<Longrightarrow> P s \<Longrightarrow> P (c # s)"
    and special: "\<And>c s. is_special (texttype_collation_table obj c) \<Longrightarrow> P s \<Longrightarrow> P (c # s)"
    and expand: "\<And>c e s. expands obj c \<Longrightarrow> find_expand (texttype_expand_table obj) c = Some e \<Longrightarrow>
      P s \<Longrightarrow> P (c # s)"
    and pair: "\<And>c d w s. compresses obj c \<Longrightarrow>
      find_compress (texttype_compress_table obj) c d = Some (Some w) \<Longrightarrow> P s \<Longrightarrow> P (c # d # s)"
    and single: "\<And>c s. compresses obj c \<Longrightarrow> no_pair obj c s \<Longrightarrow> P s \<Longrightarrow> P (c # s)"
  shows "P s"
proof (induction s rule: length_induct)
  case (1 s)
  show ?case
  proof (cases s)
    case Nil
    with \<open>P []\<close> show ?thesis by simp
  next
    case (Cons c u)
    with 1 have u: "P u" by simp
    consider (plain) "is_plain (texttype_collation_table obj c)"
      | (special) "is_special (texttype_collation_table obj c)"
      | (expand) "expands obj c" | (compress) "compresses obj c"
      by (auto simp: is_plain_def is_special_def expands_def compresses_def)
    then show ?thesis
    proof cases
      case compress
      show ?thesis
      proof (cases "no_pair obj c u")
        case False
        then obtain d v w where v: "u = d # v"
          "find_compress (texttype_compress_table obj) c d = Some (Some w)"
          using find_compress_Some [OF T] by (auto simp: no_pair_def split: list.splits) (metis option.exhaust)
        with 1 Cons have "P v" by simp
        with pair [OF compress v(2)] v Cons show ?thesis by simp
      qed (use Cons single compress u in simp)
    next
      case expand
      then show ?thesis using find_expand_Some [OF T, of c] expand(1) Cons u assms(5) by blast
    qed (use Cons plain special u in auto)
  qed
qed

lemma weights_shapes:
  "is_plain (texttype_collation_table obj c) \<Longrightarrow>
     weights obj (c # s) = (texttype_collation_table obj c, False) # weights obj s"
  "is_special (texttype_collation_table obj c) \<Longrightarrow> weights obj (c # s) = weights obj s"
  "expands obj c \<Longrightarrow> find_expand (texttype_expand_table obj) c = Some e \<Longrightarrow>
     weights obj (c # s) = (texttype_collation_table obj c, True) #
       (texttype_collation_table obj (ExpCh2 e), False) # weights obj s"
  "compresses obj c \<Longrightarrow> find_compress (texttype_compress_table obj) c d = Some (Some w) \<Longrightarrow>
     weights obj (c # d # s) = (w, False) # weights obj s"
  "compresses obj c \<Longrightarrow> no_pair obj c s \<Longrightarrow>
     weights obj (c # s) = (texttype_collation_table obj c, False) # weights obj s"
  by (cases s; simp add: is_plain_def is_special_def expands_def compresses_def no_pair_def Let_def)+

declare weights.simps(2) [simp del]

lemma weights_layered:
  assumes "layered hs ht m xs obj" "(w, b) \<in> set (weights obj s)"
  shows "weight_ok hs ht m w \<and> (b \<longleftrightarrow> List.member xs (weight3 w))"
proof -
  have T: "terminated obj" and e: "\<And>d. entry_ok hs ht m xs (texttype_collation_table obj d)"
    and x: "\<And>d. expand_ok obj d"
    using assms(1) by (auto simp: layered_def)
  note ent = entry_ok_def is_special_def
  from T assms(2) show ?thesis
  proof (induction s rule: string_induct)
    case (plain c s)
    with e [of c] show ?case by (auto simp: weights_shapes ent is_plain_def)
  next
    case (expand c y s)
    with e [of c] e [of "ExpCh2 y"] x [of c] show ?case
      by (auto simp: weights_shapes ent expands_def expand_ok_def)
  next
    case (pair c d w' s)
    with assms(1) find_compress_mem [OF pair(2)] show ?case
      by (auto simp: weights_shapes layered_def)
  next
    case (single c s)
    with e [of c] show ?case by (auto simp: weights_shapes ent compresses_def)
  qed (auto simp: weights_shapes)
qed

section \<open>What a key consists of\<close>

definition nonzero :: "nat list \<Rightarrow> nat list" where
  "nonzero = filter (\<lambda>x. x \<noteq> 0)"

text \<open>The special part of the key: positions counted from 1.\<close>

fun key_positions :: "nat list \<Rightarrow> nat list" where
  "key_positions [] = []"
| "key_positions [i] = [i]"
| "key_positions (i # p # l) = (i + 1) # p # key_positions l"

definition special_part :: "texttype \<Rightarrow> u8 list \<Rightarrow> nat list" where
  "special_part obj s =
     (if special_level obj s = [] then [] else 0 # key_positions (special_level obj s))"

definition count_specials :: "texttype \<Rightarrow> u8 list \<Rightarrow> nat" where
  "count_specials obj s = length (filter (\<lambda>c. is_special (texttype_collation_table obj c)) s)"

definition count_expands :: "texttype \<Rightarrow> u8 list \<Rightarrow> nat" where
  "count_expands obj s = length (filter (expands obj) s)"

lemma length_specials: "length (specials obj i s) = 2 * count_specials obj s"
  by (induction obj i s rule: specials.induct) (auto simp: count_specials_def)

lemma length_key_positions [simp]: "length (key_positions l) = length l"
  by (induction l rule: key_positions.induct) auto

lemma shape_not_special:
  "is_plain (texttype_collation_table obj c) \<Longrightarrow> \<not> is_special (texttype_collation_table obj c)"
  "expands obj c \<Longrightarrow> \<not> is_special (texttype_collation_table obj c)"
  "compresses obj c \<Longrightarrow> \<not> is_special (texttype_collation_table obj c)"
  "compresses obj c \<Longrightarrow> \<not> expands obj c"
  "is_special (texttype_collation_table obj c) \<Longrightarrow> \<not> expands obj c"
  by (auto simp: is_plain_def is_special_def expands_def compresses_def)

lemma weights_specials_room:
  assumes "terminated obj"
  shows "length (weights obj s) + count_specials obj s \<le> length s + count_expands obj s"
  using assms
proof (induction s rule: string_induct)
qed (auto simp: weights_shapes count_specials_def count_expands_def shape_not_special)

text \<open>The buffers after the loop, when everything fits.\<close>

lemma put_Some: "length buf < cap \<Longrightarrow> put cap buf x = Some (buf @ [x])"
  by (simp add: put_def)




definition raw_secondaries :: "(SortOrderTblEntry \<times> bool) list \<Rightarrow> nat list" where
  "raw_secondaries ws = map (\<lambda>(w, b). unat (Secondary w)) ws"








declare key_loop.simps(2) [simp del]

lemma key_loop_shapes:
  "is_plain (texttype_collation_table obj c) \<Longrightarrow> key_loop obj cap i (c # s) b =
     do { b' \<leftarrow> put_weights cap (texttype_collation_table obj c) b; key_loop obj cap (i + 1) s b' }"
  "is_special (texttype_collation_table obj c) \<Longrightarrow> key_loop obj cap i (c # s) b =
     (if Primary (texttype_collation_table obj c) \<noteq> 0 \<and> \<not> flag_set obj TEXTTYPE_ignore_specials
      then do { b' \<leftarrow> put_special i (texttype_collation_table obj c) b;
                key_loop obj cap (i + 1) s b' }
      else key_loop obj cap (i + 1) s b)"
  "expands obj c \<Longrightarrow> find_expand (texttype_expand_table obj) c = Some e \<Longrightarrow>
     key_loop obj cap i (c # s) b =
     do { b' \<leftarrow> put_weights cap (texttype_collation_table obj c) b;
          b'' \<leftarrow> put_weights cap (texttype_collation_table obj (ExpCh2 e)) b';
          key_loop obj cap (i + 1) s b'' }"
  "compresses obj c \<Longrightarrow> find_compress (texttype_compress_table obj) c d = Some (Some w) \<Longrightarrow>
     key_loop obj cap i (c # d # s) b = do { b' \<leftarrow> put_weights cap w b; key_loop obj cap (i + 2) s b' }"
  "compresses obj c \<Longrightarrow> no_pair obj c s \<Longrightarrow> key_loop obj cap i (c # s) b =
     do { b' \<leftarrow> put_weights cap (texttype_collation_table obj c) b; key_loop obj cap (i + 1) s b' }"
  by (subst key_loop.simps(2); simp add: Let_def is_plain_def is_special_def expands_def compresses_def
      no_pair_def del: key_loop.simps split: list.splits)+


lemma weight_nonzero: "weight_ok hs ht m w \<Longrightarrow> Primary w \<noteq> 0"
  by (auto simp: weight_ok_def)






section \<open>Comparing keys is comparing strings\<close>




definition key_levels :: "texttype \<Rightarrow> u8 list \<Rightarrow> nat list" where
  "key_levels obj s =
     (let ws = weights obj s in
      primaries ws @ nonzero (secondaries obj ws) @ nonzero (tertiaries ws) @ special_part obj s)"





lemma count_expands_strip: "count_expands obj (strip s) \<le> count_expands obj s"
  unfolding count_expands_def strip_def
  by (metis append_take_drop_id filter_append le_add1 length_append)

lemma length_nonzero: "length (nonzero xs) \<le> length xs"
  by (simp add: nonzero_def)

lemma length_levels [simp]:
  "length (primaries ws) = length ws" "length (secondaries obj ws) = length ws"
  "length (tertiaries ws) = length ws" "length (raw_secondaries ws) = length ws"
  by (simp_all add: level_defs raw_secondaries_def Let_def)

lemma length_key_levels:
  assumes "terminated obj"
  shows "length (key_levels obj s) \<le> 3 * length s + 3 * count_expands obj s"
proof -
  have "length (special_part obj s) \<le> 3 * count_specials obj s"
    using length_specials [of obj 0 s]
    by (cases "specials obj 0 s") (auto simp: special_part_def special_level_def)
  then show ?thesis
    using weights_specials_room [OF assms, of s]
      length_nonzero [of "secondaries obj (weights obj s)"] length_nonzero [of "tertiaries (weights obj s)"]
    by (simp add: key_levels_def Let_def)
qed








section \<open>Properties\<close>


text \<open>Every collation element has a primary weight, and every one is written.\<close>

lemma put_weights_length:
  "put_weights cap w b = Some b' \<Longrightarrow> Primary w \<noteq> 0 \<Longrightarrow>
   length (kb_out b') = Suc (length (kb_out b)) \<and> length (kb_out b') \<le> cap"
  by (auto simp: put_weights_def put_def split: if_splits bind_splits)

lemma put_special_length: "put_special i w b = Some b' \<Longrightarrow> kb_out b' = kb_out b"
  by (auto simp: put_special_def put_def split: if_splits bind_splits)

lemma key_loop_length:
  assumes L: "layered hs ht m xs obj" and "key_loop obj cap i s b = Some b'"
    and "length (kb_out b) \<le> cap"
  shows "length (kb_out b) + length (weights obj s) \<le> cap"
proof -
  have T: "terminated obj" using L by (simp add: layered_def)
  have w: "Primary w \<noteq> 0" if "(w, b) \<in> set (weights obj s)" for w b s
    using weights_layered [OF L that] by (auto dest: weight_nonzero)
  from T assms(2,3) show ?thesis
  proof (induction s arbitrary: i b rule: string_induct)
    case (plain c s)
    with w [of _ _ "c # s"] show ?case
      by (auto simp: key_loop_shapes weights_shapes bind_eq_Some_conv dest!: put_weights_length plain.IH)
  next
    case (special c s)
    then show ?case
      by (auto simp: key_loop_shapes weights_shapes bind_eq_Some_conv split: if_splits
          dest!: put_special_length special.IH)
  next
    case (expand c y s)
    with w [of _ _ "c # s"] show ?case
      by (auto simp: key_loop_shapes weights_shapes bind_eq_Some_conv dest!: put_weights_length expand.IH)
  next
    case (pair c d v s)
    with w [of _ _ "c # d # s"] show ?case
      by (auto simp: key_loop_shapes weights_shapes bind_eq_Some_conv dest!: put_weights_length pair.IH)
  next
    case (single c s)
    with w [of _ _ "c # s"] show ?case
      by (auto simp: key_loop_shapes weights_shapes bind_eq_Some_conv dest!: put_weights_length single.IH)
  qed simp
qed

text \<open>C40. The primary weights are written without a look at \<open>iOutLen\<close>: a string with more than
  \<open>MAX_KEY\<close> collation elements overruns the buffer that \<open>LC_NARROW_key_length\<close> asks for, whatever
  the other arguments.\<close>

theorem narrow_key_overrun:
  assumes "layered hs ht m xs obj" and "MAX_KEY < length (weights obj (strip s))"
  shows "LC_NARROW_string_to_key obj (length s) s (LC_NARROW_key_length (length s)) partial = None"
proof (cases "LC_NARROW_string_to_key obj (length s) s (LC_NARROW_key_length (length s)) partial")
  case (Some k)
  then obtain b where "key_loop obj (LC_NARROW_key_length (length s)) 0 (strip s)
      \<lparr>kb_out = [], kb_secondary = [], kb_tertiary = [], kb_special = []\<rparr> = Some b"
    by (auto simp: LC_NARROW_string_to_key_def strip_def split: bind_splits)
  from key_loop_length [OF assms(1) this] assms(2) show ?thesis
    by (simp add: LC_NARROW_key_length_def)
qed simp

end
