(* ===== verification/Coll_Es.thy ===== *)
theory Coll_Es
  imports Narrow_Keys
begin

text \<open>
  A shipped collation, \<open>intl/collations/bl88591es0.h\<close>: Spanish in ISO 8859-1,
     the one that uses
  every feature of \<open>lc_narrow.c\<close>: specials,
     expansions and compressed pairs. The theory holds its
  tables, the fields the macro \<open>FAMILY2\<close> of \<open>lc_iso8859_1.c\<close> stores in \<open>ISO88591_49_init\<close>, and the
  proof that the tables are laid out for sort keys.
\<close>

section \<open>Tables\<close>

definition FIRST_IGNORE :: int where "FIRST_IGNORE = 1"
definition FIRST_TERTIARY :: int where "FIRST_TERTIARY = 1"
definition MAX_NCO_TERTIARY :: int where "MAX_NCO_TERTIARY = 1"
definition MAX_NCO_SECONDARY :: int where "MAX_NCO_SECONDARY = 8"
definition NULL_SECONDARY :: int where "NULL_SECONDARY = 0"
definition NULL_TERTIARY :: int where "NULL_TERTIARY = 0"
definition FIRST_SECONDARY :: int where "FIRST_SECONDARY = FIRST_TERTIARY + MAX_NCO_TERTIARY + 1"
definition FIRST_PRIMARY :: int where "FIRST_PRIMARY = FIRST_SECONDARY + MAX_NCO_SECONDARY + 1"

text \<open>An initialiser \<open>{p, s, t, e,
     c}\<close>: each value is cut to the width of its bit field.\<close>

definition Entry :: "int \<Rightarrow> int \<Rightarrow> int \<Rightarrow> int \<Rightarrow> int \<Rightarrow> SortOrderTblEntry" where
  "Entry p s t e c =
     \<lparr>Primary = word_of_int p, Secondary = word_of_int s, Tertiary = word_of_int t,
      IsExpand = odd e, IsCompress = odd c\<rparr>"

definition ExpansionTbl :: "ExpandChar list" where
  "ExpansionTbl =
     [\<lparr>Ch = 230, ExpCh1 = 97, ExpCh2 = 101\<rparr>,
      \<lparr>Ch = 198, ExpCh1 = 65, ExpCh2 = 69\<rparr>,
      \<lparr>Ch = 223, ExpCh1 = 115, ExpCh2 = 115\<rparr>,
      \<lparr>Ch = 254, ExpCh1 = 116, ExpCh2 = 104\<rparr>,
      \<lparr>Ch = 222, ExpCh1 = 84, ExpCh2 = 72\<rparr>,
      \<lparr>Ch = 0, ExpCh1 = 0, ExpCh2 = 0\<rparr>]"

definition CompressTbl :: "CompressPair list" where
  "CompressTbl =
     [\<lparr>CharPair0 = 99, CharPair1 = 104,
       CaseWeight = Entry (FIRST_PRIMARY + 14) (FIRST_SECONDARY + 0) (FIRST_TERTIARY + 0) 0 0,
       NoCaseWeight = Entry (FIRST_PRIMARY + 14) (FIRST_SECONDARY + 0) (FIRST_TERTIARY + 0) 0 0\<rparr>,
      \<lparr>CharPair0 = 99, CharPair1 = 72,
       CaseWeight = Entry (FIRST_PRIMARY + 14) (FIRST_SECONDARY + 0) (FIRST_TERTIARY + 1) 0 0,
       NoCaseWeight = Entry (FIRST_PRIMARY + 14) (FIRST_SECONDARY + 0) (FIRST_TERTIARY + 1) 0 0\<rparr>,
      \<lparr>CharPair0 = 67, CharPair1 = 104,
       CaseWeight = Entry (FIRST_PRIMARY + 14) (FIRST_SECONDARY + 1) (FIRST_TERTIARY + 0) 0 0,
       NoCaseWeight = Entry (FIRST_PRIMARY + 14) (FIRST_SECONDARY + 1) (FIRST_TERTIARY + 0) 0 0\<rparr>,
      \<lparr>CharPair0 = 67, CharPair1 = 72,
       CaseWeight = Entry (FIRST_PRIMARY + 14) (FIRST_SECONDARY + 1) (FIRST_TERTIARY + 1) 0 0,
       NoCaseWeight = Entry (FIRST_PRIMARY + 14) (FIRST_SECONDARY + 1) (FIRST_TERTIARY + 1) 0 0\<rparr>,
      \<lparr>CharPair0 = 108, CharPair1 = 108,
       CaseWeight = Entry (FIRST_PRIMARY + 24) (FIRST_SECONDARY + 0) (FIRST_TERTIARY + 0) 0 0,
       NoCaseWeight = Entry (FIRST_PRIMARY + 24) (FIRST_SECONDARY + 0) (FIRST_TERTIARY + 0) 0 0\<rparr>,
      \<lparr>CharPair0 = 108, CharPair1 = 76,
       CaseWeight = Entry (FIRST_PRIMARY + 24) (FIRST_SECONDARY + 0) (FIRST_TERTIARY + 1) 0 0,
       NoCaseWeight = Entry (FIRST_PRIMARY + 24) (FIRST_SECONDARY + 0) (FIRST_TERTIARY + 1) 0 0\<rparr>,
      \<lparr>CharPair0 = 76, CharPair1 = 108,
       CaseWeight = Entry (FIRST_PRIMARY + 24) (FIRST_SECONDARY + 1) (FIRST_TERTIARY + 0) 0 0,
       NoCaseWeight = Entry (FIRST_PRIMARY + 24) (FIRST_SECONDARY + 1) (FIRST_TERTIARY + 0) 0 0\<rparr>,
      \<lparr>CharPair0 = 76, CharPair1 = 76,
       CaseWeight = Entry (FIRST_PRIMARY + 24) (FIRST_SECONDARY + 1) (FIRST_TERTIARY + 1) 0 0,
       NoCaseWeight = Entry (FIRST_PRIMARY + 24) (FIRST_SECONDARY + 1) (FIRST_TERTIARY + 1) 0 0\<rparr>,
      \<lparr>CharPair0 = 0, CharPair1 = 0,
       CaseWeight = Entry 0 0 0 0 0,
       NoCaseWeight = Entry 0 0 0 0 0\<rparr>]"

definition NoCaseOrderTbl :: "SortOrderTblEntry list" where
  "NoCaseOrderTbl =
     [Entry (FIRST_IGNORE + 0) NULL_SECONDARY NULL_TERTIARY 1 1,
      Entry (FIRST_IGNORE + 1) NULL_SECONDARY NULL_TERTIARY 1 1,
      Entry (FIRST_IGNORE + 2) NULL_SECONDARY NULL_TERTIARY 1 1,
      Entry (FIRST_IGNORE + 3) NULL_SECONDARY NULL_TERTIARY 1 1,
      Entry (FIRST_IGNORE + 4) NULL_SECONDARY NULL_TERTIARY 1 1,
      Entry (FIRST_IGNORE + 5) NULL_SECONDARY NULL_TERTIARY 1 1,
      Entry (FIRST_IGNORE + 6) NULL_SECONDARY NULL_TERTIARY 1 1,
      Entry (FIRST_IGNORE + 7) NULL_SECONDARY NULL_TERTIARY 1 1,
      Entry (FIRST_IGNORE + 8) NULL_SECONDARY NULL_TERTIARY 1 1,
      Entry (FIRST_IGNORE + 9) NULL_SECONDARY NULL_TERTIARY 1 1,
      Entry (FIRST_IGNORE + 10) NULL_SECONDARY NULL_TERTIARY 1 1,
      Entry (FIRST_IGNORE + 11) NULL_SECONDARY NULL_TERTIARY 1 1,
      Entry (FIRST_IGNORE + 12) NULL_SECONDARY NULL_TERTIARY 1 1,
      Entry (FIRST_IGNORE + 13) NULL_SECONDARY NULL_TERTIARY 1 1,
      Entry (FIRST_IGNORE + 14) NULL_SECONDARY NULL_TERTIARY 1 1,
      Entry (FIRST_IGNORE + 15) NULL_SECONDARY NULL_TERTIARY 1 1,
      Entry (FIRST_IGNORE + 16) NULL_SECONDARY NULL_TERTIARY 1 1,
      Entry (FIRST_IGNORE + 17) NULL_SECONDARY NULL_TERTIARY 1 1,
      Entry (FIRST_IGNORE + 18) NULL_SECONDARY NULL_TERTIARY 1 1,
      Entry (FIRST_IGNORE + 19) NULL_SECONDARY NULL_TERTIARY 1 1,
      Entry (FIRST_IGNORE + 20) NULL_SECONDARY NULL_TERTIARY 1 1,
      Entry (FIRST_IGNORE + 21) NULL_SECONDARY NULL_TERTIARY 1 1,
      Entry (FIRST_IGNORE + 22) NULL_SECONDARY NULL_TERTIARY 1 1,
      Entry (FIRST_IGNORE + 23) NULL_SECONDARY NULL_TERTIARY 1 1,
      Entry (FIRST_IGNORE + 24) NULL_SECONDARY NULL_TERTIARY 1 1,
      Entry (FIRST_IGNORE + 25) NULL_SECONDARY NULL_TERTIARY 1 1,
      Entry (FIRST_IGNORE + 26) NULL_SECONDARY NULL_TERTIARY 1 1,
      Entry (FIRST_IGNORE + 27) NULL_SECONDARY NULL_TERTIARY 1 1,
      Entry (FIRST_IGNORE + 28) NULL_SECONDARY NULL_TERTIARY 1 1,
      Entry (FIRST_IGNORE + 29) NULL_SECONDARY NULL_TERTIARY 1 1,
      Entry (FIRST_IGNORE + 30) NULL_SECONDARY NULL_TERTIARY 1 1,
      Entry (FIRST_IGNORE + 31) NULL_SECONDARY NULL_TERTIARY 1 1,
      Entry (FIRST_IGNORE + 32) NULL_SECONDARY NULL_TERTIARY 1 1,
      Entry (FIRST_IGNORE + 40) NULL_SECONDARY NULL_TERTIARY 1 1,
      Entry (FIRST_IGNORE + 54) NULL_SECONDARY NULL_TERTIARY 1 1,
      Entry (FIRST_IGNORE + 76) NULL_SECONDARY NULL_TERTIARY 1 1,
      Entry (FIRST_IGNORE + 70) NULL_SECONDARY NULL_TERTIARY 1 1,
      Entry (FIRST_IGNORE + 77) NULL_SECONDARY NULL_TERTIARY 1 1,
      Entry (FIRST_IGNORE + 75) NULL_SECONDARY NULL_TERTIARY 1 1,
      Entry (FIRST_IGNORE + 53) NULL_SECONDARY NULL_TERTIARY 1 1,
      Entry (FIRST_IGNORE + 57) NULL_SECONDARY NULL_TERTIARY 1 1,
      Entry (FIRST_IGNORE + 58) NULL_SECONDARY NULL_TERTIARY 1 1,
      Entry (FIRST_IGNORE + 73) NULL_SECONDARY NULL_TERTIARY 1 1,
      Entry (FIRST_IGNORE + 78) NULL_SECONDARY NULL_TERTIARY 1 1,
      Entry (FIRST_IGNORE + 37) NULL_SECONDARY NULL_TERTIARY 1 1,
      Entry (FIRST_IGNORE + 36) NULL_SECONDARY NULL_TERTIARY 1 1,
      Entry (FIRST_IGNORE + 45) NULL_SECONDARY NULL_TERTIARY 1 1,
      Entry (FIRST_IGNORE + 44) NULL_SECONDARY NULL_TERTIARY 1 1,
      Entry (FIRST_PRIMARY + 1) (FIRST_SECONDARY + 0) NULL_TERTIARY 0 0,
      Entry (FIRST_PRIMARY + 2) NULL_SECONDARY (FIRST_TERTIARY + 0) 0 0,
      Entry (FIRST_PRIMARY + 3) NULL_SECONDARY (FIRST_TERTIARY + 0) 0 0,
      Entry (FIRST_PRIMARY + 4) NULL_SECONDARY (FIRST_TERTIARY + 0) 0 0,
      Entry (FIRST_PRIMARY + 5) NULL_SECONDARY NULL_TERTIARY 0 0,
      Entry (FIRST_PRIMARY + 6) NULL_SECONDARY NULL_TERTIARY 0 0,
      Entry (FIRST_PRIMARY + 7) NULL_SECONDARY NULL_TERTIARY 0 0,
      Entry (FIRST_PRIMARY + 8) NULL_SECONDARY NULL_TERTIARY 0 0,
      Entry (FIRST_PRIMARY + 9) NULL_SECONDARY NULL_TERTIARY 0 0,
      Entry (FIRST_PRIMARY + 10) NULL_SECONDARY NULL_TERTIARY 0 0,
      Entry (FIRST_IGNORE + 39) NULL_SECONDARY NULL_TERTIARY 1 1,
      Entry (FIRST_IGNORE + 38) NULL_SECONDARY NULL_TERTIARY 1 1,
      Entry (FIRST_IGNORE + 82) NULL_SECONDARY NULL_TERTIARY 1 1,
      Entry (FIRST_IGNORE + 83) NULL_SECONDARY NULL_TERTIARY 1 1,
      Entry (FIRST_IGNORE + 84) NULL_SECONDARY NULL_TERTIARY 1 1,
      Entry (FIRST_IGNORE + 42) NULL_SECONDARY NULL_TERTIARY 1 1,
      Entry (FIRST_IGNORE + 67) NULL_SECONDARY NULL_TERTIARY 1 1,
      Entry (FIRST_PRIMARY + 11) (FIRST_SECONDARY + 0) (FIRST_TERTIARY + 1) 0 0,
      Entry (FIRST_PRIMARY + 12) NULL_SECONDARY (FIRST_TERTIARY + 1) 0 0,
      Entry (FIRST_PRIMARY + 13) (FIRST_SECONDARY + 0) (FIRST_TERTIARY + 1) 0 1,
      Entry (FIRST_PRIMARY + 15) (FIRST_SECONDARY + 0) (FIRST_TERTIARY + 1) 0 0,
      Entry (FIRST_PRIMARY + 16) (FIRST_SECONDARY + 0) (FIRST_TERTIARY + 1) 0 0,
      Entry (FIRST_PRIMARY + 17) NULL_SECONDARY (FIRST_TERTIARY + 1) 0 0,
      Entry (FIRST_PRIMARY + 18) NULL_SECONDARY (FIRST_TERTIARY + 1) 0 0,
      Entry (FIRST_PRIMARY + 19) NULL_SECONDARY (FIRST_TERTIARY + 1) 0 0,
      Entry (FIRST_PRIMARY + 20) (FIRST_SECONDARY + 0) (FIRST_TERTIARY + 1) 0 0,
      Entry (FIRST_PRIMARY + 21) NULL_SECONDARY (FIRST_TERTIARY + 1) 0 0,
      Entry (FIRST_PRIMARY + 22) NULL_SECONDARY (FIRST_TERTIARY + 1) 0 0,
      Entry (FIRST_PRIMARY + 23) NULL_SECONDARY (FIRST_TERTIARY + 1) 0 1,
      Entry (FIRST_PRIMARY + 25) NULL_SECONDARY (FIRST_TERTIARY + 1) 0 0,
      Entry (FIRST_PRIMARY + 26) NULL_SECONDARY (FIRST_TERTIARY + 1) 0 0,
      Entry (FIRST_PRIMARY + 28) (FIRST_SECONDARY + 0) (FIRST_TERTIARY + 1) 0 0,
      Entry (FIRST_PRIMARY + 29) NULL_SECONDARY (FIRST_TERTIARY + 1) 0 0,
      Entry (FIRST_PRIMARY + 30) NULL_SECONDARY (FIRST_TERTIARY + 1) 0 0,
      Entry (FIRST_PRIMARY + 31) NULL_SECONDARY (FIRST_TERTIARY + 1) 0 0,
      Entry (FIRST_PRIMARY + 32) (FIRST_SECONDARY + 0) (FIRST_TERTIARY + 1) 0 0,
      Entry (FIRST_PRIMARY + 33) (FIRST_SECONDARY + 0) (FIRST_TERTIARY + 1) 0 0,
      Entry (FIRST_PRIMARY + 34) (FIRST_SECONDARY + 0) (FIRST_TERTIARY + 1) 0 0,
      Entry (FIRST_PRIMARY + 35) NULL_SECONDARY (FIRST_TERTIARY + 1) 0 0,
      Entry (FIRST_PRIMARY + 36) NULL_SECONDARY (FIRST_TERTIARY + 1) 0 0,
      Entry (FIRST_PRIMARY + 37) NULL_SECONDARY (FIRST_TERTIARY + 1) 0 0,
      Entry (FIRST_PRIMARY + 38) (FIRST_SECONDARY + 0) (FIRST_TERTIARY + 1) 0 0,
      Entry (FIRST_PRIMARY + 39) NULL_SECONDARY (FIRST_TERTIARY + 1) 0 0,
      Entry (FIRST_IGNORE + 59) NULL_SECONDARY NULL_TERTIARY 1 1,
      Entry (FIRST_IGNORE + 74) NULL_SECONDARY NULL_TERTIARY 1 1,
      Entry (FIRST_IGNORE + 60) NULL_SECONDARY NULL_TERTIARY 1 1,
      Entry (FIRST_IGNORE + 48) NULL_SECONDARY NULL_TERTIARY 1 1,
      Entry (FIRST_IGNORE + 33) NULL_SECONDARY NULL_TERTIARY 1 1,
      Entry (FIRST_IGNORE + 47) NULL_SECONDARY NULL_TERTIARY 1 1,
      Entry (FIRST_PRIMARY + 11) (FIRST_SECONDARY + 0) (FIRST_TERTIARY + 0) 0 0,
      Entry (FIRST_PRIMARY + 12) NULL_SECONDARY (FIRST_TERTIARY + 0) 0 0,
      Entry (FIRST_PRIMARY + 13) (FIRST_SECONDARY + 0) (FIRST_TERTIARY + 0) 0 1,
      Entry (FIRST_PRIMARY + 15) (FIRST_SECONDARY + 0) (FIRST_TERTIARY + 0) 0 0,
      Entry (FIRST_PRIMARY + 16) (FIRST_SECONDARY + 0) (FIRST_TERTIARY + 0) 0 0,
      Entry (FIRST_PRIMARY + 17) NULL_SECONDARY (FIRST_TERTIARY + 0) 0 0,
      Entry (FIRST_PRIMARY + 18) NULL_SECONDARY (FIRST_TERTIARY + 0) 0 0,
      Entry (FIRST_PRIMARY + 19) NULL_SECONDARY (FIRST_TERTIARY + 0) 0 0,
      Entry (FIRST_PRIMARY + 20) (FIRST_SECONDARY + 0) (FIRST_TERTIARY + 0) 0 0,
      Entry (FIRST_PRIMARY + 21) NULL_SECONDARY (FIRST_TERTIARY + 0) 0 0,
      Entry (FIRST_PRIMARY + 22) NULL_SECONDARY (FIRST_TERTIARY + 0) 0 0,
      Entry (FIRST_PRIMARY + 23) NULL_SECONDARY (FIRST_TERTIARY + 0) 0 1,
      Entry (FIRST_PRIMARY + 25) NULL_SECONDARY (FIRST_TERTIARY + 0) 0 0,
      Entry (FIRST_PRIMARY + 26) NULL_SECONDARY (FIRST_TERTIARY + 0) 0 0,
      Entry (FIRST_PRIMARY + 28) (FIRST_SECONDARY + 0) (FIRST_TERTIARY + 0) 0 0,
      Entry (FIRST_PRIMARY + 29) NULL_SECONDARY (FIRST_TERTIARY + 0) 0 0,
      Entry (FIRST_PRIMARY + 30) NULL_SECONDARY (FIRST_TERTIARY + 0) 0 0,
      Entry (FIRST_PRIMARY + 31) NULL_SECONDARY (FIRST_TERTIARY + 0) 0 0,
      Entry (FIRST_PRIMARY + 32) (FIRST_SECONDARY + 0) (FIRST_TERTIARY + 0) 0 0,
      Entry (FIRST_PRIMARY + 33) (FIRST_SECONDARY + 0) (FIRST_TERTIARY + 0) 0 0,
      Entry (FIRST_PRIMARY + 34) (FIRST_SECONDARY + 0) (FIRST_TERTIARY + 0) 0 0,
      Entry (FIRST_PRIMARY + 35) NULL_SECONDARY (FIRST_TERTIARY + 0) 0 0,
      Entry (FIRST_PRIMARY + 36) NULL_SECONDARY (FIRST_TERTIARY + 0) 0 0,
      Entry (FIRST_PRIMARY + 37) NULL_SECONDARY (FIRST_TERTIARY + 0) 0 0,
      Entry (FIRST_PRIMARY + 38) (FIRST_SECONDARY + 0) (FIRST_TERTIARY + 0) 0 0,
      Entry (FIRST_PRIMARY + 39) NULL_SECONDARY (FIRST_TERTIARY + 0) 0 0,
      Entry (FIRST_IGNORE + 61) NULL_SECONDARY NULL_TERTIARY 1 1,
      Entry (FIRST_IGNORE + 86) NULL_SECONDARY NULL_TERTIARY 1 1,
      Entry (FIRST_IGNORE + 62) NULL_SECONDARY NULL_TERTIARY 1 1,
      Entry (FIRST_IGNORE + 50) NULL_SECONDARY NULL_TERTIARY 1 1,
      Entry (FIRST_IGNORE + 90) NULL_SECONDARY NULL_TERTIARY 1 1,
      Entry (FIRST_IGNORE + 91) NULL_SECONDARY NULL_TERTIARY 1 1,
      Entry (FIRST_IGNORE + 92) NULL_SECONDARY NULL_TERTIARY 1 1,
      Entry (FIRST_IGNORE + 93) NULL_SECONDARY NULL_TERTIARY 1 1,
      Entry (FIRST_IGNORE + 94) NULL_SECONDARY NULL_TERTIARY 1 1,
      Entry (FIRST_IGNORE + 95) NULL_SECONDARY NULL_TERTIARY 1 1,
      Entry (FIRST_IGNORE + 96) NULL_SECONDARY NULL_TERTIARY 1 1,
      Entry (FIRST_IGNORE + 97) NULL_SECONDARY NULL_TERTIARY 1 1,
      Entry (FIRST_IGNORE + 98) NULL_SECONDARY NULL_TERTIARY 1 1,
      Entry (FIRST_IGNORE + 99) NULL_SECONDARY NULL_TERTIARY 1 1,
      Entry (FIRST_IGNORE + 100) NULL_SECONDARY NULL_TERTIARY 1 1,
      Entry (FIRST_IGNORE + 101) NULL_SECONDARY NULL_TERTIARY 1 1,
      Entry (FIRST_IGNORE + 102) NULL_SECONDARY NULL_TERTIARY 1 1,
      Entry (FIRST_IGNORE + 103) NULL_SECONDARY NULL_TERTIARY 1 1,
      Entry (FIRST_IGNORE + 104) NULL_SECONDARY NULL_TERTIARY 1 1,
      Entry (FIRST_IGNORE + 105) NULL_SECONDARY NULL_TERTIARY 1 1,
      Entry (FIRST_IGNORE + 106) NULL_SECONDARY NULL_TERTIARY 1 1,
      Entry (FIRST_IGNORE + 107) NULL_SECONDARY NULL_TERTIARY 1 1,
      Entry (FIRST_IGNORE + 108) NULL_SECONDARY NULL_TERTIARY 1 1,
      Entry (FIRST_IGNORE + 109) NULL_SECONDARY NULL_TERTIARY 1 1,
      Entry (FIRST_IGNORE + 110) NULL_SECONDARY NULL_TERTIARY 1 1,
      Entry (FIRST_IGNORE + 111) NULL_SECONDARY NULL_TERTIARY 1 1,
      Entry (FIRST_IGNORE + 112) NULL_SECONDARY NULL_TERTIARY 1 1,
      Entry (FIRST_IGNORE + 113) NULL_SECONDARY NULL_TERTIARY 1 1,
      Entry (FIRST_IGNORE + 114) NULL_SECONDARY NULL_TERTIARY 1 1,
      Entry (FIRST_IGNORE + 115) NULL_SECONDARY NULL_TERTIARY 1 1,
      Entry (FIRST_IGNORE + 116) NULL_SECONDARY NULL_TERTIARY 1 1,
      Entry (FIRST_IGNORE + 117) NULL_SECONDARY NULL_TERTIARY 1 1,
      Entry (FIRST_IGNORE + 118) NULL_SECONDARY NULL_TERTIARY 1 1,
      Entry (FIRST_IGNORE + 119) NULL_SECONDARY NULL_TERTIARY 1 1,
      Entry (FIRST_IGNORE + 120) NULL_SECONDARY NULL_TERTIARY 1 1,
      Entry (FIRST_IGNORE + 121) NULL_SECONDARY NULL_TERTIARY 1 1,
      Entry (FIRST_IGNORE + 122) NULL_SECONDARY NULL_TERTIARY 1 1,
      Entry (FIRST_PRIMARY + 0) NULL_SECONDARY NULL_TERTIARY 0 0,
      Entry (FIRST_IGNORE + 41) NULL_SECONDARY NULL_TERTIARY 1 1,
      Entry (FIRST_IGNORE + 69) NULL_SECONDARY NULL_TERTIARY 1 1,
      Entry (FIRST_IGNORE + 71) NULL_SECONDARY NULL_TERTIARY 1 1,
      Entry (FIRST_IGNORE + 68) NULL_SECONDARY NULL_TERTIARY 1 1,
      Entry (FIRST_IGNORE + 72) NULL_SECONDARY NULL_TERTIARY 1 1,
      Entry (FIRST_IGNORE + 87) NULL_SECONDARY NULL_TERTIARY 1 1,
      Entry (FIRST_IGNORE + 63) NULL_SECONDARY NULL_TERTIARY 1 1,
      Entry (FIRST_IGNORE + 49) NULL_SECONDARY NULL_TERTIARY 1 1,
      Entry (FIRST_IGNORE + 65) NULL_SECONDARY NULL_TERTIARY 1 1,
      Entry (FIRST_PRIMARY + 11) (FIRST_SECONDARY + 1) (FIRST_TERTIARY + 0) 0 0,
      Entry (FIRST_IGNORE + 55) NULL_SECONDARY NULL_TERTIARY 1 1,
      Entry (FIRST_IGNORE + 85) NULL_SECONDARY NULL_TERTIARY 1 1,
      Entry (FIRST_IGNORE + 35) NULL_SECONDARY NULL_TERTIARY 1 1,
      Entry (FIRST_IGNORE + 66) NULL_SECONDARY NULL_TERTIARY 1 1,
      Entry (FIRST_IGNORE + 34) NULL_SECONDARY NULL_TERTIARY 1 1,
      Entry (FIRST_IGNORE + 88) NULL_SECONDARY NULL_TERTIARY 1 1,
      Entry (FIRST_IGNORE + 79) NULL_SECONDARY NULL_TERTIARY 1 1,
      Entry (FIRST_PRIMARY + 3) NULL_SECONDARY (FIRST_TERTIARY + 1) 0 0,
      Entry (FIRST_PRIMARY + 4) NULL_SECONDARY (FIRST_TERTIARY + 1) 0 0,
      Entry (FIRST_IGNORE + 46) NULL_SECONDARY NULL_TERTIARY 1 1,
      Entry (FIRST_IGNORE + 89) NULL_SECONDARY NULL_TERTIARY 1 1,
      Entry (FIRST_IGNORE + 64) NULL_SECONDARY NULL_TERTIARY 1 1,
      Entry (FIRST_IGNORE + 51) NULL_SECONDARY NULL_TERTIARY 1 1,
      Entry (FIRST_IGNORE + 52) NULL_SECONDARY NULL_TERTIARY 1 1,
      Entry (FIRST_PRIMARY + 2) NULL_SECONDARY (FIRST_TERTIARY + 1) 0 0,
      Entry (FIRST_PRIMARY + 28) (FIRST_SECONDARY + 1) (FIRST_TERTIARY + 0) 0 0,
      Entry (FIRST_IGNORE + 56) NULL_SECONDARY NULL_TERTIARY 1 1,
      Entry (FIRST_PRIMARY + 1) (FIRST_SECONDARY + 1) NULL_TERTIARY 0 0,
      Entry (FIRST_PRIMARY + 1) (FIRST_SECONDARY + 2) NULL_TERTIARY 0 0,
      Entry (FIRST_PRIMARY + 1) (FIRST_SECONDARY + 3) NULL_TERTIARY 0 0,
      Entry (FIRST_IGNORE + 43) NULL_SECONDARY NULL_TERTIARY 1 1,
      Entry (FIRST_PRIMARY + 11) (FIRST_SECONDARY + 4) (FIRST_TERTIARY + 1) 0 0,
      Entry (FIRST_PRIMARY + 11) (FIRST_SECONDARY + 3) (FIRST_TERTIARY + 1) 0 0,
      Entry (FIRST_PRIMARY + 11) (FIRST_SECONDARY + 5) (FIRST_TERTIARY + 1) 0 0,
      Entry (FIRST_PRIMARY + 11) (FIRST_SECONDARY + 8) (FIRST_TERTIARY + 1) 0 0,
      Entry (FIRST_PRIMARY + 11) (FIRST_SECONDARY + 7) (FIRST_TERTIARY + 1) 0 0,
      Entry (FIRST_PRIMARY + 11) (FIRST_SECONDARY + 6) (FIRST_TERTIARY + 1) 0 0,
      Entry (FIRST_PRIMARY + 11) (FIRST_SECONDARY + 2) (FIRST_TERTIARY + 1) 1 0,
      Entry (FIRST_PRIMARY + 13) (FIRST_SECONDARY + 1) (FIRST_TERTIARY + 1) 0 0,
      Entry (FIRST_PRIMARY + 16) (FIRST_SECONDARY + 2) (FIRST_TERTIARY + 1) 0 0,
      Entry (FIRST_PRIMARY + 16) (FIRST_SECONDARY + 1) (FIRST_TERTIARY + 1) 0 0,
      Entry (FIRST_PRIMARY + 16) (FIRST_SECONDARY + 3) (FIRST_TERTIARY + 1) 0 0,
      Entry (FIRST_PRIMARY + 16) (FIRST_SECONDARY + 4) (FIRST_TERTIARY + 1) 0 0,
      Entry (FIRST_PRIMARY + 20) (FIRST_SECONDARY + 2) (FIRST_TERTIARY + 1) 0 0,
      Entry (FIRST_PRIMARY + 20) (FIRST_SECONDARY + 1) (FIRST_TERTIARY + 1) 0 0,
      Entry (FIRST_PRIMARY + 20) (FIRST_SECONDARY + 3) (FIRST_TERTIARY + 1) 0 0,
      Entry (FIRST_PRIMARY + 20) (FIRST_SECONDARY + 4) (FIRST_TERTIARY + 1) 0 0,
      Entry (FIRST_PRIMARY + 15) (FIRST_SECONDARY + 1) (FIRST_TERTIARY + 1) 0 0,
      Entry (FIRST_PRIMARY + 27) NULL_SECONDARY (FIRST_TERTIARY + 1) 0 0,
      Entry (FIRST_PRIMARY + 28) (FIRST_SECONDARY + 3) (FIRST_TERTIARY + 1) 0 0,
      Entry (FIRST_PRIMARY + 28) (FIRST_SECONDARY + 2) (FIRST_TERTIARY + 1) 0 0,
      Entry (FIRST_PRIMARY + 28) (FIRST_SECONDARY + 4) (FIRST_TERTIARY + 1) 0 0,
      Entry (FIRST_PRIMARY + 28) (FIRST_SECONDARY + 6) (FIRST_TERTIARY + 1) 0 0,
      Entry (FIRST_PRIMARY + 28) (FIRST_SECONDARY + 5) (FIRST_TERTIARY + 1) 0 0,
      Entry (FIRST_IGNORE + 81) NULL_SECONDARY NULL_TERTIARY 1 1,
      Entry (FIRST_PRIMARY + 28) (FIRST_SECONDARY + 7) (FIRST_TERTIARY + 1) 0 0,
      Entry (FIRST_PRIMARY + 34) (FIRST_SECONDARY + 2) (FIRST_TERTIARY + 1) 0 0,
      Entry (FIRST_PRIMARY + 34) (FIRST_SECONDARY + 1) (FIRST_TERTIARY + 1) 0 0,
      Entry (FIRST_PRIMARY + 34) (FIRST_SECONDARY + 3) (FIRST_TERTIARY + 1) 0 0,
      Entry (FIRST_PRIMARY + 34) (FIRST_SECONDARY + 4) (FIRST_TERTIARY + 1) 0 0,
      Entry (FIRST_PRIMARY + 38) (FIRST_SECONDARY + 1) (FIRST_TERTIARY + 1) 0 0,
      Entry (FIRST_PRIMARY + 33) (FIRST_SECONDARY + 1) (FIRST_TERTIARY + 1) 1 0,
      Entry (FIRST_PRIMARY + 32) (FIRST_SECONDARY + 1) (FIRST_TERTIARY + 0) 1 0,
      Entry (FIRST_PRIMARY + 11) (FIRST_SECONDARY + 4) (FIRST_TERTIARY + 0) 0 0,
      Entry (FIRST_PRIMARY + 11) (FIRST_SECONDARY + 3) (FIRST_TERTIARY + 0) 0 0,
      Entry (FIRST_PRIMARY + 11) (FIRST_SECONDARY + 5) (FIRST_TERTIARY + 0) 0 0,
      Entry (FIRST_PRIMARY + 11) (FIRST_SECONDARY + 8) (FIRST_TERTIARY + 0) 0 0,
      Entry (FIRST_PRIMARY + 11) (FIRST_SECONDARY + 7) (FIRST_TERTIARY + 0) 0 0,
      Entry (FIRST_PRIMARY + 11) (FIRST_SECONDARY + 6) (FIRST_TERTIARY + 0) 0 0,
      Entry (FIRST_PRIMARY + 11) (FIRST_SECONDARY + 2) (FIRST_TERTIARY + 0) 1 0,
      Entry (FIRST_PRIMARY + 13) (FIRST_SECONDARY + 1) (FIRST_TERTIARY + 0) 0 0,
      Entry (FIRST_PRIMARY + 16) (FIRST_SECONDARY + 2) (FIRST_TERTIARY + 0) 0 0,
      Entry (FIRST_PRIMARY + 16) (FIRST_SECONDARY + 1) (FIRST_TERTIARY + 0) 0 0,
      Entry (FIRST_PRIMARY + 16) (FIRST_SECONDARY + 3) (FIRST_TERTIARY + 0) 0 0,
      Entry (FIRST_PRIMARY + 16) (FIRST_SECONDARY + 4) (FIRST_TERTIARY + 0) 0 0,
      Entry (FIRST_PRIMARY + 20) (FIRST_SECONDARY + 2) (FIRST_TERTIARY + 0) 0 0,
      Entry (FIRST_PRIMARY + 20) (FIRST_SECONDARY + 1) (FIRST_TERTIARY + 0) 0 0,
      Entry (FIRST_PRIMARY + 20) (FIRST_SECONDARY + 3) (FIRST_TERTIARY + 0) 0 0,
      Entry (FIRST_PRIMARY + 20) (FIRST_SECONDARY + 4) (FIRST_TERTIARY + 0) 0 0,
      Entry (FIRST_PRIMARY + 15) (FIRST_SECONDARY + 1) (FIRST_TERTIARY + 0) 0 0,
      Entry (FIRST_PRIMARY + 27) NULL_SECONDARY (FIRST_TERTIARY + 0) 0 0,
      Entry (FIRST_PRIMARY + 28) (FIRST_SECONDARY + 3) (FIRST_TERTIARY + 0) 0 0,
      Entry (FIRST_PRIMARY + 28) (FIRST_SECONDARY + 2) (FIRST_TERTIARY + 0) 0 0,
      Entry (FIRST_PRIMARY + 28) (FIRST_SECONDARY + 4) (FIRST_TERTIARY + 0) 0 0,
      Entry (FIRST_PRIMARY + 28) (FIRST_SECONDARY + 6) (FIRST_TERTIARY + 0) 0 0,
      Entry (FIRST_PRIMARY + 28) (FIRST_SECONDARY + 5) (FIRST_TERTIARY + 0) 0 0,
      Entry (FIRST_IGNORE + 80) NULL_SECONDARY NULL_TERTIARY 1 1,
      Entry (FIRST_PRIMARY + 28) (FIRST_SECONDARY + 7) (FIRST_TERTIARY + 0) 0 0,
      Entry (FIRST_PRIMARY + 34) (FIRST_SECONDARY + 2) (FIRST_TERTIARY + 0) 0 0,
      Entry (FIRST_PRIMARY + 34) (FIRST_SECONDARY + 1) (FIRST_TERTIARY + 0) 0 0,
      Entry (FIRST_PRIMARY + 34) (FIRST_SECONDARY + 3) (FIRST_TERTIARY + 0) 0 0,
      Entry (FIRST_PRIMARY + 34) (FIRST_SECONDARY + 4) (FIRST_TERTIARY + 0) 0 0,
      Entry (FIRST_PRIMARY + 38) (FIRST_SECONDARY + 1) (FIRST_TERTIARY + 0) 0 0,
      Entry (FIRST_PRIMARY + 33) (FIRST_SECONDARY + 1) (FIRST_TERTIARY + 0) 1 0,
      Entry (FIRST_PRIMARY + 38) (FIRST_SECONDARY + 2) (FIRST_TERTIARY + 0) 0 0]"

definition es_texttype :: texttype where
  "es_texttype =
     \<lparr>texttype_flags = 0,
      texttype_collation_table = (\<lambda>c. NoCaseOrderTbl ! unat c),
      texttype_expand_table = ExpansionTbl,
      texttype_compress_table = CompressTbl\<rparr>"

section \<open>The layout of the tables\<close>

text \<open>The primary weights that come with a secondary weight, those with a tertiary one,
     and the
  weights of the five expanding bytes.\<close>

definition es_hs :: "u8 \<Rightarrow> bool" where
  "es_hs p \<longleftrightarrow> List.member [13, 23, 25, 26, 27, 28, 32, 36, 40, 44, 45, 46, 50] p"

definition es_ht :: "u8 \<Rightarrow> bool" where
  "es_ht p \<longleftrightarrow> List.member [14, 15, 16, 23, 24, 25, 26, 27, 28, 29, 30, 31, 32,
     33, 34, 35, 36, 37, 38, 39, 40, 41, 42, 43, 44, 45, 46, 47, 48, 49, 50, 51] p"

definition es_xs :: "(u8 \<times> 4 word \<times> 2 word) list" where
  "es_xs = [(23, 5, 1), (23, 5, 2), (44, 4, 1), (45, 4, 1), (45, 4, 2)]"

section \<open>Evaluation\<close>

lemma es_rows: "list_all (entry_ok es_hs es_ht 11 es_xs) NoCaseOrderTbl \<and> length NoCaseOrderTbl = 256"
  by code_simp

lemma es_expand:
  "list_all (\<lambda>(c, e). IsExpand e \<and> \<not> IsCompress e \<longrightarrow>
      (case find_expand ExpansionTbl c of None \<Rightarrow> False
       | Some x \<Rightarrow> \<not> IsExpand (NoCaseOrderTbl ! unat (ExpCh2 x)))) (zip (bytes_from 256 0) NoCaseOrderTbl)"
  by code_simp

lemma es_compress:
  "list_all (\<lambda>p. CharPair0 p \<noteq> 0 \<longrightarrow>
     weight_ok es_hs es_ht 11 (NoCaseWeight p) \<and> \<not> List.member es_xs (weight3 (NoCaseWeight p)) \<and>
     \<not> is_special (NoCaseOrderTbl ! unat (CharPair1 p))) CompressTbl"
  by code_simp

lemma es_ends: "list_ex (\<lambda>e. Ch e = 0) ExpansionTbl \<and> list_ex (\<lambda>p. CharPair0 p = 0) CompressTbl"
  by code_simp

lemma all_rows: "list_all P NoCaseOrderTbl \<Longrightarrow> P (NoCaseOrderTbl ! unat (c :: u8))"
  using es_rows by (simp add: list_all_length)

lemma bytes_from_nth: "k < n \<Longrightarrow> bytes_from n b ! k = b + word_of_nat k"
  by (induction n b arbitrary: k rule: bytes_from.induct) (auto simp: nth_Cons split: nat.splits)

lemma length_bytes_from [simp]: "length (bytes_from n b) = n"
  by (induction n b rule: bytes_from.induct) auto

lemma all_indexed_rows:
  assumes "list_all (\<lambda>(c, e). P c e) (zip (bytes_from 256 0) NoCaseOrderTbl)"
  shows "P c (NoCaseOrderTbl ! unat c)"
proof -
  have "zip (bytes_from 256 0) NoCaseOrderTbl ! unat c = (c, NoCaseOrderTbl ! unat c)"
    using es_rows by (simp add: bytes_from_nth)
  moreover have "zip (bytes_from 256 0) NoCaseOrderTbl ! unat c \<in> set (zip (bytes_from 256 0) NoCaseOrderTbl)"
    using es_rows by (intro nth_mem) simp
  ultimately show ?thesis using assms by (auto simp: list_all_iff)
qed

lemma es_expand_ok: "expand_ok es_texttype c"
  using all_indexed_rows [OF es_expand, of c]
  by (auto simp: expand_ok_def expands_def es_texttype_def split: option.splits)

lemma es_layered: "layered es_hs es_ht 11 es_xs es_texttype"
  using es_rows es_compress es_ends es_expand_ok
  by (auto simp: layered_def terminated_def all_rows es_texttype_def list_all_iff list_ex_iff)

section \<open>Witnesses\<close>

theorem narrow_compare_order_witness:
  "let s = [0x61, 0x20]; t = [0x61] in LC_NARROW_compare es_texttype (length s) s (length t) t = Some 0"
proof -
  have "terminated es_texttype" using es_layered by (simp add: layered_def)
  moreover have "strip [0x61, 0x20] = strip [0x61]" by (simp add: strip_def)
  ultimately show ?thesis
    using narrow_compare_order [of es_texttype "[0x61, 0x20]" "[0x61]" "[]"] unfolding Let_def by blast
qed






lemma weights_replicate:
  "is_plain (texttype_collation_table obj c) \<Longrightarrow> length (weights obj (replicate n c)) = n"
  by (induction n) (simp_all add: weights_shapes)

lemma strip_replicate: "c \<noteq> 32 \<Longrightarrow> strip (replicate n c) = replicate n c"
proof (induction n)
  case (Suc n)
  then show ?case using strip_snoc [of "replicate n c" c] by (simp add: replicate_append_same)
qed simp

lemma es_a_row: "is_plain (NoCaseOrderTbl ! unat (0x61 :: u8))"
  by code_simp

lemma es_a_plain: "is_plain (texttype_collation_table es_texttype 0x61)"
  using es_a_row by (simp add: es_texttype_def)

theorem narrow_key_overrun_witness:
  "let s = replicate 257 0x61 in
   LC_NARROW_string_to_key es_texttype (length s) s (LC_NARROW_key_length (length s)) False = None"
  using narrow_key_overrun [OF es_layered, of "replicate 257 0x61" False]
  by (simp add: strip_replicate weights_replicate [OF es_a_plain] MAX_KEY_def)

end
