(* ===== verification/Sqz.thy ===== *)
theory Sqz
  imports Fb_Prelude
begin

text \<open>
  \<open>jrd/sqz.cpp\<close>: the run-length compression of records and the difference records that let a back
  version be rebuilt from its successor. A control byte is a signed \<open>SCHAR\<close>: positive, the number
  of literal bytes that follow; negative, the length of a run of the one byte that follows (in a
  difference record, the number of bytes that are the same in both records).

  Records have at most 65535 bytes, so that the \<open>USHORT\<close> \<open>count = end - data\<close> is the number of
  bytes left; the theorems assume it. A \<open>BUGCHECK\<close> is a value of the result, and so is an access outside a buffer (\<open>Fault\<close>).
\<close>

datatype 'a outcome = Done 'a | Bugcheck nat | Fault

fun on_done :: "('a \<Rightarrow> 'b) \<Rightarrow> 'a outcome \<Rightarrow> 'b outcome" where
  "on_done f (Done a) = Done (f a)"
| "on_done f (Bugcheck n) = Bugcheck n"
| "on_done f Fault = Fault"

lemma on_done_eq_Done: "on_done f r = Done b \<longleftrightarrow> (\<exists>a. r = Done a \<and> b = f a)"
  by (cases r) auto

text \<open>The length of the run a negative control byte stands for.\<close>

definition run_length :: "u8 \<Rightarrow> nat" where
  "run_length c = nat (- sint c)"

section \<open>Control strings\<close>

text \<open>
  \<open>dcc_string\<close> holds 128 control bytes; when it is full, \<open>SQZ_length\<close> links a new block. A chain of
  blocks is the list of its strings; the last one is open.
\<close>

definition DCC_SIZE :: nat where "DCC_SIZE = 128"

definition put_control :: "u8 list list \<times> u8 list \<Rightarrow> u8 \<Rightarrow> u8 list list \<times> u8 list" where
  "put_control dcc c =
     (case dcc of (full, cur) \<Rightarrow>
        if length cur + 1 = DCC_SIZE then (full @ [cur @ [c]], []) else (full, cur @ [c]))"

definition dcc_chain :: "u8 list list \<times> u8 list \<Rightarrow> u8 list list" where
  "dcc_chain dcc = fst dcc @ [snd dcc]"

text \<open>
  The \<open>do ... while (--max > 1)\<close> loop: the number of bytes before the first three equal ones; when
  there are none (or fewer than three bytes), all that are left.
\<close>

fun literal_run :: "u8 list \<Rightarrow> nat" where
  "literal_run (a # b # c # s) =
     (if a \<noteq> b \<or> a \<noteq> c then Suc (literal_run (b # c # s)) else 0)"
| "literal_run s = length s"

text \<open>\<open>do { if ( *data != c) break; ++data; } while (--max);\<close>\<close>

fun equal_run :: "nat \<Rightarrow> u8 \<Rightarrow> u8 list \<Rightarrow> nat" where
  "equal_run (Suc m) c (d # s) = (if d \<noteq> c then 0 else Suc (equal_run m c s))"
| "equal_run _ _ _ = 0"

text \<open>\<open>while (count) { max = MIN(count, 127); length += 1 + max; ... *control++ = max; ... }\<close>\<close>

fun put_literals :: "nat \<Rightarrow> nat \<times> u8 list list \<times> u8 list \<Rightarrow> nat \<times> u8 list list \<times> u8 list" where
  "put_literals 0 (len, dcc) = (len, dcc)"
| "put_literals (Suc n) (len, dcc) =
     (let m = min (Suc n) 127
      in put_literals (Suc n - m) (len + 1 + m, put_control dcc (word_of_nat m)))"

lemma literal_run_le: "literal_run s \<le> length s"
  by (induction s rule: literal_run.induct) auto

lemma literal_run_0: "literal_run s = 0 \<Longrightarrow> s \<noteq> [] \<Longrightarrow> 3 \<le> length s"
  by (cases s rule: literal_run.cases) auto

lemma equal_run_pos: "s \<noteq> [] \<Longrightarrow> 0 < m \<Longrightarrow> 0 < equal_run m (hd s) s"
  by (cases s; cases m) auto

text \<open>The turns of the outer loop: the literal bytes, then the run that stopped them.\<close>

function length_loop :: "u8 list \<Rightarrow> nat \<times> u8 list list \<times> u8 list \<Rightarrow> nat \<times> u8 list list \<times> u8 list" where
  "length_loop data acc =
     (if data = [] then acc
      else
        let count = literal_run data;
            acc1 = put_literals count acc;
            rest = drop count data;
            m = min 128 (length rest)
        in if 3 \<le> m
           then let n = equal_run m (hd rest) rest
                in length_loop (drop n rest)
                     (fst acc1 + 2, put_control (snd acc1) (word_of_int (- int n)))
           else length_loop rest acc1)"
  by auto
termination
proof (relation "measure (\<lambda>(data, acc). length data)", goal_cases)
  case (2 data acc count acc1 rest m n)
  then have "rest \<noteq> []" by auto
  moreover from this 2 have "0 < n" by (auto intro!: equal_run_pos)
  ultimately show ?case using 2 by auto
next
  case (3 data acc count acc1 rest m)
  then have "count \<noteq> 0" using literal_run_0 [of data] by (cases "literal_run data") auto
  then show ?case using 3 by auto
qed auto

definition SQZ_length :: "u8 list \<Rightarrow> nat \<times> u8 list list" where
  "SQZ_length data =
     (let (len, dcc) = length_loop data (0, [], []) in (ushort len, dcc_chain dcc))"

section \<open>Compression\<close>

text \<open>
  The inner loop of \<open>SQZ_fast\<close> on one control string: the bytes written and the input left, or
  \<open>None\<close> when it reads past the input.
\<close>

fun fast_control :: "u8 list \<Rightarrow> u8 list \<Rightarrow> (u8 list \<times> u8 list) option" where
  "fast_control [] input = Some ([], input)"
| "fast_control (k # ks) input =
     (if sint k < 0
      then (case input of
              [] \<Rightarrow> None
            | c # _ \<Rightarrow> do { (out, rest) \<leftarrow> fast_control ks (drop (run_length k) input);
                            Some (k # c # out, rest) })
      else if length input < unat k then None
      else do { (out, rest) \<leftarrow> fast_control ks (drop (unat k) input);
                Some (k # take (unat k) input @ out, rest) })"

fun SQZ_fast :: "u8 list list \<Rightarrow> u8 list \<Rightarrow> (u8 list \<times> u8 list) option" where
  "SQZ_fast [] input = Some ([], input)"
| "SQZ_fast (d # dcc) input =
     do { (out, input') \<leftarrow> fast_control d input;
          (out', rest) \<leftarrow> SQZ_fast dcc input';
          Some (out @ out', rest) }"

text \<open>
  \<open>SQZ_compress\<close>: the control string of one block, in \<open>space\<close> bytes. \<open>Inl\<close>: the routine has
  returned, having written the bytes and consumed that many of the input; \<open>Inr\<close>: the block is
  used up, with the input and the space left.
\<close>

type_synonym compressed = "u8 list \<times> (nat + nat \<times> u8 list \<times> int)"

fun compress_control :: "u8 list \<Rightarrow> nat \<Rightarrow> u8 list \<Rightarrow> int \<Rightarrow> compressed option" where
  "compress_control [] used input space = Some ([], Inr (used, input, space))"
| "compress_control (k # ks) used input space =
     (if space - 1 \<le> 0
      then Some (if space - 1 = 0 then [0] else [], Inl used)
      else if sint k < 0
      then (case input of
              [] \<Rightarrow> None
            | c # _ \<Rightarrow>
                do { (out, r) \<leftarrow> compress_control ks (used + run_length k)
                       (drop (run_length k) input) (space - 2);
                     Some (k # c # out, r) })
      else
        let length' = int (unat k); space' = space - 1 - length' in
        if space' < 0
        then (let n = nat (length' + space') in
              if length input < n then None
              else Some (word_of_nat n # take n input, Inl (used + n)))
        else if length input < unat k then None
        else do { (out, r) \<leftarrow> compress_control ks (used + unat k) (drop (unat k) input) space';
                  Some (k # take (unat k) input @ out, r) })"

fun compress_chain :: "u8 list list \<Rightarrow> nat \<Rightarrow> u8 list \<Rightarrow> int \<Rightarrow> (nat \<times> u8 list) outcome" where
  "compress_chain [] used input space = Bugcheck 178"
| "compress_chain (d # dcc) used input space =
     (case compress_control d used input space of
        None \<Rightarrow> Fault
      | Some (out, Inl n) \<Rightarrow> Done (ushort n, out)
      | Some (out, Inr (used', input', space')) \<Rightarrow>
          on_done (\<lambda>(n, out'). (n, out @ out')) (compress_chain dcc used' input' space'))"

definition SQZ_compress :: "u8 list list \<Rightarrow> u8 list \<Rightarrow> int \<Rightarrow> (nat \<times> u8 list) outcome" where
  "SQZ_compress dcc input space = compress_chain dcc 0 input space"

text \<open>\<open>SQZ_compress_length\<close> only moves the pointer.\<close>

fun compress_length_control :: "u8 list \<Rightarrow> nat \<Rightarrow> int \<Rightarrow> nat + nat \<times> int" where
  "compress_length_control [] used space = Inr (used, space)"
| "compress_length_control (k # ks) used space =
     (if space - 1 \<le> 0 then Inl used
      else if sint k < 0 then compress_length_control ks (used + run_length k) (space - 2)
      else
        let length' = int (unat k); space' = space - 1 - length' in
        if space' < 0 then Inl (used + nat (length' + space'))
        else compress_length_control ks (used + unat k) space')"

fun compress_length_chain :: "u8 list list \<Rightarrow> nat \<Rightarrow> int \<Rightarrow> nat outcome" where
  "compress_length_chain [] used space = Bugcheck 178"
| "compress_length_chain (d # dcc) used space =
     (case compress_length_control d used space of
        Inl n \<Rightarrow> Done (ushort n)
      | Inr (used', space') \<Rightarrow> compress_length_chain dcc used' space')"

definition SQZ_compress_length :: "u8 list list \<Rightarrow> int \<Rightarrow> nat outcome" where
  "SQZ_compress_length dcc space = compress_length_chain dcc 0 space"

section \<open>Decompression\<close>

text \<open>The input is the \<open>length\<close> bytes at \<open>input\<close>, \<open>room\<close> is \<open>output_end - output\<close>.\<close>

function SQZ_decompress :: "u8 list \<Rightarrow> nat \<Rightarrow> u8 list outcome" where
  "SQZ_decompress [] room = Done []"
| "SQZ_decompress (k # s) room =
     (if sint k < 0
      then (case s of
              [] \<Rightarrow> Fault
            | c # s' \<Rightarrow>
                if room < run_length k then Bugcheck 179
                else on_done ((@) (replicate (run_length k) c))
                       (SQZ_decompress s' (room - run_length k)))
      else if room < unat k then Bugcheck 179
      else if length s < unat k then Fault
      else on_done ((@) (take (unat k) s)) (SQZ_decompress (drop (unat k) s) (room - unat k)))"
  by pat_completeness auto
termination
  by (relation "measure (\<lambda>(s, room). length s)") auto

section \<open>Control strings that describe a record\<close>

fun describes :: "u8 list \<Rightarrow> u8 list \<Rightarrow> bool" where
  "describes [] data \<longleftrightarrow> data = []"
| "describes (k # ks) data \<longleftrightarrow>
     (if sint k < 0
      then run_length k \<le> length data \<and> take (run_length k) data = replicate (run_length k) (hd data)
           \<and> describes ks (drop (run_length k) data)
      else 0 < unat k \<and> unat k \<le> length data \<and> describes ks (drop (unat k) data))"

definition control_cost :: "u8 \<Rightarrow> nat" where
  "control_cost k = (if sint k < 0 then 2 else 1 + unat k)"

definition cost :: "u8 list \<Rightarrow> nat" where
  "cost ks = sum_list (map control_cost ks)"

lemma cost_simps [simp]: "cost [] = 0" "cost (k # ks) = control_cost k + cost ks" "cost (ks @ ls) = cost ks + cost ls"
  by (simp_all add: cost_def)

lemma run_length_pos: "sint k < 0 \<Longrightarrow> 0 < run_length k"
  by (simp add: run_length_def)

lemma unat_int_less:
  "n < unat k \<longleftrightarrow> int n < uint k" "unat k < n \<longleftrightarrow> uint k < int n" for k :: u8
  by (metis of_nat_unat of_nat_less_iff)+

lemma unat_nonneg_lt_128: "0 \<le> sint (k :: u8) \<Longrightarrow> unat k < 128"
proof -
  assume "0 \<le> sint k"
  moreover have "sint k < 128" using sint_lt [of k] by simp
  ultimately have "uint k < 128" by (simp add: uint_sint take_bit_int_eq_self)
  then show ?thesis by (simp only: unat_int_less)
qed

text \<open>Control bytes the code writes.\<close>

lemma sint_literal: "n \<le> 127 \<Longrightarrow> 0 \<le> sint (word_of_nat n :: u8) \<and> unat (word_of_nat n :: u8) = n"
  by (simp add: signed_of_nat unat_of_nat signed_take_bit_int_eq_self take_bit_eq_mod)

lemma sint_schar: "-128 \<le> i \<Longrightarrow> i < 128 \<Longrightarrow> sint (word_of_int i :: u8) = i"
  by (simp add: signed_of_int signed_take_bit_int_eq_self)

lemma sint_run:
  assumes "0 < n" "n \<le> 128"
  shows "sint (word_of_int (- int n) :: u8) = - int n \<and> run_length (word_of_int (- int n)) = n"
proof -
  have "sint (word_of_int (- int n) :: u8) = - int n" using assms by (intro sint_schar) auto
  then show ?thesis unfolding run_length_def by (simp only: minus_minus nat_int)
qed

lemma describes_append:
  "describes ks d1 \<Longrightarrow> describes ls d2 \<Longrightarrow> describes (ks @ ls) (d1 @ d2)"
  by (induction ks d1 rule: describes.induct) (auto simp: hd_append split: if_splits)

text \<open>What the pieces of \<open>SQZ_length\<close> append to the control string.\<close>

definition control_of :: "u8 list list \<times> u8 list \<Rightarrow> u8 list" where
  "control_of dcc = concat (dcc_chain dcc)"

lemma control_of_put [simp]: "control_of (put_control dcc k) = control_of dcc @ [k]"
  by (cases dcc) (simp add: put_control_def control_of_def dcc_chain_def)

lemma put_literals_spec:
  "\<exists>ks. control_of (snd (put_literals n acc)) = control_of (snd acc) @ ks \<and>
     fst (put_literals n acc) = fst acc + cost ks \<and> cost ks = n + (n + 126) div 127 \<and>
     (\<forall>data. length data = n \<longrightarrow> describes ks data)"
proof (induction n acc rule: put_literals.induct)
  case (1 len dcc)
  show ?case by (rule exI [of _ "[]"]) simp
next
  case (2 n len dcc)
  define m where "m = min (Suc n) 127"
  obtain ks where ks: "control_of (snd (put_literals (Suc n - m) (len + 1 + m, put_control dcc (word_of_nat m))))
      = control_of (put_control dcc (word_of_nat m)) @ ks"
    "fst (put_literals (Suc n - m) (len + 1 + m, put_control dcc (word_of_nat m))) = len + 1 + m + cost ks"
    "cost ks = (Suc n - m) + (Suc n - m + 126) div 127" "\<forall>data. length data = Suc n - m \<longrightarrow> describes ks data"
    using 2 [OF m_def] by auto
  have m: "m \<le> 127" "m \<le> Suc n" "0 < m" by (auto simp: m_def)
  note k = sint_literal [OF m(1)]
  have "1 + m + ((Suc n - m) + (Suc n - m + 126) div 127) = Suc n + (Suc n + 126) div 127"
  proof (cases "Suc n \<le> 127")
    case False
    then have "Suc n + 126 = (Suc n - m + 126) + 127" "m = 127" by (auto simp: m_def)
    then show ?thesis using False by (simp only: div_add_self2)
  qed (auto simp: m_def)
  moreover have "put_literals (Suc n) (len, dcc) =
      put_literals (Suc n - m) (len + 1 + m, put_control dcc (word_of_nat m))"
    by (simp only: put_literals.simps Let_def m_def)
  ultimately show ?case
    using ks k m by (intro exI [of _ "word_of_nat m # ks"])
      (auto simp: control_cost_def simp del: put_literals.simps)
qed

lemma equal_run_spec:
  "n = equal_run m c s \<Longrightarrow> n \<le> m \<and> n \<le> length s \<and> take n s = replicate n c"
  by (induction m c s arbitrary: n rule: equal_run.induct) (auto split: if_splits)

lemma literal_run_triple:
  "literal_run s < length s \<Longrightarrow> 3 \<le> length (drop (literal_run s) s) \<and>
   (\<exists>c u. drop (literal_run s) s = c # c # c # u)"
  by (induction s rule: literal_run.induct) auto

lemma literal_run_equal:
  assumes "3 \<le> length (drop (literal_run s) s)"
  shows "3 \<le> equal_run (min 128 (length (drop (literal_run s) s))) (hd (drop (literal_run s) s))
    (drop (literal_run s) s)"
proof -
  have "literal_run s < length s" using assms by simp
  then obtain c u where "drop (literal_run s) s = c # c # c # u"
    using literal_run_triple [of s] by blast
  moreover have "min 128 (length (c # c # c # u)) = Suc (Suc (Suc (min 125 (length u))))" by simp
  ultimately show ?thesis by (simp del: length_Cons)
qed

lemma overhead_split:
  "3 \<le> r \<Longrightarrow> n + (n + 126) div 127 + 2 + (l + (l + 126) div 127) \<le>
     (n + r + l) + (n + r + l + 126) div 127" for n r l :: nat
proof -
  assume r: "3 \<le> r"
  have "(n + 126) div 127 + (l + 126) div 127 \<le> ((n + 126) + (l + 126)) div 127"
    by (subst div_add1_eq) (rule le_add1)
  also have "(n + 126) + (l + 126) = (n + l + 125) + 127" by simp
  also have "((n + l + 125) + 127) div 127 \<le> (n + l + 126) div 127 + 1"
    by (simp only: div_add_self2)
  finally have "(n + 126) div 127 + (l + 126) div 127 \<le> (n + l + 126) div 127 + 1" .
  also have "(n + l + 126) div 127 \<le> (n + r + l + 126) div 127" by (rule div_le_mono) simp
  finally show ?thesis using r by linarith
qed

declare length_loop.simps [simp del]

lemma length_loop_spec:
  "\<exists>ks. control_of (snd (length_loop data acc)) = control_of (snd acc) @ ks \<and>
     fst (length_loop data acc) = fst acc + cost ks \<and> describes ks data \<and>
     cost ks \<le> length data + (length data + 126) div 127"
proof (induction data acc rule: length_loop.induct)
  case (1 data acc)
  show ?case
  proof (cases "data = []")
    case True
    then show ?thesis by (intro exI [of _ "[]"]) (simp add: length_loop.simps)
  next
    case False
    define count where "count = literal_run data"
    define acc1 where "acc1 = put_literals count acc"
    define rest where "rest = drop count data"
    define m where "m = min 128 (length rest)"
    define n where "n = equal_run m (hd rest) rest"
    note defs = count_def acc1_def rest_def m_def
    have cl: "count \<le> length data" by (simp add: count_def literal_run_le)
    obtain ks where ks: "control_of (snd acc1) = control_of (snd acc) @ ks" "fst acc1 = fst acc + cost ks"
      "cost ks = count + (count + 126) div 127" "describes ks (take count data)"
      using put_literals_spec [of count acc] cl by (auto simp: acc1_def)
    show ?thesis
    proof (cases "3 \<le> m")
      case True
      then have n: "3 \<le> n" using literal_run_equal [of data] by (simp add: n_def m_def rest_def count_def)
      have e: "n \<le> m" "n \<le> length rest" "take n rest = replicate n (hd rest)"
        using equal_run_spec [OF n_def] by auto
      let ?k = "word_of_int (- int n) :: u8"
      have k: "sint ?k = - int n" "run_length ?k = n" using sint_run [of n] n e(1) by (auto simp: m_def)
      have step: "length_loop data acc =
          length_loop (drop n rest) (fst acc1 + 2, put_control (snd acc1) ?k)"
        using False True by (subst length_loop.simps) (simp only: Let_def defs n_def if_False if_True)
      obtain ls where ls: "control_of (snd (length_loop data acc)) = control_of (put_control (snd acc1) ?k) @ ls"
        "fst (length_loop data acc) = fst acc1 + 2 + cost ls" "describes ls (drop n rest)"
        "cost ls \<le> length (drop n rest) + (length (drop n rest) + 126) div 127"
        using 1(1) [OF False count_def acc1_def rest_def m_def True n_def] unfolding step by auto
      have kc: "control_cost ?k = 2" using k(1) n by (simp add: control_cost_def)
      have d: "describes (?k # ls) rest" using k e n ls(3) by simp
      have "describes (ks @ ?k # ls) (take count data @ rest)" by (rule describes_append [OF ks(4) d])
      moreover have "take count data @ rest = data" by (simp add: rest_def)
      moreover have "length data = count + n + length (drop n rest)"
        using e(2) cl by (simp add: rest_def)
      ultimately show ?thesis
        using ks ls kc overhead_split [OF n, of count "length (drop n rest)"]
        by (intro exI [of _ "ks @ ?k # ls"]) (simp del: length_drop)
    next
      case m: False
      then have "rest = []"
        using literal_run_triple [of data] cl by (cases "count < length data") (auto simp: defs)
      moreover from this have "length_loop rest acc1 = acc1" by (simp add: length_loop.simps)
      moreover have "length_loop data acc = length_loop rest acc1"
        using False m by (subst length_loop.simps) (simp only: Let_def defs if_False)
      moreover have "count = length data" using \<open>rest = []\<close> cl by (simp add: rest_def)
      ultimately show ?thesis using ks by auto
    qed
  qed
qed

text \<open>What \<open>SQZ_length\<close> promises: control strings that describe the record, and their cost.\<close>

lemma SQZ_length_spec:
  "\<exists>n dcc. SQZ_length data = (ushort n, dcc) \<and> describes (concat dcc) data \<and> n = cost (concat dcc) \<and>
     n \<le> length data + (length data + 126) div 127"
  using length_loop_spec [of data "(0, [], [])"]
  by (auto simp: SQZ_length_def control_of_def dcc_chain_def split: prod.splits)

section \<open>Compressed records\<close>

lemma fast_control_append:
  "fast_control (ks @ ls) input =
     do { (out, rest) \<leftarrow> fast_control ks input;
          (out', rest') \<leftarrow> fast_control ls rest;
          Some (out @ out', rest') }"
  by (induction ks arbitrary: input) (auto split: list.splits bind_splits)

lemma SQZ_fast_concat: "SQZ_fast dcc input = fast_control (concat dcc) input"
  by (induction dcc arbitrary: input) (auto simp: fast_control_append split: bind_splits)

lemma fast_decompress:
  "describes ks data \<Longrightarrow> length data \<le> room \<Longrightarrow>
   \<exists>out. fast_control ks data = Some (out, []) \<and> length out = cost ks \<and>
     SQZ_decompress out room = Done data"
proof (induction ks data arbitrary: room rule: describes.induct)
  case (2 k ks data)
  show ?case
  proof (cases "sint k < 0")
    case True
    then have r: "run_length k \<le> length data" "take (run_length k) data = replicate (run_length k) (hd data)"
      "describes ks (drop (run_length k) data)" using 2(3) by auto
    obtain out where out: "fast_control ks (drop (run_length k) data) = Some (out, [])"
      "length out = cost ks" "SQZ_decompress out (room - run_length k) = Done (drop (run_length k) data)"
      using 2(1) [OF True r(3), of "room - run_length k"] diff_le_mono [OF 2(4), of "run_length k"]
      by auto
    obtain c s where "data = c # s" using r(1) run_length_pos [OF True] by (cases data) auto
    moreover have "replicate (run_length k) (hd data) @ drop (run_length k) data = data"
      by (simp flip: r(2))
    ultimately show ?thesis
      using True out 2(4) r(1) by (auto simp: control_cost_def)
  next
    case False
    then show ?thesis
      using 2(2) [OF False, of "room - unat k"] 2(3) 2(4) diff_le_mono [OF 2(4), of "unat k"]
      by (auto simp: control_cost_def min_def)
  qed
qed simp

lemma compress_control_append:
  "compress_control (ks @ ls) used input space =
     do { (out, r) \<leftarrow> compress_control ks used input space;
          case r of
            Inl n \<Rightarrow> Some (out, Inl n)
          | Inr (used', input', space') \<Rightarrow>
              do { (out', r') \<leftarrow> compress_control ls used' input' space'; Some (out @ out', r') } }"
  by (induction ks used input space rule: compress_control.induct)
    (auto simp: Let_def split: list.splits bind_splits sum.splits)

lemma compress_chain_concat:
  "dcc \<noteq> [] \<Longrightarrow> compress_chain dcc used input space = compress_chain [concat dcc] used input space"
proof (induction dcc arbitrary: used input space)
  case (Cons d dcc)
  show ?case
  proof (cases "dcc = []")
    case False
    show ?thesis
      by (simp add: Cons.IH [OF False] compress_control_append split: option.splits sum.splits prod.splits)
  qed simp
qed simp

lemma compress_length_append:
  "compress_length_control (ks @ ls) used space =
     (case compress_length_control ks used space of
        Inl n \<Rightarrow> Inl n
      | Inr (used', space') \<Rightarrow> compress_length_control ls used' space')"
  by (induction ks used space rule: compress_length_control.induct) (auto simp: Let_def)

lemma compress_length_concat:
  "dcc \<noteq> [] \<Longrightarrow> compress_length_chain dcc used space = compress_length_chain [concat dcc] used space"
proof (induction dcc arbitrary: used space)
  case (Cons d dcc)
  show ?case
  proof (cases "dcc = []")
    case False
    show ?thesis
      by (simp add: Cons.IH [OF False] compress_length_append split: sum.splits prod.splits)
  qed simp
qed simp

text \<open>Less space than the compressed record needs: the routine fills it and stops.\<close>

lemma compress_control_stops:
  "describes ks data \<Longrightarrow> 0 \<le> space \<Longrightarrow> space < int (cost ks) \<Longrightarrow>
   \<exists>n out. compress_control ks used data space = Some (out, Inl (used + n)) \<and>
     compress_length_control ks used space = Inl (used + n) \<and>
     n \<le> length data \<and> int (length out) = space \<and>
     (\<forall>room. n \<le> room \<longrightarrow> SQZ_decompress out room = Done (take n data))"
proof (induction ks data arbitrary: used space rule: describes.induct)
  case (2 k ks data)
  show ?case
  proof (cases "space \<le> 1")
    case True
    then show ?thesis using 2(4) by (auto intro!: exI [of _ "0::nat"])
  next
    case big: False
    show ?thesis
    proof (cases "sint k < 0")
      case True
      then have r: "run_length k \<le> length data" "take (run_length k) data = replicate (run_length k) (hd data)"
        "describes ks (drop (run_length k) data)" using 2(3) by auto
      obtain n out where IH: "compress_control ks (used + run_length k) (drop (run_length k) data) (space - 2) =
          Some (out, Inl (used + run_length k + n))"
        "compress_length_control ks (used + run_length k) (space - 2) = Inl (used + run_length k + n)"
        "n \<le> length (drop (run_length k) data)" "int (length out) = space - 2"
        "\<forall>room. n \<le> room \<longrightarrow> SQZ_decompress out room = Done (take n (drop (run_length k) data))"
        using 2(1) [OF True r(3), of "space - 2" "used + run_length k"] True big 2(5)
        by (auto simp: control_cost_def)
      obtain c s where data: "data = c # s" using r(1) run_length_pos [OF True] by (cases data) auto
      have "take (run_length k + n) data = replicate (run_length k) c @ take n (drop (run_length k) data)"
        using r(2) by (simp add: take_add data)
      then show ?thesis
        using True big IH data r(1)
        by (intro exI [of _ "run_length k + n"] exI [of _ "k # c # out"]) (auto simp: add.assoc)
    next
      case False
      then have r: "0 < unat k" "unat k \<le> length data" "describes ks (drop (unat k) data)"
        using 2(3) by auto
      have k: "unat k < 128" using False unat_nonneg_lt_128 by simp
      show ?thesis
      proof (cases "space - 1 - int (unat k) < 0")
        case short: True
        define n where "n = nat (int (unat k) + (space - 1 - int (unat k)))"
        have n: "int n = space - 1" "n \<le> 127" "n < unat k" using big short k
          by (simp_all only: unat_int_less n_def) auto
        have "nat (space - 1) = n" "n \<le> length data" using n r(2) by simp_all
        moreover have "nat (int (unat k) + (space - 1 - int (unat k))) = n" by (simp only: n_def)
        ultimately show ?thesis
          using False big short n(1) sint_literal [OF n(2)]
          by (intro exI [of _ n] exI [of _ "word_of_nat n # take n data"]) (auto simp: Let_def min_def)
      next
        case long: False
        obtain n out where IH: "compress_control ks (used + unat k) (drop (unat k) data) (space - 1 - int (unat k)) =
            Some (out, Inl (used + unat k + n))"
          "compress_length_control ks (used + unat k) (space - 1 - int (unat k)) = Inl (used + unat k + n)"
          "n \<le> length (drop (unat k) data)" "int (length out) = space - 1 - int (unat k)"
          "\<forall>room. n \<le> room \<longrightarrow> SQZ_decompress out room = Done (take n (drop (unat k) data))"
          using 2(2) [OF False r(3), of "space - 1 - int (unat k)" "used + unat k"] False long 2(5)
          by (auto simp: control_cost_def)
        then show ?thesis
          using False big long r(2)
          by (intro exI [of _ "unat k + n"] exI [of _ "k # take (unat k) data @ out"])
            (auto simp: Let_def add.assoc min_def take_add)
      qed
    qed
  qed
qed simp

lemma compress_control_ends:
  "describes ks data \<Longrightarrow> int (cost ks) \<le> space \<Longrightarrow>
   (\<exists>r x. compress_control ks used data space = Some (r, Inr x)) \<and>
   (\<exists>x. compress_length_control ks used space = Inr x)"
proof (induction ks data arbitrary: used space rule: describes.induct)
  case (2 k ks data)
  show ?case
  proof (cases "sint k < 0")
    case True
    then have "describes ks (drop (run_length k) data)" "data \<noteq> []" 
      using 2(3) run_length_pos [OF True] by auto
    then show ?thesis
      using True 2(1) [OF True, of "space - 2" "used + run_length k"] 2(4)
      by (auto simp: control_cost_def neq_Nil_conv split: list.splits)
  next
    case False
    then have "0 < uint k" using 2(3) unat_int_less(1) [of 0 k] by simp
    then show ?thesis
      using False 2(2) [OF False, of "space - 1 - int (unat k)" "used + unat k"] 2(3,4)
      by (auto simp: control_cost_def Let_def)
  qed
qed simp

section \<open>Properties of compression\<close>

text \<open>C24. A record whose compressed length fits in a \<open>USHORT\<close>, so every one of at most 65023 bytes, compressed with the
  control strings \<open>SQZ_length\<close> makes takes exactly the length
  \<open>SQZ_length\<close> returns, which exceeds the record's by at most one byte in 127, and decompresses to
  the record, in any buffer that can hold it.\<close>

theorem sqz_roundtrip:
  assumes "length data + (length data + 126) div 127 < 65536" and "length data \<le> room"
  shows "\<exists>n dcc out. SQZ_length data = (n, dcc) \<and> SQZ_fast dcc data = Some (out, []) \<and>
    length out = n \<and> n \<le> length data + (length data + 126) div 127 \<and>
    SQZ_decompress out room = Done data"
  using SQZ_length_spec [of data] fast_decompress [OF _ assms(2)] assms(1)
  by (fastforce simp: SQZ_fast_concat)

theorem sqz_roundtrip_witness:
  "let data = [7, 7, 7, 7, 1] in
   \<exists>n dcc out. SQZ_length data = (n, dcc) \<and> SQZ_fast dcc data = Some (out, []) \<and>
     SQZ_decompress out 5 = Done data"
  unfolding Let_def using sqz_roundtrip [of "[7, 7, 7, 7, 1]" 5] by auto

text \<open>C26. Compression into too little space, of a record of at most 65023 bytes: \<open>SQZ_compress\<close> fills the space exactly and returns how
  many bytes of the record it has covered, \<open>SQZ_compress_length\<close> returns the same number, and what
  was written decompresses to that part of the record. With space for all of the compressed
  record both stop with \<open>BUGCHECK\<close> 178.\<close>

theorem sqz_compress_split:
  assumes "length data + (length data + 126) div 127 < 65536" and "SQZ_length data = (n, dcc)"
  shows "if n \<le> space
    then SQZ_compress dcc data (int space) = Bugcheck 178 \<and>
      SQZ_compress_length dcc (int space) = Bugcheck 178
    else \<exists>k out. SQZ_compress dcc data (int space) = Done (k, out) \<and>
      SQZ_compress_length dcc (int space) = Done k \<and> length out = space \<and> k \<le> length data \<and>
      SQZ_decompress out k = Done (take k data)"
proof -
  have d: "describes (concat dcc) data" "n = cost (concat dcc)" "dcc \<noteq> []"
    using SQZ_length_spec [of data] assms by (auto simp: SQZ_length_def dcc_chain_def split: prod.splits)
  note chain = compress_chain_concat [OF d(3)] compress_length_concat [OF d(3)]
  show ?thesis
  proof (cases "n \<le> space")
    case True
    then show ?thesis
      using compress_control_ends [OF d(1), of "int space" 0] d(2)
      by (auto simp: SQZ_compress_def SQZ_compress_length_def chain)
  next
    case False
    then obtain k out where "compress_control (concat dcc) 0 data (int space) = Some (out, Inl k)"
      "compress_length_control (concat dcc) 0 (int space) = Inl k" "k \<le> length data"
      "length out = space" "SQZ_decompress out k = Done (take k data)"
      using compress_control_stops [OF d(1), of "int space" 0] d(2) by auto
    then show ?thesis
      using False assms(1) by (simp add: SQZ_compress_def SQZ_compress_length_def chain)
  qed
qed

lemma five_loop: "length_loop [7, 7, 7, 7, 1] (0, [], []) = (4, [], [0xFC, 1])"
  by code_simp

lemma sqz_five: "SQZ_length [7, 7, 7, 7, 1] = (4, [[0xFC, 1]])"
  by (simp add: SQZ_length_def five_loop dcc_chain_def)

theorem sqz_compress_split_witness:
  "\<exists>k out. SQZ_compress [[0xFC, 1]] [7, 7, 7, 7, 1] (int 3) = Done (k, out) \<and> length out = 3"
  using sqz_compress_split [OF _ sqz_five, of 3] by auto

text \<open>The length is returned as a \<open>USHORT\<close>: for a record of 65535 bytes without runs it wraps.\<close>

lemma sqz_length_wraps:
  assumes "literal_run data = length data" and "length data = 65535"
  shows "fst (SQZ_length data) = 516"
proof -
  have "data \<noteq> []" using assms(2) by auto
  then have "length_loop data (0, [], []) = put_literals 65535 (0, [], [])"
    using assms by (subst length_loop.simps) (simp add: Let_def length_loop.simps)
  then show ?thesis
    using put_literals_spec [of 65535 "(0, [], [])"] by (auto simp: SQZ_length_def ushort_def split: prod.splits)
qed

end
