(* ===== verification/Sqz_Diff.thy ===== *)
theory Sqz_Diff
  imports Sqz
begin

text \<open>
  The difference records of \<open>jrd/sqz.cpp\<close>: \<open>SQZ_differences\<close> computes what turns one record into
  another, \<open>SQZ_apply_differences\<close> applies it. A record argument is the readable memory from its
  first byte on, with its length.
\<close>

section \<open>Applying differences\<close>

definition MAX_DIFFERENCES :: nat where "MAX_DIFFERENCES = 1024"

text \<open>
  The loop; \<open>p\<close> is the offset into the record, the lists are the differences not yet read and the
  record. The result is where the loop stopped.
\<close>

function apply_loop :: "u8 list \<Rightarrow> nat \<Rightarrow> u8 list \<Rightarrow> (nat \<times> u8 list \<times> u8 list) outcome" where
  "apply_loop [] p data = Done (p, data, [])"
| "apply_loop (k # s) p data =
     (if p < length data
      then (if 0 < sint k
            then (if length data < p + unat k then Bugcheck 177
                  else if length s < unat k then Fault
                  else apply_loop (drop (unat k) s) (p + unat k)
                         (take p data @ take (unat k) s @ drop (p + unat k) data))
            else apply_loop s (p + run_length k) data)
      else Done (p, data, k # s))"
  by pat_completeness auto
termination
  by (relation "measure (\<lambda>(s, p, data). length s)") auto

definition SQZ_apply_differences :: "u8 list \<Rightarrow> u8 list \<Rightarrow> (nat \<times> u8 list) outcome" where
  "SQZ_apply_differences data differences =
     (if MAX_DIFFERENCES < length differences then Bugcheck 176
      else
        case apply_loop differences 0 data of
          Done (p, data', rest) \<Rightarrow>
            (if length data < ushort p \<or> rest \<noteq> [] then Bugcheck 177 else Done (ushort p, data'))
        | Bugcheck n \<Rightarrow> Bugcheck n
        | Fault \<Rightarrow> Fault)"

section \<open>Computing differences\<close>

text \<open>\<open>while (length > 127) { *temp++ = -127; length -= 127; } if (length) *temp++ = -length;\<close>\<close>

fun skips :: "nat \<Rightarrow> u8 list" where
  "skips l =
     (if 127 < l then word_of_int (-127) # skips (l - 127)
      else if l = 0 then [] else [word_of_int (- int l)])"

declare skips.simps [simp del]

definition SQZ_no_differences :: "nat \<Rightarrow> u8 list" where
  "SQZ_no_differences n = skips n"

text \<open>
  The macro \<open>STUFF\<close> returns 32000 from the routine when the output buffer is full; the result
  \<open>Done None\<close> stands for that. \<open>diff_run\<close> is the inner loop that copies bytes of the second record
  until two in a row are equal; \<open>y\<close> is \<open>yellow - rec1 + 1\<close>, \<open>room\<close> is \<open>end - out\<close>.
\<close>

fun diff_run :: "nat \<Rightarrow> u8 list \<Rightarrow> u8 list \<Rightarrow> nat \<Rightarrow> u8 list option outcome" where
  "diff_run 0 m1 m2 room = Done (Some [])"
| "diff_run (Suc y) (a # m1) (b # m2) room =
     (if a \<noteq> b
      then (if room = 0 then Done None
            else on_done (map_option ((#) b)) (diff_run y m1 m2 (room - 1)))
      else
        case (m1, m2) of
          (a' # _, b' # _) \<Rightarrow>
            (if a' \<noteq> b' \<and> 0 < y
             then (if room = 0 then Done None
                   else on_done (map_option ((#) b)) (diff_run y m1 m2 (room - 1)))
             else Done (Some []))
        | _ \<Rightarrow> Fault)"
| "diff_run (Suc y) _ _ room = Fault"

text \<open>\<open>for (p = rec2; rec1 < end1 && *rec1 == *rec2; rec1++, rec2++);\<close>\<close>

fun same_run :: "nat \<Rightarrow> u8 list \<Rightarrow> u8 list \<Rightarrow> nat" where
  "same_run (Suc e) (a # m1) (b # m2) = (if a = b then Suc (same_run e m1 m2) else 0)"
| "same_run _ _ _ = 0"

text \<open>The last loop: the rest of the second record as literal bytes; \<open>r\<close> is \<open>end2 - rec2\<close>.\<close>

function diff_tail :: "nat \<Rightarrow> u8 list \<Rightarrow> nat \<Rightarrow> u8 list option" where
  "diff_tail r m2 room =
     (if r = 0 then Some []
      else
        let n = min r 127 in
        if room < 1 + n then None
        else map_option (\<lambda>out. word_of_nat n # take n m2 @ out)
               (diff_tail (r - n) (drop n m2) (room - 1 - n)))"
  by auto
termination
  by (relation "measure (\<lambda>(r, m2, room). r)") (auto simp: min_def)

declare diff_tail.simps [simp del]

lemma same_run_le: "same_run e m1 m2 \<le> e"
  by (induction e m1 m2 rule: same_run.induct) auto

lemma diff_run_le: "diff_run y m1 m2 room = Done (Some bs) \<Longrightarrow> length bs \<le> y"
proof (induction y m1 m2 room arbitrary: bs rule: diff_run.induct)
  case (2 y a m1 b m2 room)
  then show ?case
    by (fastforce simp: on_done_eq_Done map_option_case split: if_splits list.splits option.splits)
qed auto

lemma diff_run_pos:
  assumes "a \<noteq> b \<or> a' \<noteq> b'" "2 \<le> y" "diff_run y (a # a' # m1) (b # b' # m2) room = Done (Some bs)"
  shows "bs \<noteq> []"
proof -
  obtain y' where "y = Suc (Suc y')" using assms(2) by (metis add_2_eq_Suc le_Suc_ex)
  then show ?thesis
    using assms by (auto simp: on_done_eq_Done map_option_case split: if_splits option.splits)
qed

lemma diff_run_drop:
  assumes "\<not> e \<le> 2" "a # a' # t = m1" "b # b' # t' = m2" "a = b \<longrightarrow> a' \<noteq> b'"
    and "diff_run (min e 127) m1 m2 room = Done (Some bs)"
  shows "e - length bs < e"
proof -
  have "bs \<noteq> []"
    using assms by (intro diff_run_pos [of a b a' b' "min e 127" t t' room]) auto
  with assms(1) show ?thesis by simp
qed

lemma same_run_drop:
  assumes "\<not> e \<le> 2" "a # t = m1" "a # t' = m2"
  shows "e - same_run e m1 m2 < e"
  using assms by (cases e) auto

text \<open>
  The outer loop. \<open>e\<close> is \<open>end1 - rec1\<close>; \<open>p = out++\<close> takes a byte for the length before the literal
  bytes are stuffed.
\<close>

function diff_loop :: "nat \<Rightarrow> nat \<Rightarrow> u8 list \<Rightarrow> u8 list \<Rightarrow> nat \<Rightarrow> u8 list option outcome" where
  "diff_loop e r m1 m2 room =
     (if e \<le> 2 then Done (diff_tail r m2 room)
      else
        case (m1, m2) of
          (a # a' # _, b # b' # _) \<Rightarrow>
            (if a \<noteq> b \<or> a' \<noteq> b'
             then (case diff_run (min e 127) m1 m2 (room - 1) of
                     Done (Some bs) \<Rightarrow>
                       on_done (map_option (\<lambda>out. word_of_nat (length bs) # bs @ out))
                         (diff_loop (e - length bs) (r - length bs) (drop (length bs) m1)
                            (drop (length bs) m2) (room - 1 - length bs))
                   | Done None \<Rightarrow> Done None
                   | Bugcheck n \<Rightarrow> Bugcheck n
                   | Fault \<Rightarrow> Fault)
             else
               let l = same_run e m1 m2 in
               if room < length (skips l) then Done None
               else on_done (map_option ((@) (skips l)))
                      (diff_loop (e - l) (r - l) (drop l m1) (drop l m2) (room - length (skips l))))
        | _ \<Rightarrow> Fault)"
  by pat_completeness auto
termination
proof (relation "measure (\<lambda>(e, r, m1, m2, room). e)", goal_cases)
  case 1
  then show ?case by simp
next
  case 2
  then show ?case
    by (simp, elim conjE) (rule diff_run_drop, assumption+)
next
  case 3
  then show ?case
    by (simp, elim conjE) (rule same_run_drop, assumption+)
qed

declare diff_loop.simps [simp del]

definition SQZ_differences ::
  "u8 list \<Rightarrow> nat \<Rightarrow> u8 list \<Rightarrow> nat \<Rightarrow> nat \<Rightarrow> (nat \<times> u8 list option) outcome" where
  "SQZ_differences rec1 length1 rec2 length2 len =
     (if length rec1 < length1 \<or> length rec2 < length2 then Fault
      else on_done (\<lambda>r. case r of None \<Rightarrow> (32000, None) | Some out \<Rightarrow> (ushort (length out), Some out))
             (diff_loop (min length1 length2) length2 rec1 rec2 len))"

section \<open>The round trip\<close>

lemma on_done_some:
  "on_done (map_option f) r = Done (Some y) \<longleftrightarrow> (\<exists>z. r = Done (Some z) \<and> y = f z)"
  by (auto simp: on_done_eq_Done map_option_case split: option.splits)

lemma on_done_Done: "\<exists>z. r = Done z \<Longrightarrow> \<exists>z. on_done f r = Done z"
  by (auto simp: on_done_eq_Done)

lemma diff_run_spec:
  "diff_run y m1 m2 room = Done (Some bs) \<Longrightarrow>
    bs = take (length bs) m2 \<and> length bs \<le> y \<and> length bs \<le> room \<and> length bs \<le> length m2"
proof (induction y m1 m2 room arbitrary: bs rule: diff_run.induct)
  case (2 y a m1 b m2 room)
  then show ?case
    by (fastforce simp: on_done_eq_Done map_option_case split: if_splits list.splits option.splits)
qed auto

lemma diff_run_Done:
  "y < length m1 \<Longrightarrow> y < length m2 \<Longrightarrow> \<exists>r. diff_run y m1 m2 room = Done r"
proof (induction y arbitrary: m1 m2 room)
  case (Suc y)
  then obtain a c t b d u where m: "m1 = a # c # t" "m2 = b # d # u"
    by (cases m1; cases "tl m1"; cases m2; cases "tl m2") auto
  have "\<exists>r. diff_run y (c # t) (d # u) (room - 1) = Done r"
    using Suc.prems m by (intro Suc.IH) auto
  then show ?case unfolding m by (auto intro: on_done_Done)
qed simp

lemma same_run_take: "take (same_run e m1 m2) m1 = take (same_run e m1 m2) m2"
  by (induction e m1 m2 rule: same_run.induct) auto

lemma apply_skips:
  "p + l \<le> length data \<Longrightarrow> apply_loop (skips l @ out) p data = apply_loop out (p + l) data"
proof (induction l arbitrary: p rule: skips.induct)
  case (1 l)
  have k: "sint (word_of_int (-127) :: u8) = -127 \<and> run_length (word_of_int (-127)) = 127"
    using sint_run [of 127] by simp
  consider (long) "127 < l" | (zero) "l = 0" | (short) "0 < l" "l \<le> 127" by linarith
  then show ?case
  proof cases
    case long
    then show ?thesis using 1 k by (subst skips.simps) (auto simp: add.assoc)
  next
    case zero
    then show ?thesis by (subst skips.simps) simp
  next
    case short
    then show ?thesis using 1(2) sint_run [of l] by (subst skips.simps) auto
  qed
qed

lemma apply_literal:
  assumes "0 < length bs" "length bs \<le> 127" "p + length bs \<le> length data"
  shows "apply_loop (word_of_nat (length bs) # bs @ out) p data =
    apply_loop out (p + length bs) (take p data @ bs @ drop (p + length bs) data)"
proof -
  have k: "unat (word_of_nat (length bs) :: u8) = length bs" using sint_literal [OF assms(2)] by simp
  have "0 < sint (word_of_nat (length bs) :: u8)"
    using sint_literal [OF assms(2)] assms(1)
    by (metis le_less unat_0 less_numeral_extra(3) signed_eq_0_iff)
  moreover have "p < length data" using assms(1,3) by linarith
  ultimately show ?thesis using assms(3) k by simp
qed

text \<open>The differences \<open>out\<close>, applied at offset \<open>p\<close>, replace \<open>r\<close> bytes of the record by those of \<open>m2\<close>.\<close>

definition replaces :: "u8 list \<Rightarrow> nat \<Rightarrow> u8 list \<Rightarrow> u8 list \<Rightarrow> nat \<Rightarrow> bool" where
  "replaces out p data m2 r \<longleftrightarrow>
     apply_loop out p data = Done (p + r, take p data @ take r m2 @ drop (p + r) data, [])"

lemma replaces_literal:
  assumes "replaces out (p + n) (take p data @ bs @ drop (p + n) data) (drop n m2) (r - n)"
    and "bs = take n m2" "0 < n" "n \<le> 127" "n \<le> r" "r \<le> length m2" "p + r \<le> length data"
  shows "replaces (word_of_nat n # bs @ out) p data m2 r"
proof -
  have l: "length bs = n" using assms by simp
  have "bs @ take (r - n) (drop n m2) @ x = take r m2 @ x" for x
    using assms(2,5) by (metis append.assoc le_add_diff_inverse take_add)
  then show ?thesis
    using assms(1) apply_literal [of bs p data out] assms(3-7) l
    by (simp add: replaces_def add.commute del: apply_loop.simps)
qed

lemma replaces_skips:
  assumes "replaces out (p + l) data (drop l m2) (r - l)"
    and "take l (drop p data) = take l m2" "l \<le> r" "p + r \<le> length data"
  shows "replaces (skips l @ out) p data m2 r"
proof -
  have "take (p + l) data @ take (r - l) (drop l m2) = take p data @ take r m2"
    using assms(2,3) by (metis append.assoc le_add_diff_inverse take_add)
  then show ?thesis
    using assms(1) apply_skips [of p l data out] assms(3,4) by (simp add: replaces_def flip: append_assoc)
qed

lemma diff_tail_spec:
  assumes "diff_tail r m2 room = Some out" "r \<le> length m2" "p + r \<le> length data"
  shows "replaces out p data m2 r \<and> length out \<le> room"
  using assms
proof (induction r m2 room arbitrary: out p data rule: diff_tail.induct)
  case (1 r m2 room)
  show ?case
  proof (cases "r = 0")
    case True
    then show ?thesis using 1(2) by (auto simp: diff_tail.simps replaces_def)
  next
    case False
    define n where "n = min r 127"
    have n: "0 < n" "n \<le> 127" "n \<le> r" using False by (auto simp: n_def)
    from 1(2) False obtain out' where out: "\<not> room < 1 + n"
      "diff_tail (r - n) (drop n m2) (room - 1 - n) = Some out'" "out = word_of_nat n # take n m2 @ out'"
      by (subst (asm) diff_tail.simps) (auto simp: Let_def n_def split: if_splits)
    let ?data = "take p data @ take n m2 @ drop (p + n) data"
    have "replaces out' (p + n) ?data (drop n m2) (r - n) \<and> length out' \<le> room - 1 - n"
      using 1(1) [OF False n_def out(1,2), of "p + n" ?data] 1(3,4) n by simp
    then show ?thesis
      using replaces_literal [of out' p n data "take n m2" m2 r] n 1(3,4) out(1,3) by auto
  qed
qed

lemma diff_loop_differ:
  assumes "diff_loop e r (a # a' # t) (b # b' # u) room = Done (Some out)" "\<not> e \<le> 2"
    and "a \<noteq> b \<or> a' \<noteq> b'"
  shows "\<exists>bs out'. diff_run (min e 127) (a # a' # t) (b # b' # u) (room - 1) = Done (Some bs) \<and>
    diff_loop (e - length bs) (r - length bs) (drop (length bs) (a # a' # t))
      (drop (length bs) (b # b' # u)) (room - 1 - length bs) = Done (Some out') \<and>
    out = word_of_nat (length bs) # bs @ out'"
  using assms by (subst (asm) diff_loop.simps)
    (auto simp add: on_done_some simp del: diff_run.simps split: outcome.splits option.splits)

lemma diff_loop_same:
  fixes a a' t u e
  defines "l \<equiv> same_run e (a # a' # t) (a # a' # u)"
  assumes "diff_loop e r (a # a' # t) (a # a' # u) room = Done (Some out)" "\<not> e \<le> 2"
  shows "length (skips l) \<le> room \<and> (\<exists>out'. diff_loop (e - l) (r - l) (drop l (a # a' # t))
      (drop l (a # a' # u)) (room - length (skips l)) = Done (Some out') \<and> out = skips l @ out')"
  using assms(2,3) by (subst (asm) diff_loop.simps)
    (auto simp add: on_done_some Let_def l_def [symmetric] simp del: same_run.simps split: if_splits)

lemma diff_loop_spec:
  assumes "diff_loop e r m1 m2 room = Done (Some out)" "e \<le> r" "e \<le> length m1" "r \<le> length m2"
    and "p + r \<le> length data" "take e (drop p data) = take e m1"
  shows "replaces out p data m2 r \<and> length out \<le> room"
  using assms
proof (induction e r m1 m2 room arbitrary: out p data rule: diff_loop.induct)
  case (1 e r m1 m2 room)
  show ?case
  proof (cases "e \<le> 2")
    case True
    then have "diff_tail r m2 room = Some out" using 1(3) by (simp add: diff_loop.simps)
    then show ?thesis using 1(6,7) by (rule diff_tail_spec)
  next
    case False
    then obtain a a' t where m1: "m1 = a # a' # t" using 1(5) by (cases m1; cases "tl m1") auto
    from False 1(4,6) obtain b b' u where m2: "m2 = b # b' # u" by (cases m2; cases "tl m2") auto
    show ?thesis
    proof (cases "a \<noteq> b \<or> a' \<noteq> b'")
      case True
      from 1(3) False True obtain bs out' where
        run: "diff_run (min e 127) m1 m2 (room - 1) = Done (Some bs)" and
        rest: "diff_loop (e - length bs) (r - length bs) (drop (length bs) m1) (drop (length bs) m2)
          (room - 1 - length bs) = Done (Some out')" and
        out: "out = word_of_nat (length bs) # bs @ out'"
        unfolding m1 m2 by (blast dest: diff_loop_differ)
      have pos: "0 < length bs" using diff_run_pos [of a b a' b' "min e 127" t u "room - 1" bs] run True False m1 m2 by auto
      have bs: "bs = take (length bs) m2" "length bs \<le> min e 127" "length bs \<le> room - 1"
        using diff_run_spec [OF run] by auto
      have space: "1 + length bs \<le> room" using bs(3) pos by linarith
      let ?n = "length bs" and ?data = "take p data @ bs @ drop (p + length bs) data"
      have "take (e - ?n) (drop (p + ?n) ?data) = take (e - ?n) (drop ?n m1)"
        using 1(8) bs 1(4,7) by (simp add: take_drop) (metis drop_drop add.commute drop_take)
      then have IH: "replaces out' (p + ?n) ?data (drop ?n m2) (r - ?n) \<and> length out' \<le> room - 1 - ?n"
        using 1(1) [OF False refl m1 refl m2 refl True run refl rest, of "p + ?n" ?data] bs 1(4-7) by simp
      then show ?thesis
        using replaces_literal [of out' p ?n data bs m2 r] pos bs(1,2) space 1(4-7) out by auto
    next
      case same: False
      let ?l = "same_run e m1 m2"
      from diff_loop_same [of e r a a' t u room out] 1(3) False same obtain out' where
        room: "length (skips ?l) \<le> room" and
        rest: "diff_loop (e - ?l) (r - ?l) (drop ?l m1) (drop ?l m2) (room - length (skips ?l)) =
          Done (Some out')" and
        out: "out = skips ?l @ out'"
        unfolding m1 m2 by blast
      have l: "?l \<le> e" by (rule same_run_le)
      have "take (e - ?l) (drop (p + ?l) data) = take (e - ?l) (drop ?l m1)"
        using 1(8) l by (metis drop_drop add.commute drop_take)
      then have IH: "replaces out' (p + ?l) data (drop ?l m2) (r - ?l) \<and>
          length out' \<le> room - length (skips ?l)"
        using 1(2) [OF False refl m1 refl m2 refl same refl _ rest, of "p + ?l" data] room l 1(4-7) by simp
      have "take ?l (drop p data) = take ?l m2"
        using 1(8) l same_run_take [of e m1 m2] by (metis min.absorb1 take_take)
      then show ?thesis
        using replaces_skips [of out' p ?l data m2 r] IH l 1(4,7) out room by auto
    qed
  qed
qed

lemma diff_loop_Done:
  assumes "e < length m1" "e < length m2"
  shows "\<exists>res. diff_loop e r m1 m2 room = Done res"
  using assms
proof (induction e r m1 m2 room rule: diff_loop.induct)
  case (1 e r m1 m2 room)
  show ?case
  proof (cases "e \<le> 2")
    case True
    then show ?thesis by (simp add: diff_loop.simps)
  next
    case False
    then obtain a a' t b b' u where m: "m1 = a # a' # t" "m2 = b # b' # u"
      using 1(3,4) by (cases m1; cases "tl m1"; cases m2; cases "tl m2") auto
    show ?thesis
    proof (cases "a \<noteq> b \<or> a' \<noteq> b'")
      case True
      obtain res where run: "diff_run (min e 127) m1 m2 (room - 1) = Done res"
        using diff_run_Done [OF min.strict_coboundedI1 min.strict_coboundedI1] 1(3,4) by blast
      show ?thesis
      proof (cases res)
        case None
        with run True False show ?thesis
          unfolding m by (simp add: diff_loop.simps del: diff_run.simps)
      next
        case (Some bs)
        then have "length bs \<le> e" using diff_run_spec run by fastforce
        then have "\<exists>res. diff_loop (e - length bs) (r - length bs) (drop (length bs) m1)
            (drop (length bs) m2) (room - 1 - length bs) = Done res"
          using 1(1) [OF False refl m(1) refl m(2) refl True run Some] 1(3,4) by simp
        with run True False Some show ?thesis
          unfolding m by (subst diff_loop.simps) (simp add: on_done_Done del: diff_run.simps)
      qed
    next
      case same: False
      let ?l = "same_run e m1 m2"
      have "?l \<le> e" by (rule same_run_le)
      then have "\<not> room < length (skips ?l) \<Longrightarrow> \<exists>res. diff_loop (e - ?l) (r - ?l) (drop ?l m1)
          (drop ?l m2) (room - length (skips ?l)) = Done res"
        using 1(2) [OF False refl m(1) refl m(2) refl same refl] 1(3,4) by simp
      with False same show ?thesis
        unfolding m by (subst diff_loop.simps)
          (simp add: on_done_Done Let_def del: same_run.simps drop.simps)
    qed
  qed
qed

lemma length_skips: "length (skips l) = (l + 126) div 127"
proof (induction l rule: skips.induct)
  case (1 l)
  then show ?case
    by (subst skips.simps) (auto simp: le_div_geq not_less div_eq_dividend_iff intro: div_nat_eqI)
qed

text \<open>C25. The difference record \<open>SQZ_differences\<close> computes into a buffer of \<open>MAX_DIFFERENCES\<close> bytes, where
  it fits, applied by \<open>SQZ_apply_differences\<close> to any record that starts with the compared bytes of the
  first one, turns it into the second record and raises no bugcheck; where it does not fit the result is
  32000. Both records must be followed by one readable byte.\<close>

theorem sqz_differences_roundtrip:
  assumes "length1 < length rec1" "length2 < length rec2" "length1 < 65536" "length2 < 65536"
    and "length2 \<le> length data" "take (min length1 length2) data = take (min length1 length2) rec1"
  shows "\<exists>n out. SQZ_differences rec1 length1 rec2 length2 MAX_DIFFERENCES = Done (n, out) \<and>
    (case out of
       None \<Rightarrow> n = 32000
     | Some out \<Rightarrow> n = length out \<and> n \<le> MAX_DIFFERENCES \<and>
         SQZ_apply_differences data out = Done (length2, take length2 rec2 @ drop length2 data))"
proof -
  let ?e = "min length1 length2"
  obtain res where res: "diff_loop ?e length2 rec1 rec2 MAX_DIFFERENCES = Done res"
    using diff_loop_Done [OF min.strict_coboundedI1 min.strict_coboundedI2] assms(1,2) by blast
  show ?thesis
  proof (cases res)
    case None
    then show ?thesis using res assms by (simp add: SQZ_differences_def)
  next
    case (Some out)
    then have "replaces out 0 data rec2 length2 \<and> length out \<le> MAX_DIFFERENCES"
      using diff_loop_spec [of ?e length2 rec1 rec2 MAX_DIFFERENCES out 0 data] res assms by simp
    then show ?thesis using Some res assms
      by (simp add: SQZ_differences_def SQZ_apply_differences_def replaces_def MAX_DIFFERENCES_def)
  qed
qed

theorem sqz_differences_roundtrip_witness:
  "\<exists>n out. SQZ_differences [1, 2, 3, 4, 0] 4 [1, 9, 3, 4, 5, 0] 5 MAX_DIFFERENCES = Done (n, out) \<and>
    (case out of
       None \<Rightarrow> n = 32000
     | Some out \<Rightarrow> n = length out \<and> n \<le> MAX_DIFFERENCES \<and>
         SQZ_apply_differences [1, 2, 3, 4, 7, 7] out = Done (5, [1, 9, 3, 4, 5, 7]))"
proof -
  have "take 5 [1, 9, 3, 4, 5, 0] @ drop 5 [1, 2, 3, 4, 7, 7] = [1, 9, 3, 4, 5, 7 :: u8]" by simp
  then show ?thesis
    using sqz_differences_roundtrip [of 4 "[1, 2, 3, 4, 0]" 5 "[1, 9, 3, 4, 5, 0]" "[1, 2, 3, 4, 7, 7]"]
    by (simp only: list.size) simp
qed

text \<open>The record \<open>SQZ_no_differences\<close> writes for a length takes one byte for every 127 bytes begun,
  and applying it leaves the record as it was.\<close>

lemma sqz_no_differences:
  assumes "n \<le> length data" "n < 65536"
  shows "length (SQZ_no_differences n) = (n + 126) div 127 \<and>
    SQZ_apply_differences data (SQZ_no_differences n) = Done (n, data)"
proof -
  have "apply_loop (skips n @ []) 0 data = Done (n, data, [])"
    using apply_skips [of 0 n data "[]"] assms by simp
  then show ?thesis
    using assms by (simp add: SQZ_no_differences_def SQZ_apply_differences_def length_skips MAX_DIFFERENCES_def)
qed

lemma sqz_no_differences_example:
  "length (SQZ_no_differences 2) = 1 \<and>
    SQZ_apply_differences [5, 6, 7] (SQZ_no_differences 2) = Done (2, [5, 6, 7])"
  using sqz_no_differences [of 2 "[5, 6, 7]"] by simp

text \<open>
  Without the readable byte the comparison of \<open>rec1[1]\<close> with \<open>rec2[1]\<close>, which the code makes before it
  tests \<open>rec1 < yellow\<close>, reads behind both records.
\<close>

lemma sqz_differences_overread: "SQZ_differences [1, 2, 3] 3 [9, 8, 3] 3 MAX_DIFFERENCES = Fault"
proof -
  have "diff_run (Suc (Suc (Suc 0))) [1, 2, 3] [9, 8, 3] (MAX_DIFFERENCES - 1) = Fault"
    by (simp add: MAX_DIFFERENCES_def)
  moreover have "Suc (Suc (Suc 0)) = min 3 127" by simp
  ultimately have "diff_loop 3 3 [1, 2, 3] [9, 8, 3] MAX_DIFFERENCES = Fault"
    by (simp add: diff_loop.simps del: diff_run.simps)
  then show ?thesis by (simp add: SQZ_differences_def)
qed

end
