(* ===== verification/Sbm.thy ===== *)
theory Sbm
  imports Fb_Prelude
begin

text \<open>
  \<open>jrd/sbm.cpp\<close>, \<open>jrd/sbm.h\<close>: sparse bitmaps of record numbers. A bitmap has two levels of slots:
  the root is a vector of buckets of 2^15 numbers, a bucket is 32 segments of 2^10 numbers, and a
  segment is 32 words of 32 bits. A level that holds no number or one number does not use its slots
  (\<open>SBM_EMPTY\<close>, \<open>SBM_SINGULAR\<close>).

  The C class \<open>sbm\<close> serves both levels and tells them apart by \<open>sbm_type\<close>; here the record is
  polymorphic in what its slots hold and the type of the record is the \<open>sbm_type\<close>. The lists of free
  buckets and segments of a memory pool are not modelled: a block taken from them is cleared before
  it is used. Record numbers are not negative.

  \<open>SBM_set\<close> is option-valued: the loop that doubles the vector of the root does not end when
  \<open>sbm_count\<close> is 0.
\<close>

section \<open>Segments\<close>

definition BUNCH_BITS :: nat where "BUNCH_BITS = 5"
definition SEGMENT_BITS :: nat where "SEGMENT_BITS = 10"
definition BUCKET_BITS :: nat where "BUCKET_BITS = 15"
definition BITS_BUNCH :: nat where "BITS_BUNCH = 2 ^ BUNCH_BITS"
definition BITS_SEGMENT :: nat where "BITS_SEGMENT = 2 ^ SEGMENT_BITS"
definition BUNCH_SEGMENT :: nat where "BUNCH_SEGMENT = BITS_SEGMENT div BITS_BUNCH"
definition BUNCH_BUCKET :: nat where "BUNCH_BUCKET = 2 ^ (BUCKET_BITS - SEGMENT_BITS)"

lemma sbm_sizes [simp]:
  "BITS_BUNCH = 32" "BITS_SEGMENT = 1024" "BUNCH_SEGMENT = 32" "BUNCH_BUCKET = 32"
  by (simp_all add: BITS_BUNCH_def BITS_SEGMENT_def BUNCH_SEGMENT_def BUNCH_BUCKET_def BUNCH_BITS_def
      SEGMENT_BITS_def BUCKET_BITS_def)

type_synonym bunch = "32 word"

record bms =
  bms_min :: nat
  bms_max :: nat
  bms_bits :: "bunch list"

text \<open>The word and the bit of an offset into a segment.\<close>

definition bunch_of :: "nat \<Rightarrow> nat" where
  "bunch_of relative = (relative div 2 ^ BUNCH_BITS) mod 2 ^ (SEGMENT_BITS - BUNCH_BITS)"

definition bit_of :: "nat \<Rightarrow> nat" where
  "bit_of relative = relative mod 2 ^ BUNCH_BITS"

definition bms_test :: "bms \<Rightarrow> nat \<Rightarrow> bool" where
  "bms_test segment relative =
     (let test = bms_bits segment ! bunch_of relative in
      if test = 0 then False else test AND push_bit (bit_of relative) 1 \<noteq> 0)"

definition bms_clear :: "bms \<Rightarrow> nat \<Rightarrow> bool \<times> bms" where
  "bms_clear segment relative =
     (let test = bms_bits segment ! bunch_of relative in
      if test = 0 then (False, segment)
      else if test AND push_bit (bit_of relative) 1 = 0 then (False, segment)
      else (True, segment\<lparr>bms_bits := (bms_bits segment)
             [bunch_of relative := test AND NOT (push_bit (bit_of relative) 1)]\<rparr>))"

definition bms_set :: "bms \<Rightarrow> nat \<Rightarrow> bms" where
  "bms_set segment relative =
     segment\<lparr>bms_bits := (bms_bits segment)
         [bunch_of relative := bms_bits segment ! bunch_of relative OR push_bit (bit_of relative) 1],
       bms_min := if relative < bms_min segment then relative else bms_min segment,
       bms_max := if bms_max segment < relative then relative else bms_max segment\<rparr>"

definition clear_segment :: bms where
  "clear_segment = \<lparr>bms_min = 0, bms_max = 0, bms_bits = replicate BUNCH_SEGMENT 0\<rparr>"

section \<open>Levels\<close>

datatype sbm_state = SBM_EMPTY | SBM_SINGULAR | SBM_PLURAL

record 'a sbm =
  sbm_state :: sbm_state
  sbm_count :: nat
  sbm_used :: nat
  sbm_high_water :: nat
  sbm_number :: nat
  sbm_segments :: "'a option list"

type_synonym bucket = "bms sbm"
type_synonym root = "bucket sbm"

text \<open>\<open>SBM_test\<close> on one level: \<open>shift\<close> is \<open>SEGMENT_BITS\<close> or \<open>BUCKET_BITS\<close>; \<open>slot\<close> is a \<open>USHORT\<close>.\<close>

definition level_test :: "nat \<Rightarrow> ('a \<Rightarrow> nat \<Rightarrow> bool) \<Rightarrow> 'a sbm \<Rightarrow> nat \<Rightarrow> bool" where
  "level_test shift test v number =
     (case sbm_state v of
        SBM_EMPTY \<Rightarrow> False
      | SBM_SINGULAR \<Rightarrow> number = sbm_number v
      | SBM_PLURAL \<Rightarrow>
          let slot = ushort (number div 2 ^ shift) in
          if sbm_high_water v < slot then False
          else
            case sbm_segments v ! slot of
              None \<Rightarrow> False
            | Some s \<Rightarrow> test s (number mod 2 ^ shift))"

definition level_clear ::
  "nat \<Rightarrow> ('a \<Rightarrow> nat \<Rightarrow> bool \<times> 'a) \<Rightarrow> 'a sbm \<Rightarrow> nat \<Rightarrow> bool \<times> 'a sbm" where
  "level_clear shift clear v number =
     (case sbm_state v of
        SBM_EMPTY \<Rightarrow> (False, v)
      | SBM_SINGULAR \<Rightarrow>
          if number = sbm_number v then (True, v\<lparr>sbm_state := SBM_EMPTY\<rparr>) else (False, v)
      | SBM_PLURAL \<Rightarrow>
          let slot = ushort (number div 2 ^ shift) in
          if sbm_high_water v < slot then (False, v)
          else
            case sbm_segments v ! slot of
              None \<Rightarrow> (False, v)
            | Some s \<Rightarrow>
                let (found, s') = clear s (number mod 2 ^ shift)
                in (found, v\<lparr>sbm_segments := (sbm_segments v)[slot := Some s']\<rparr>))"

text \<open>
  The part of \<open>SBM_set\<close> that sets a bit in a slot, given a vector that has the slot; a missing block
  is allocated cleared.
\<close>

definition level_put ::
  "nat \<Rightarrow> ('a \<Rightarrow> nat \<Rightarrow> 'a option) \<Rightarrow> 'a \<Rightarrow> 'a sbm \<Rightarrow> nat \<Rightarrow> 'a sbm option" where
  "level_put shift store cleared v number =
     (let slot = ushort (number div 2 ^ shift);
          relative = number mod 2 ^ shift in
      case sbm_segments v ! slot of
        Some s \<Rightarrow>
          do { s' \<leftarrow> store s relative;
               Some (v\<lparr>sbm_segments := (sbm_segments v)[slot := Some s']\<rparr>) }
      | None \<Rightarrow>
          do { s' \<leftarrow> store cleared relative;
               Some (v\<lparr>sbm_segments := (sbm_segments v)[slot := Some s'],
                 sbm_used := ushort (sbm_used v + 1),
                 sbm_high_water :=
                   if sbm_high_water v < slot then slot else sbm_high_water v\<rparr>) })"

text \<open>
  \<open>SBM_set\<close> on an allocated level. When the level was singular, the routine calls itself once more for
  the number it held; by then the level is plural, so that call is only \<open>put\<close>.
\<close>

definition level_set ::
  "('a sbm \<Rightarrow> nat \<Rightarrow> 'a sbm option) \<Rightarrow> 'a sbm \<Rightarrow> nat \<Rightarrow> 'a sbm option" where
  "level_set put v number =
     (if sbm_state v = SBM_EMPTY
      then Some (v\<lparr>sbm_state := SBM_SINGULAR, sbm_number := number\<rparr>)
      else
        do { v' \<leftarrow> put v number;
             if sbm_state v' = SBM_PLURAL then Some v'
             else put (v'\<lparr>sbm_state := SBM_PLURAL\<rparr>) (sbm_number v') })"

section \<open>Buckets\<close>

definition clear_bucket :: bucket where
  "clear_bucket = \<lparr>sbm_state = SBM_EMPTY, sbm_count = BUNCH_BUCKET, sbm_used = 0,
     sbm_high_water = 0, sbm_number = 0, sbm_segments = replicate BUNCH_BUCKET None\<rparr>"

definition bucket_test :: "bucket \<Rightarrow> nat \<Rightarrow> bool" where
  "bucket_test = level_test SEGMENT_BITS bms_test"

definition bucket_clear :: "bucket \<Rightarrow> nat \<Rightarrow> bool \<times> bucket" where
  "bucket_clear = level_clear SEGMENT_BITS bms_clear"

definition bucket_set :: "bucket \<Rightarrow> nat \<Rightarrow> bucket option" where
  "bucket_set = level_set (level_put SEGMENT_BITS (\<lambda>s r. Some (bms_set s r)) clear_segment)"

section \<open>The root\<close>

text \<open>A bitmap is the pointer that \<open>SBM *\<close> points to.\<close>

type_synonym bitmap = "root option"

definition SBM_test :: "bitmap \<Rightarrow> nat \<Rightarrow> bool" where
  "SBM_test b number = (case b of None \<Rightarrow> False | Some v \<Rightarrow> level_test BUCKET_BITS bucket_test v number)"

definition SBM_clear :: "bitmap \<Rightarrow> nat \<Rightarrow> bool \<times> bitmap" where
  "SBM_clear b number =
     (case b of
        None \<Rightarrow> (False, None)
      | Some v \<Rightarrow> map_prod id Some (level_clear BUCKET_BITS bucket_clear v number))"

text \<open>\<open>SBM_init\<close>: the threshold of the growth policy, from the sizes of an \<open>sbm\<close> and of a pointer.\<close>

definition SBM_max_tail_of :: "nat \<Rightarrow> nat \<Rightarrow> nat" where
  "SBM_max_tail_of sizeof_sbm sizeof_pointer = (65535 - 32 - sizeof_sbm) div sizeof_pointer + 1"

text \<open>\<open>do end <<= 1; while (end <= slot);\<close>\<close>

partial_function (option) double_until :: "nat \<Rightarrow> nat \<Rightarrow> nat option" where
  "double_until e slot =
     (let e' = (e * 2) mod 2 ^ 32 in if e' \<le> slot then double_until e' slot else Some e')"

text \<open>The vector made large enough for \<open>slot\<close>; \<open>sbm_count\<close> is a \<open>USHORT\<close>.\<close>

definition grow :: "nat \<Rightarrow> root \<Rightarrow> nat \<Rightarrow> root option" where
  "grow max_tail v slot =
     (if slot < sbm_count v then Some v
      else
        do { e \<leftarrow> (if max_tail \<le> slot then Some (slot + 5)
                   else map_option (\<lambda>e. if max_tail < e then max_tail else e)
                          (double_until (sbm_count v) slot));
             Some (v\<lparr>sbm_segments := take e (sbm_segments v) @ replicate (e - length (sbm_segments v)) None,
               sbm_count := ushort e\<rparr>) })"

definition root_put :: "nat \<Rightarrow> root \<Rightarrow> nat \<Rightarrow> root option" where
  "root_put max_tail v number =
     do { v' \<leftarrow> grow max_tail v (ushort (number div 2 ^ BUCKET_BITS));
          level_put BUCKET_BITS bucket_set clear_bucket v' number }"

definition SBM_set :: "nat \<Rightarrow> bitmap \<Rightarrow> nat \<Rightarrow> bitmap option" where
  "SBM_set max_tail b number =
     (case b of
        None \<Rightarrow>
          Some (Some \<lparr>sbm_state = SBM_SINGULAR, sbm_count = 5, sbm_used = 0, sbm_high_water = 0,
            sbm_number = number, sbm_segments = replicate 5 None\<rparr>)
      | Some v \<Rightarrow> map_option Some (level_set (root_put max_tail) v number))"

definition SBM_reset :: "bitmap \<Rightarrow> bitmap" where
  "SBM_reset b =
     (case b of
        None \<Rightarrow> None
      | Some v \<Rightarrow>
          if sbm_state v = SBM_EMPTY then b
          else Some (v\<lparr>sbm_segments := replicate (sbm_count v) None @ drop (sbm_count v) (sbm_segments v),
            sbm_state := SBM_EMPTY, sbm_used := 0, sbm_high_water := 0\<rparr>))"

definition SBM_size :: "bitmap \<Rightarrow> nat" where
  "SBM_size b =
     (case b of
        None \<Rightarrow> 0
      | Some v \<Rightarrow>
          if sbm_state v = SBM_EMPTY then 1
          else 1 + (\<Sum>bucket \<leftarrow> List.map_filter id (take (sbm_count v) (sbm_segments v)).
            length (List.map_filter id (take BUNCH_BUCKET (sbm_segments bucket))) + 1))"

section \<open>A set of numbers behind an interface\<close>

text \<open>
  What each level promises: \<open>test\<close> reads a set of numbers below \<open>size\<close>, \<open>put\<close> (which may fail to return
  only outside the invariant) adds a number and \<open>clear\<close> removes one and tells whether it was there.
\<close>

locale number_set =
  fixes size :: nat
    and wf :: "'a \<Rightarrow> bool"
    and test :: "'a \<Rightarrow> nat \<Rightarrow> bool"
    and put :: "'a \<Rightarrow> nat \<Rightarrow> 'a option"
    and clear :: "'a \<Rightarrow> nat \<Rightarrow> bool \<times> 'a"
  assumes put_ok: "wf s \<Longrightarrow> n < size \<Longrightarrow>
      \<exists>s'. put s n = Some s' \<and> wf s' \<and> (\<forall>m < size. test s' m \<longleftrightarrow> m = n \<or> test s m)"
    and clear_ok: "wf s \<Longrightarrow> n < size \<Longrightarrow>
      wf (snd (clear s n)) \<and> fst (clear s n) = test s n \<and>
      (\<forall>m < size. test (snd (clear s n)) m \<longleftrightarrow> m \<noteq> n \<and> test s m)"

definition level_wf :: "nat \<Rightarrow> nat \<Rightarrow> nat \<Rightarrow> ('a \<Rightarrow> bool) \<Rightarrow> 'a sbm \<Rightarrow> bool" where
  "level_wf limit least shift ok v \<longleftrightarrow>
     0 < sbm_count v \<and> least \<le> sbm_count v \<and> sbm_count v < 65536 \<and> length (sbm_segments v) = sbm_count v \<and>
     sbm_high_water v < sbm_count v \<and> sbm_high_water v * 2 ^ shift < limit \<and>
     (\<forall>i s. i < sbm_count v \<longrightarrow> sbm_segments v ! i = Some s \<longrightarrow>
        ok s \<and> i \<le> sbm_high_water v \<and> sbm_state v = SBM_PLURAL) \<and>
     (sbm_state v = SBM_SINGULAR \<longrightarrow> sbm_number v < limit)"

text \<open>What the slots hold, whatever the state.\<close>

definition slots_hold :: "nat \<Rightarrow> ('a \<Rightarrow> nat \<Rightarrow> bool) \<Rightarrow> 'a sbm \<Rightarrow> nat \<Rightarrow> bool" where
  "slots_hold shift test v n \<longleftrightarrow> n div 2 ^ shift < sbm_count v \<and>
     (\<exists>s. sbm_segments v ! (n div 2 ^ shift) = Some s \<and> test s (n mod 2 ^ shift))"

text \<open>
  One level over the blocks its slots hold. \<open>limit\<close> is the size of the level, whose slot numbers fit a
  \<open>USHORT\<close>; \<open>put\<close> is preceded by \<open>extend\<close>, which must leave a slot for the number and keep the contents.
\<close>

locale level = number_set "2 ^ shift" wf test store clear
  for shift :: nat
    and wf :: "'a \<Rightarrow> bool"
    and test :: "'a \<Rightarrow> nat \<Rightarrow> bool"
    and store :: "'a \<Rightarrow> nat \<Rightarrow> 'a option"
    and clear :: "'a \<Rightarrow> nat \<Rightarrow> bool \<times> 'a" +
  fixes limit least :: nat
    and cleared :: 'a
    and extend :: "'a sbm \<Rightarrow> nat \<Rightarrow> 'a sbm option"
  assumes limit: "n < limit \<Longrightarrow> n div 2 ^ shift < 65536"
    and cleared: "wf cleared" "n < 2 ^ shift \<Longrightarrow> \<not> test cleared n"
    and extend: "level_wf limit least shift wf v \<Longrightarrow> n < limit \<Longrightarrow>
      \<exists>v'. extend v (n div 2 ^ shift) = Some v' \<and> level_wf limit least shift wf v' \<and>
        n div 2 ^ shift < sbm_count v' \<and> sbm_state v' = sbm_state v \<and> sbm_number v' = sbm_number v \<and>
        (\<forall>m<limit. level_test shift test v' m = level_test shift test v m)"
begin

lemma test_plural:
  assumes "level_wf limit least shift wf v" "sbm_state v = SBM_PLURAL" "n < limit"
  shows "level_test shift test v n \<longleftrightarrow> slots_hold shift test v n"
  using assms limit [of n]
  by (auto simp: level_test_def slots_hold_def level_wf_def Let_def split: option.splits)

lemma same_slot: "m div 2 ^ shift = n div 2 ^ shift \<Longrightarrow> m mod 2 ^ shift = n mod 2 ^ shift \<Longrightarrow> m = n"
  for m n :: nat
  by (metis div_mult_mod_eq)

lemma put_slot:
  assumes "level_wf limit least shift wf v" "sbm_state v \<noteq> SBM_EMPTY" "n < limit" "n div 2 ^ shift < sbm_count v"
  shows "\<exists>v'. level_put shift store cleared v n = Some v' \<and> sbm_state v' = sbm_state v \<and>
    sbm_number v' = sbm_number v \<and>
    level_wf limit least shift wf (v'\<lparr>sbm_state := SBM_PLURAL\<rparr>) \<and>
    (\<forall>m<limit. slots_hold shift test v' m \<longleftrightarrow> m = n \<or> slots_hold shift test v m)"
proof -
  let ?i = "n div 2 ^ shift" and ?r = "n mod 2 ^ shift"
  have i: "ushort ?i = ?i" "?i < length (sbm_segments v)" and r: "?r < 2 ^ shift"
    using assms limit [of n] by (auto simp: level_wf_def)
  define s where "s = (case sbm_segments v ! ?i of None \<Rightarrow> cleared | Some s \<Rightarrow> s)"
  have top: "?i * 2 ^ shift < limit" using assms(3) div_times_less_eq_dividend [of n "2 ^ shift"] by linarith
  have "wf s" using assms i cleared(1) by (auto simp: s_def level_wf_def split: option.splits)
  then obtain s' where s': "store s ?r = Some s'" "wf s'"
    "\<forall>m < 2 ^ shift. test s' m \<longleftrightarrow> m = ?r \<or> test s m"
    using put_ok r by blast
  define v' where "v' = (if sbm_segments v ! ?i = None
     then v\<lparr>sbm_segments := (sbm_segments v)[?i := Some s'], sbm_used := ushort (sbm_used v + 1),
       sbm_high_water := if sbm_high_water v < ?i then ?i else sbm_high_water v\<rparr>
     else v\<lparr>sbm_segments := (sbm_segments v)[?i := Some s']\<rparr>)"
  have "level_put shift store cleared v n = Some v'"
    using s' i by (auto simp: level_put_def s_def v'_def Let_def split: option.splits)
  moreover have "sbm_state v' = sbm_state v" "sbm_number v' = sbm_number v" by (auto simp: v'_def)
  moreover have segs: "sbm_segments v' = (sbm_segments v)[?i := Some s']" "sbm_count v' = sbm_count v"
    by (auto simp: v'_def)
  moreover have "level_wf limit least shift wf (v'\<lparr>sbm_state := SBM_PLURAL\<rparr>)"
    using assms s'(2) i top unfolding level_wf_def
    by (auto simp: v'_def nth_list_update le_less_trans split: if_splits)
  moreover have "slots_hold shift test v' m \<longleftrightarrow> m = n \<or> slots_hold shift test v m" if "m < limit" for m
  proof (cases "m div 2 ^ shift = ?i")
    case True
    then have "slots_hold shift test v m \<longleftrightarrow> test s (m mod 2 ^ shift)"
      using i assms(4) cleared(2) by (auto simp: slots_hold_def s_def split: option.splits)
    moreover have "slots_hold shift test v' m \<longleftrightarrow> test s' (m mod 2 ^ shift)"
      using True i assms(4) by (simp add: slots_hold_def segs)
    ultimately show ?thesis using s'(3) True same_slot [of m n] by auto
  next
    case False
    then show ?thesis by (auto simp: slots_hold_def segs)
  qed
  ultimately show ?thesis by blast
qed

lemma singular_slots:
  assumes "level_wf limit least shift wf v" "sbm_state v \<noteq> SBM_PLURAL"
  shows "\<not> slots_hold shift test v n"
  using assms by (auto simp: slots_hold_def level_wf_def)

lemma set_level:
  assumes "level_wf limit least shift wf v" "n < limit"
  shows "\<exists>v'. level_set (\<lambda>v n. Option.bind (extend v (ushort (n div 2 ^ shift)))
        (\<lambda>v'. level_put shift store cleared v' n)) v n = Some v' \<and>
    level_wf limit least shift wf v' \<and>
    (\<forall>m < limit. level_test shift test v' m \<longleftrightarrow> m = n \<or> level_test shift test v m)"
proof (cases "sbm_state v = SBM_EMPTY")
  case True
  then show ?thesis using assms by (auto simp: level_set_def level_wf_def level_test_def)
next
  case False
  have u: "ushort (m div 2 ^ shift) = m div 2 ^ shift" if "m < limit" for m
    using limit [OF that] by simp
  from extend [OF assms] obtain v0 where v0: "extend v (n div 2 ^ shift) = Some v0"
    "level_wf limit least shift wf v0" "n div 2 ^ shift < sbm_count v0" "sbm_state v0 = sbm_state v"
    "sbm_number v0 = sbm_number v" "\<And>m. m < limit \<Longrightarrow> level_test shift test v0 m = level_test shift test v m"
    by blast
  from put_slot [OF v0(2) _ assms(2) v0(3)] v0(4) False obtain v1 where
    v1: "level_put shift store cleared v0 n = Some v1" "sbm_state v1 = sbm_state v"
    "sbm_number v1 = sbm_number v" "level_wf limit least shift wf (v1\<lparr>sbm_state := SBM_PLURAL\<rparr>)"
    "\<And>m. m < limit \<Longrightarrow> slots_hold shift test v1 m \<longleftrightarrow> m = n \<or> slots_hold shift test v0 m"
    using v0(5) by auto
  show ?thesis
  proof (cases "sbm_state v = SBM_PLURAL")
    case True
    then have "v1\<lparr>sbm_state := SBM_PLURAL\<rparr> = v1" using v1(2) by simp
    then have "level_wf limit least shift wf v1" using v1(4) by simp
    then show ?thesis
      using v0 v1 True u [OF assms(2)] False test_plural [of v1] test_plural [OF v0(2)]
      by (auto simp: level_set_def)
  next
    case sing: False
    then have n0: "sbm_state v = SBM_SINGULAR" "sbm_number v < limit"
      using False assms(1) by (cases "sbm_state v"; auto simp: level_wf_def)+
    let ?v1 = "v1\<lparr>sbm_state := SBM_PLURAL\<rparr>"
    from extend [OF v1(4) n0(2)] obtain v2 where v2: "extend ?v1 (sbm_number v div 2 ^ shift) = Some v2"
      "level_wf limit least shift wf v2" "sbm_number v div 2 ^ shift < sbm_count v2" "sbm_state v2 = SBM_PLURAL"
      "\<And>m. m < limit \<Longrightarrow> level_test shift test v2 m = level_test shift test ?v1 m"
      by auto
    from put_slot [OF v2(2) _ n0(2) v2(3)] v2(4) obtain v3 where
      v3: "level_put shift store cleared v2 (sbm_number v) = Some v3" "sbm_state v3 = SBM_PLURAL"
      "level_wf limit least shift wf (v3\<lparr>sbm_state := SBM_PLURAL\<rparr>)"
      "\<And>m. m < limit \<Longrightarrow> slots_hold shift test v3 m \<longleftrightarrow> m = sbm_number v \<or> slots_hold shift test v2 m"
      by auto
    have "v3\<lparr>sbm_state := SBM_PLURAL\<rparr> = v3" using v3(2) by simp
    then have w3: "level_wf limit least shift wf v3" using v3(3) by simp
    have "slots_hold shift test ?v1 m = slots_hold shift test v1 m" for m by (simp add: slots_hold_def)
    then have "level_test shift test v3 m \<longleftrightarrow> m = n \<or> level_test shift test v m" if "m < limit" for m
      using that test_plural [OF w3 v3(2)] test_plural [OF v2(2,4)] test_plural [OF v1(4)] v1(5) v2(5) v3(4)
        singular_slots [OF v0(2)] v0(4) n0
      by (auto simp: level_test_def)
    then show ?thesis
      using v0 v1 v2 v3 w3 sing n0 False u [OF assms(2)] u [OF n0(2)] by (auto simp: level_set_def)
  qed
qed

lemma clear_level:
  assumes "level_wf limit least shift wf v" "n < limit"
  shows "level_wf limit least shift wf (snd (level_clear shift clear v n)) \<and>
    fst (level_clear shift clear v n) = level_test shift test v n \<and>
    (\<forall>m < limit. level_test shift test (snd (level_clear shift clear v n)) m \<longleftrightarrow>
       m \<noteq> n \<and> level_test shift test v m)"
proof (cases "sbm_state v")
  case SBM_EMPTY
  then show ?thesis using assms by (simp add: level_clear_def level_test_def)
next
  case SBM_SINGULAR
  then show ?thesis using assms by (auto simp: level_clear_def level_test_def level_wf_def)
next
  case SBM_PLURAL
  let ?i = "n div 2 ^ shift" and ?r = "n mod 2 ^ shift"
  have u: "ushort ?i = ?i" and r: "?r < 2 ^ shift" using limit [OF assms(2)] by auto
  show ?thesis
  proof (cases "?i \<le> sbm_high_water v \<and> sbm_segments v ! ?i \<noteq> None")
    case False
    then have "level_clear shift clear v n = (False, v)" "\<not> level_test shift test v n"
      using SBM_PLURAL u by (auto simp: level_clear_def level_test_def Let_def)
    then show ?thesis using assms(1) by auto
  next
    case True
    then obtain s where "sbm_segments v ! ?i = Some s" "?i \<le> sbm_high_water v" by auto
    moreover from this have "?i < sbm_count v" using assms(1) by (auto simp: level_wf_def)
    ultimately have s: "sbm_segments v ! ?i = Some s" "?i < sbm_count v" "wf s" "?i \<le> sbm_high_water v"
      using assms(1) by (auto simp: level_wf_def)
    define v' where "v' = v\<lparr>sbm_segments := (sbm_segments v)[?i := Some (snd (clear s ?r))]\<rparr>"
    have eq: "level_clear shift clear v n = (fst (clear s ?r), v')"
      using s SBM_PLURAL u by (simp add: level_clear_def v'_def Let_def split_beta)
    note inner = clear_ok [OF s(3) r]
    have w: "level_wf limit least shift wf v'"
      using assms(1) s SBM_PLURAL inner unfolding level_wf_def
      by (auto simp: v'_def nth_list_update)
    have "level_test shift test v' m \<longleftrightarrow> m \<noteq> n \<and> level_test shift test v m" if "m < limit" for m
    proof -
      have "slots_hold shift test v' m \<longleftrightarrow> m \<noteq> n \<and> slots_hold shift test v m"
      proof (cases "m div 2 ^ shift = ?i")
        case True
        then show ?thesis
          using s assms(1) inner same_slot [of m n] by (auto simp: slots_hold_def v'_def level_wf_def)
      next
        case False
        then show ?thesis by (auto simp: slots_hold_def v'_def)
      qed
      then show ?thesis
        using test_plural [OF w _ that] test_plural [OF assms(1) SBM_PLURAL that] SBM_PLURAL
        by (simp add: v'_def)
    qed
    moreover have "level_test shift test v n = test s ?r"
      using s u SBM_PLURAL by (simp add: level_test_def Let_def)
    ultimately show ?thesis using eq w inner by simp
  qed
qed

end

lemma level_states:
  "sbm_state v = SBM_EMPTY \<Longrightarrow> \<not> level_test shift test v n"
  "sbm_state v = SBM_SINGULAR \<Longrightarrow> level_test shift test v n \<longleftrightarrow> n = sbm_number v"
  by (simp_all add: level_test_def)

lemma not_plural: "sbm_state v \<noteq> SBM_PLURAL \<Longrightarrow> sbm_state v = SBM_EMPTY \<or> sbm_state v = SBM_SINGULAR"
  by (cases "sbm_state v") auto

definition slot_test :: "('a \<Rightarrow> nat \<Rightarrow> bool) \<Rightarrow> 'a option \<Rightarrow> nat \<Rightarrow> bool" where
  "slot_test test x n = (case x of None \<Rightarrow> False | Some s \<Rightarrow> test s n)"

definition slot_wf :: "('a \<Rightarrow> bool) \<Rightarrow> 'a option \<Rightarrow> bool" where
  "slot_wf ok x = (case x of None \<Rightarrow> True | Some s \<Rightarrow> ok s)"

lemma slot_simps [simp]:
  "slot_test t None n = False" "slot_test t (Some s) n = t s n" "slot_wf ok None" "slot_wf ok (Some s) = ok s"
  by (simp_all add: slot_test_def slot_wf_def)

context level
begin

abbreviation holds :: "'a sbm \<Rightarrow> nat \<Rightarrow> bool" where
  "holds v m \<equiv> slot_test test (if m div 2 ^ shift < sbm_count v then sbm_segments v ! (m div 2 ^ shift) else None)
     (m mod 2 ^ shift)"

lemma test_holds:
  "level_wf limit least shift wf v \<Longrightarrow> sbm_state v = SBM_PLURAL \<Longrightarrow> m < limit \<Longrightarrow>
    level_test shift test v m = holds v m"
  by (simp add: test_plural slots_hold_def slot_test_def split: option.splits)

lemma wf_slots:
  "level_wf limit least shift wf v \<longleftrightarrow> 0 < sbm_count v \<and> least \<le> sbm_count v \<and> sbm_count v < 65536 \<and>
     length (sbm_segments v) = sbm_count v \<and> sbm_high_water v < sbm_count v \<and>
     sbm_high_water v * 2 ^ shift < limit \<and>
     (\<forall>i < sbm_count v. slot_wf wf (sbm_segments v ! i)) \<and>
     (\<forall>i < sbm_count v. sbm_segments v ! i \<noteq> None \<longrightarrow> i \<le> sbm_high_water v \<and> sbm_state v = SBM_PLURAL) \<and>
     (sbm_state v = SBM_SINGULAR \<longrightarrow> sbm_number v < limit)"
  unfolding level_wf_def slot_wf_def by (fastforce split: option.splits)

lemma wf_update:
  assumes "level_wf limit least shift wf v" "sbm_state v = SBM_PLURAL" "length segs = length (sbm_segments v)"
    and "\<And>i. i < sbm_count v \<Longrightarrow> slot_wf wf (segs ! i) \<and> (segs ! i \<noteq> None \<longrightarrow> i \<le> sbm_high_water v)"
  shows "level_wf limit least shift wf (v\<lparr>sbm_segments := segs\<rparr>)"
  using assms by (simp add: wf_slots)

end

section \<open>The levels of the program\<close>

definition bms_wf :: "bms \<Rightarrow> bool" where
  "bms_wf s \<longleftrightarrow> length (bms_bits s) = BUNCH_SEGMENT"

lemma bunch_bit_of: "r < 1024 \<Longrightarrow> bunch_of r = r div 32 \<and> bit_of r = r mod 32 \<and> r div 32 < 32"
  by (auto simp: bunch_of_def bit_of_def BUNCH_BITS_def SEGMENT_BITS_def)

lemma and_push_bit: "(w AND push_bit i 1 \<noteq> 0) = bit w i" for w :: bunch
proof -
  have b: "bit (w AND push_bit i 1) j \<longleftrightarrow> j = i \<and> bit w i" for j
    by (auto simp: bit_simps dest: bit_imp_possible_bit)
  show ?thesis by (metis b bit_0_eq bot_apply bot_bool_def bit_eqI)
qed

lemma bms_test_bit: "r < 1024 \<Longrightarrow> bms_test s r = bit (bms_bits s ! (r div 32)) (r mod 32)"
  using bunch_bit_of [of r] and_push_bit [of "bms_bits s ! (r div 32)" "r mod 32"]
  by (auto simp: bms_test_def Let_def)

lemma same_bit: "r div 32 = q div 32 \<Longrightarrow> r mod 32 = q mod 32 \<Longrightarrow> r = q" for r q :: nat
  by (metis div_mult_mod_eq)

interpretation segment: number_set "2 ^ SEGMENT_BITS" bms_wf bms_test "\<lambda>s r. Some (bms_set s r)" bms_clear
proof unfold_locales
  fix s :: bms and n :: nat
  assume s: "bms_wf s" "n < 2 ^ SEGMENT_BITS"
  then have n: "n < 1024" "bunch_of n = n div 32" "bit_of n = n mod 32" "n div 32 < 32"
    using bunch_bit_of [of n] by (auto simp: SEGMENT_BITS_def)
  have bits: "bit (push_bit (n mod 32) 1 :: bunch) i = (i = n mod 32)" for i
    by (auto simp: bit_simps)
  have "bms_test (bms_set s n) m \<longleftrightarrow> m = n \<or> bms_test s m" if "m < 1024" for m
    using s n that same_bit [of m n] bits
    by (cases "m div 32 = n div 32") (auto simp: bms_test_bit bms_set_def bms_wf_def bit_or_iff)
  moreover have "bms_wf (bms_set s n)" using s by (simp add: bms_wf_def bms_set_def)
  ultimately show "\<exists>s'. Some (bms_set s n) = Some s' \<and> bms_wf s' \<and>
      (\<forall>m<2 ^ SEGMENT_BITS. bms_test s' m = (m = n \<or> bms_test s m))"
    by (simp add: SEGMENT_BITS_def)
  have "bms_test (snd (bms_clear s n)) m \<longleftrightarrow> m \<noteq> n \<and> bms_test s m" if "m < 1024" for m
    using s n that same_bit [of m n] bits and_push_bit [of "bms_bits s ! (n div 32)" "n mod 32"]
    by (cases "m div 32 = n div 32")
      (auto simp: bms_test_bit bms_clear_def bms_wf_def bit_and_iff bit_not_iff Let_def)
  moreover have "fst (bms_clear s n) = bms_test s n"
    by (simp add: bms_clear_def bms_test_def Let_def)
  moreover have "bms_wf (snd (bms_clear s n))"
    using s by (simp add: bms_wf_def bms_clear_def Let_def)
  ultimately show "bms_wf (snd (bms_clear s n)) \<and> fst (bms_clear s n) = bms_test s n \<and>
      (\<forall>m<2 ^ SEGMENT_BITS. bms_test (snd (bms_clear s n)) m = (m \<noteq> n \<and> bms_test s m))"
    by (simp add: SEGMENT_BITS_def)
qed

text \<open>A bucket has a slot for every number it can hold.\<close>

definition bucket_wf :: "bucket \<Rightarrow> bool" where
  "bucket_wf = level_wf (2 ^ BUCKET_BITS) BUNCH_BUCKET SEGMENT_BITS bms_wf"

interpretation bucket_level: level SEGMENT_BITS bms_wf bms_test "\<lambda>s r. Some (bms_set s r)" bms_clear
  "2 ^ BUCKET_BITS" BUNCH_BUCKET clear_segment "\<lambda>v slot. Some v"
proof unfold_locales
  show "bms_wf clear_segment" by (simp add: bms_wf_def clear_segment_def)
  show "\<not> bms_test clear_segment n" if "n < 2 ^ SEGMENT_BITS" for n :: nat
    using that bunch_bit_of [of n] by (simp add: bms_test_def clear_segment_def SEGMENT_BITS_def)
  show "n div 2 ^ SEGMENT_BITS < 65536" if "n < 2 ^ BUCKET_BITS" for n :: nat
    using that by (simp add: SEGMENT_BITS_def BUCKET_BITS_def)
  show "\<exists>v'. Some v = Some v' \<and> level_wf (2 ^ BUCKET_BITS) BUNCH_BUCKET SEGMENT_BITS bms_wf v' \<and>
      n div 2 ^ SEGMENT_BITS < sbm_count v' \<and> sbm_state v' = sbm_state v \<and> sbm_number v' = sbm_number v \<and>
      (\<forall>m<2 ^ BUCKET_BITS. level_test SEGMENT_BITS bms_test v' m = level_test SEGMENT_BITS bms_test v m)"
    if "level_wf (2 ^ BUCKET_BITS) BUNCH_BUCKET SEGMENT_BITS bms_wf v" "n < 2 ^ BUCKET_BITS" for v and n :: nat
    using that by (auto simp: level_wf_def SEGMENT_BITS_def BUCKET_BITS_def)
qed

lemma bucket_set_eq:
  "bucket_set = level_set (\<lambda>v n. Option.bind (Some v) (\<lambda>v'. level_put SEGMENT_BITS (\<lambda>s r. Some (bms_set s r))
     clear_segment v' n))"
  by (simp add: bucket_set_def eta_contract_eq)

interpretation bucket: number_set "2 ^ BUCKET_BITS" bucket_wf bucket_test bucket_set bucket_clear
  by unfold_locales (use bucket_level.set_level bucket_level.clear_level in
      \<open>simp_all add: bucket_wf_def bucket_test_def bucket_set_eq bucket_clear_def\<close>)

text \<open>
  The numbers the root can hold: above them, \<open>slot + 5\<close> does not fit the \<open>USHORT\<close> \<open>sbm_count\<close>.
\<close>

definition ROOT_LIMIT :: nat where
  "ROOT_LIMIT = 65531 * 2 ^ BUCKET_BITS"

definition root_wf :: "root \<Rightarrow> bool" where
  "root_wf = level_wf ROOT_LIMIT 1 BUCKET_BITS bucket_wf"

lemma double_until_ends:
  assumes "0 < e" "e \<le> slot" "slot < 65536"
  shows "\<exists>e'. double_until e slot = Some e' \<and> slot < e'"
  using assms
proof (induction "slot - e" arbitrary: e rule: less_induct)
  case less
  have m: "e * 2 mod 2 ^ 32 = e * 2" using less.prems by simp
  show ?case
  proof (cases "e * 2 \<le> slot")
    case True
    then show ?thesis
      using less.hyps [of "e * 2"] less.prems m by (subst double_until.simps) (simp add: Let_def)
  next
    case False
    then show ?thesis using m by (subst double_until.simps) (simp add: Let_def)
  qed
qed

lemma grow_ok:
  assumes v: "root_wf v" and slot: "slot < 65531" and tail: "max_tail < 65536"
  shows "\<exists>e. grow max_tail v slot = Some (v\<lparr>sbm_segments := sbm_segments v @ replicate e None,
      sbm_count := sbm_count v + e\<rparr>) \<and> slot < sbm_count v + e \<and> sbm_count v + e < 65536"
proof (cases "slot < sbm_count v")
  case True
  then show ?thesis using v by (intro exI [of _ 0]) (simp add: grow_def root_wf_def level_wf_def)
next
  case False
  have c: "0 < sbm_count v" "length (sbm_segments v) = sbm_count v"
    using v by (auto simp: root_wf_def level_wf_def)
  have "\<exists>e. (if max_tail \<le> slot then Some (slot + 5)
      else map_option (\<lambda>e. if max_tail < e then max_tail else e) (double_until (sbm_count v) slot)) = Some e \<and>
      slot < e \<and> e < 65536"
  proof (cases "max_tail \<le> slot")
    case True
    then show ?thesis using slot by simp
  next
    case below: False
    obtain e where "double_until (sbm_count v) slot = Some e" "slot < e"
      using double_until_ends [of "sbm_count v" slot] c(1) slot False by auto
    then show ?thesis using below tail by auto
  qed
  then obtain e where e: "(if max_tail \<le> slot then Some (slot + 5)
      else map_option (\<lambda>e. if max_tail < e then max_tail else e) (double_until (sbm_count v) slot)) = Some e"
    "slot < e" "e < 65536" by blast
  then show ?thesis
    using False c by (intro exI [of _ "e - sbm_count v"]) (simp add: grow_def)
qed

lemma root_extend:
  assumes "level_wf ROOT_LIMIT 1 BUCKET_BITS bucket_wf v" "n < ROOT_LIMIT" "max_tail < 65536"
  shows "\<exists>v'. grow max_tail v (n div 2 ^ BUCKET_BITS) = Some v' \<and>
      level_wf ROOT_LIMIT 1 BUCKET_BITS bucket_wf v' \<and>
      n div 2 ^ BUCKET_BITS < sbm_count v' \<and> sbm_state v' = sbm_state v \<and> sbm_number v' = sbm_number v \<and>
      (\<forall>m<ROOT_LIMIT. level_test BUCKET_BITS bucket_test v' m = level_test BUCKET_BITS bucket_test v m)"
proof -
  have "n div 2 ^ BUCKET_BITS < 65531" using assms(2) by (simp add: ROOT_LIMIT_def less_mult_imp_div_less)
  from grow_ok [OF _ this assms(3), of v] assms(1) obtain e where
    e: "grow max_tail v (n div 2 ^ BUCKET_BITS) = Some (v\<lparr>sbm_segments := sbm_segments v @ replicate e None,
      sbm_count := sbm_count v + e\<rparr>)" "n div 2 ^ BUCKET_BITS < sbm_count v + e" "sbm_count v + e < 65536"
    by (auto simp: root_wf_def)
  let ?v' = "v\<lparr>sbm_segments := sbm_segments v @ replicate e None, sbm_count := sbm_count v + e\<rparr>"
  have "level_wf ROOT_LIMIT 1 BUCKET_BITS bucket_wf ?v'"
    using assms(1) e(3) unfolding level_wf_def by (auto simp: nth_append split: if_splits)
  moreover have "level_test BUCKET_BITS bucket_test ?v' m = level_test BUCKET_BITS bucket_test v m" for m
    using assms(1) by (auto simp: level_test_def level_wf_def nth_append Let_def split: sbm_state.splits)
  ultimately show ?thesis using e by auto
qed

lemma cleared_bucket: "bucket_wf clear_bucket" "\<not> bucket_test clear_bucket n"
  by (auto simp: bucket_wf_def level_wf_def clear_bucket_def bucket_test_def level_test_def)

text \<open>
  The root over its buckets. The growth threshold of \<open>SBM_init\<close> is below 2^16 whatever the sizes.
\<close>

definition root_tail :: "nat \<Rightarrow> nat" where
  "root_tail max_tail = min max_tail 65535"

lemma max_tail_bound: "0 < sizeof_pointer \<Longrightarrow> root_tail (SBM_max_tail_of sizeof_sbm sizeof_pointer) =
    SBM_max_tail_of sizeof_sbm sizeof_pointer"
proof -
  have "(65503 - sizeof_sbm) div sizeof_pointer \<le> 65503 - sizeof_sbm" by (rule div_le_dividend)
  then have "(65503 - sizeof_sbm) div sizeof_pointer \<le> 65534" by linarith
  then show ?thesis by (simp add: root_tail_def SBM_max_tail_of_def min_def)
qed

interpretation root_level: level BUCKET_BITS bucket_wf bucket_test bucket_set bucket_clear
  ROOT_LIMIT 1 clear_bucket "grow (root_tail max_tail)"
proof unfold_locales
  show "bucket_wf clear_bucket" by (rule cleared_bucket)
  show "\<not> bucket_test clear_bucket n" for n by (rule cleared_bucket)
  show "n div 2 ^ BUCKET_BITS < 65536" if "n < ROOT_LIMIT" for n :: nat
    using that less_mult_imp_div_less [of n 65531 "2 ^ BUCKET_BITS"] by (simp add: ROOT_LIMIT_def)
qed (rule root_extend, auto simp: root_tail_def)

definition root_set :: "nat \<Rightarrow> root \<Rightarrow> nat \<Rightarrow> root option" where
  "root_set max_tail = level_set (root_put max_tail)"

interpretation root: number_set ROOT_LIMIT root_wf "level_test BUCKET_BITS bucket_test"
  "root_set (root_tail max_tail)" "level_clear BUCKET_BITS bucket_clear"
  by unfold_locales (use root_level.set_level [of _ _ max_tail] root_level.clear_level in
      \<open>simp_all add: root_wf_def root_set_def root_put_def [abs_def]\<close>)

section \<open>Bitmaps as sets\<close>

definition sbm_wf :: "bitmap \<Rightarrow> bool" where
  "sbm_wf b = (case b of None \<Rightarrow> True | Some v \<Rightarrow> root_wf v)"

definition members :: "bitmap \<Rightarrow> nat set" where
  "members b = {n. n < ROOT_LIMIT \<and> SBM_test b n}"

lemma reset_wf: "root_wf v \<Longrightarrow> sbm_state v \<noteq> SBM_EMPTY \<Longrightarrow> \<exists>v'. SBM_reset (Some v) = Some v' \<and> root_wf v' \<and>
    sbm_state v' = SBM_EMPTY"
  by (auto simp: SBM_reset_def root_wf_def level_wf_def)

text \<open>C8. A sparse bitmap is a set of the record numbers below slot 65531, from where on the count of slots wraps
  around. On every well-formed bitmap, the missing one included, \<open>SBM_set\<close> returns and adds its number, \<open>SBM_clear\<close> removes its number and tells whether it was
  there, \<open>SBM_test\<close> reads membership and \<open>SBM_reset\<close> empties the set; all of them keep the bitmap
  well-formed: every slot in range, unused slots behind the high-water mark, no block under a level that
  is empty or singular.\<close>

theorem sbm_is_set:
  assumes "sbm_wf b" "n < ROOT_LIMIT" "0 < sizeof_pointer"
  shows "(\<exists>b'. SBM_set (SBM_max_tail_of sizeof_sbm sizeof_pointer) b n = Some b' \<and> sbm_wf b' \<and>
      members b' = insert n (members b)) \<and>
    fst (SBM_clear b n) = (n \<in> members b) \<and> sbm_wf (snd (SBM_clear b n)) \<and>
    members (snd (SBM_clear b n)) = members b - {n} \<and>
    SBM_test b n = (n \<in> members b) \<and>
    sbm_wf (SBM_reset b) \<and> members (SBM_reset b) = {}"
proof (cases b)
  case None
  then show ?thesis using assms
    by (auto simp: SBM_set_def SBM_clear_def SBM_test_def SBM_reset_def sbm_wf_def members_def root_wf_def
        level_wf_def level_test_def)
next
  case (Some v)
  then have v: "root_wf v" using assms(1) by (simp add: sbm_wf_def)
  have reset: "sbm_wf (SBM_reset b) \<and> members (SBM_reset b) = {}"
  proof (cases "sbm_state v = SBM_EMPTY")
    case True
    then show ?thesis using Some v
      by (simp add: SBM_reset_def sbm_wf_def members_def SBM_test_def level_test_def)
  next
    case False
    then show ?thesis using reset_wf [OF v] Some
      by (auto simp: sbm_wf_def members_def SBM_test_def level_test_def)
  qed
  show ?thesis
    using root.put_ok [OF v assms(2), of "SBM_max_tail_of sizeof_sbm sizeof_pointer"]
      root.clear_ok [OF v assms(2)] assms(2) reset Some
    by (auto simp: SBM_set_def SBM_clear_def SBM_test_def sbm_wf_def members_def max_tail_bound [OF assms(3)]
        root_set_def)
qed

theorem sbm_is_set_witness:
  "\<exists>b'. SBM_set (SBM_max_tail_of 40 4) None 70000 = Some b' \<and> members b' = {70000}"
  using sbm_is_set [of None 70000 4 40] by (auto simp: sbm_wf_def ROOT_LIMIT_def BUCKET_BITS_def members_def SBM_test_def)

lemma double_until_0: "double_until 0 slot = None"
proof -
  have "double_until e s = Some y \<Longrightarrow> e \<noteq> 0" for e s y
    by (rule double_until.raw_induct [where P = "\<lambda>e s y. e \<noteq> 0"])
      (fastforce simp: Let_def split: if_splits)+
  then show ?thesis by (cases "double_until 0 slot") auto
qed

lemma max_tail_small: "SBM_max_tail_of sizeof_sbm sizeof_pointer \<le> 65504"
proof -
  have "(65503 - sizeof_sbm) div sizeof_pointer \<le> 65503"
    using div_le_dividend [of "65503 - sizeof_sbm" sizeof_pointer] by linarith
  then show ?thesis by (simp add: SBM_max_tail_of_def)
qed

text \<open>C36. When \<open>slot + 5\<close> reaches 65536 the \<open>USHORT\<close> \<open>sbm_count\<close> becomes 0, and doubling 0 never makes room:
  \<open>SBM_set\<close> does not return when a number of slot 65531 is added to a bitmap that holds one number, in a
  slot below the growth threshold.\<close>

theorem sbm_set_hangs:
  assumes "root_wf v" "sbm_state v = SBM_SINGULAR" "sbm_count v \<le> 65531"
    and "sbm_number v div 2 ^ BUCKET_BITS < SBM_max_tail_of sizeof_sbm sizeof_pointer"
    and "n div 2 ^ BUCKET_BITS = 65531"
  shows "SBM_set (SBM_max_tail_of sizeof_sbm sizeof_pointer) (Some v) n = None"
proof -
  let ?t = "SBM_max_tail_of sizeof_sbm sizeof_pointer"
  let ?segs = "sbm_segments v @ replicate (65536 - sbm_count v) None"
  define v1 where "v1 = v\<lparr>sbm_segments := ?segs, sbm_count := 0\<rparr>"
  have len: "length (sbm_segments v) = sbm_count v" using assms(1) by (simp add: root_wf_def level_wf_def)
  have "grow ?t v 65531 = Some v1"
    using assms(3) len max_tail_small [of sizeof_sbm sizeof_pointer]
    by (simp add: grow_def v1_def ushort_def)
  moreover have "?segs ! 65531 = None" using len assms(3) by (simp add: nth_append)
  ultimately obtain v2 where v2: "root_put ?t v n = Some v2" "sbm_count v2 = 0" "sbm_state v2 = SBM_SINGULAR"
    "sbm_number v2 = sbm_number v"
    using assms(2,5) by (simp add: root_put_def level_put_def bucket_set_def level_set_def clear_bucket_def v1_def)
  let ?slot = "sbm_number v div 2 ^ BUCKET_BITS"
  have "?slot < 65536" using assms(4) max_tail_small [of sizeof_sbm sizeof_pointer] by linarith
  then have "root_put ?t (v2\<lparr>sbm_state := SBM_PLURAL\<rparr>) (sbm_number v) = None"
    using v2(2) assms(4) by (simp add: root_put_def grow_def double_until_0)
  then show ?thesis using v2 assms(2) by (simp add: SBM_set_def level_set_def)
qed

theorem sbm_set_hangs_witness:
  "SBM_set (SBM_max_tail_of 40 4) (Some \<lparr>sbm_state = SBM_SINGULAR, sbm_count = 5, sbm_used = 0,
     sbm_high_water = 0, sbm_number = 7, sbm_segments = replicate 5 None\<rparr>) 2147319808 = None"
  by (rule sbm_set_hangs)
    (auto simp: root_wf_def level_wf_def BUCKET_BITS_def ROOT_LIMIT_def SBM_max_tail_of_def)

end
