(* ===== verification/Sbm_Sets.thy ===== *)
theory Sbm_Sets
  imports Sbm
begin

text \<open>
  \<open>SBM_and\<close> and \<open>SBM_or\<close> of \<open>jrd/sbm.cpp\<close>. Both work in place on the two bitmaps, move blocks from
  one to the other, and return which of the two holds the result; the other one is left as what is to
  be released. A result is therefore the chosen argument (or none) and both bitmaps afterwards.
\<close>

datatype chosen = First | Second

section \<open>Intersection\<close>

text \<open>
  The loop over the slots \<open>0 ... sbm_high_water\<close> of the shorter map, with what it does for one slot of
  each.
\<close>

fun slots_loop ::
  "nat \<Rightarrow> ('a option \<Rightarrow> 'a option \<Rightarrow> 'a option \<times> 'a option) \<Rightarrow> 'a option list \<Rightarrow> 'a option list \<Rightarrow>
     'a option list \<times> 'a option list" where
  "slots_loop (Suc n) f (x # xs) (y # ys) =
     (let (x', y') = f x y; (xs', ys') = slots_loop n f xs ys in (x' # xs', y' # ys'))"
| "slots_loop _ f xs ys = (xs, ys)"

definition level_and ::
  "('a sbm \<Rightarrow> nat \<Rightarrow> bool) \<Rightarrow> ('a option \<Rightarrow> 'a option \<Rightarrow> 'a option \<times> 'a option) \<Rightarrow>
     'a sbm option \<Rightarrow> 'a sbm option \<Rightarrow> chosen option \<times> 'a sbm option \<times> 'a sbm option" where
  "level_and test slot_and b1 b2 =
     (case (b1, b2) of
        (Some m1, Some m2) \<Rightarrow>
          if sbm_state m1 = SBM_EMPTY \<or> sbm_state m2 = SBM_EMPTY then (None, b1, b2)
          else if sbm_state m1 = SBM_SINGULAR
          then (if test m2 (sbm_number m1) then (Some First, b1, b2) else (None, b1, b2))
          else if sbm_state m2 = SBM_SINGULAR
          then (if test m1 (sbm_number m2) then (Some Second, b1, b2) else (None, b1, b2))
          else if sbm_high_water m2 < sbm_high_water m1
          then (let (s2, s1) = slots_loop (sbm_high_water m2 + 1) slot_and
                       (sbm_segments m2) (sbm_segments m1)
                in (Some Second, Some (m1\<lparr>sbm_segments := s1\<rparr>), Some (m2\<lparr>sbm_segments := s2\<rparr>)))
          else (let (s1, s2) = slots_loop (sbm_high_water m1 + 1) slot_and
                       (sbm_segments m1) (sbm_segments m2)
                in (Some First, Some (m1\<lparr>sbm_segments := s1\<rparr>), Some (m2\<lparr>sbm_segments := s2\<rparr>)))
      | _ \<Rightarrow> (None, b1, b2))"

text \<open>A slot of a bucket: the segments are combined word by word, or the first one is released.\<close>

definition segment_and :: "bms option \<Rightarrow> bms option \<Rightarrow> bms option \<times> bms option" where
  "segment_and s1 s2 =
     (case (s1, s2) of
        (Some b1, Some b2) \<Rightarrow>
          (Some (b1\<lparr>bms_bits := map2 (\<lambda>a b. a AND b) (bms_bits b1) (bms_bits b2)\<rparr>), s2)
      | (Some _, None) \<Rightarrow> (None, None)
      | (None, _) \<Rightarrow> (None, s2))"

definition bucket_and ::
  "bucket option \<Rightarrow> bucket option \<Rightarrow> chosen option \<times> bucket option \<times> bucket option" where
  "bucket_and = level_and bucket_test segment_and"

text \<open>A slot of the root: the buckets are intersected, and swapped when the result is the second.\<close>

definition slot_and :: "bucket option \<Rightarrow> bucket option \<Rightarrow> bucket option \<times> bucket option" where
  "slot_and s1 s2 =
     (case (s1, s2) of
        (None, _) \<Rightarrow> (None, s2)
      | (Some _, None) \<Rightarrow> (None, s1)
      | (Some _, Some _) \<Rightarrow>
          case bucket_and s1 s2 of
            (None, _, s2') \<Rightarrow> (None, s2')
          | (Some First, s1', s2') \<Rightarrow> (s1', s2')
          | (Some Second, s1', s2') \<Rightarrow> (s2', s1'))"

definition SBM_and :: "bitmap \<Rightarrow> bitmap \<Rightarrow> chosen option \<times> bitmap \<times> bitmap" where
  "SBM_and = level_and (level_test BUCKET_BITS bucket_test) slot_and"

section \<open>Union\<close>

fun slots_loop_opt ::
  "nat \<Rightarrow> ('a option \<Rightarrow> 'a option \<Rightarrow> ('a option \<times> 'a option) option) \<Rightarrow> 'a option list \<Rightarrow>
     'a option list \<Rightarrow> ('a option list \<times> 'a option list) option" where
  "slots_loop_opt (Suc n) f (x # xs) (y # ys) =
     do { (x', y') \<leftarrow> f x y;
          (xs', ys') \<leftarrow> slots_loop_opt n f xs ys;
          Some (x' # xs', y' # ys') }"
| "slots_loop_opt _ f xs ys = Some (xs, ys)"

text \<open>The first map is made the longer one; the loop runs over the slots of the second.\<close>

definition level_or ::
  "('a sbm option \<Rightarrow> nat \<Rightarrow> 'a sbm option option) \<Rightarrow>
     ('a option \<Rightarrow> 'a option \<Rightarrow> ('a option \<times> 'a option) option) \<Rightarrow>
     'a sbm option \<Rightarrow> 'a sbm option \<Rightarrow> (chosen \<times> 'a sbm option \<times> 'a sbm option) option" where
  "level_or add slot_or b1 b2 =
     (case (b1, b2) of
        (None, _) \<Rightarrow> Some (Second, b1, b2)
      | (Some m1, _) \<Rightarrow>
          if sbm_state m1 = SBM_EMPTY then Some (Second, b1, b2)
          else
            case b2 of
              None \<Rightarrow> Some (First, b1, b2)
            | Some m2 \<Rightarrow>
                if sbm_state m2 = SBM_EMPTY then Some (First, b1, b2)
                else if sbm_state m1 = SBM_SINGULAR
                then map_option (\<lambda>b2'. (Second, b1, b2')) (add b2 (sbm_number m1))
                else if sbm_state m2 = SBM_SINGULAR
                then map_option (\<lambda>b1'. (First, b1', b2)) (add b1 (sbm_number m2))
                else if sbm_high_water m1 < sbm_high_water m2
                then map_option
                       (\<lambda>(s2, s1). (Second, Some (m1\<lparr>sbm_segments := s1\<rparr>), Some (m2\<lparr>sbm_segments := s2\<rparr>)))
                       (slots_loop_opt (sbm_high_water m1 + 1) slot_or
                          (sbm_segments m2) (sbm_segments m1))
                else map_option
                       (\<lambda>(s1, s2). (First, Some (m1\<lparr>sbm_segments := s1\<rparr>), Some (m2\<lparr>sbm_segments := s2\<rparr>)))
                       (slots_loop_opt (sbm_high_water m2 + 1) slot_or
                          (sbm_segments m1) (sbm_segments m2)))"

definition segment_or :: "bms option \<Rightarrow> bms option \<Rightarrow> (bms option \<times> bms option) option" where
  "segment_or s1 s2 =
     (case (s1, s2) of
        (_, None) \<Rightarrow> Some (s1, s2)
      | (None, Some _) \<Rightarrow> Some (s2, None)
      | (Some b1, Some b2) \<Rightarrow>
          Some (Some (b1\<lparr>bms_bits := map2 (\<lambda>a b. a OR b) (bms_bits b1) (bms_bits b2)\<rparr>), s2))"

definition bucket_add :: "bucket option \<Rightarrow> nat \<Rightarrow> bucket option option" where
  "bucket_add b n = (case b of None \<Rightarrow> None | Some v \<Rightarrow> map_option Some (bucket_set v n))"

definition bucket_or ::
  "bucket option \<Rightarrow> bucket option \<Rightarrow> (chosen \<times> bucket option \<times> bucket option) option" where
  "bucket_or = level_or bucket_add segment_or"

definition slot_or :: "bucket option \<Rightarrow> bucket option \<Rightarrow> (bucket option \<times> bucket option) option" where
  "slot_or s1 s2 =
     (case (s1, s2) of
        (_, None) \<Rightarrow> Some (s1, s2)
      | (None, Some _) \<Rightarrow> Some (s2, None)
      | (Some _, Some _) \<Rightarrow>
          map_option (\<lambda>r. case r of (First, s1', s2') \<Rightarrow> (s1', s2') | (Second, s1', s2') \<Rightarrow> (s2', s1'))
            (bucket_or s1 s2))"

definition SBM_or :: "nat \<Rightarrow> bitmap \<Rightarrow> bitmap \<Rightarrow> (chosen \<times> bitmap \<times> bitmap) option" where
  "SBM_or max_tail = level_or (SBM_set max_tail) slot_or"

definition the_chosen :: "chosen \<Rightarrow> 'a \<Rightarrow> 'a \<Rightarrow> 'a" where
  "the_chosen c b1 b2 = (case c of First \<Rightarrow> b1 | Second \<Rightarrow> b2)"

section \<open>What the operations compute\<close>

lemma slots_loop_nth:
  assumes "slots_loop n f xs ys = (xs', ys')" "n \<le> length xs" "n \<le> length ys"
  shows "length xs' = length xs \<and> length ys' = length ys \<and>
    (\<forall>i. (if i < n then f (xs ! i) (ys ! i) else (xs ! i, ys ! i)) = (xs' ! i, ys' ! i))"
  using assms
proof (induction n f xs ys arbitrary: xs' ys' rule: slots_loop.induct)
  case (1 n f x xs y ys)
  obtain x' y' xs1 ys1 where r: "f x y = (x', y')" "slots_loop n f xs ys = (xs1, ys1)"
    "xs' = x' # xs1" "ys' = y' # ys1"
    using 1(2) by (cases "f x y"; cases "slots_loop n f xs ys") auto
  then have IH: "length xs1 = length xs \<and> length ys1 = length ys \<and>
      (\<forall>i. (if i < n then f (xs ! i) (ys ! i) else (xs ! i, ys ! i)) = (xs1 ! i, ys1 ! i))"
    using 1(1) [OF refl] 1(3,4) r by (metis length_Cons Suc_le_mono)
  show ?case
  proof (intro conjI allI)
    fix i
    show "(if i < Suc n then f ((x # xs) ! i) ((y # ys) ! i) else ((x # xs) ! i, (y # ys) ! i)) =
        (xs' ! i, ys' ! i)"
      using IH [THEN conjunct2, THEN conjunct2, rule_format, of "i - 1"] r
      by (cases i) (auto split: if_splits)
  qed (use IH r in auto)
qed auto

lemma slots_loop_opt_eq:
  assumes "\<And>i. i < n \<Longrightarrow> f (xs ! i) (ys ! i) = Some (g (xs ! i) (ys ! i))" "n \<le> length xs" "n \<le> length ys"
  shows "slots_loop_opt n f xs ys = Some (slots_loop n g xs ys)"
  using assms
proof (induction n f xs ys rule: slots_loop_opt.induct)
  case (1 n f x xs y ys)
  have "f x y = Some (g x y)" using 1(2) [of 0] by simp
  moreover have "slots_loop_opt n f xs ys = Some (slots_loop n g xs ys)"
    using 1(2) [of "Suc _"] 1(3,4) by (intro 1(1) [of "g x y" "fst (g x y)" "snd (g x y)"]) (auto simp: calculation)
  ultimately show ?case by (simp add: split_beta)
qed auto

text \<open>Combining two plural levels slot by slot, the first being the one that is given the result.\<close>

context level begin

lemma combine:
  assumes w: "level_wf limit least shift wf m1" "level_wf limit least shift wf m2"
    and p: "sbm_state m1 = SBM_PLURAL" "sbm_state m2 = SBM_PLURAL"
    and n: "n \<le> sbm_high_water m1 + 1" "n \<le> sbm_high_water m2 + 1"
    and f: "\<And>x y. slot_wf wf x \<Longrightarrow> slot_wf wf y \<Longrightarrow> slot_wf wf (fst (f x y)) \<and> slot_wf wf (snd (f x y))"
    and r: "slots_loop n f (sbm_segments m1) (sbm_segments m2) = (s1, s2)"
  shows "level_wf limit least shift wf (m1\<lparr>sbm_segments := s1\<rparr>)"
    "level_wf limit least shift wf (m2\<lparr>sbm_segments := s2\<rparr>)"
    "m < limit \<Longrightarrow> level_test shift test (m1\<lparr>sbm_segments := s1\<rparr>) m =
      slot_test test (if m div 2 ^ shift < n
        then fst (f (sbm_segments m1 ! (m div 2 ^ shift)) (sbm_segments m2 ! (m div 2 ^ shift)))
        else if m div 2 ^ shift < sbm_count m1 then sbm_segments m1 ! (m div 2 ^ shift) else None)
        (m mod 2 ^ shift)"
proof -
  have len: "n \<le> length (sbm_segments m1)" "n \<le> length (sbm_segments m2)"
    "n \<le> sbm_count m1" "n \<le> sbm_count m2"
    using w n by (auto simp: level_wf_def)
  have nth: "length s1 = length (sbm_segments m1)" "length s2 = length (sbm_segments m2)"
    "s1 ! i = (if i < n then fst (f (sbm_segments m1 ! i) (sbm_segments m2 ! i)) else sbm_segments m1 ! i)"
    "s2 ! i = (if i < n then snd (f (sbm_segments m1 ! i) (sbm_segments m2 ! i)) else sbm_segments m2 ! i)" for i
    using slots_loop_nth [OF r len(1,2)] by (metis fst_conv snd_conv)+
  have slots: "slot_wf wf (sbm_segments m1 ! i)" "slot_wf wf (sbm_segments m2 ! i)" if "i < n" for i
    using w len that by (simp_all add: wf_slots)
  show w1: "level_wf limit least shift wf (m1\<lparr>sbm_segments := s1\<rparr>)"
  proof (rule wf_update [OF w(1) p(1) nth(1)])
    fix i assume i: "i < sbm_count m1"
    show "slot_wf wf (s1 ! i) \<and> (s1 ! i \<noteq> None \<longrightarrow> i \<le> sbm_high_water m1)"
      using slots [of i] f w(1) i n(1) by (cases "i < n") (simp_all add: nth wf_slots)
  qed
  show "level_wf limit least shift wf (m2\<lparr>sbm_segments := s2\<rparr>)"
  proof (rule wf_update [OF w(2) p(2) nth(2)])
    fix i assume i: "i < sbm_count m2"
    show "slot_wf wf (s2 ! i) \<and> (s2 ! i \<noteq> None \<longrightarrow> i \<le> sbm_high_water m2)"
      using slots [of i] f w(2) i n(2) by (cases "i < n") (simp_all add: nth wf_slots)
  qed
  assume "m < limit"
  then show "level_test shift test (m1\<lparr>sbm_segments := s1\<rparr>) m =
      slot_test test (if m div 2 ^ shift < n
        then fst (f (sbm_segments m1 ! (m div 2 ^ shift)) (sbm_segments m2 ! (m div 2 ^ shift)))
        else if m div 2 ^ shift < sbm_count m1 then sbm_segments m1 ! (m div 2 ^ shift) else None)
        (m mod 2 ^ shift)"
    using test_holds [OF w1] p len by (auto simp: nth)
qed

end

text \<open>Operations on two slots that give the first the intersection or the union.\<close>

locale level_sets = level +
  fixes meet :: "'a option \<Rightarrow> 'a option \<Rightarrow> 'a option \<times> 'a option"
    and join :: "'a option \<Rightarrow> 'a option \<Rightarrow> ('a option \<times> 'a option) option"
    and add :: "'a sbm option \<Rightarrow> nat \<Rightarrow> 'a sbm option option"
  assumes meet: "slot_wf wf x \<Longrightarrow> slot_wf wf y \<Longrightarrow>
      slot_wf wf (fst (meet x y)) \<and> slot_wf wf (snd (meet x y)) \<and>
      (\<forall>n < 2 ^ shift. slot_test test (fst (meet x y)) n \<longleftrightarrow> slot_test test x n \<and> slot_test test y n)"
    and join: "slot_wf wf x \<Longrightarrow> slot_wf wf y \<Longrightarrow> \<exists>x' y'. join x y = Some (x', y') \<and>
      slot_wf wf x' \<and> slot_wf wf y' \<and>
      (\<forall>n < 2 ^ shift. slot_test test x' n \<longleftrightarrow> slot_test test x n \<or> slot_test test y n)"
    and add: "level_wf limit least shift wf v \<Longrightarrow> n < limit \<Longrightarrow> \<exists>v'. add (Some v) n = Some (Some v') \<and>
      level_wf limit least shift wf v' \<and>
      (\<forall>m < limit. level_test shift test v' m \<longleftrightarrow> m = n \<or> level_test shift test v m)"
begin

lemma meet_plural:
  assumes w: "level_wf limit least shift wf m1" "level_wf limit least shift wf m2"
    and p: "sbm_state m1 = SBM_PLURAL" "sbm_state m2 = SBM_PLURAL"
    and n: "sbm_high_water m1 \<le> sbm_high_water m2"
    and r: "slots_loop (sbm_high_water m1 + 1) meet (sbm_segments m1) (sbm_segments m2) = (s1, s2)"
  shows "level_wf limit least shift wf (m1\<lparr>sbm_segments := s1\<rparr>)"
    "level_wf limit least shift wf (m2\<lparr>sbm_segments := s2\<rparr>)"
    "m < limit \<Longrightarrow> level_test shift test (m1\<lparr>sbm_segments := s1\<rparr>) m \<longleftrightarrow>
      level_test shift test m1 m \<and> level_test shift test m2 m"
proof -
  note c = combine [OF w p _ _ _ r]
  show "level_wf limit least shift wf (m1\<lparr>sbm_segments := s1\<rparr>)"
    "level_wf limit least shift wf (m2\<lparr>sbm_segments := s2\<rparr>)"
    using c(1,2) meet n by auto
  assume m: "m < limit"
  have slots: "slot_wf wf (sbm_segments m1 ! i)" "slot_wf wf (sbm_segments m2 ! i)"
      "i < sbm_count m1" "i < sbm_count m2"
    if "i < sbm_high_water m1 + 1" for i
    using w n that by (auto simp: wf_slots)
  have "sbm_segments m1 ! i = None" if "\<not> i < sbm_high_water m1 + 1" "i < sbm_count m1" for i
    using w(1) that by (auto simp: wf_slots)
  then show "level_test shift test (m1\<lparr>sbm_segments := s1\<rparr>) m \<longleftrightarrow>
      level_test shift test m1 m \<and> level_test shift test m2 m"
    using c(3) [OF _ _ _ m] n meet slots [of "m div 2 ^ shift"] test_holds [OF w(1) p(1) m]
      test_holds [OF w(2) p(2) m]
    by (cases "m div 2 ^ shift < sbm_high_water m1 + 1") auto
qed

lemma meet_level:
  assumes "slot_wf (level_wf limit least shift wf) b1" "slot_wf (level_wf limit least shift wf) b2"
    and "level_and (level_test shift test) meet b1 b2 = (c, b1', b2')"
  shows "slot_wf (level_wf limit least shift wf) b1' \<and> slot_wf (level_wf limit least shift wf) b2' \<and>
    (\<forall>m < limit. slot_test (level_test shift test) (case c of None \<Rightarrow> None | Some w \<Rightarrow> the_chosen w b1' b2') m \<longleftrightarrow>
       slot_test (level_test shift test) b1 m \<and> slot_test (level_test shift test) b2 m)"
proof (cases "\<exists>m1 m2. b1 = Some m1 \<and> b2 = Some m2 \<and> sbm_state m1 = SBM_PLURAL \<and> sbm_state m2 = SBM_PLURAL")
  case False
  then show ?thesis
    using assms
    by (cases b1; cases b2)
      (auto simp: level_and_def the_chosen_def level_states split: if_splits dest!: not_plural)
next
  case True
  then obtain m1 m2 where m: "b1 = Some m1" "b2 = Some m2" "sbm_state m1 = SBM_PLURAL" "sbm_state m2 = SBM_PLURAL"
    by blast
  then have w: "level_wf limit least shift wf m1" "level_wf limit least shift wf m2" using assms by auto
  show ?thesis
  proof (cases "sbm_high_water m2 < sbm_high_water m1")
    case True
    obtain s2 s1 where r: "slots_loop (sbm_high_water m2 + 1) meet (sbm_segments m2) (sbm_segments m1) = (s2, s1)"
      by fastforce
    show ?thesis
      using meet_plural [OF w(2,1) m(4,3) _ r] True assms(3) m r
      by (auto simp: level_and_def the_chosen_def)
  next
    case False
    obtain s1 s2 where r: "slots_loop (sbm_high_water m1 + 1) meet (sbm_segments m1) (sbm_segments m2) = (s1, s2)"
      by fastforce
    show ?thesis
      using meet_plural [OF w m(3,4) _ r] False assms(3) m r
      by (auto simp: level_and_def the_chosen_def)
  qed
qed

abbreviation joined :: "'a option \<Rightarrow> 'a option \<Rightarrow> 'a option \<times> 'a option" where
  "joined x y \<equiv> (if slot_wf wf x \<and> slot_wf wf y then the (join x y) else (x, y))"

lemma join_plural:
  assumes w: "level_wf limit least shift wf m1" "level_wf limit least shift wf m2"
    and p: "sbm_state m1 = SBM_PLURAL" "sbm_state m2 = SBM_PLURAL"
    and n: "sbm_high_water m2 \<le> sbm_high_water m1"
  shows "\<exists>s1 s2. slots_loop_opt (sbm_high_water m2 + 1) join (sbm_segments m1) (sbm_segments m2) = Some (s1, s2) \<and>
    level_wf limit least shift wf (m1\<lparr>sbm_segments := s1\<rparr>) \<and>
    level_wf limit least shift wf (m2\<lparr>sbm_segments := s2\<rparr>) \<and>
    (\<forall>m < limit. level_test shift test (m1\<lparr>sbm_segments := s1\<rparr>) m \<longleftrightarrow>
      level_test shift test m1 m \<or> level_test shift test m2 m)"
proof -
  let ?n = "sbm_high_water m2 + 1"
  have slots: "slot_wf wf (sbm_segments m1 ! i)" "slot_wf wf (sbm_segments m2 ! i)"
      "i < sbm_count m1" "i < sbm_count m2" if "i < ?n" for i
    using w n that by (auto simp: wf_slots)
  have none: "sbm_segments m2 ! i = None" if "\<not> i < ?n" "i < sbm_count m2" for i
    using w(2) that by (auto simp: wf_slots)
  obtain s1 s2 where r: "slots_loop ?n joined (sbm_segments m1) (sbm_segments m2) = (s1, s2)"
    by fastforce
  have "slots_loop_opt ?n join (sbm_segments m1) (sbm_segments m2) = Some (s1, s2)"
    unfolding r [symmetric]
  proof (rule slots_loop_opt_eq)
    show "join (sbm_segments m1 ! i) (sbm_segments m2 ! i) = Some (joined (sbm_segments m1 ! i) (sbm_segments m2 ! i))"
      if "i < ?n" for i using join [OF slots(1,2) [OF that]] slots(1,2) [OF that] by auto
  qed (use w n in \<open>auto simp: wf_slots\<close>)
  moreover have j: "slot_wf wf (fst (joined x y)) \<and> slot_wf wf (snd (joined x y))"
    if "slot_wf wf x" "slot_wf wf y" for x y
    using join [OF that] that by auto
  note c = combine [OF w p _ _ _ r]
  have "level_wf limit least shift wf (m1\<lparr>sbm_segments := s1\<rparr>)"
    "level_wf limit least shift wf (m2\<lparr>sbm_segments := s2\<rparr>)"
    using c(1,2) n j by auto
  moreover have "level_test shift test (m1\<lparr>sbm_segments := s1\<rparr>) m \<longleftrightarrow>
      level_test shift test m1 m \<or> level_test shift test m2 m" if m: "m < limit" for m
  proof (cases "m div 2 ^ shift < ?n")
    case True
    note s = slots [OF True]
    obtain x' y' where jj: "join (sbm_segments m1 ! (m div 2 ^ shift)) (sbm_segments m2 ! (m div 2 ^ shift)) = Some (x', y')"
      "\<forall>k < 2 ^ shift. slot_test test x' k \<longleftrightarrow> slot_test test (sbm_segments m1 ! (m div 2 ^ shift)) k \<or>
         slot_test test (sbm_segments m2 ! (m div 2 ^ shift)) k"
      using join [OF s(1,2)] by blast
    show ?thesis
      using c(3) [OF _ _ _ m] n j True s jj test_holds [OF w(1) p(1) m] test_holds [OF w(2) p(2) m] by simp
  next
    case False
    then show ?thesis
      using c(3) [OF _ _ _ m] n j none [OF False] test_holds [OF w(1) p(1) m] test_holds [OF w(2) p(2) m] by auto
  qed
  ultimately show ?thesis by blast
qed

lemma join_level:
  assumes "slot_wf (level_wf limit least shift wf) b1" "slot_wf (level_wf limit least shift wf) b2"
  shows "\<exists>c b1' b2'. level_or add join b1 b2 = Some (c, b1', b2') \<and>
    slot_wf (level_wf limit least shift wf) b1' \<and> slot_wf (level_wf limit least shift wf) b2' \<and>
    (\<forall>m < limit. slot_test (level_test shift test) (the_chosen c b1' b2') m \<longleftrightarrow>
       slot_test (level_test shift test) b1 m \<or> slot_test (level_test shift test) b2 m)"
proof (cases "\<exists>m1 m2. b1 = Some m1 \<and> b2 = Some m2 \<and> sbm_state m1 \<noteq> SBM_EMPTY \<and> sbm_state m2 \<noteq> SBM_EMPTY")
  case False
  then show ?thesis
    using assms by (auto simp: level_or_def the_chosen_def level_test_def split: option.splits)
next
  case True
  then obtain m1 m2 where m: "b1 = Some m1" "b2 = Some m2" "sbm_state m1 \<noteq> SBM_EMPTY" "sbm_state m2 \<noteq> SBM_EMPTY"
    by blast
  then have w: "level_wf limit least shift wf m1" "level_wf limit least shift wf m2" using assms by auto
  show ?thesis
  proof (cases "sbm_state m1 = SBM_SINGULAR")
    case True
    then have "sbm_number m1 < limit" using w(1) by (simp add: level_wf_def)
    then show ?thesis using add [OF w(2)] True m w by (fastforce simp: level_or_def the_chosen_def level_test_def)
  next
    case p1: False
    show ?thesis
    proof (cases "sbm_state m2 = SBM_SINGULAR")
      case True
      then have "sbm_number m2 < limit" using w(2) by (simp add: level_wf_def)
      then show ?thesis
        using add [OF w(1)] True p1 m w by (fastforce simp: level_or_def the_chosen_def level_test_def)
    next
      case False
      then have p: "sbm_state m1 = SBM_PLURAL" "sbm_state m2 = SBM_PLURAL"
        using m p1 by (metis sbm_state.exhaust)+
      show ?thesis
      proof (cases "sbm_high_water m1 < sbm_high_water m2")
        case True
        then show ?thesis
          using join_plural [OF w(2,1) p(2,1)] m p by (auto simp: level_or_def the_chosen_def)
      next
        case False
        then show ?thesis
          using join_plural [OF w p] m p by (auto simp: level_or_def the_chosen_def)
      qed
    qed
  qed
qed

end

section \<open>Intersection and union of bitmaps\<close>

lemma bms_test_map2:
  assumes "n < 1024" "bms_wf s" "bms_wf t"
  shows "bms_test (s\<lparr>bms_bits := map2 (\<lambda>a b. a AND b) (bms_bits s) (bms_bits t)\<rparr>) n \<longleftrightarrow> bms_test s n \<and> bms_test t n"
    "bms_test (s\<lparr>bms_bits := map2 (\<lambda>a b. a OR b) (bms_bits s) (bms_bits t)\<rparr>) n \<longleftrightarrow> bms_test s n \<or> bms_test t n"
  using assms bunch_bit_of [of n] by (auto simp: bms_test_bit bms_wf_def bit_and_iff bit_or_iff)

lemma segment_and_ok:
  assumes "slot_wf bms_wf x" "slot_wf bms_wf y"
  shows "slot_wf bms_wf (fst (segment_and x y)) \<and> slot_wf bms_wf (snd (segment_and x y)) \<and>
    (\<forall>n < 2 ^ SEGMENT_BITS. slot_test bms_test (fst (segment_and x y)) n \<longleftrightarrow>
       slot_test bms_test x n \<and> slot_test bms_test y n)"
  using assms bms_test_map2(1)
  by (cases x; cases y) (auto simp: segment_and_def SEGMENT_BITS_def bms_wf_def)

lemma segment_or_ok:
  assumes "slot_wf bms_wf x" "slot_wf bms_wf y"
  shows "\<exists>x' y'. segment_or x y = Some (x', y') \<and> slot_wf bms_wf x' \<and> slot_wf bms_wf y' \<and>
    (\<forall>n < 2 ^ SEGMENT_BITS. slot_test bms_test x' n \<longleftrightarrow> slot_test bms_test x n \<or> slot_test bms_test y n)"
  using assms bms_test_map2(2)
  by (cases x; cases y) (auto simp: segment_or_def SEGMENT_BITS_def bms_wf_def)

interpretation bucket_sets: level_sets SEGMENT_BITS bms_wf bms_test "\<lambda>s r. Some (bms_set s r)" bms_clear
  "2 ^ BUCKET_BITS" BUNCH_BUCKET clear_segment "\<lambda>v slot. Some v" segment_and segment_or bucket_add
proof unfold_locales
  show "\<exists>v'. bucket_add (Some v) n = Some (Some v') \<and>
      level_wf (2 ^ BUCKET_BITS) BUNCH_BUCKET SEGMENT_BITS bms_wf v' \<and>
      (\<forall>m<2 ^ BUCKET_BITS. level_test SEGMENT_BITS bms_test v' m = (m = n \<or> level_test SEGMENT_BITS bms_test v m))"
    if "level_wf (2 ^ BUCKET_BITS) BUNCH_BUCKET SEGMENT_BITS bms_wf v" "n < 2 ^ BUCKET_BITS" for v and n :: nat
    using bucket.put_ok [of v n] that by (auto simp: bucket_add_def bucket_wf_def bucket_test_def)
qed (rule segment_and_ok segment_or_ok, assumption+)+

lemma slot_and_ok:
  assumes "slot_wf bucket_wf x" "slot_wf bucket_wf y"
  shows "slot_wf bucket_wf (fst (slot_and x y)) \<and> slot_wf bucket_wf (snd (slot_and x y)) \<and>
    (\<forall>n < 2 ^ BUCKET_BITS. slot_test bucket_test (fst (slot_and x y)) n \<longleftrightarrow>
       slot_test bucket_test x n \<and> slot_test bucket_test y n)"
proof (cases x; cases y)
  fix v w assume x: "x = Some v" and y: "y = Some w"
  obtain c s1 s2 where r: "bucket_and x y = (c, s1, s2)" by (metis prod_cases3)
  then have "slot_wf bucket_wf s1 \<and> slot_wf bucket_wf s2 \<and>
      (\<forall>m < 2 ^ BUCKET_BITS. slot_test bucket_test (case c of None \<Rightarrow> None | Some w \<Rightarrow> the_chosen w s1 s2) m \<longleftrightarrow>
       slot_test bucket_test x m \<and> slot_test bucket_test y m)"
    using bucket_sets.meet_level [of x y c s1 s2] assms
    by (simp add: bucket_and_def bucket_test_def bucket_wf_def)
  then show ?thesis
    using r x y by (auto simp: slot_and_def the_chosen_def split: option.splits chosen.splits)
qed (use assms in \<open>auto simp: slot_and_def\<close>)

lemma slot_or_ok:
  assumes "slot_wf bucket_wf x" "slot_wf bucket_wf y"
  shows "\<exists>x' y'. slot_or x y = Some (x', y') \<and> slot_wf bucket_wf x' \<and> slot_wf bucket_wf y' \<and>
    (\<forall>n < 2 ^ BUCKET_BITS. slot_test bucket_test x' n \<longleftrightarrow> slot_test bucket_test x n \<or> slot_test bucket_test y n)"
proof (cases x; cases y)
  fix v w assume x: "x = Some v" and y: "y = Some w"
  obtain c s1 s2 where "bucket_or x y = Some (c, s1, s2)" "slot_wf bucket_wf s1" "slot_wf bucket_wf s2"
      "\<forall>m < 2 ^ BUCKET_BITS. slot_test bucket_test (the_chosen c s1 s2) m \<longleftrightarrow>
       slot_test bucket_test x m \<or> slot_test bucket_test y m"
    using bucket_sets.join_level [of x y] assms
    unfolding bucket_or_def bucket_wf_def bucket_test_def by blast
  then show ?thesis
    using x y by (cases c) (auto simp: slot_or_def the_chosen_def)
qed (use assms in \<open>auto simp: slot_or_def\<close>)

interpretation root_sets: level_sets BUCKET_BITS bucket_wf bucket_test bucket_set bucket_clear
  ROOT_LIMIT 1 clear_bucket "grow (root_tail max_tail)" slot_and slot_or "SBM_set (root_tail max_tail)"
proof unfold_locales
  show "\<exists>v'. SBM_set (root_tail max_tail) (Some v) n = Some (Some v') \<and>
      level_wf ROOT_LIMIT 1 BUCKET_BITS bucket_wf v' \<and>
      (\<forall>m<ROOT_LIMIT. level_test BUCKET_BITS bucket_test v' m = (m = n \<or> level_test BUCKET_BITS bucket_test v m))"
    if "level_wf ROOT_LIMIT 1 BUCKET_BITS bucket_wf v" "n < ROOT_LIMIT" for v n
    using root.put_ok [of v n max_tail] that by (auto simp: SBM_set_def root_wf_def root_set_def)
qed (rule slot_and_ok slot_or_ok, assumption+)+

lemma sbm_wf_slot: "sbm_wf b = slot_wf root_wf b"
  by (simp add: sbm_wf_def slot_wf_def)

lemma members_slot: "members b = {n. n < ROOT_LIMIT \<and> slot_test (level_test BUCKET_BITS bucket_test) b n}"
  by (simp add: members_def SBM_test_def slot_test_def cong: option.case_cong)

text \<open>C9. \<open>SBM_and\<close> and \<open>SBM_or\<close> return on every two well-formed bitmaps and leave both well-formed. The
  bitmap they choose holds the intersection, or the union, of the two sets; \<open>SBM_and\<close> chooses none only
  when the sets are disjoint.\<close>

theorem sbm_and_or:
  assumes "sbm_wf b1" "sbm_wf b2" "0 < sizeof_pointer"
  shows "(\<exists>c b1' b2'. SBM_and b1 b2 = (c, b1', b2') \<and> sbm_wf b1' \<and> sbm_wf b2' \<and>
      (case c of None \<Rightarrow> members b1 \<inter> members b2 = {}
       | Some w \<Rightarrow> members (the_chosen w b1' b2') = members b1 \<inter> members b2)) \<and>
    (\<exists>c b1' b2'. SBM_or (SBM_max_tail_of sizeof_sbm sizeof_pointer) b1 b2 = Some (c, b1', b2') \<and>
      sbm_wf b1' \<and> sbm_wf b2' \<and> members (the_chosen c b1' b2') = members b1 \<union> members b2)"
proof
  obtain c b1' b2' where r: "SBM_and b1 b2 = (c, b1', b2')" by (metis prod_cases3)
  then show "\<exists>c b1' b2'. SBM_and b1 b2 = (c, b1', b2') \<and> sbm_wf b1' \<and> sbm_wf b2' \<and>
      (case c of None \<Rightarrow> members b1 \<inter> members b2 = {}
       | Some w \<Rightarrow> members (the_chosen w b1' b2') = members b1 \<inter> members b2)"
    using root_sets.meet_level [of b1 b2 c b1' b2'] assms
    by (auto simp: SBM_and_def sbm_wf_slot members_slot root_wf_def split: option.splits)
  show "\<exists>c b1' b2'. SBM_or (SBM_max_tail_of sizeof_sbm sizeof_pointer) b1 b2 = Some (c, b1', b2') \<and>
      sbm_wf b1' \<and> sbm_wf b2' \<and> members (the_chosen c b1' b2') = members b1 \<union> members b2"
    using root_sets.join_level [of b1 b2 "SBM_max_tail_of sizeof_sbm sizeof_pointer"] assms
    unfolding max_tail_bound [OF assms(3)]
    by (fastforce simp: SBM_or_def sbm_wf_slot members_slot root_wf_def)
qed

theorem sbm_and_or_witness:
  "sbm_wf (Some \<lparr>sbm_state = SBM_SINGULAR, sbm_count = 5, sbm_used = 0, sbm_high_water = 0, sbm_number = 7,
      sbm_segments = replicate 5 None\<rparr>) \<and>
   (\<exists>c b1' b2'. SBM_or (SBM_max_tail_of 40 4) (Some \<lparr>sbm_state = SBM_SINGULAR, sbm_count = 5, sbm_used = 0,
      sbm_high_water = 0, sbm_number = 7, sbm_segments = replicate 5 None\<rparr>) None = Some (c, b1', b2') \<and>
      sbm_wf b1' \<and> members (the_chosen c b1' b2') = {7})"
proof -
  let ?b = "Some \<lparr>sbm_state = SBM_SINGULAR, sbm_count = 5, sbm_used = 0, sbm_high_water = 0, sbm_number = 7,
      sbm_segments = replicate 5 None\<rparr> :: bitmap"
  have w: "sbm_wf ?b" "sbm_wf None"
    by (auto simp: sbm_wf_def root_wf_def level_wf_def ROOT_LIMIT_def BUCKET_BITS_def)
  have m: "members ?b = {7}" "members None = {}"
    by (auto simp: members_def SBM_test_def level_test_def ROOT_LIMIT_def BUCKET_BITS_def)
  show ?thesis using sbm_and_or [OF w, of 4 40] m w by auto
qed

end
