(* ===== verification/Sbm_Next.thy ===== *)
theory Sbm_Next
  imports Sbm
begin

text \<open>
  \<open>SBM_next\<close> and \<open>SBM_equal\<close> of \<open>jrd/sbm.cpp\<close>: walking a bitmap forwards and backwards. A forward walk
  that finds a block empty from its beginning releases it, so the bitmap is part of the result.
  \<open>PC_ENGINE\<close>, under which a third mode has a meaning, is defined by no build.
\<close>

section \<open>Walking a bucket\<close>

datatype rse_get_mode = RSE_get_forward | RSE_get_backward

text \<open>\<open>for (; bit < BITS_BUNCH; bit++) if (test & (1 << bit))\<close> and the same downwards.\<close>

function bits_up :: "bunch \<Rightarrow> nat \<Rightarrow> nat option" where
  "bits_up test b =
     (if b < BITS_BUNCH
      then (if test AND push_bit b 1 \<noteq> 0 then Some b else bits_up test (b + 1))
      else None)"
  by auto
termination by (relation "measure (\<lambda>(test, b). BITS_BUNCH - b)") auto

fun bits_down :: "bunch \<Rightarrow> nat \<Rightarrow> nat option" where
  "bits_down test b =
     (if test AND push_bit b 1 \<noteq> 0 then Some b
      else case b of 0 \<Rightarrow> None | Suc b' \<Rightarrow> bits_down test b')"

declare bits_up.simps [simp del] bits_down.simps [simp del]

text \<open>The loops over the words of a segment; the result is \<open>(bunch << BUNCH_BITS) + bit\<close>.\<close>

function segment_up :: "bunch list \<Rightarrow> nat \<Rightarrow> nat \<Rightarrow> nat option" where
  "segment_up bits u b =
     (if u < BUNCH_SEGMENT
      then
        case (if bits ! u \<noteq> 0 then bits_up (bits ! u) b else None) of
          Some b' \<Rightarrow> Some (u * 2 ^ BUNCH_BITS + b')
        | None \<Rightarrow> segment_up bits (u + 1) 0
      else None)"
  by auto
termination by (relation "measure (\<lambda>(bits, u, b). BUNCH_SEGMENT - u)") auto

fun segment_down :: "bunch list \<Rightarrow> nat \<Rightarrow> nat \<Rightarrow> nat option" where
  "segment_down bits u b =
     (case (if bits ! u \<noteq> 0 then bits_down (bits ! u) b else None) of
        Some b' \<Rightarrow> Some (u * 2 ^ BUNCH_BITS + b')
      | None \<Rightarrow> (case u of 0 \<Rightarrow> None | Suc u' \<Rightarrow> segment_down bits u' (BITS_BUNCH - 1)))"

declare segment_up.simps [simp del] segment_down.simps [simp del]

text \<open>
  Releasing the block of a slot: \<open>sbm_used\<close> and, for the slot at the high-water mark, the search
  for the new mark downwards.
\<close>

fun lower_mark :: "'a option list \<Rightarrow> nat \<Rightarrow> nat" where
  "lower_mark segs 0 = 0"
| "lower_mark segs (Suc n) = (if segs ! Suc n \<noteq> None then Suc n else lower_mark segs n)"

definition release_slot :: "'a sbm \<Rightarrow> nat \<Rightarrow> 'a sbm" where
  "release_slot v slot =
     (let segs = (sbm_segments v)[slot := None] in
      v\<lparr>sbm_segments := segs, sbm_used := ushort_sub (sbm_used v) 1,
        sbm_high_water := if slot = sbm_high_water v then lower_mark segs slot else sbm_high_water v\<rparr>)"

text \<open>
  The forward walk over the slots of a bucket from \<open>slot\<close> on; \<open>gc\<close> is \<open>garbage_collect\<close>. When the slot at
  the high-water mark is released the walk is over: \<open>slot\<close> goes back to the new mark, and the
  \<open>slot++\<close> of the loop carries it past that.
\<close>

function bucket_up :: "bucket \<Rightarrow> nat \<Rightarrow> nat \<Rightarrow> nat \<Rightarrow> bool \<Rightarrow> nat option \<times> bucket" where
  "bucket_up v slot u b gc =
     (if sbm_high_water v < slot then (None, v)
      else
        case sbm_segments v ! slot of
          None \<Rightarrow> bucket_up v (slot + 1) 0 0 True
        | Some segment \<Rightarrow>
            case segment_up (bms_bits segment) u b of
              Some r \<Rightarrow> (Some (slot * 2 ^ SEGMENT_BITS + r), v)
            | None \<Rightarrow>
                if gc
                then (let v' = release_slot v slot in
                      if slot = sbm_high_water v then (None, v')
                      else bucket_up v' (slot + 1) 0 0 True)
                else bucket_up v (slot + 1) 0 0 True)"
  by auto
termination
  by (relation "measure (\<lambda>(v, slot, u, b, gc). sbm_high_water v + 1 - slot)") (auto simp: release_slot_def Let_def)

fun bucket_down :: "bucket \<Rightarrow> nat \<Rightarrow> nat \<Rightarrow> nat \<Rightarrow> nat option" where
  "bucket_down v slot u b =
     (case (case sbm_segments v ! slot of None \<Rightarrow> None | Some segment \<Rightarrow> segment_down (bms_bits segment) u b) of
        Some r \<Rightarrow> Some (slot * 2 ^ SEGMENT_BITS + r)
      | None \<Rightarrow>
          (case slot of
             0 \<Rightarrow> None
           | Suc slot' \<Rightarrow> bucket_down v slot' (BUNCH_SEGMENT - 1) (BITS_BUNCH - 1)))"

declare bucket_up.simps [simp del] bucket_down.simps [simp del]

text \<open>What both levels do when they hold one number.\<close>

definition singular_next :: "int \<Rightarrow> int \<Rightarrow> rse_get_mode \<Rightarrow> bool" where
  "singular_next held number mode =
     (case mode of
        RSE_get_forward \<Rightarrow> \<not> held \<le> number
      | RSE_get_backward \<Rightarrow> \<not> (number \<le> held \<and> number \<noteq> -1))"

text \<open>\<open>SBM_next\<close> on a bucket; \<open>-1\<close> asks for the first or the last number.\<close>

definition bucket_next :: "bucket \<Rightarrow> int \<Rightarrow> rse_get_mode \<Rightarrow> nat option \<times> bucket" where
  "bucket_next v number mode =
     (case sbm_state v of
        SBM_EMPTY \<Rightarrow> (None, v)
      | SBM_SINGULAR \<Rightarrow>
          (if singular_next (int (sbm_number v)) number mode then Some (sbm_number v) else None, v)
      | SBM_PLURAL \<Rightarrow>
          let number = (if number = -1
                then (case mode of
                        RSE_get_forward \<Rightarrow> 0
                      | RSE_get_backward \<Rightarrow> sbm_high_water v * 2 ^ SEGMENT_BITS + BITS_SEGMENT - 1)
                else nat number);
              slot = number div 2 ^ SEGMENT_BITS;
              relative = number mod 2 ^ SEGMENT_BITS in
          case mode of
            RSE_get_forward \<Rightarrow>
              bucket_up v slot (bunch_of relative) (bit_of relative) (bunch_of relative = 0 \<and> bit_of relative = 0)
          | RSE_get_backward \<Rightarrow> (bucket_down v slot (bunch_of relative) (bit_of relative), v))"

section \<open>Walking the root\<close>

function root_up :: "root \<Rightarrow> nat \<Rightarrow> int \<Rightarrow> bool \<Rightarrow> nat option \<times> root" where
  "root_up v slot relative gc =
     (if sbm_high_water v < slot then (None, v)
      else
        case sbm_segments v ! slot of
          None \<Rightarrow> root_up v (slot + 1) (-1) True
        | Some bucket \<Rightarrow>
            case bucket_next bucket relative RSE_get_forward of
              (Some r, bucket') \<Rightarrow>
                (Some (slot * 2 ^ BUCKET_BITS + r), v\<lparr>sbm_segments := (sbm_segments v)[slot := Some bucket']\<rparr>)
            | (None, bucket') \<Rightarrow>
                if gc
                then (let v' = release_slot v slot in
                      if slot = sbm_high_water v then (None, v')
                      else root_up v' (slot + 1) (-1) True)
                else root_up (v\<lparr>sbm_segments := (sbm_segments v)[slot := Some bucket']\<rparr>) (slot + 1) (-1) True)"
  by auto
termination
  by (relation "measure (\<lambda>(v, slot, relative, gc). sbm_high_water v + 1 - slot)")
    (auto simp: release_slot_def Let_def)

fun root_down :: "root \<Rightarrow> nat \<Rightarrow> int \<Rightarrow> nat option" where
  "root_down v slot relative =
     (case (case (if sbm_high_water v < slot then None else sbm_segments v ! slot) of
              None \<Rightarrow> None
            | Some bucket \<Rightarrow> fst (bucket_next bucket relative RSE_get_backward)) of
        Some r \<Rightarrow> Some (slot * 2 ^ BUCKET_BITS + r)
      | None \<Rightarrow>
          if sbm_high_water v < slot then None
          else (case slot of 0 \<Rightarrow> None | Suc slot' \<Rightarrow> root_down v slot' (-1)))"

declare root_up.simps [simp del] root_down.simps [simp del]

text \<open>\<open>SBM_next\<close>: the number found, if any, and the bitmap afterwards. \<open>number\<close> is \<open>-1\<close> or a record number.\<close>

definition SBM_next :: "bitmap \<Rightarrow> int \<Rightarrow> rse_get_mode \<Rightarrow> nat option \<times> bitmap" where
  "SBM_next b number mode =
     (case b of
        None \<Rightarrow> (None, None)
      | Some v \<Rightarrow>
          (case sbm_state v of
             SBM_EMPTY \<Rightarrow> (None, b)
           | SBM_SINGULAR \<Rightarrow>
               (if singular_next (int (sbm_number v)) number mode then Some (sbm_number v) else None, b)
           | SBM_PLURAL \<Rightarrow>
               case mode of
                 RSE_get_forward \<Rightarrow>
                   (let number = nat (number + 1);
                        relative = number mod 2 ^ BUCKET_BITS;
                        relative = (if relative = 0 then -1 else int relative)
                    in map_prod id Some (root_up v (number div 2 ^ BUCKET_BITS) relative (relative = -1)))
               | RSE_get_backward \<Rightarrow>
                   if number = 0 then (None, b)
                   else if number = -1 then (root_down v (sbm_high_water v) (-1), b)
                   else
                     (let number = nat (number - 1)
                      in (root_down v (number div 2 ^ BUCKET_BITS) (int (number mod 2 ^ BUCKET_BITS)), b))))"

text \<open>
  \<open>SBM_equal\<close>: the last numbers are compared, then the numbers in ascending order. The loop is
  unbounded in the code.
\<close>

partial_function (option) equal_loop :: "bitmap \<Rightarrow> bitmap \<Rightarrow> int \<Rightarrow> int \<Rightarrow> (bool \<times> bitmap \<times> bitmap) option" where
  "equal_loop b1 b2 bit1 bit2 =
     (case SBM_next b1 bit1 RSE_get_forward of
        (r1, b1') \<Rightarrow>
          case SBM_next b2 bit2 RSE_get_forward of
            (r2, b2') \<Rightarrow>
              case (r1, r2) of
                (None, None) \<Rightarrow> Some (True, b1', b2')
              | (Some n1, Some n2) \<Rightarrow>
                  if n1 \<noteq> n2 then Some (False, b1', b2')
                  else equal_loop b1' b2' (int n1) (int n2)
              | _ \<Rightarrow> Some (False, b1', b2'))"

definition SBM_equal :: "bitmap \<Rightarrow> bitmap \<Rightarrow> (bool \<times> bitmap \<times> bitmap) option" where
  "SBM_equal b1 b2 =
     (if fst (SBM_next b1 (-1) RSE_get_backward) \<noteq> fst (SBM_next b2 (-1) RSE_get_backward)
      then Some (False, b1, b2)
      else equal_loop b1 b2 (-1) (-1))"

section \<open>The first and the last number in a range\<close>

definition least_in :: "(nat \<Rightarrow> bool) \<Rightarrow> nat \<Rightarrow> nat \<Rightarrow> nat option \<Rightarrow> bool" where
  "least_in P lo hi r =
     (case r of
        None \<Rightarrow> \<forall>m. lo \<le> m \<and> m < hi \<longrightarrow> \<not> P m
      | Some n \<Rightarrow> lo \<le> n \<and> n < hi \<and> P n \<and> (\<forall>m. lo \<le> m \<and> m < n \<longrightarrow> \<not> P m))"

definition last_below :: "(nat \<Rightarrow> bool) \<Rightarrow> nat \<Rightarrow> nat option \<Rightarrow> bool" where
  "last_below P hi r =
     (case r of
        None \<Rightarrow> \<forall>m < hi. \<not> P m
      | Some n \<Rightarrow> n < hi \<and> P n \<and> (\<forall>m. n < m \<and> m < hi \<longrightarrow> \<not> P m))"

lemma least_in_append:
  "least_in P lo mid None \<Longrightarrow> mid \<le> hi \<Longrightarrow> least_in P mid hi r \<Longrightarrow> lo \<le> mid \<Longrightarrow> least_in P lo hi r"
  unfolding least_in_def by (cases r) (simp, metis leI, simp, metis leI le_trans)

lemma least_in_extend:
  "least_in P lo mid (Some n) \<Longrightarrow> mid \<le> hi \<Longrightarrow> least_in P lo hi (Some n)"
  unfolding least_in_def by simp

lemma least_in_empty [simp]: "hi \<le> lo \<Longrightarrow> least_in P lo hi None"
  by (auto simp: least_in_def)

lemma least_in_cong:
  "(\<And>m. lo \<le> m \<Longrightarrow> m < hi \<Longrightarrow> P m = Q m) \<Longrightarrow> least_in P lo hi r = least_in Q lo hi r"
  by (cases r) (auto simp: least_in_def)

text \<open>Blocks of size \<open>k\<close>: the numbers of block \<open>i\<close> are \<open>i * k + r\<close>.\<close>

lemma least_in_block:
  assumes "least_in Q r k res" "\<And>m. m < k \<Longrightarrow> P (i * k + m) = Q m" "r \<le> k"
  shows "least_in P (i * k + r) (i * k + k) (map_option (\<lambda>n. i * k + n) res)"
proof -
  have *: "\<not> P m" if "\<And>j. r \<le> j \<Longrightarrow> j < b \<Longrightarrow> \<not> Q j" "i * k + r \<le> m" "m < i * k + b" "b \<le> k" for m b
    using that(1) [of "m - i * k"] that(2-4) assms(2) [of "m - i * k"] by simp
  show ?thesis
  proof (cases res)
    case None
    then show ?thesis using assms(1) * [of k] by (auto simp: least_in_def)
  next
    case (Some n)
    then show ?thesis using assms * [of n] by (auto simp: least_in_def)
  qed
qed

lemma last_below_block:
  assumes "last_below Q b res" "\<And>m. m < k \<Longrightarrow> P (i * k + m) = Q m" "b \<le> k"
  shows "last_below (\<lambda>m. i * k \<le> m \<and> P m) (i * k + b) (map_option (\<lambda>n. i * k + n) res)"
proof -
  have *: "\<not> P m" if "\<And>j. a \<le> j \<Longrightarrow> j < b \<Longrightarrow> \<not> Q j" "i * k + a \<le> m" "m < i * k + b" for m a
    using that(1) [of "m - i * k"] that(2-3) assms(2) [of "m - i * k"] assms(3) by simp
  show ?thesis
  proof (cases res)
    case None
    then show ?thesis using assms(1) * [of 0] by (auto simp: last_below_def)
  next
    case (Some n)
    then show ?thesis using assms * [of "Suc n"] by (auto simp: last_below_def)
  qed
qed

lemma last_below_join:
  assumes "last_below (\<lambda>m. lo \<le> m \<and> P m) hi r" "last_below P lo r'" "lo \<le> hi"
  shows "last_below P hi (case r of None \<Rightarrow> r' | Some n \<Rightarrow> Some n)"
proof (cases r)
  case None
  then show ?thesis
    using assms unfolding last_below_def by (cases r') (simp, metis leI, simp, metis leI less_le_trans)
next
  case (Some n)
  then show ?thesis using assms unfolding last_below_def by auto
qed

lemma last_below_cong:
  "(\<And>m. m < hi \<Longrightarrow> P m = Q m) \<Longrightarrow> last_below P hi r = last_below Q hi r"
  by (cases r) (auto simp: last_below_def)

section \<open>Walking a segment\<close>

lemma bits_up_least: "b \<le> 32 \<Longrightarrow> least_in (bit test) b 32 (bits_up test b)" for test :: bunch
proof (induction test b rule: bits_up.induct)
  case (1 test b)
  show ?case
  proof (cases "b < 32")
    case True
    then show ?thesis
    proof (cases "bit test b")
      case True
      then show ?thesis
        using \<open>b < 32\<close> and_push_bit [of test b] by (subst bits_up.simps) (auto simp: least_in_def)
    next
      case False
      then have "bits_up test b = bits_up test (b + 1)"
        using True and_push_bit [of test b] by (subst bits_up.simps) simp
      moreover have "least_in (bit test) (b + 1) 32 (bits_up test (b + 1))"
        using 1 True False and_push_bit [of test b] by simp
      moreover have "least_in (bit test) b (b + 1) None" using False by (auto simp: least_in_def less_Suc_eq)
      ultimately show ?thesis using True by (auto intro: least_in_append)
    qed
  next
    case False
    then show ?thesis using 1 by (subst bits_up.simps) simp
  qed
qed

lemma bits_down_last: "last_below (bit test) (Suc b) (bits_down test b)" for test :: bunch
proof (induction b)
  case 0
  then show ?case using and_push_bit [of test 0] by (subst bits_down.simps) (auto simp: last_below_def)
next
  case (Suc b)
  then show ?case
    using and_push_bit [of test "Suc b"] by (subst bits_down.simps)
      (auto simp: last_below_def less_Suc_eq split: option.splits)
qed

abbreviation bits_test :: "bunch list \<Rightarrow> nat \<Rightarrow> bool" where
  "bits_test bits r \<equiv> bit (bits ! (r div 32)) (r mod 32)"

lemma segment_up_least:
  "u \<le> 32 \<Longrightarrow> b < 32 \<Longrightarrow> least_in (bits_test bits) (u * 32 + b) 1024 (if u < 32 then segment_up bits u b else None)"
proof (induction bits u b rule: segment_up.induct)
  case (1 bits u b)
  show ?case
  proof (cases "u < 32")
    case True
    let ?r = "if bits ! u \<noteq> 0 then bits_up (bits ! u) b else None"
    have "least_in (bit (bits ! u)) b 32 ?r"
      using bits_up_least [of b "bits ! u"] 1(3) by (auto simp: least_in_def)
    then have here: "least_in (bits_test bits) (u * 32 + b) (u * 32 + 32) (map_option (\<lambda>n. u * 32 + n) ?r)"
      using 1(3) by (intro least_in_block) auto
    show ?thesis
    proof (cases ?r)
      case None
      then have "segment_up bits u b = segment_up bits (u + 1) 0"
        using True by (subst segment_up.simps) auto
      moreover have "segment_up bits 32 0 = None" by (subst segment_up.simps) simp
      moreover have "least_in (bits_test bits) ((u + 1) * 32 + 0) 1024
          (if u + 1 < 32 then segment_up bits (u + 1) 0 else None)"
        using 1(1) True None by (intro 1(1)) auto
      moreover have "u = 31" if "\<not> u + 1 < 32" using that True by simp
      ultimately have "least_in (bits_test bits) (u * 32 + 32) 1024 (segment_up bits u b)"
        by (cases "u + 1 < 32") (auto simp: add.commute)
      then show ?thesis using here None True 1(3) by (auto intro: least_in_append)
    next
      case (Some r)
      then have "segment_up bits u b = Some (u * 32 + r)"
        using True by (subst segment_up.simps) (auto simp: BUNCH_BITS_def)
      then show ?thesis using here Some True by (auto intro: least_in_extend)
    qed
  next
    case False
    then show ?thesis using 1(2) by simp
  qed
qed

lemma segment_down_last:
  "u < 32 \<Longrightarrow> b < 32 \<Longrightarrow> last_below (bits_test bits) (u * 32 + Suc b) (segment_down bits u b)"
proof (induction u arbitrary: b)
  case 0
  have "last_below (bit (bits ! 0)) (Suc b) (if bits ! 0 \<noteq> 0 then bits_down (bits ! 0) b else None)"
    using bits_down_last [of "bits ! 0" b] by (auto simp: last_below_def)
  then have "last_below (bits_test bits) (Suc b) (if bits ! 0 \<noteq> 0 then bits_down (bits ! 0) b else None)"
    using 0 by (subst last_below_cong [of "Suc b" _ "bit (bits ! 0)"]) auto
  then show ?case by (subst segment_down.simps) (auto split: option.splits)
next
  case (Suc u)
  let ?r = "if bits ! Suc u \<noteq> 0 then bits_down (bits ! Suc u) b else None"
  have "last_below (bit (bits ! Suc u)) (Suc b) ?r"
    using bits_down_last [of "bits ! Suc u" b] by (auto simp: last_below_def)
  then have "last_below (\<lambda>m. Suc u * 32 \<le> m \<and> bits_test bits m) (Suc u * 32 + Suc b)
      (map_option (\<lambda>n. Suc u * 32 + n) ?r)"
    by (rule last_below_block) (use Suc(3) in \<open>auto simp del: mult_Suc\<close>)
  moreover have "last_below (bits_test bits) (Suc u * 32) (segment_down bits u 31)"
    using Suc(1) [of 31] Suc(2) by (simp add: add.commute)
  ultimately have "last_below (bits_test bits) (Suc u * 32 + Suc b)
      (case map_option (\<lambda>n. Suc u * 32 + n) ?r of None \<Rightarrow> segment_down bits u 31 | Some n \<Rightarrow> Some n)"
    by (rule last_below_join) simp
  moreover have "segment_down bits (Suc u) b =
      (case map_option (\<lambda>n. Suc u * 32 + n) ?r of None \<Rightarrow> segment_down bits u 31 | Some n \<Rightarrow> Some n)"
    by (subst segment_down.simps) (auto simp: BUNCH_BITS_def split: option.splits)
  ultimately show ?case by simp
qed

section \<open>Walking a level\<close>

context level
begin

lemma lower_mark_le: "lower_mark segs n \<le> n"
  by (induction n) (auto intro: le_SucI)

lemma lower_mark_none: "lower_mark segs n < i \<Longrightarrow> i \<le> n \<Longrightarrow> segs ! i = None"
  by (induction n) (auto simp: le_Suc_eq split: if_splits)

text \<open>Releasing an empty block changes nothing that can be tested.\<close>

lemma release_ok:
  assumes w: "level_wf limit least shift wf v" and p: "sbm_state v = SBM_PLURAL"
    and s: "slot \<le> sbm_high_water v" "\<And>r. r < 2 ^ shift \<Longrightarrow> \<not> slot_test test (sbm_segments v ! slot) r"
  shows "level_wf limit least shift wf (release_slot v slot)" "sbm_state (release_slot v slot) = SBM_PLURAL"
    "m < limit \<Longrightarrow> level_test shift test (release_slot v slot) m = level_test shift test v m"
    "sbm_high_water (release_slot v slot) \<le> sbm_high_water v"
    "slot < sbm_high_water v \<Longrightarrow> sbm_high_water (release_slot v slot) = sbm_high_water v"
proof -
  let ?segs = "(sbm_segments v)[slot := None]" and ?v' = "release_slot v slot"
  have c: "slot < sbm_count v" "length (sbm_segments v) = sbm_count v"
    using w s(1) by (auto simp: level_wf_def)
  have f: "sbm_segments ?v' = ?segs" "sbm_count ?v' = sbm_count v" "sbm_state ?v' = sbm_state v"
    "sbm_number ?v' = sbm_number v"
    "sbm_high_water ?v' = (if slot = sbm_high_water v then lower_mark ?segs slot else sbm_high_water v)"
    by (simp_all add: release_slot_def Let_def)
  show st: "sbm_state ?v' = SBM_PLURAL" using p f by simp
  show le: "sbm_high_water ?v' \<le> sbm_high_water v" by (simp add: f lower_mark_le)
  have "sbm_high_water ?v' * 2 ^ shift \<le> sbm_high_water v * 2 ^ shift" using le by simp
  then have top: "sbm_high_water ?v' * 2 ^ shift < limit"
    by (rule le_less_trans) (use w in \<open>simp add: wf_slots\<close>)
  have "i \<le> sbm_high_water ?v'" if "i < sbm_count v" "?segs ! i \<noteq> None" for i
  proof (rule ccontr)
    assume n: "\<not> i \<le> sbm_high_water ?v'"
    have "i \<le> sbm_high_water v" using w that c by (cases "i = slot") (auto simp: wf_slots)
    then show False
      using n that lower_mark_none [of ?segs slot i] by (auto simp: f split: if_splits)
  qed
  moreover have "slot_wf wf (?segs ! i)" if "i < sbm_count v" for i
    using w that c by (cases "i = slot") (auto simp: wf_slots)
  ultimately show w': "level_wf limit least shift wf ?v'"
    using w top le st c unfolding wf_slots by (auto simp: f p)
  show "slot < sbm_high_water v \<Longrightarrow> sbm_high_water ?v' = sbm_high_water v" by (simp add: f)
  assume "m < limit"
  then show "level_test shift test ?v' m = level_test shift test v m"
    using test_holds [OF w' st] test_holds [OF w p] s(2) [of "m mod 2 ^ shift"] c
    by (cases "m div 2 ^ shift = slot") (auto simp: f)
qed

lemma slot_block:
  assumes "level_wf limit least shift wf v" "i \<le> sbm_high_water v" "sbm_segments v ! i = Some s"
  shows "wf s"
proof -
  have "i < sbm_count v" using assms(1,2) by (auto simp: wf_slots)
  then have "slot_wf wf (sbm_segments v ! i)" using assms(1) by (simp add: wf_slots)
  then show ?thesis using assms(3) by simp
qed

text \<open>What a block holds is what the level holds in its range.\<close>

lemma test_block:
  assumes "level_wf limit least shift wf v" "sbm_state v = SBM_PLURAL" "i < sbm_count v" "r < 2 ^ shift"
    and "i * 2 ^ shift + r < limit"
  shows "level_test shift test v (i * 2 ^ shift + r) = slot_test test (sbm_segments v ! i) r"
  using assms test_holds [OF assms(1,2,5)] by simp

lemma test_beyond:
  assumes "level_wf limit least shift wf v" "sbm_state v = SBM_PLURAL" "m < limit" "(sbm_high_water v + 1) * 2 ^ shift \<le> m"
  shows "\<not> level_test shift test v m"
proof -
  have "sbm_high_water v + 1 \<le> m div 2 ^ shift"
    using assms(4) by (metis div_le_mono nonzero_mult_div_cancel_right power_not_zero zero_neq_numeral)
  then show ?thesis using test_holds [OF assms(1-3)] assms(1) by (auto simp: wf_slots)
qed

lemma least_block:
  assumes "level_wf limit least shift wf v" "sbm_state v = SBM_PLURAL" "i \<le> sbm_high_water v"
    and "least_in (slot_test test (sbm_segments v ! i)) x (2 ^ shift) r" "x \<le> 2 ^ shift"
    and "i * 2 ^ shift + 2 ^ shift \<le> limit"
  shows "least_in (level_test shift test v) (i * 2 ^ shift + x) (i * 2 ^ shift + 2 ^ shift)
    (map_option (\<lambda>n. i * 2 ^ shift + n) r)"
proof (rule least_in_block [OF assms(4) _ assms(5)])
  fix m :: nat assume "m < 2 ^ shift"
  then show "level_test shift test v (i * 2 ^ shift + m) = slot_test test (sbm_segments v ! i) m"
    using assms(1-3,6) by (intro test_block) (auto simp: level_wf_def)
qed

lemma least_found:
  assumes "level_wf limit least shift wf v" "sbm_state v = SBM_PLURAL" "i \<le> sbm_high_water v"
    and "least_in (slot_test test (sbm_segments v ! i)) x (2 ^ shift) (Some n)" "x \<le> 2 ^ shift"
    and "i * 2 ^ shift + 2 ^ shift \<le> limit"
  shows "least_in (level_test shift test v) (i * 2 ^ shift + x) limit (Some (i * 2 ^ shift + n))"
  using least_in_extend [OF _ assms(6)] least_block [OF assms] by simp

lemma least_next:
  assumes "level_wf limit least shift wf v" "sbm_state v = SBM_PLURAL" "i \<le> sbm_high_water v"
    and "least_in (slot_test test (sbm_segments v ! i)) x (2 ^ shift) None" "x \<le> 2 ^ shift"
    and "i * 2 ^ shift + 2 ^ shift \<le> limit"
    and "least_in (level_test shift test v) ((i + 1) * 2 ^ shift) limit r"
  shows "least_in (level_test shift test v) (i * 2 ^ shift + x) limit r"
  using least_in_append [OF _ assms(6)] least_block [OF assms(1-6)] assms(5,7) by (simp add: add.commute)

lemma least_beyond:
  assumes "level_wf limit least shift wf v" "sbm_state v = SBM_PLURAL" "sbm_high_water v < i"
  shows "least_in (level_test shift test v) (i * 2 ^ shift + x) limit None"
proof -
  have "(sbm_high_water v + 1) * 2 ^ shift \<le> i * 2 ^ shift" using assms(3) by (intro mult_le_mono1) simp
  then show ?thesis using test_beyond [OF assms(1,2)] by (simp add: least_in_def)
qed

lemma last_block:
  assumes "level_wf limit least shift wf v" "sbm_state v = SBM_PLURAL" "i < sbm_count v"
    and "last_below (slot_test test (sbm_segments v ! i)) x r" "x \<le> 2 ^ shift"
    and "i * 2 ^ shift + 2 ^ shift \<le> limit" "last_below (level_test shift test v) (i * 2 ^ shift) r'"
  shows "last_below (level_test shift test v) (i * 2 ^ shift + x)
    (case map_option (\<lambda>n. i * 2 ^ shift + n) r of None \<Rightarrow> r' | Some n \<Rightarrow> Some n)"
proof (rule last_below_join [OF last_below_block [OF assms(4) _ assms(5)] assms(7)])
  fix m :: nat assume "m < 2 ^ shift"
  then show "level_test shift test v (i * 2 ^ shift + m) = slot_test test (sbm_segments v ! i) m"
    using assms(1-3,6) by (intro test_block) (auto simp: level_wf_def)
qed simp

lemma least_in_same:
  assumes "\<And>m. m < limit \<Longrightarrow> level_test shift test v' m = level_test shift test v m"
    and "least_in (level_test shift test v') lo limit r"
  shows "least_in (level_test shift test v) lo limit r"
  using assms(2) least_in_cong [of lo limit "level_test shift test v'" "level_test shift test v" r] assms(1) by simp

end

lemma block_fits: "i * 2 ^ s < k * 2 ^ s \<Longrightarrow> i * 2 ^ s + 2 ^ s \<le> k * (2 :: nat) ^ s"
  by (metis Suc_leI add.commute mult_Suc mult_le_mono1 mult_less_cancel2)

lemma bucket_fits: "bucket_wf v \<Longrightarrow> i \<le> sbm_high_water v \<Longrightarrow>
    i * 2 ^ SEGMENT_BITS + 2 ^ SEGMENT_BITS \<le> 2 ^ BUCKET_BITS"
  by (simp add: bucket_wf_def level_wf_def SEGMENT_BITS_def BUCKET_BITS_def)

lemma root_fits: "root_wf v \<Longrightarrow> i \<le> sbm_high_water v \<Longrightarrow>
    i * 2 ^ BUCKET_BITS + 2 ^ BUCKET_BITS \<le> ROOT_LIMIT"
  by (simp add: root_wf_def level_wf_def ROOT_LIMIT_def BUCKET_BITS_def)

section \<open>Walking a bucket\<close>

lemma segment_up_test:
  assumes "bms_wf s" "u < 32" "b < 32"
  shows "least_in (bms_test s) (u * 32 + b) 1024 (segment_up (bms_bits s) u b)"
  using segment_up_least [of u b "bms_bits s"] assms
    least_in_cong [of "u * 32 + b" 1024 "bms_test s" "bits_test (bms_bits s)"] by (simp add: bms_test_bit)

lemma segment_down_test:
  assumes "bms_wf s" "u < 32" "b < 32"
  shows "last_below (bms_test s) (u * 32 + Suc b) (segment_down (bms_bits s) u b)"
  using segment_down_last [of u b "bms_bits s"] assms
    last_below_cong [of "u * 32 + Suc b" "bms_test s" "bits_test (bms_bits s)"] by (simp add: bms_test_bit)

lemma slot_test_Some: "slot_test test (Some s) = test s"
  by (rule ext) simp

lemma bucket_up_spec:
  assumes "bucket_wf v" "sbm_state v = SBM_PLURAL" "u < 32" "b < 32" "gc \<Longrightarrow> u = 0 \<and> b = 0"
    and "bucket_up v slot u b gc = (res, v')"
  shows "bucket_wf v' \<and> sbm_state v' = SBM_PLURAL \<and>
    (\<forall>m < 2 ^ BUCKET_BITS. bucket_test v' m = bucket_test v m) \<and>
    least_in (bucket_test v) (slot * 2 ^ SEGMENT_BITS + (u * 32 + b)) (2 ^ BUCKET_BITS) res"
  using assms
proof (induction v slot u b gc arbitrary: res v' rule: bucket_up.induct)
  case (1 v slot u b gc)
  let ?x = "u * 32 + b"
  have w: "level_wf (2 ^ BUCKET_BITS) BUNCH_BUCKET SEGMENT_BITS bms_wf v" using 1(4) by (simp add: bucket_wf_def)
  have x: "?x \<le> 2 ^ SEGMENT_BITS" using 1(6,7) by (simp add: SEGMENT_BITS_def)
  note lev = bucket_level.least_found [OF w 1(5)] bucket_level.least_next [OF w 1(5)]
    bucket_level.least_beyond [OF w 1(5)]
  show ?case
  proof (cases "sbm_high_water v < slot")
    case True
    then have "res = None" "v' = v" using 1(9) by (simp_all add: bucket_up.simps [of v])
    then show ?thesis using 1(4,5) lev(3) [OF True] by (simp add: bucket_test_def)
  next
    case False
    then have slot: "slot \<le> sbm_high_water v" by simp
    note fits = bucket_fits [OF 1(4) slot]
    show ?thesis
    proof (cases "sbm_segments v ! slot")
      case None
      then have r: "bucket_up v (slot + 1) 0 0 True = (res, v')" using 1(9) False by (subst (asm) bucket_up.simps) simp
      have "least_in (slot_test bms_test (sbm_segments v ! slot)) ?x (2 ^ SEGMENT_BITS) None"
        using None by (simp add: least_in_def)
      from lev(2) [OF slot this x fits] 1(1) [OF False None 1(4,5) _ _ _ r] show ?thesis
        by (simp add: bucket_test_def)
    next
      case (Some s)
      have s: "bms_wf s" by (rule bucket_level.slot_block [OF w slot Some])
      have up: "least_in (slot_test bms_test (sbm_segments v ! slot)) ?x (2 ^ SEGMENT_BITS) (segment_up (bms_bits s) u b)"
        using segment_up_test [OF s 1(6,7)] Some by (simp add: SEGMENT_BITS_def slot_test_Some)
      show ?thesis
      proof (cases "segment_up (bms_bits s) u b")
        case (Some r)
        then have "res = Some (slot * 2 ^ SEGMENT_BITS + r)" "v' = v"
          using 1(9) False \<open>sbm_segments v ! slot = Some s\<close> by (simp_all add: bucket_up.simps [of v])
        then show ?thesis using lev(1) [OF slot up [unfolded Some] x fits] 1(4,5) by (simp add: bucket_test_def)
      next
        case none: None
        note next_slot = lev(2) [OF slot up [unfolded none] x fits]
        show ?thesis
        proof (cases gc)
          case False
          then have r: "bucket_up v (slot + 1) 0 0 True = (res, v')"
            using 1(9) Some none \<open>\<not> sbm_high_water v < slot\<close> by (subst (asm) bucket_up.simps) simp
          then show ?thesis
            using 1(3) [OF \<open>\<not> sbm_high_water v < slot\<close> Some none False 1(4,5) _ _ _ r] next_slot
            by (simp add: bucket_test_def)
        next
          case True
          then have "?x = 0" using 1(8) by simp
          then have empty: "\<And>r. r < 2 ^ SEGMENT_BITS \<Longrightarrow> \<not> slot_test bms_test (sbm_segments v ! slot) r"
            using up none by (auto simp: least_in_def)
          note rel = bucket_level.release_ok [OF w 1(5) slot empty]
          let ?v1 = "release_slot v slot"
          show ?thesis
          proof (cases "slot = sbm_high_water v")
            case eq: True
            then have "res = None" "v' = ?v1"
              using 1(9) Some none True by (simp_all add: bucket_up.simps [of v] Let_def)
            then show ?thesis
              using rel(1-3) next_slot [of None] lev(3) [of "slot + 1" 0] eq
              by (simp add: bucket_test_def bucket_wf_def)
          next
            case ne: False
            then have r: "bucket_up ?v1 (slot + 1) 0 0 True = (res, v')"
              using 1(9) Some none True False by (subst (asm) bucket_up.simps) (simp add: Let_def)
            have "bucket_wf ?v1" using rel(1) by (simp add: bucket_wf_def)
            from 1(2) [OF False Some none True refl ne this rel(2) _ _ _ r]
            have IH: "bucket_wf v' \<and> sbm_state v' = SBM_PLURAL \<and>
              (\<forall>m < 2 ^ BUCKET_BITS. bucket_test v' m = bucket_test ?v1 m) \<and>
              least_in (bucket_test ?v1) ((slot + 1) * 2 ^ SEGMENT_BITS) (2 ^ BUCKET_BITS) res" by simp
            then have "least_in (bucket_test v) ((slot + 1) * 2 ^ SEGMENT_BITS) (2 ^ BUCKET_BITS) res"
              using bucket_level.least_in_same rel(3) unfolding bucket_test_def by blast
            with next_slot IH rel(3) show ?thesis by (simp add: bucket_test_def)
          qed
        qed
      qed
    qed
  qed
qed

lemma last_below_None [simp]: "last_below P 0 None" "last_below (slot_test test None) x None"
  by (simp_all add: last_below_def)

lemma bucket_down_spec:
  assumes "bucket_wf v" "sbm_state v = SBM_PLURAL" "u < 32" "b < 32" "slot < 32"
  shows "last_below (bucket_test v) (slot * 2 ^ SEGMENT_BITS + (u * 32 + Suc b)) (bucket_down v slot u b)"
  using assms(3-5)
proof (induction slot arbitrary: u b)
  have w: "level_wf (2 ^ BUCKET_BITS) BUNCH_BUCKET SEGMENT_BITS bms_wf v" using assms(1) by (simp add: bucket_wf_def)
  define r where "r i u b = (case sbm_segments v ! i of None \<Rightarrow> None | Some s \<Rightarrow> segment_down (bms_bits s) u b)"
    for i u b
  have step: "last_below (bucket_test v) (i * 2 ^ SEGMENT_BITS + (u * 32 + Suc b))
      (case map_option (\<lambda>n. i * 2 ^ SEGMENT_BITS + n) (r i u b) of None \<Rightarrow> r' | Some n \<Rightarrow> Some n)"
    if "i < 32" "u < 32" "b < 32" "last_below (bucket_test v) (i * 2 ^ SEGMENT_BITS) r'" for i u b r'
    unfolding bucket_test_def
  proof (rule bucket_level.last_block [OF w assms(2)])
    show i: "i < sbm_count v" using that(1) w by (simp add: level_wf_def)
    have "bms_wf s" if "sbm_segments v ! i = Some s" for s
      using w i that unfolding bucket_level.wf_slots by (metis slot_simps(4))
    then show "last_below (slot_test bms_test (sbm_segments v ! i)) (u * 32 + Suc b) (r i u b)"
      using segment_down_test [OF _ that(2,3)] by (auto simp: r_def slot_test_Some split: option.splits)
    show "i * 2 ^ SEGMENT_BITS + 2 ^ SEGMENT_BITS \<le> 2 ^ BUCKET_BITS"
      using that(1) by (simp add: SEGMENT_BITS_def BUCKET_BITS_def)
  qed (use that in \<open>simp_all add: SEGMENT_BITS_def bucket_test_def\<close>)
  {
    case (0 u b)
    have "bucket_down v 0 u b = (case map_option (\<lambda>n. 0 * 2 ^ SEGMENT_BITS + n) (r 0 u b) of None \<Rightarrow> None | Some n \<Rightarrow> Some n)"
      by (subst bucket_down.simps) (simp add: r_def split: option.splits)
    then show ?case using step [of 0 u b None] 0 by simp
  next
    case (Suc i u b)
    have "bucket_down v (Suc i) u b = (case map_option (\<lambda>n. Suc i * 2 ^ SEGMENT_BITS + n) (r (Suc i) u b) of
        None \<Rightarrow> bucket_down v i 31 31 | Some n \<Rightarrow> Some n)"
      by (subst bucket_down.simps) (simp add: r_def split: option.splits)
    moreover have "last_below (bucket_test v) (Suc i * 2 ^ SEGMENT_BITS) (bucket_down v i 31 31)"
      using Suc(1) [of 31 31] Suc(4) by (simp add: SEGMENT_BITS_def add.commute)
    ultimately show ?case using step [of "Suc i" u b] Suc(2-4) by simp
  }
qed

lemma last_below_extend:
  assumes "last_below P b r" "\<And>m. b \<le> m \<Longrightarrow> m < hi \<Longrightarrow> \<not> P m" "b \<le> hi"
  shows "last_below P hi r"
proof -
  have "\<not> P m" if "m < hi" "m < b \<longrightarrow> \<not> P m" for m
    using assms(2) [of m] that by (cases "m < b") auto
  then show ?thesis using assms(1,3) by (cases r) (auto simp: last_below_def)
qed

lemma bucket_relative:
  assumes "0 \<le> number" "number < 2 ^ BUCKET_BITS"
  defines "n \<equiv> nat number"
  shows "n div 2 ^ SEGMENT_BITS < 32" "bunch_of (n mod 2 ^ SEGMENT_BITS) < 32" "bit_of (n mod 2 ^ SEGMENT_BITS) < 32"
    "n div 2 ^ SEGMENT_BITS * 2 ^ SEGMENT_BITS +
      (bunch_of (n mod 2 ^ SEGMENT_BITS) * 32 + bit_of (n mod 2 ^ SEGMENT_BITS)) = n"
proof -
  have r: "n mod 2 ^ SEGMENT_BITS < 1024" by (simp add: SEGMENT_BITS_def)
  show "n div 2 ^ SEGMENT_BITS < 32"
    using assms by (simp add: SEGMENT_BITS_def BUCKET_BITS_def nat_less_iff less_mult_imp_div_less)
  show "bunch_of (n mod 2 ^ SEGMENT_BITS) < 32" "bit_of (n mod 2 ^ SEGMENT_BITS) < 32"
    using bunch_bit_of [OF r] by auto
  have "bunch_of (n mod 2 ^ SEGMENT_BITS) * 32 + bit_of (n mod 2 ^ SEGMENT_BITS) = n mod 2 ^ SEGMENT_BITS"
    using bunch_bit_of [OF r] by simp
  then show "n div 2 ^ SEGMENT_BITS * 2 ^ SEGMENT_BITS +
      (bunch_of (n mod 2 ^ SEGMENT_BITS) * 32 + bit_of (n mod 2 ^ SEGMENT_BITS)) = n"
    by (simp only: div_mult_mod_eq)
qed

text \<open>A number is where a level may be asked for the next one if no singular block holds exactly that.\<close>

definition clear_of :: "'a sbm \<Rightarrow> int \<Rightarrow> bool" where
  "clear_of v number \<longleftrightarrow> (sbm_state v = SBM_SINGULAR \<longrightarrow> number \<noteq> int (sbm_number v))"

definition start_at :: "int \<Rightarrow> nat" where
  "start_at number = (if number = -1 then 0 else nat number)"

lemma bucket_test_states:
  "sbm_state v = SBM_EMPTY \<Longrightarrow> \<not> bucket_test v n"
  "sbm_state v = SBM_SINGULAR \<Longrightarrow> bucket_test v n \<longleftrightarrow> n = sbm_number v"
  by (simp_all add: bucket_test_def level_states)

lemma bucket_next_forward:
  assumes "bucket_wf v" "-1 \<le> number" "number < 2 ^ BUCKET_BITS" "clear_of v number"
    and "bucket_next v number RSE_get_forward = (res, v')"
  shows "bucket_wf v' \<and> (\<forall>m < 2 ^ BUCKET_BITS. bucket_test v' m = bucket_test v m) \<and>
    least_in (bucket_test v) (start_at number) (2 ^ BUCKET_BITS) res"
proof (cases "sbm_state v")
  case SBM_EMPTY
  then show ?thesis using assms by (auto simp: bucket_next_def least_in_def bucket_test_states)
next
  case SBM_SINGULAR
  then have "sbm_number v < 2 ^ BUCKET_BITS" using assms(1) by (simp add: bucket_wf_def level_wf_def)
  then show ?thesis
    using assms SBM_SINGULAR
    by (auto simp: bucket_next_def least_in_def bucket_test_states singular_next_def clear_of_def start_at_def
        split: if_splits)
next
  case SBM_PLURAL
  let ?n = "start_at number"
  have n: "0 \<le> int ?n" "int ?n < 2 ^ BUCKET_BITS" "nat (int ?n) = ?n"
    using assms(2,3) by (auto simp: start_at_def BUCKET_BITS_def)
  note rel = bucket_relative [OF n(1,2), unfolded n(3)]
  let ?u = "bunch_of (?n mod 2 ^ SEGMENT_BITS)" and ?b = "bit_of (?n mod 2 ^ SEGMENT_BITS)"
  have "bucket_up v (?n div 2 ^ SEGMENT_BITS) ?u ?b (?u = 0 \<and> ?b = 0) = (res, v')"
    using assms(5) SBM_PLURAL
    by (cases "number = -1") (simp_all add: bucket_next_def Let_def start_at_def)
  then show ?thesis
    using bucket_up_spec [OF assms(1) SBM_PLURAL rel(2,3), of "?u = 0 \<and> ?b = 0"] rel(4) by metis
qed

lemma bucket_next_backward:
  assumes "bucket_wf v" "-1 \<le> number" "number < 2 ^ BUCKET_BITS" "clear_of v number"
    and "bucket_next v number RSE_get_backward = (res, v')"
  shows "v' = v \<and> last_below (bucket_test v) (if number = -1 then 2 ^ BUCKET_BITS else nat number + 1) res"
proof (cases "sbm_state v")
  case SBM_EMPTY
  then show ?thesis using assms by (auto simp: bucket_next_def last_below_def bucket_test_states)
next
  case SBM_SINGULAR
  then have "sbm_number v < 2 ^ BUCKET_BITS" using assms(1) by (simp add: bucket_wf_def level_wf_def)
  then show ?thesis
    using assms SBM_SINGULAR
    by (auto simp: bucket_next_def last_below_def bucket_test_states singular_next_def clear_of_def
        split: if_splits)
next
  case SBM_PLURAL
  have hw: "sbm_high_water v < 32"
    using assms(1) by (simp add: bucket_wf_def level_wf_def SEGMENT_BITS_def BUCKET_BITS_def)
  define n where "n = (if number = -1 then sbm_high_water v * 1024 + 1023 else nat number)"
  have n: "0 \<le> int n" "int n < 2 ^ BUCKET_BITS" "nat (int n) = n"
    using assms(2,3) hw by (auto simp: n_def BUCKET_BITS_def)
  note rel = bucket_relative [OF n(1,2), unfolded n(3)]
  let ?u = "bunch_of (n mod 2 ^ SEGMENT_BITS)" and ?b = "bit_of (n mod 2 ^ SEGMENT_BITS)"
  have "res = bucket_down v (n div 2 ^ SEGMENT_BITS) ?u ?b" "v' = v"
    using assms(5) SBM_PLURAL by (auto simp: bucket_next_def Let_def n_def SEGMENT_BITS_def)
  then have down: "last_below (bucket_test v) (Suc n) res"
    using bucket_down_spec [OF assms(1) SBM_PLURAL rel(2,3,1)] rel(4) by simp
  show ?thesis
  proof (cases "number = -1")
    case True
    have "\<not> bucket_test v m" if "Suc n \<le> m" "m < 2 ^ BUCKET_BITS" for m
      using bucket_level.test_beyond [of v m] assms(1) SBM_PLURAL that True
      by (simp add: bucket_test_def bucket_wf_def n_def SEGMENT_BITS_def del: sbm_sizes)
    then show ?thesis
      using last_below_extend [OF down] True \<open>v' = v\<close> n(2) by (simp add: BUCKET_BITS_def)
  next
    case False
    then show ?thesis using down \<open>v' = v\<close> by (simp add: n_def)
  qed
qed

section \<open>Walking the root\<close>

context level
begin

lemma replace_ok:
  assumes w: "level_wf limit least shift wf v" and p: "sbm_state v = SBM_PLURAL" and i: "i \<le> sbm_high_water v"
    and s: "sbm_segments v ! i = Some s" "wf s'" "\<And>r. r < 2 ^ shift \<Longrightarrow> test s' r = test s r"
  shows "level_wf limit least shift wf (v\<lparr>sbm_segments := (sbm_segments v)[i := Some s']\<rparr>)"
    "m < limit \<Longrightarrow> level_test shift test (v\<lparr>sbm_segments := (sbm_segments v)[i := Some s']\<rparr>) m =
      level_test shift test v m"
proof -
  let ?v' = "v\<lparr>sbm_segments := (sbm_segments v)[i := Some s']\<rparr>"
  have c: "i < sbm_count v" "length (sbm_segments v) = sbm_count v" using w i by (auto simp: level_wf_def)
  show w': "level_wf limit least shift wf ?v'"
  proof (rule wf_update [OF w p])
    fix j assume "j < sbm_count v"
    then show "slot_wf wf ((sbm_segments v)[i := Some s'] ! j) \<and>
        ((sbm_segments v)[i := Some s'] ! j \<noteq> None \<longrightarrow> j \<le> sbm_high_water v)"
      using w c i s(2) by (cases "j = i") (auto simp: wf_slots)
  qed simp
  assume m: "m < limit"
  show "level_test shift test ?v' m = level_test shift test v m"
    using test_holds [OF w' _ m] test_holds [OF w p m] p s c
    by (cases "m div 2 ^ shift = i") (auto simp: slot_test_Some)
qed

end

lemma root_up_spec:
  assumes "root_wf v" "sbm_state v = SBM_PLURAL" "-1 \<le> relative" "relative < 2 ^ BUCKET_BITS" "gc \<Longrightarrow> relative = -1"
    and "\<And>s. slot \<le> sbm_high_water v \<Longrightarrow> sbm_segments v ! slot = Some s \<Longrightarrow> clear_of s relative"
    and "root_up v slot relative gc = (res, v')"
  shows "root_wf v' \<and> sbm_state v' = SBM_PLURAL \<and>
    (\<forall>m < ROOT_LIMIT. level_test BUCKET_BITS bucket_test v' m = level_test BUCKET_BITS bucket_test v m) \<and>
    least_in (level_test BUCKET_BITS bucket_test v) (slot * 2 ^ BUCKET_BITS + start_at relative) ROOT_LIMIT res"
  using assms
proof (induction v slot relative gc arbitrary: res v' rule: root_up.induct)
  case (1 v slot relative gc)
  let ?x = "start_at relative"
  have w: "level_wf ROOT_LIMIT 1 BUCKET_BITS bucket_wf v" using 1(4) by (simp add: root_wf_def)
  have x: "?x \<le> 2 ^ BUCKET_BITS" using 1(6,7) by (auto simp: start_at_def BUCKET_BITS_def)
  note lev = root_level.least_found [OF w 1(5)] root_level.least_next [OF w 1(5)]
    root_level.least_beyond [OF w 1(5)]
  have first: "clear_of s (-1)" for s :: bucket by (simp add: clear_of_def)
  have start: "start_at (-1) = 0" "(-1 :: int) < 2 ^ BUCKET_BITS" by (simp_all add: start_at_def BUCKET_BITS_def)
  show ?case
  proof (cases "sbm_high_water v < slot")
    case True
    then have "res = None" "v' = v" using 1(10) by (simp_all add: root_up.simps [of v])
    then show ?thesis using 1(4,5) lev(3) [OF True] by simp
  next
    case False
    then have slot: "slot \<le> sbm_high_water v" by simp
    note fits = root_fits [OF 1(4) slot]
    show ?thesis
    proof (cases "sbm_segments v ! slot")
      case None
      then have r: "root_up v (slot + 1) (-1) True = (res, v')" using 1(10) False by (subst (asm) root_up.simps) simp
      have "least_in (slot_test bucket_test (sbm_segments v ! slot)) ?x (2 ^ BUCKET_BITS) None"
        using None by (simp add: least_in_def)
      from lev(2) [OF slot this x fits] 1(1) [OF False None 1(4,5) _ _ _ first r] show ?thesis
        by (simp add: start)
    next
      case (Some s)
      have s: "bucket_wf s" by (rule root_level.slot_block [OF w slot Some])
      obtain r s' where nx: "bucket_next s relative RSE_get_forward = (r, s')" by fastforce
      note inner = bucket_next_forward [OF s 1(6,7) 1(9) [OF slot Some] nx]
      have up: "least_in (slot_test bucket_test (sbm_segments v ! slot)) ?x (2 ^ BUCKET_BITS) r"
        using inner Some by (simp add: slot_test_Some)
      let ?v1 = "v\<lparr>sbm_segments := (sbm_segments v)[slot := Some s']\<rparr>"
      have rep: "level_wf ROOT_LIMIT 1 BUCKET_BITS bucket_wf ?v1"
        "\<And>m. m < ROOT_LIMIT \<Longrightarrow> level_test BUCKET_BITS bucket_test ?v1 m = level_test BUCKET_BITS bucket_test v m"
        using root_level.replace_ok [OF w 1(5) slot Some] inner by auto
      show ?thesis
      proof (cases r)
        case (Some n)
        then have "res = Some (slot * 2 ^ BUCKET_BITS + n)" "v' = ?v1"
          using 1(10) False \<open>sbm_segments v ! slot = Some s\<close> nx by (simp_all add: root_up.simps [of v])
        then show ?thesis using lev(1) [OF slot up [unfolded Some] x fits] 1(5) rep by (simp add: root_wf_def)
      next
        case none: None
        note next_slot = lev(2) [OF slot up [unfolded none] x fits]
        show ?thesis
        proof (cases gc)
          case no: False
          then have r: "root_up ?v1 (slot + 1) (-1) True = (res, v')"
            using 1(10) Some none nx False by (subst (asm) root_up.simps) simp
          have "root_wf ?v1" "sbm_state ?v1 = SBM_PLURAL" using rep(1) 1(5) by (simp_all add: root_wf_def)
          from 1(3) [OF False Some nx [symmetric] none no this _ _ _ first r]
          have IH: "root_wf v' \<and> sbm_state v' = SBM_PLURAL \<and>
            (\<forall>m < ROOT_LIMIT. level_test BUCKET_BITS bucket_test v' m = level_test BUCKET_BITS bucket_test ?v1 m) \<and>
            least_in (level_test BUCKET_BITS bucket_test ?v1) ((slot + 1) * 2 ^ BUCKET_BITS) ROOT_LIMIT res"
            by (simp add: start)
          then have "least_in (level_test BUCKET_BITS bucket_test v) ((slot + 1) * 2 ^ BUCKET_BITS) ROOT_LIMIT res"
            using root_level.least_in_same rep(2) by blast
          with next_slot IH rep(2) show ?thesis by simp
        next
          case True
          then have "?x = 0" using 1(8) start by simp
          then have empty: "\<And>r. r < 2 ^ BUCKET_BITS \<Longrightarrow> \<not> slot_test bucket_test (sbm_segments v ! slot) r"
            using up none by (auto simp: least_in_def)
          note rel = root_level.release_ok [OF w 1(5) slot empty]
          let ?v2 = "release_slot v slot"
          show ?thesis
          proof (cases "slot = sbm_high_water v")
            case eq: True
            then have "res = None" "v' = ?v2"
              using 1(10) Some none nx True by (simp_all add: root_up.simps [of v] Let_def)
            then show ?thesis
              using rel(1-3) next_slot [of None] lev(3) [of "slot + 1" 0] eq by (simp add: root_wf_def)
          next
            case ne: False
            then have r: "root_up ?v2 (slot + 1) (-1) True = (res, v')"
              using 1(10) Some none nx True False by (subst (asm) root_up.simps) (simp add: Let_def)
            have "root_wf ?v2" using rel(1) by (simp add: root_wf_def)
            from 1(2) [OF False Some nx [symmetric] none True refl ne this rel(2) _ _ _ first r]
            have IH: "root_wf v' \<and> sbm_state v' = SBM_PLURAL \<and>
              (\<forall>m < ROOT_LIMIT. level_test BUCKET_BITS bucket_test v' m = level_test BUCKET_BITS bucket_test ?v2 m) \<and>
              least_in (level_test BUCKET_BITS bucket_test ?v2) ((slot + 1) * 2 ^ BUCKET_BITS) ROOT_LIMIT res"
              by (simp add: start)
            then have "least_in (level_test BUCKET_BITS bucket_test v) ((slot + 1) * 2 ^ BUCKET_BITS) ROOT_LIMIT res"
              using root_level.least_in_same rel(3) by blast
            with next_slot IH rel(3) show ?thesis by simp
          qed
        qed
      qed
    qed
  qed
qed

lemma root_down_spec:
  assumes "root_wf v" "sbm_state v = SBM_PLURAL" "-1 \<le> relative" "relative < 2 ^ BUCKET_BITS"
    and "slot \<le> sbm_high_water v" "\<And>s. sbm_segments v ! slot = Some s \<Longrightarrow> clear_of s relative"
  shows "last_below (level_test BUCKET_BITS bucket_test v)
    (slot * 2 ^ BUCKET_BITS + (if relative = -1 then 2 ^ BUCKET_BITS else nat relative + 1)) (root_down v slot relative)"
  using assms(3-6)
proof (induction slot arbitrary: relative)
  have w: "level_wf ROOT_LIMIT 1 BUCKET_BITS bucket_wf v" using assms(1) by (simp add: root_wf_def)
  define r where "r i number = (case sbm_segments v ! i of None \<Rightarrow> None
    | Some s \<Rightarrow> fst (bucket_next s number RSE_get_backward))" for i number
  let ?x = "\<lambda>number. if number = -1 then 2 ^ BUCKET_BITS else nat number + 1"
  have step: "last_below (level_test BUCKET_BITS bucket_test v) (i * 2 ^ BUCKET_BITS + ?x number)
      (case map_option (\<lambda>n. i * 2 ^ BUCKET_BITS + n) (r i number) of None \<Rightarrow> r' | Some n \<Rightarrow> Some n)"
    if i: "i \<le> sbm_high_water v" and n: "-1 \<le> number" "number < 2 ^ BUCKET_BITS"
      "\<And>s. sbm_segments v ! i = Some s \<Longrightarrow> clear_of s number"
      "last_below (level_test BUCKET_BITS bucket_test v) (i * 2 ^ BUCKET_BITS) r'" for i number r'
  proof (rule root_level.last_block [OF w assms(2)])
    show "i < sbm_count v" using i w by (simp add: level_wf_def)
    show "last_below (slot_test bucket_test (sbm_segments v ! i)) (?x number) (r i number)"
    proof (cases "sbm_segments v ! i")
      case None
      then show ?thesis by (simp add: r_def)
    next
      case (Some s)
      obtain res s' where nx: "bucket_next s number RSE_get_backward = (res, s')" by fastforce
      then show ?thesis
        using bucket_next_backward [OF root_level.slot_block [OF w i Some] n(1,2) n(3) [OF Some] nx] Some
        by (simp add: r_def slot_test_Some)
    qed
    show "i * 2 ^ BUCKET_BITS + 2 ^ BUCKET_BITS \<le> ROOT_LIMIT" by (rule root_fits [OF assms(1) i])
  qed (use n in \<open>auto simp: BUCKET_BITS_def\<close>)
  {
    case (0 relative)
    have "root_down v 0 relative =
        (case map_option (\<lambda>n. 0 * 2 ^ BUCKET_BITS + n) (r 0 relative) of None \<Rightarrow> None | Some n \<Rightarrow> Some n)"
      by (subst root_down.simps) (simp add: r_def split: option.splits)
    then show ?case using step [of 0 relative None] 0 by simp
  next
    case (Suc i relative)
    have "root_down v (Suc i) relative = (case map_option (\<lambda>n. Suc i * 2 ^ BUCKET_BITS + n) (r (Suc i) relative) of
        None \<Rightarrow> root_down v i (-1) | Some n \<Rightarrow> Some n)"
      using Suc(4) by (subst root_down.simps) (simp add: r_def split: option.splits)
    moreover have "last_below (level_test BUCKET_BITS bucket_test v) (Suc i * 2 ^ BUCKET_BITS) (root_down v i (-1))"
      using Suc(1) [of "-1"] Suc(4) by (simp add: clear_of_def add.commute BUCKET_BITS_def)
    ultimately show ?case using step [of "Suc i" relative] Suc(2-5) by simp
  }
qed

section \<open>Walking a bitmap\<close>

text \<open>What \<open>SBM_next\<close> is asked for: the smallest member above a number, the largest below one.\<close>

definition next_member :: "bitmap \<Rightarrow> int \<Rightarrow> nat option \<Rightarrow> bool" where
  "next_member b number r =
     (case r of
        None \<Rightarrow> \<forall>m \<in> members b. int m \<le> number
      | Some n \<Rightarrow> n \<in> members b \<and> number < int n \<and> (\<forall>m \<in> members b. number < int m \<longrightarrow> n \<le> m))"

definition previous_member :: "bitmap \<Rightarrow> int \<Rightarrow> nat option \<Rightarrow> bool" where
  "previous_member b number r =
     (case r of
        None \<Rightarrow> \<forall>m \<in> members b. number \<noteq> -1 \<and> number \<le> int m
      | Some n \<Rightarrow> n \<in> members b \<and> (number = -1 \<or> int n < number) \<and>
          (\<forall>m \<in> members b. number = -1 \<or> int m < number \<longrightarrow> m \<le> n))"

lemma members_plural:
  "n \<in> members (Some v) \<longleftrightarrow> n < ROOT_LIMIT \<and> level_test BUCKET_BITS bucket_test v n"
  by (simp add: members_def SBM_test_def)

lemma members_states:
  "members None = {}"
  "sbm_state v = SBM_EMPTY \<Longrightarrow> members (Some v) = {}"
  "root_wf v \<Longrightarrow> sbm_state v = SBM_SINGULAR \<Longrightarrow> members (Some v) = {sbm_number v}"
  by (auto simp: members_def SBM_test_def level_states root_wf_def level_wf_def)

text \<open>A singular bucket holds no other number than its own.\<close>

lemma singular_bucket:
  assumes "root_wf v" "sbm_state v = SBM_PLURAL" "sbm_segments v ! (n div 2 ^ BUCKET_BITS) = Some s"
    "sbm_state s = SBM_SINGULAR" "n \<in> members (Some v)"
  shows "n mod 2 ^ BUCKET_BITS = sbm_number s"
  using assms root_level.test_holds [of v n]
  by (auto simp: members_plural root_wf_def bucket_test_states split: if_splits)

lemma member_slot:
  assumes "root_wf v" "sbm_state v = SBM_PLURAL" "n \<in> members (Some v)"
  shows "n div 2 ^ BUCKET_BITS \<le> sbm_high_water v"
proof -
  have w: "level_wf ROOT_LIMIT 1 BUCKET_BITS bucket_wf v" using assms(1) by (simp add: root_wf_def)
  have "n div 2 ^ BUCKET_BITS < sbm_count v \<and> sbm_segments v ! (n div 2 ^ BUCKET_BITS) \<noteq> None"
    using root_level.test_holds [OF w assms(2), of n] assms(3)
    by (cases "sbm_segments v ! (n div 2 ^ BUCKET_BITS)") (auto simp: members_plural split: if_splits)
  then show ?thesis using w unfolding root_level.wf_slots by blast
qed

lemma pred_mod:
  fixes n k :: nat
  assumes "0 < n mod k"
  shows "(n - 1) div k = n div k" "(n - 1) mod k = n mod k - 1"
proof (atomize (full), cases "k = 0")
  case False
  then have "0 < k" by simp
  then have r: "n mod k - 1 < k" using mod_less_divisor [of k n] by linarith
  have "n - 1 = n div k * k + (n mod k - 1)" using assms div_mult_mod_eq [of n k] by linarith
  with r show "(n - 1) div k = n div k \<and> (n - 1) mod k = n mod k - 1" by simp
qed simp

text \<open>
  \<open>SBM_next\<close> steps the number before it asks the bucket, and a singular bucket is asked for a number beyond the one it
  is given: a number that is alone in its bucket is not seen when the step arrives exactly at it.
\<close>

definition lone :: "bitmap \<Rightarrow> nat \<Rightarrow> bool" where
  "lone b n \<longleftrightarrow> n \<in> members b \<and> (\<forall>m \<in> members b. m div 2 ^ BUCKET_BITS = n div 2 ^ BUCKET_BITS \<longrightarrow> m = n)"

lemma singular_lone:
  assumes "root_wf v" "sbm_state v = SBM_PLURAL" "n div 2 ^ BUCKET_BITS \<le> sbm_high_water v"
    and "sbm_segments v ! (n div 2 ^ BUCKET_BITS) = Some s" "\<not> clear_of s (int (n mod 2 ^ BUCKET_BITS))"
  shows "lone (Some v) n"
proof -
  have w: "level_wf ROOT_LIMIT 1 BUCKET_BITS bucket_wf v" using assms(1) by (simp add: root_wf_def)
  have s: "sbm_state s = SBM_SINGULAR" "sbm_number s = n mod 2 ^ BUCKET_BITS" using assms(5) by (auto simp: clear_of_def)
  have "n div 2 ^ BUCKET_BITS * 2 ^ BUCKET_BITS + 2 ^ BUCKET_BITS \<le> ROOT_LIMIT" by (rule root_fits [OF assms(1,3)])
  moreover have "n mod 2 ^ BUCKET_BITS < 2 ^ BUCKET_BITS" by simp
  ultimately have "n < ROOT_LIMIT" using div_mult_mod_eq [of n "2 ^ BUCKET_BITS"] by linarith
  then have "n \<in> members (Some v)"
    using root_level.test_holds [OF w assms(2)] assms(3,4) s w
    by (auto simp: members_plural bucket_test_states level_wf_def)
  moreover have "m = n" if "m \<in> members (Some v)" "m div 2 ^ BUCKET_BITS = n div 2 ^ BUCKET_BITS" for m
  proof -
    have "m mod 2 ^ BUCKET_BITS = n mod 2 ^ BUCKET_BITS"
      using singular_bucket [OF assms(1,2) _ s(1) that(1)] assms(4) that(2) s(2) by simp
    then show ?thesis using that(2) by (metis div_mult_mod_eq)
  qed
  ultimately show ?thesis by (simp add: lone_def)
qed

text \<open>A member is followed and preceded in its bucket by numbers that are not alone there.\<close>

lemma lone_after_member:
  assumes "k \<in> members b" "lone b (k + 1)" shows "(k + 1) mod 2 ^ BUCKET_BITS = 0"
proof (rule ccontr)
  assume "(k + 1) mod 2 ^ BUCKET_BITS \<noteq> 0"
  then have "k div 2 ^ BUCKET_BITS = (k + 1) div 2 ^ BUCKET_BITS" using pred_mod(1) [of "k + 1" "2 ^ BUCKET_BITS"] by simp
  then have "k = k + 1" using assms unfolding lone_def by blast
  then show False by simp
qed

lemma next_least:
  assumes "least_in (\<lambda>m. m \<in> members b) (nat (number + 1)) ROOT_LIMIT r" "-1 \<le> number"
  shows "next_member b number r"
proof -
  have n: "number < int m \<longleftrightarrow> nat (number + 1) \<le> m" "int m \<le> number \<longleftrightarrow> m < nat (number + 1)" for m
    using assms(2) by linarith+
  have "m < ROOT_LIMIT" if "m \<in> members b" for m using that by (simp add: members_def)
  then show ?thesis
    using assms(1) unfolding next_member_def least_in_def n
    by (cases r) (simp, meson not_less, simp, meson not_less)
qed

lemma sbm_next_up:
  assumes wf: "sbm_wf b" and ge: "-1 \<le> number"
    and n: "lone b (nat (number + 1)) \<Longrightarrow> nat (number + 1) mod 2 ^ BUCKET_BITS = 0"
    and r: "SBM_next b number RSE_get_forward = (res, b')"
  shows "sbm_wf b' \<and> members b' = members b \<and> next_member b number res"
proof (cases "\<exists>v. b = Some v \<and> sbm_state v = SBM_PLURAL")
  case False
  show ?thesis
  proof (cases b)
    case None
    then show ?thesis using r wf by (auto simp: SBM_next_def next_member_def members_states)
  next
    case (Some v)
    then show ?thesis using False r wf ge
      by (cases "sbm_state v")
        (auto simp: SBM_next_def next_member_def members_states sbm_wf_def singular_next_def split: if_splits)
  qed
next
  case True
  then obtain v where v: "b = Some v" "sbm_state v = SBM_PLURAL" "root_wf v" using wf by (auto simp: sbm_wf_def)
  let ?n = "nat (number + 1)"
  let ?slot = "?n div 2 ^ BUCKET_BITS" and ?m = "?n mod 2 ^ BUCKET_BITS"
  let ?rel = "if ?m = 0 then -1 else int ?m"
  obtain v' where up: "root_up v ?slot ?rel (?rel = -1) = (res, v')" "b' = Some v'"
    using r v by (cases "root_up v ?slot ?rel (?rel = -1)") (auto simp: SBM_next_def Let_def)
  have clear: "clear_of s ?rel" if s: "?slot \<le> sbm_high_water v" "sbm_segments v ! ?slot = Some s" for s
  proof (cases "?m = 0")
    case False
    then have "\<not> lone (Some v) ?n" using n v(1) by auto
    with singular_lone [OF v(3,2) s] have "clear_of s (int ?m)" by blast
    then show ?thesis using False by simp
  qed (simp add: clear_of_def)
  have rel: "-1 \<le> ?rel" "?rel < 2 ^ BUCKET_BITS" by (auto simp: BUCKET_BITS_def)
  have start: "?slot * 2 ^ BUCKET_BITS + start_at ?rel = ?n"
    using div_mult_mod_eq [of ?n "2 ^ BUCKET_BITS"] by (auto simp: start_at_def)
  have spec: "root_wf v' \<and>
    (\<forall>m < ROOT_LIMIT. level_test BUCKET_BITS bucket_test v' m = level_test BUCKET_BITS bucket_test v m) \<and>
    least_in (level_test BUCKET_BITS bucket_test v) ?n ROOT_LIMIT res"
  proof -
    have "root_wf v' \<and> sbm_state v' = SBM_PLURAL \<and>
      (\<forall>m < ROOT_LIMIT. level_test BUCKET_BITS bucket_test v' m = level_test BUCKET_BITS bucket_test v m) \<and>
      least_in (level_test BUCKET_BITS bucket_test v) (?slot * 2 ^ BUCKET_BITS + start_at ?rel) ROOT_LIMIT res"
      by (rule root_up_spec [OF v(3,2) rel _ _ up(1)], assumption, rule clear)
    then show ?thesis unfolding start by blast
  qed
  then have "least_in (\<lambda>m. m \<in> members b) ?n ROOT_LIMIT res"
    using least_in_cong [of ?n ROOT_LIMIT "\<lambda>m. m \<in> members b"] v(1) by (simp add: members_plural)
  then have "next_member b number res" using ge by (intro next_least) auto
  moreover have "members b' = members b"
    using spec up(2) v(1) by (auto simp: members_plural)
  ultimately show ?thesis using spec up(2) by (simp add: sbm_wf_def)
qed

lemma sbm_next_down:
  assumes wf: "sbm_wf b"
    and n: "number = -1 \<or> number = 0 \<or> 0 < number \<and> (\<exists>m \<in> members b. number \<le> int m) \<and> \<not> lone b (nat (number - 1))"
    and r: "SBM_next b number RSE_get_backward = (res, b')"
  shows "b' = b \<and> previous_member b number res"
proof (cases "\<exists>v. b = Some v \<and> sbm_state v = SBM_PLURAL")
  case False
  have ge: "-1 \<le> number" using n by auto
  show ?thesis
  proof (cases b)
    case None
    then show ?thesis using r wf by (auto simp: SBM_next_def previous_member_def members_states)
  next
    case (Some v)
    then show ?thesis using False r wf ge n
      by (cases "sbm_state v")
        (auto simp: SBM_next_def previous_member_def members_states sbm_wf_def singular_next_def split: if_splits)
  qed
next
  case True
  then obtain v where v: "b = Some v" "sbm_state v = SBM_PLURAL" "root_wf v" using wf by (auto simp: sbm_wf_def)
  have w: "level_wf ROOT_LIMIT 1 BUCKET_BITS bucket_wf v" using v(3) by (simp add: root_wf_def)
  have mem: "last_below (level_test BUCKET_BITS bucket_test v) k x \<Longrightarrow> k \<le> ROOT_LIMIT \<Longrightarrow>
      last_below (\<lambda>m. m \<in> members b) k x" for k x
    using last_below_cong [of k "\<lambda>m. m \<in> members b" "level_test BUCKET_BITS bucket_test v" x] v(1)
    by (simp add: members_plural)
  have lim: "m < ROOT_LIMIT" if "m \<in> members b" for m using that by (simp add: members_def)
  have "b' = b" using r v by (auto simp: SBM_next_def Let_def split: if_splits)
  moreover have "previous_member b number res"
  proof -
    consider "number = -1" | "number = 0" | "0 < number" using n by linarith
    then show ?thesis
    proof cases
      case 1
      have res: "res = root_down v (sbm_high_water v) (-1)" using r v 1 by (simp add: SBM_next_def)
      have "last_below (level_test BUCKET_BITS bucket_test v) (sbm_high_water v * 2 ^ BUCKET_BITS + 2 ^ BUCKET_BITS) res"
        using root_down_spec [OF v(3,2), of "-1" "sbm_high_water v"] res by (simp add: clear_of_def BUCKET_BITS_def)
      then have "last_below (level_test BUCKET_BITS bucket_test v) ROOT_LIMIT res"
        using root_level.test_beyond [OF w v(2)] root_fits [OF v(3) order_refl]
        by (rule last_below_extend) (simp_all add: add.commute)
      then have "last_below (\<lambda>m. m \<in> members b) ROOT_LIMIT res" using mem by simp
      then show ?thesis using lim 1
        unfolding previous_member_def last_below_def by (cases res) (auto simp: not_le [symmetric])
    next
      case 2
      then have "res = None" using r v by (simp add: SBM_next_def)
      then show ?thesis using 2 by (simp add: previous_member_def)
    next
      case 3
      let ?k = "nat number" and ?n = "nat (number - 1)"
      obtain m where m: "m \<in> members (Some v)" "?k \<le> m" using n 3 v(1) by (auto simp: nat_le_iff)
      have k: "?n = ?k - 1" "0 < ?k" "\<not> lone (Some v) ?n" using n 3 v(1) by auto
      let ?slot = "?n div 2 ^ BUCKET_BITS" and ?m = "?n mod 2 ^ BUCKET_BITS"
      have res: "res = root_down v ?slot (int ?m)"
        using r v 3 by (auto simp: SBM_next_def Let_def split: if_splits)
      have "?slot \<le> m div 2 ^ BUCKET_BITS" using k(1) m(2) by (intro div_le_mono) linarith
      then have slot: "?slot \<le> sbm_high_water v" using member_slot [OF v(3,2) m(1)] by simp
      have clear: "clear_of s (int ?m)" if "sbm_segments v ! ?slot = Some s" for s
        using singular_lone [OF v(3,2) slot that] k(3) by blast
      have "last_below (level_test BUCKET_BITS bucket_test v) (?slot * 2 ^ BUCKET_BITS + (?m + 1)) res"
        using root_down_spec [OF v(3,2) _ _ slot clear] res by (simp add: BUCKET_BITS_def)
      moreover have "?slot * 2 ^ BUCKET_BITS + (?m + 1) = ?k"
        using div_mult_mod_eq [of ?n "2 ^ BUCKET_BITS"] k(1,2) by linarith
      ultimately have "last_below (\<lambda>m. m \<in> members b) ?k res" using mem lim [of m] m v(1) by simp
      moreover have "int m < number \<longleftrightarrow> m < ?k" "number \<le> int m \<longleftrightarrow> ?k \<le> m" for m using 3 by linarith+
      ultimately show ?thesis using 3
        unfolding previous_member_def last_below_def by (cases res) (simp, meson not_less, simp, meson not_less)
    qed
  qed
  ultimately show ?thesis by simp
qed

text \<open>C10. Walking a well-formed bitmap. Forwards from \<open>-1\<close> or any other number, member or not, \<open>SBM_next\<close> finds
  the next larger member or reports that there is none, unless the number that follows is alone in its bucket, and not
  the first number of it; that never happens after a member. The blocks it releases on the way change neither the set
  nor its well-formedness. Backwards from \<open>-1\<close> it finds the largest member, and from any number that is not above all
  members the next smaller one, unless the number before it is alone in its bucket.\<close>

theorem sbm_next_walks:
  assumes "sbm_wf b"
  shows "(-1 \<le> number \<and> (lone b (nat (number + 1)) \<longrightarrow> nat (number + 1) mod 2 ^ BUCKET_BITS = 0) \<or>
        0 \<le> number \<and> nat number \<in> members b \<longrightarrow>
      (\<exists>r b'. SBM_next b number RSE_get_forward = (r, b') \<and> sbm_wf b' \<and> members b' = members b \<and>
        next_member b number r)) \<and>
    (number = -1 \<or> number = 0 \<or> 0 < number \<and> (\<exists>m \<in> members b. number \<le> int m) \<and> \<not> lone b (nat (number - 1)) \<longrightarrow>
      (\<exists>r. SBM_next b number RSE_get_backward = (r, b) \<and> previous_member b number r))"
proof (intro conjI impI)
  obtain r b' where up: "SBM_next b number RSE_get_forward = (r, b')" by fastforce
  assume "-1 \<le> number \<and> (lone b (nat (number + 1)) \<longrightarrow> nat (number + 1) mod 2 ^ BUCKET_BITS = 0) \<or>
    0 \<le> number \<and> nat number \<in> members b"
  then have start: "-1 \<le> number" "lone b (nat (number + 1)) \<Longrightarrow> nat (number + 1) mod 2 ^ BUCKET_BITS = 0"
    using lone_after_member [of "nat number" b] by (auto simp: nat_add_distrib)
  show "\<exists>r b'. SBM_next b number RSE_get_forward = (r, b') \<and> sbm_wf b' \<and> members b' = members b \<and>
      next_member b number r"
    using sbm_next_up [OF assms start up] up by blast
next
  obtain r b' where down: "SBM_next b number RSE_get_backward = (r, b')" by fastforce
  assume "number = -1 \<or> number = 0 \<or> 0 < number \<and> (\<exists>m \<in> members b. number \<le> int m) \<and> \<not> lone b (nat (number - 1))"
  then show "\<exists>r. SBM_next b number RSE_get_backward = (r, b) \<and> previous_member b number r"
    using sbm_next_down [OF assms _ down] down by auto
qed

definition one_number :: "nat \<Rightarrow> bucket" where
  "one_number n = clear_bucket\<lparr>sbm_state := SBM_SINGULAR, sbm_number := n\<rparr>"

definition two_numbers :: bitmap where
  "two_numbers = Some \<lparr>sbm_state = SBM_PLURAL, sbm_count = 2, sbm_used = 2, sbm_high_water = 1, sbm_number = 0,
     sbm_segments = [Some (one_number 32767), Some (one_number 0)]\<rparr>"

lemma one_number: "n < 2 ^ BUCKET_BITS \<Longrightarrow> bucket_wf (one_number n)" "bucket_test (one_number n) m \<longleftrightarrow> m = n"
  by (auto simp: one_number_def bucket_wf_def level_wf_def clear_bucket_def bucket_test_states)

lemma two_numbers_wf: "sbm_wf two_numbers"
  using one_number(1) [of 32767] one_number(1) [of 0]
  by (auto simp: two_numbers_def sbm_wf_def root_wf_def level_wf_def ROOT_LIMIT_def BUCKET_BITS_def less_2_cases_iff)

lemma two_numbers_members: "members two_numbers = {32767, 32768}"
proof (rule set_eqI)
  fix n
  obtain v where v: "two_numbers = Some v" "sbm_state v = SBM_PLURAL" "sbm_count v = 2"
    "sbm_segments v = [Some (one_number 32767), Some (one_number 0)]" by (auto simp: two_numbers_def)
  have w: "level_wf ROOT_LIMIT 1 BUCKET_BITS bucket_wf v"
    using two_numbers_wf unfolding v(1) by (simp add: sbm_wf_def root_wf_def)
  have eq: "n \<in> members two_numbers \<longleftrightarrow> n < ROOT_LIMIT \<and>
      slot_test bucket_test (if n div 32768 < 2 then sbm_segments v ! (n div 32768) else None) (n mod 32768)"
    unfolding v(1) members_plural using root_level.test_holds [OF w v(2), of n] v(3)
    by (auto simp: BUCKET_BITS_def)
  have n: "n = n div 32768 * 32768 + n mod 32768" by simp
  consider (zero) "n div 32768 = 0" | (one) "n div 32768 = 1" | (more) "2 \<le> n div 32768" by linarith
  then show "n \<in> members two_numbers \<longleftrightarrow> n \<in> {32767, 32768}"
  proof cases
    case zero
    then have "n \<in> members two_numbers \<longleftrightarrow> n < ROOT_LIMIT \<and> n mod 32768 = 32767"
      using eq v(4) one_number(2) by simp
    then show ?thesis using n zero by (auto simp: ROOT_LIMIT_def BUCKET_BITS_def)
  next
    case one
    then have "n \<in> members two_numbers \<longleftrightarrow> n < ROOT_LIMIT \<and> n mod 32768 = 0"
      using eq v(4) one_number(2) by simp
    then show ?thesis using n one by (auto simp: ROOT_LIMIT_def BUCKET_BITS_def)
  next
    case more
    then show ?thesis using eq by auto
  qed
qed

theorem sbm_next_walks_witness:
  "\<exists>r b'. SBM_next two_numbers (int 32767) RSE_get_forward = (r, b') \<and> members b' = {32767, 32768} \<and>
    next_member two_numbers (int 32767) r"
  using sbm_next_walks [OF two_numbers_wf, of "int 32767"] two_numbers_members by auto

text \<open>The exceptions are real: the bitmap with 32767 and 32768 walked forwards from 32766 arrives at 32768, and walked backwards from 32768 ends at once,
  because \<open>SBM_next\<close> asks the bucket for a number below 32767 after it has stepped down to 32767 itself.\<close>

lemma sbm_next_forward_skips:
  "lone two_numbers 32767 \<and> SBM_next two_numbers 32766 RSE_get_forward = (Some 32768, two_numbers)"
proof -
  have "members two_numbers = {32767, 32768}" by (rule two_numbers_members)
  then show ?thesis
    by (simp add: lone_def SBM_next_def two_numbers_def root_up.simps bucket_next_def singular_next_def clear_bucket_def
        BUCKET_BITS_def Let_def one_number_def)
qed

lemma sbm_next_backward_skips:
  "members two_numbers = {32767, 32768} \<and> lone two_numbers 32767 \<and>
   SBM_next two_numbers 32768 RSE_get_backward = (None, two_numbers)"
  using two_numbers_members
  by (simp add: lone_def SBM_next_def two_numbers_def root_down.simps bucket_next_def singular_next_def clear_bucket_def
      BUCKET_BITS_def Let_def one_number_def)

section \<open>Comparing two bitmaps\<close>

lemma next_member_unique:
  assumes "next_member b number r1" "next_member b number r2" shows "r1 = r2"
  using assms unfolding next_member_def
  by (cases r1; cases r2) (auto intro: antisym)

lemma equal_loop_spec:
  assumes "sbm_wf b1" "sbm_wf b2" "number = -1 \<or> 0 \<le> number \<and> nat number \<in> members b1 \<inter> members b2"
    and "\<And>m. int m \<le> number \<Longrightarrow> m \<in> members b1 \<longleftrightarrow> m \<in> members b2"
  shows "\<exists>e b1' b2'. equal_loop b1 b2 number number = Some (e, b1', b2') \<and> sbm_wf b1' \<and> sbm_wf b2' \<and>
    members b1' = members b1 \<and> members b2' = members b2 \<and> (e \<longleftrightarrow> members b1 = members b2)"
  using assms
proof (induction "nat (int ROOT_LIMIT - number)" arbitrary: b1 b2 number rule: less_induct)
  case less
  obtain r1 b1' r2 b2' where n: "SBM_next b1 number RSE_get_forward = (r1, b1')"
    "SBM_next b2 number RSE_get_forward = (r2, b2')" by fastforce
  have start: "-1 \<le> number" "lone b1 (nat (number + 1)) \<Longrightarrow> nat (number + 1) mod 2 ^ BUCKET_BITS = 0"
    "lone b2 (nat (number + 1)) \<Longrightarrow> nat (number + 1) mod 2 ^ BUCKET_BITS = 0"
    using less.prems(3) lone_after_member [of "nat number" b1] lone_after_member [of "nat number" b2]
    by (auto simp: nat_add_distrib)
  have 1: "sbm_wf b1'" "members b1' = members b1" "next_member b1 number r1"
    using sbm_next_up [OF less.prems(1) start(1,2) n(1)] by auto
  have 2: "sbm_wf b2'" "members b2' = members b2" "next_member b2 number r2"
    using sbm_next_up [OF less.prems(2) start(1,3) n(2)] by auto
  note step = equal_loop.simps [of b1 b2 number number]
  show ?case
  proof (cases "r1 = r2")
    case False
    have "next_member b1 number r2" if "members b1 = members b2"
      using 2(3) that unfolding next_member_def by (cases r2) simp_all
    then have "members b1 \<noteq> members b2" using 1(3) False next_member_unique by blast
    moreover have "equal_loop b1 b2 number number = Some (False, b1', b2')"
      using False n step by (cases r1; cases r2) auto
    ultimately show ?thesis using 1 2 by auto
  next
    case True
    show ?thesis
    proof (cases r1)
      case None
      have "m \<in> members b1 \<longleftrightarrow> m \<in> members b2" for m
        using 1(3) 2(3) None True less.prems(4) [of m] by (auto simp: next_member_def)
      moreover have "equal_loop b1 b2 number number = Some (True, b1', b2')"
        using True None n step by simp
      ultimately show ?thesis using 1 2 by blast
    next
      case (Some k)
      have k: "k \<in> members b1" "k \<in> members b2" "number < int k"
        "\<And>m. m \<in> members b1 \<Longrightarrow> number < int m \<Longrightarrow> k \<le> m" "\<And>m. m \<in> members b2 \<Longrightarrow> number < int m \<Longrightarrow> k \<le> m"
        using 1(3) 2(3) Some True by (auto simp: next_member_def)
      have "k < ROOT_LIMIT" using k(1) by (simp add: members_def)
      then have dec: "nat (int ROOT_LIMIT - int k) < nat (int ROOT_LIMIT - number)" using k(3) by linarith
      have below: "m \<in> members b1' \<longleftrightarrow> m \<in> members b2'" if "int m \<le> int k" for m
      proof (cases "int m \<le> number")
        case True
        then show ?thesis using less.prems(4) 1(2) 2(2) by simp
      next
        case False
        then show ?thesis using k(1,2) k(4,5) [of m] that 1(2) 2(2) by (cases "m = k") auto
      qed
      have "equal_loop b1 b2 number number = equal_loop b1' b2' (int k) (int k)"
        using Some True n step by simp
      then show ?thesis
        using less.hyps [OF dec 1(1) 2(1) _ below] k(1,2) 1(2) 2(2) by auto
    qed
  qed
qed

text \<open>C11. \<open>SBM_equal\<close> returns on every two well-formed bitmaps, and returns true exactly when they hold the
  same numbers; both keep their contents.\<close>

theorem sbm_equal_sets:
  assumes "sbm_wf b1" "sbm_wf b2"
  shows "\<exists>e b1' b2'. SBM_equal b1 b2 = Some (e, b1', b2') \<and> sbm_wf b1' \<and> sbm_wf b2' \<and>
    members b1' = members b1 \<and> members b2' = members b2 \<and> (e \<longleftrightarrow> members b1 = members b2)"
proof -
  obtain r1 b1' r2 b2' where n: "SBM_next b1 (-1) RSE_get_backward = (r1, b1')"
    "SBM_next b2 (-1) RSE_get_backward = (r2, b2')" by fastforce
  have p: "previous_member b1 (-1) r1" "previous_member b2 (-1) r2"
    using sbm_next_down [OF assms(1) _ n(1)] sbm_next_down [OF assms(2) _ n(2)] by auto
  show ?thesis
  proof (cases "r1 = r2")
    case True
    then show ?thesis
      using equal_loop_spec [OF assms, of "-1"] n by (simp add: SBM_equal_def)
  next
    case False
    then have "members b1 \<noteq> members b2"
      using p unfolding previous_member_def by (cases r1; cases r2) (auto intro: antisym)
    then show ?thesis using False n assms by (auto simp: SBM_equal_def intro: exI [of _ False])
  qed
qed

theorem sbm_equal_sets_witness:
  "\<exists>b1' b2'. SBM_equal two_numbers None = Some (False, b1', b2') \<and> members b1' = {32767, 32768}"
  using sbm_equal_sets [OF two_numbers_wf, of None] two_numbers_members
  by (auto simp: sbm_wf_def members_states)

end
