(* ===== verification/Lock_Grant.thy ===== *)
theory Lock_Grant
  imports Fb_Prelude
begin

text \<open>
  \<open>lock/lock.cpp\<close>, \<open>lock/lock.h\<close>: how the lock manager grants, queues, converts and releases the
  requests of one lock. A lock block holds the queue of its requests, the number of requests granted
  at each level, the highest level granted and the number of requests that wait.

  A request block is named by \<open>lrq_id\<close>, its offset in the lock table; a lock that does not exist is
  \<open>None\<close>. The lock table is acquired by one owner at a time, so an operation is atomic up to the
  point where it waits: there \<open>wait_for_request\<close> has marked the request as pending and released the
  table. The waiting request is granted by an operation of another owner (\<open>post_pending\<close>) or is
  rejected (its lock timeout, or the victim of a deadlock scan), and its owner then takes the code
  after the wait (\<open>enq_resume\<close>, \<open>convert_resume\<close>). Signals, blocking routines, the history, the
  statistics and the data of a lock are not modelled.
\<close>

section \<open>Levels\<close>

definition LCK_none :: nat where "LCK_none = 0"
definition LCK_null :: nat where "LCK_null = 1"
definition LCK_SR :: nat where "LCK_SR = 2"
definition LCK_PR :: nat where "LCK_PR = 3"
definition LCK_SW :: nat where "LCK_SW = 4"
definition LCK_PW :: nat where "LCK_PW = 5"
definition LCK_EX :: nat where "LCK_EX = 6"
definition LCK_max :: nat where "LCK_max = 7"

lemma lck_levels [simp]:
  "LCK_none = 0" "LCK_null = 1" "LCK_SR = 2" "LCK_PR = 3" "LCK_SW = 4" "LCK_PW = 5" "LCK_EX = 6"
  "LCK_max = 7"
  by (simp_all add: LCK_none_def LCK_null_def LCK_SR_def LCK_PR_def LCK_SW_def LCK_PW_def LCK_EX_def
      LCK_max_def)

definition compatibility :: "nat list" where
  "compatibility =
    [1, 1, 1, 1, 1, 1, 1,
     1, 1, 1, 1, 1, 1, 1,
     1, 1, 1, 1, 1, 1, 0,
     1, 1, 1, 1, 0, 0, 0,
     1, 1, 1, 0, 1, 0, 0,
     1, 1, 1, 0, 0, 0, 0,
     1, 1, 0, 0, 0, 0, 0]"

definition COMPATIBLE :: "nat \<Rightarrow> nat \<Rightarrow> bool" where
  "COMPATIBLE st1 st2 \<longleftrightarrow> compatibility ! (st1 * LCK_max + st2) \<noteq> 0"

section \<open>Blocks\<close>

record lrq =
  lrq_id :: nat
  lrq_owner :: nat
  lrq_requested :: nat
  lrq_state :: nat
  lrq_pending :: bool
  lrq_rejected :: bool

record lbl =
  lbl_state :: nat
  lbl_requests :: "lrq list"
  lbl_pending_lrq_count :: nat
  lbl_counts :: "nat list"

definition put_request :: "lrq \<Rightarrow> lbl \<Rightarrow> lbl" where
  "put_request r lock = lock\<lparr>lbl_requests :=
     map (\<lambda>q. if lrq_id q = lrq_id r then r else q) (lbl_requests lock)\<rparr>"

definition remove_request :: "nat \<Rightarrow> lbl \<Rightarrow> lbl" where
  "remove_request rid lock =
     lock\<lparr>lbl_requests := filter (\<lambda>q. lrq_id q \<noteq> rid) (lbl_requests lock)\<rparr>"

definition count_up :: "nat \<Rightarrow> lbl \<Rightarrow> lbl" where
  "count_up k lock = lock\<lparr>lbl_counts := (lbl_counts lock)[k := ushort (lbl_counts lock ! k + 1)]\<rparr>"

definition count_down :: "nat \<Rightarrow> lbl \<Rightarrow> lbl" where
  "count_down k lock = lock\<lparr>lbl_counts := (lbl_counts lock)[k := ushort_sub (lbl_counts lock ! k) 1]\<rparr>"

definition pending_up :: "lbl \<Rightarrow> lbl" where
  "pending_up lock = lock\<lparr>lbl_pending_lrq_count := ushort (lbl_pending_lrq_count lock + 1)\<rparr>"

definition pending_down :: "lbl \<Rightarrow> lbl" where
  "pending_down lock = lock\<lparr>lbl_pending_lrq_count := ushort_sub (lbl_pending_lrq_count lock) 1\<rparr>"

section \<open>Operations\<close>

definition lock_state :: "lbl \<Rightarrow> nat" where
  "lock_state lock =
     (if lbl_counts lock ! LCK_EX \<noteq> 0 then LCK_EX
      else if lbl_counts lock ! LCK_PW \<noteq> 0 then LCK_PW
      else if lbl_counts lock ! LCK_SW \<noteq> 0 then LCK_SW
      else if lbl_counts lock ! LCK_PR \<noteq> 0 then LCK_PR
      else if lbl_counts lock ! LCK_SR \<noteq> 0 then LCK_SR
      else if lbl_counts lock ! LCK_null \<noteq> 0 then LCK_null
      else LCK_none)"

definition grant :: "lrq \<Rightarrow> lbl \<Rightarrow> lbl" where
  "grant r lock =
     (let lock1 = put_request (r\<lparr>lrq_state := lrq_requested r\<rparr>) (count_up (lrq_requested r) lock);
          lock2 = lock1\<lparr>lbl_state := lock_state lock1\<rparr>
      in if lrq_pending r
         then pending_down (put_request (r\<lparr>lrq_state := lrq_requested r, lrq_pending := False\<rparr>) lock2)
         else lock2)"

text \<open>
  The loop of \<open>post_pending\<close> over the queue. The requests not yet visited are as they were when the
  loop began. \<open>ord\<close> is \<open>LOCK_ordering\<close>.
\<close>

fun pending_loop :: "bool \<Rightarrow> lrq list \<Rightarrow> lbl \<Rightarrow> lbl" where
  "pending_loop ord [] lock = lock"
| "pending_loop ord (r # rs) lock =
     (if \<not> lrq_pending r then pending_loop ord rs lock
      else if lrq_state r \<noteq> LCK_none then
        let lock1 = count_down (lrq_state r) lock in
        if COMPATIBLE (lrq_requested r) (lock_state lock1)
        then pending_loop ord rs (grant r lock1)
        else
          let lock2 = count_up (lrq_state r) lock1 in
          if ord then lock2 else pending_loop ord rs lock2
      else if COMPATIBLE (lrq_requested r) (lbl_state lock)
      then pending_loop ord rs (grant r lock)
      else if ord then lock else pending_loop ord rs lock)"

definition post_pending :: "bool \<Rightarrow> lbl \<Rightarrow> lbl" where
  "post_pending ord lock =
     (if lbl_pending_lrq_count lock = 0 then lock
      else pending_loop ord (lbl_requests lock) lock)"

definition release_request :: "bool \<Rightarrow> lrq \<Rightarrow> lbl \<Rightarrow> lbl option" where
  "release_request ord r lock =
     (let lock1 = remove_request (lrq_id r) lock;
          lock2 = (if lrq_pending r then pending_down lock1 else lock1) in
      if lbl_requests lock2 = [] then None
      else if lrq_state r \<noteq> LCK_none then
        let lock3 = count_down (lrq_state r) lock2 in
        if lbl_counts lock3 ! lrq_state r = 0
        then Some (post_pending ord (lock3\<lparr>lbl_state := lock_state lock3\<rparr>))
        else Some (post_pending ord lock3)
      else Some (post_pending ord lock2))"

text \<open>\<open>wait_for_request\<close> up to the release of the table, and the two places of its loop that reject.\<close>

definition start_wait :: "bool \<Rightarrow> lrq \<Rightarrow> lbl \<Rightarrow> lbl" where
  "start_wait ord r lock =
     (let r' = r\<lparr>lrq_rejected := False, lrq_pending := True\<rparr>;
          lock1 = pending_up (put_request r' lock) in
      if ord \<and> lrq_state r = LCK_none
      then let lock2 = remove_request (lrq_id r) lock1
           in lock2\<lparr>lbl_requests := lbl_requests lock2 @ [r']\<rparr>
      else lock1)"

definition reject_request :: "lrq \<Rightarrow> lbl \<Rightarrow> lbl" where
  "reject_request r lock =
     pending_down (put_request (r\<lparr>lrq_rejected := True, lrq_pending := False\<rparr>) lock)"

datatype gds_error = gds_deadlock | gds_lock_timeout | gds_lock_conflict

datatype lock_result = Granted | Waiting | Denied gds_error

definition denied :: "int \<Rightarrow> lock_result" where
  "denied lck_wait =
     Denied (if 0 < lck_wait then gds_deadlock
             else if lck_wait < 0 then gds_lock_timeout else gds_lock_conflict)"

definition grant_or_que :: "bool \<Rightarrow> lrq \<Rightarrow> int \<Rightarrow> lbl \<Rightarrow> lock_result \<times> lbl option" where
  "grant_or_que ord r lck_wait lock =
     (if COMPATIBLE (lrq_requested r) (lbl_state lock) \<and>
         (\<not> ord \<or> lrq_requested r = LCK_null \<or> lbl_pending_lrq_count lock = 0)
      then (Granted, Some (post_pending ord (grant r lock)))
      else if lck_wait \<noteq> 0 then (Waiting, Some (start_wait ord r lock))
      else (denied lck_wait, release_request ord r lock))"

definition new_request :: "nat \<Rightarrow> nat \<Rightarrow> nat \<Rightarrow> lrq" where
  "new_request rid owner type =
     \<lparr>lrq_id = rid, lrq_owner = owner, lrq_requested = type, lrq_state = LCK_none,
      lrq_pending = False, lrq_rejected = False\<rparr>"

definition LOCK_enq ::
  "bool \<Rightarrow> nat \<Rightarrow> nat \<Rightarrow> nat \<Rightarrow> int \<Rightarrow> lbl option \<Rightarrow> lock_result \<times> lbl option" where
  "LOCK_enq ord rid owner type lck_wait found =
     (let r = new_request rid owner type in
      case found of
        Some lock \<Rightarrow> grant_or_que ord r lck_wait (lock\<lparr>lbl_requests := lbl_requests lock @ [r]\<rparr>)
      | None \<Rightarrow> (Granted, Some (grant r
          \<lparr>lbl_state = type, lbl_requests = [r], lbl_pending_lrq_count = 0,
           lbl_counts = replicate LCK_max 0\<rparr>)))"

text \<open>The rest of \<open>grant_or_que\<close> for a request that is no longer pending.\<close>

definition enq_resume :: "bool \<Rightarrow> lrq \<Rightarrow> int \<Rightarrow> lbl \<Rightarrow> lock_result \<times> lbl option" where
  "enq_resume ord r lck_wait lock =
     (if \<not> lrq_rejected r then (Granted, Some lock)
      else (denied lck_wait, release_request ord r lock))"

definition convert :: "bool \<Rightarrow> lrq \<Rightarrow> nat \<Rightarrow> int \<Rightarrow> lbl \<Rightarrow> lock_result \<times> lbl" where
  "convert ord r type lck_wait lock =
     (let r1 = r\<lparr>lrq_requested := type\<rparr>;
          lock1 = count_down (lrq_state r1) (put_request r1 lock) in
      if COMPATIBLE type (lock_state lock1)
      then (Granted, post_pending ord (grant r1 lock1))
      else
        let lock2 = count_up (lrq_state r1) lock1 in
        if lck_wait \<noteq> 0 then (Waiting, start_wait ord r1 lock2)
        else (denied lck_wait, put_request (r1\<lparr>lrq_requested := lrq_state r1\<rparr>) lock2))"

definition convert_resume :: "bool \<Rightarrow> lrq \<Rightarrow> int \<Rightarrow> lbl \<Rightarrow> lock_result \<times> lbl" where
  "convert_resume ord r lck_wait lock =
     (if \<not> lrq_rejected r then (Granted, lock)
      else (denied lck_wait,
            put_request (r\<lparr>lrq_requested := lrq_state r\<rparr>) (post_pending ord lock)))"

fun highest_pending :: "nat \<Rightarrow> lrq list \<Rightarrow> nat \<Rightarrow> nat" where
  "highest_pending rid [] pending_state = pending_state"
| "highest_pending rid (p # ps) pending_state =
     (if lrq_pending p \<and> lrq_id p \<noteq> rid then
        let pending_state' = max (lrq_requested p) pending_state in
        if pending_state' = LCK_EX then pending_state' else highest_pending rid ps pending_state'
      else highest_pending rid ps pending_state)"

fun lower_state :: "nat \<Rightarrow> nat \<Rightarrow> nat" where
  "lower_state pending_state 0 = 0"
| "lower_state pending_state (Suc n) =
     (if COMPATIBLE pending_state (Suc n) then Suc n else lower_state pending_state n)"

definition LOCK_downgrade :: "bool \<Rightarrow> lrq \<Rightarrow> lbl \<Rightarrow> nat \<times> lbl option" where
  "LOCK_downgrade ord r lock =
     (let state = lower_state (highest_pending (lrq_id r) (lbl_requests lock) LCK_none) (lrq_state r) in
      if state = LCK_none \<or> state = LCK_null
      then (LCK_none, release_request ord r lock)
      else (state, Some (snd (convert ord r state 0 lock))))"


section \<open>Compatible levels\<close>

text \<open>The table in closed form.\<close>

lemma below_7: "k < 7 \<Longrightarrow> k = 0 \<or> k = 1 \<or> k = 2 \<or> k = 3 \<or> k = 4 \<or> k = 5 \<or> k = (6 :: nat)"
  by linarith

lemma compat_iff:
  assumes "t < 7" "k < 7"
  shows "COMPATIBLE t k \<longleftrightarrow>
    t \<le> 1 \<or> k \<le> 1 \<or> (t = 2 \<and> k \<le> 5) \<or> (k = 2 \<and> t \<le> 5) \<or> (t = 3 \<and> k = 3) \<or> (t = 4 \<and> k = 4)"
  using below_7 [OF assms(1)] below_7 [OF assms(2)]
  by (elim disjE; simp add: COMPATIBLE_def compatibility_def)

lemma compat_below:
  "\<lbrakk>COMPATIBLE t m; k \<le> m; k = m \<or> COMPATIBLE k m; t < 7; m < 7\<rbrakk> \<Longrightarrow> COMPATIBLE t k"
  by (simp add: compat_iff) arith

lemma compat_sym: "t < 7 \<Longrightarrow> k < 7 \<Longrightarrow> COMPATIBLE t k = COMPATIBLE k t"
  by (simp add: compat_iff) arith

lemma compat_none [simp]:
  "t < 7 \<Longrightarrow> COMPATIBLE t 0" "t < 7 \<Longrightarrow> COMPATIBLE t (Suc 0)" "t < 7 \<Longrightarrow> COMPATIBLE 0 t"
  "t < 7 \<Longrightarrow> COMPATIBLE (Suc 0) t"
  by (simp_all add: compat_iff)

section \<open>Counts\<close>

definition held :: "nat \<Rightarrow> lrq list \<Rightarrow> nat" where
  "held k rs = length (filter (\<lambda>q. lrq_state q = k) rs)"

definition waiting :: "lrq list \<Rightarrow> nat" where
  "waiting rs = length (filter lrq_pending rs)"

text \<open>The counts of a lock are those of the requests \<open>rs\<close>; nothing is ever counted at \<open>LCK_none\<close>.\<close>

definition counted :: "lrq list \<Rightarrow> lbl \<Rightarrow> bool" where
  "counted rs lock \<longleftrightarrow>
     length (lbl_counts lock) = 7 \<and> lbl_counts lock ! 0 = 0 \<and> (\<forall>k. 0 < k \<and> k < 7 \<longrightarrow> lbl_counts lock ! k = held k rs)"

text \<open>Any two requests are held at compatible levels.\<close>

definition compatible_holders :: "lrq list \<Rightarrow> bool" where
  "compatible_holders rs \<longleftrightarrow>
     (\<forall>q \<in> set rs. \<forall>q' \<in> set rs. lrq_id q \<noteq> lrq_id q' \<longrightarrow> COMPATIBLE (lrq_state q) (lrq_state q'))"

definition others :: "lrq \<Rightarrow> lrq list \<Rightarrow> lrq list" where
  "others r rs = filter (\<lambda>q. lrq_id q \<noteq> lrq_id r) rs"

lemma others_mem [simp]: "q \<in> set (others r rs) \<longleftrightarrow> q \<in> set rs \<and> lrq_id q \<noteq> lrq_id r"
  by (auto simp: others_def)

lemma held_Cons [simp]: "held k (q # rs) = (if lrq_state q = k then Suc (held k rs) else held k rs)"
  by (simp add: held_def)

lemma held_Nil [simp]: "held k [] = 0"
  by (simp add: held_def)

lemma held_append [simp]: "held k (xs @ ys) = held k xs + held k ys"
  by (simp add: held_def)

lemma waiting_Cons [simp]: "waiting (q # rs) = (if lrq_pending q then Suc (waiting rs) else waiting rs)"
  by (simp add: waiting_def)

lemma waiting_Nil [simp]: "waiting [] = 0"
  by (simp add: waiting_def)

lemma waiting_append [simp]: "waiting (xs @ ys) = waiting xs + waiting ys"
  by (simp add: waiting_def)

lemma held_pos: "held k rs \<noteq> 0 \<longleftrightarrow> (\<exists>q \<in> set rs. lrq_state q = k)"
  by (induction rs) auto

lemma held_le: "held k rs \<le> length rs"
  by (simp add: held_def)

lemma waiting_le: "waiting rs \<le> length rs"
  by (simp add: waiting_def)

text \<open>One request among those of the queue.\<close>

lemma split_request:
  assumes "r \<in> set rs" "distinct (map lrq_id rs)"
  obtains xs ys where "rs = xs @ r # ys" "others r rs = xs @ ys"
proof -
  from assms(1) obtain xs ys where rs: "rs = xs @ r # ys" by (meson split_list)
  have "lrq_id r \<notin> lrq_id ` (set xs \<union> set ys)" using assms(2) unfolding rs by (simp add: image_Un)
  then have "\<forall>q \<in> set xs \<union> set ys. lrq_id q \<noteq> lrq_id r" by (metis imageI)
  then have "others r rs = xs @ ys" by (auto simp: others_def rs intro!: filter_True)
  with rs show thesis by (rule that)
qed

lemma held_others:
  assumes "r \<in> set rs" "distinct (map lrq_id rs)"
  shows "held k rs = held k (others r rs) + (if lrq_state r = k then 1 else 0)"
  using assms by (elim split_request [of r rs]) auto

lemma waiting_others:
  assumes "r \<in> set rs" "distinct (map lrq_id rs)"
  shows "waiting rs = waiting (others r rs) + (if lrq_pending r then 1 else 0)"
  using assms by (elim split_request [of r rs]) auto

text \<open>The level the lock block computes is the highest that is held.\<close>

lemma lock_state_held:
  assumes "counted rs lock"
  shows "lock_state lock < 7"
    and "q \<in> set rs \<Longrightarrow> lrq_state q < 7 \<Longrightarrow> lrq_state q \<le> lock_state lock"
    and "lock_state lock \<noteq> 0 \<Longrightarrow> \<exists>q \<in> set rs. lrq_state q = lock_state lock"
proof -
  have c: "lbl_counts lock ! k \<noteq> 0 \<longleftrightarrow> (\<exists>q \<in> set rs. lrq_state q = k)" if "0 < k" "k < 7" for k
    using assms that held_pos by (simp add: counted_def)
  show "lock_state lock < 7" by (simp add: lock_state_def)
  show "\<exists>q \<in> set rs. lrq_state q = lock_state lock" if "lock_state lock \<noteq> 0"
  proof -
    have "lbl_counts lock ! lock_state lock \<noteq> 0" "0 < lock_state lock" "lock_state lock < 7"
      using that by (auto simp: lock_state_def split: if_splits)
    with c show ?thesis by blast
  qed
  show "lrq_state q \<le> lock_state lock" if "q \<in> set rs" "lrq_state q < 7"
  proof -
    have nz: "lrq_state q = 0 \<or> lbl_counts lock ! lrq_state q \<noteq> 0"
      using that c [of "lrq_state q"] by blast
    define k where "k = lrq_state q"
    have "k \<le> lock_state lock"
      using below_7 [OF that(2)] nz unfolding k_def [symmetric]
      by (elim disjE; simp add: lock_state_def)
    then show ?thesis by (simp add: k_def)
  qed
qed

text \<open>
  The test of the code, against the level of the lock, is the test against every request.
\<close>

lemma compat_lock_state:
  assumes "counted rs lock" "compatible_holders rs" "distinct (map lrq_id rs)"
    and lv: "\<forall>q \<in> set rs. lrq_state q < 7" and t: "t < 7"
  shows "COMPATIBLE t (lock_state lock) \<longleftrightarrow> (\<forall>q \<in> set rs. COMPATIBLE t (lrq_state q))"
proof
  assume c: "COMPATIBLE t (lock_state lock)"
  show "\<forall>q \<in> set rs. COMPATIBLE t (lrq_state q)"
  proof
    fix q assume q: "q \<in> set rs"
    have le: "lrq_state q \<le> lock_state lock" using lock_state_held(2) [OF assms(1) q] lv q by blast
    have "lrq_state q = lock_state lock \<or> COMPATIBLE (lrq_state q) (lock_state lock)"
    proof (cases "lock_state lock = 0")
      case False
      then obtain m where m: "m \<in> set rs" "lrq_state m = lock_state lock"
        using lock_state_held(3) [OF assms(1)] by blast
      show ?thesis
      proof (cases "lrq_id m = lrq_id q")
        case True
        then have "m = q" using m(1) q assms(3) by (simp add: distinct_map inj_on_def)
        then show ?thesis using m(2) by simp
      qed (use m q assms(2) in \<open>metis compatible_holders_def\<close>)
    qed (use le in simp)
    then show "COMPATIBLE t (lrq_state q)"
      using compat_below [OF c le] t lock_state_held(1) [OF assms(1)] by blast
  qed
next
  assume all: "\<forall>q \<in> set rs. COMPATIBLE t (lrq_state q)"
  show "COMPATIBLE t (lock_state lock)"
    using all lock_state_held(3) [OF assms(1)] t by (cases "lock_state lock = 0") auto
qed


section \<open>Well-formed locks\<close>

definition request_ok :: "lrq \<Rightarrow> bool" where
  "request_ok q \<longleftrightarrow>
     lrq_state q < 7 \<and> 0 < lrq_requested q \<and> lrq_requested q < 7 \<and>
     (if lrq_pending q then \<not> lrq_rejected q \<and> lrq_requested q \<noteq> lrq_state q
      else lrq_rejected q \<or> lrq_requested q = lrq_state q)"

definition queue_ok :: "lrq list \<Rightarrow> bool" where
  "queue_ok rs \<longleftrightarrow>
     distinct (map lrq_id rs) \<and> length rs < 32768 \<and> (\<forall>q \<in> set rs. request_ok q) \<and>
     compatible_holders rs"

text \<open>The counters agree with the queue.\<close>

definition lock_ok :: "lbl \<Rightarrow> bool" where
  "lock_ok lock \<longleftrightarrow>
     queue_ok (lbl_requests lock) \<and> counted (lbl_requests lock) lock \<and>
     lbl_pending_lrq_count lock = waiting (lbl_requests lock) \<and> lbl_state lock = lock_state lock"

text \<open>No other request stands in the way of \<open>r\<close>.\<close>

definition grantable :: "lrq \<Rightarrow> lrq list \<Rightarrow> bool" where
  "grantable r rs \<longleftrightarrow> (\<forall>q \<in> set rs. lrq_id q \<noteq> lrq_id r \<longrightarrow> COMPATIBLE (lrq_requested r) (lrq_state q))"

definition granted :: "lrq \<Rightarrow> lrq" where
  "granted r = r\<lparr>lrq_state := lrq_requested r, lrq_pending := False\<rparr>"

definition put :: "lrq \<Rightarrow> lrq list \<Rightarrow> lrq list" where
  "put r rs = map (\<lambda>q. if lrq_id q = lrq_id r then r else q) rs"

lemma granted_fields [simp]:
  "lrq_id (granted r) = lrq_id r" "lrq_requested (granted r) = lrq_requested r"
  "lrq_state (granted r) = lrq_requested r" "lrq_pending (granted r) = False"
  "lrq_rejected (granted r) = lrq_rejected r" "lrq_owner (granted r) = lrq_owner r"
  by (simp_all add: granted_def)

lemma put_ids [simp]: "map lrq_id (put r rs) = map lrq_id rs"
  by (induction rs) (auto simp: put_def)

lemma length_put [simp]: "length (put r rs) = length rs"
  by (simp add: put_def)

lemma others_put [simp]: "lrq_id r' = lrq_id r \<Longrightarrow> others r (put r' rs) = others r rs"
  by (induction rs) (auto simp: put_def others_def)

lemma others_id: "lrq_id r' = lrq_id r \<Longrightarrow> others r' rs = others r rs"
  by (simp add: others_def)

lemma put_set: "lrq_id r \<in> lrq_id ` set rs \<Longrightarrow> set (put r rs) = insert r (set (others r rs))"
  by (auto simp: put_def others_def image_iff)

lemma put_put [simp]: "lrq_id r' = lrq_id r \<Longrightarrow> put r' (put r rs) = put r' rs"
  by (induction rs) (auto simp: put_def)

lemma put_split:
  assumes "distinct (map lrq_id (xs @ r # ys))" "lrq_id r' = lrq_id r"
  shows "put r' (xs @ r # ys) = xs @ r' # ys"
proof -
  have "lrq_id r \<notin> lrq_id ` (set xs \<union> set ys)" using assms(1) by (simp add: image_Un)
  then have n: "\<forall>q \<in> set xs \<union> set ys. lrq_id q \<noteq> lrq_id r" by (metis imageI)
  then have "map (\<lambda>q. if lrq_id q = lrq_id r then r' else q) xs = xs"
    "map (\<lambda>q. if lrq_id q = lrq_id r then r' else q) ys = ys"
    by (auto intro!: map_idI)
  then show ?thesis using assms(2) by (simp add: put_def)
qed

lemma put_request_simps [simp]:
  "lbl_requests (put_request r lock) = put r (lbl_requests lock)"
  "lbl_counts (put_request r lock) = lbl_counts lock"
  "lbl_state (put_request r lock) = lbl_state lock"
  "lbl_pending_lrq_count (put_request r lock) = lbl_pending_lrq_count lock"
  by (simp_all add: put_request_def put_def)

lemma remove_request_simps [simp]:
  "lbl_requests (remove_request (lrq_id r) lock) = others r (lbl_requests lock)"
  "lbl_counts (remove_request i lock) = lbl_counts lock"
  "lbl_state (remove_request i lock) = lbl_state lock"
  "lbl_pending_lrq_count (remove_request i lock) = lbl_pending_lrq_count lock"
  by (simp_all add: remove_request_def others_def)

lemma count_simps [simp]:
  "lbl_requests (count_up k lock) = lbl_requests lock" "lbl_requests (count_down k lock) = lbl_requests lock"
  "lbl_requests (pending_up lock) = lbl_requests lock" "lbl_requests (pending_down lock) = lbl_requests lock"
  "lbl_state (count_up k lock) = lbl_state lock" "lbl_state (count_down k lock) = lbl_state lock"
  "lbl_state (pending_up lock) = lbl_state lock" "lbl_state (pending_down lock) = lbl_state lock"
  "lbl_counts (pending_up lock) = lbl_counts lock" "lbl_counts (pending_down lock) = lbl_counts lock"
  "lbl_pending_lrq_count (count_up k lock) = lbl_pending_lrq_count lock"
  "lbl_pending_lrq_count (count_down k lock) = lbl_pending_lrq_count lock"
  by (simp_all add: count_up_def count_down_def pending_up_def pending_down_def)

text \<open>The level and the counts depend on the counts alone.\<close>

lemma lock_state_cong: "lbl_counts l = lbl_counts l' \<Longrightarrow> lock_state l = lock_state l'"
  by (simp add: lock_state_def)

lemma counted_cong: "lbl_counts l = lbl_counts l' \<Longrightarrow> counted rs l = counted rs l'"
  by (simp add: counted_def)

lemma queue_ok_parts:
  assumes "queue_ok rs"
  shows "distinct (map lrq_id rs)" "length rs < 32768" "compatible_holders rs"
    "q \<in> set rs \<Longrightarrow> request_ok q" "\<forall>q \<in> set rs. lrq_state q < 7"
  using assms by (auto simp: queue_ok_def request_ok_def)

lemma queue_ok_others: "queue_ok rs \<Longrightarrow> queue_ok (others r rs)"
  by (auto simp: queue_ok_def compatible_holders_def others_def distinct_map_filter
      intro: le_less_trans [OF length_filter_le])

text \<open>A request is put back changed: the new queue is well-formed if the request fits the others.\<close>

lemma queue_ok_put:
  assumes "queue_ok (others r rs)" "distinct (map lrq_id rs)" "length rs < 32768"
    and "lrq_id r \<in> lrq_id ` set rs" "request_ok r"
    and "\<forall>q \<in> set (others r rs). COMPATIBLE (lrq_state r) (lrq_state q)"
  shows "queue_ok (put r rs)"
proof -
  have s: "set (put r rs) = insert r (set (others r rs))" by (rule put_set) (rule assms(4))
  have lt: "lrq_state r < 7" using assms(5) by (simp add: request_ok_def)
  have "compatible_holders (put r rs)"
    unfolding compatible_holders_def s
  proof (intro ballI impI)
    fix q q' assume q: "q \<in> insert r (set (others r rs))" "q' \<in> insert r (set (others r rs))"
      "lrq_id q \<noteq> lrq_id q'"
    consider "q = r" "q' \<in> set (others r rs)" | "q' = r" "q \<in> set (others r rs)"
      | "q \<in> set (others r rs)" "q' \<in> set (others r rs)" using q by blast
    then show "COMPATIBLE (lrq_state q) (lrq_state q')"
    proof cases
      case 2
      have "lrq_state q < 7" using queue_ok_parts(5) [OF assms(1)] 2(2) by blast
      then show ?thesis using 2 assms(6) compat_sym [OF _ lt] by simp
    next
      case 3
      then show ?thesis using queue_ok_parts(3) [OF assms(1)] q(3) unfolding compatible_holders_def by blast
    qed (use assms(6) in blast)
  qed
  then show ?thesis
    using assms queue_ok_parts(4) [OF assms(1)] unfolding queue_ok_def s by simp
qed


section \<open>Granting\<close>

lemma held_put:
  assumes "r0 \<in> set rs" "lrq_id r = lrq_id r0" "distinct (map lrq_id rs)"
  shows "held k (put r rs) = held k (others r rs) + (if lrq_state r = k then 1 else 0)"
    and "waiting (put r rs) = waiting (others r rs) + (if lrq_pending r then 1 else 0)"
proof -
  have i: "lrq_id r \<in> lrq_id ` set rs" using assms(1,2) by (metis imageI)
  have "r \<in> set (put r rs)" "distinct (map lrq_id (put r rs))" "others r (put r rs) = others r rs"
    using assms(3) put_set [OF i] by simp_all
  then show "held k (put r rs) = held k (others r rs) + (if lrq_state r = k then 1 else 0)"
    "waiting (put r rs) = waiting (others r rs) + (if lrq_pending r then 1 else 0)"
    using held_others [of r "put r rs" k] waiting_others [of r "put r rs"] by simp_all
qed

lemma grant_parts:
  "lbl_requests (grant r lock) = put (if lrq_pending r then granted r else r\<lparr>lrq_state := lrq_requested r\<rparr>)
     (lbl_requests lock)"
  "lbl_counts (grant r lock) = lbl_counts (count_up (lrq_requested r) lock)"
  "lbl_state (grant r lock) = lock_state (count_up (lrq_requested r) lock)"
  "lbl_pending_lrq_count (grant r lock) =
     (if lrq_pending r then ushort_sub (lbl_pending_lrq_count lock) 1 else lbl_pending_lrq_count lock)"
  by (simp_all add: grant_def Let_def pending_down_def lock_state_def granted_def)

lemma granted_not_pending: "\<not> lrq_pending r \<Longrightarrow> r\<lparr>lrq_state := lrq_requested r\<rparr> = granted r"
  by (simp add: granted_def)

lemma grant_requests: "lbl_requests (grant r lock) = put (granted r) (lbl_requests lock)"
  by (simp add: grant_parts granted_not_pending)

lemma counted_up:
  assumes "counted (others r rs) lock" "r0 \<in> set rs" "lrq_id r = lrq_id r0" "distinct (map lrq_id rs)"
    "length rs < 32768" "0 < lrq_state r" "lrq_state r < 7"
  shows "counted (put r rs) (count_up (lrq_state r) lock)"
proof -
  have l: "length (others r rs) < 32768"
    using assms(5) by (simp add: others_def le_less_trans [OF length_filter_le])
  have "held (lrq_state r) (others r rs) < 32768"
    using held_le [of "lrq_state r" "others r rs"] l by simp
  then have "ushort (Suc (held (lrq_state r) (others r rs))) = Suc (held (lrq_state r) (others r rs))"
    by simp
  then show ?thesis
    using assms held_put(1) [OF assms(2,3,4)] unfolding counted_def count_up_def
    by (auto simp: nth_list_update)
qed

text \<open>
  Granting a request that is not counted and that no other request stands in the way of.
\<close>

lemma grant_ok:
  assumes r0: "r0 \<in> set (lbl_requests lock)" "lrq_id r = lrq_id r0"
    and d: "distinct (map lrq_id (lbl_requests lock))" "length (lbl_requests lock) < 32768"
    and q: "queue_ok (others r (lbl_requests lock))"
    and c: "counted (others r (lbl_requests lock)) lock"
    and p: "lbl_pending_lrq_count lock =
      waiting (others r (lbl_requests lock)) + (if lrq_pending r then 1 else 0)"
    and t: "0 < lrq_requested r" "lrq_requested r < 7"
    and g: "grantable r (lbl_requests lock)"
  shows "lock_ok (grant r lock)"
proof -
  let ?rs = "lbl_requests lock" and ?g = "granted r"
  have i: "lrq_id ?g \<in> lrq_id ` set ?rs" using r0 by simp
  have ids: "others ?g ?rs = others r ?rs" by (rule others_id) simp
  have "queue_ok (put ?g ?rs)"
    by (rule queue_ok_put) (use q d i t g ids in \<open>auto simp: request_ok_def grantable_def\<close>)
  moreover have "counted (put ?g ?rs) (grant r lock)"
  proof -
    have "counted (put ?g ?rs) (count_up (lrq_state ?g) lock)"
      by (rule counted_up [OF _ r0(1)]) (use r0 c d t ids in auto)
    then show ?thesis using counted_cong [OF grant_parts(2)] by simp
  qed
  moreover have "lbl_pending_lrq_count (grant r lock) = waiting (put ?g ?rs)"
  proof -
    have "waiting (others r ?rs) < 32768"
      using waiting_le [of "others r ?rs"] d(2)
      by (simp add: others_def le_less_trans [OF le_trans [OF _ length_filter_le]])
    then show ?thesis using held_put(2) [of r0 ?rs ?g] r0 d(1) p ids by (simp add: grant_parts(4))
  qed
  moreover have "lbl_state (grant r lock) = lock_state (grant r lock)"
    using lock_state_cong [OF grant_parts(2)] by (simp add: grant_parts(3))
  ultimately show ?thesis by (simp add: lock_ok_def grant_requests)
qed

lemma count_down_up:
  "length (lbl_counts lock) = 7 \<Longrightarrow> 0 < lbl_counts lock ! k \<Longrightarrow> lbl_counts lock ! k < 65536 \<Longrightarrow>
   count_up k (count_down k lock) = lock"
  by (cases "k < 7") (simp_all add: count_up_def count_down_def list_update_beyond)

lemma counted_down:
  assumes "counted rs lock" "r \<in> set rs" "distinct (map lrq_id rs)" "length rs < 32768"
    and "0 < lrq_state r" "lrq_state r < 7"
  shows "counted (others r rs) (count_down (lrq_state r) lock)"
    and "count_up (lrq_state r) (count_down (lrq_state r) lock) = lock"
proof -
  have h: "held k rs < 32768" for k using held_le [of k rs] assms(4) by simp
  have e: "lbl_counts lock ! lrq_state r = held (lrq_state r) rs"
    using assms by (simp add: counted_def)
  have "held (lrq_state r) rs \<noteq> 0" using held_pos assms(2) by blast
  then show "count_up (lrq_state r) (count_down (lrq_state r) lock) = lock"
    using e h [of "lrq_state r"] assms(1) by (intro count_down_up) (simp_all add: counted_def)
  have "ushort_sub (Suc (held (lrq_state r) (others r rs))) (Suc 0) = held (lrq_state r) (others r rs)"
    using h [of "lrq_state r"] held_others [OF assms(2,3), of "lrq_state r"] by simp
  then show "counted (others r rs) (count_down (lrq_state r) lock)"
    using assms(1) held_others [OF assms(2,3)] assms(5,6) unfolding counted_def count_down_def
    by (auto simp: nth_list_update)
qed

lemma lock_okD:
  assumes "lock_ok lock"
  shows "queue_ok (lbl_requests lock)" "counted (lbl_requests lock) lock"
    "lbl_pending_lrq_count lock = waiting (lbl_requests lock)" "lbl_state lock = lock_state lock"
    "distinct (map lrq_id (lbl_requests lock))" "length (lbl_requests lock) < 32768"
  using assms by (auto simp: lock_ok_def queue_ok_def)

lemma queue_grantable:
  assumes "queue_ok (others r rs)" "counted (others r rs) lock" "lrq_requested r < 7"
  shows "COMPATIBLE (lrq_requested r) (lock_state lock) \<longleftrightarrow> grantable r rs"
  using compat_lock_state [OF assms(2) queue_ok_parts(3,1,5) [OF assms(1)] assms(3)]
  by (auto simp: grantable_def)

text \<open>The two tests of \<open>post_pending\<close>: a conversion without its own level, and a new request.\<close>

lemma conversion_test:
  assumes "lock_ok lock" "r \<in> set (lbl_requests lock)" "0 < lrq_state r" "lrq_requested r' < 7"
    "lrq_id r' = lrq_id r"
  shows "COMPATIBLE (lrq_requested r') (lock_state (count_down (lrq_state r) lock)) \<longleftrightarrow>
    grantable r' (lbl_requests lock)"
proof -
  note l = lock_okD [OF assms(1)]
  have "lrq_state r < 7" using queue_ok_parts(5) [OF l(1)] assms(2) by blast
  then have "counted (others r' (lbl_requests lock)) (count_down (lrq_state r) lock)"
    using counted_down(1) [OF l(2) assms(2) l(5,6) assms(3)] others_id [OF assms(5)] by simp
  then show ?thesis
    by (rule queue_grantable [OF queue_ok_others [OF l(1)] _ assms(4)])
qed

lemma counted_others_none:
  "counted rs lock \<Longrightarrow> r \<in> set rs \<Longrightarrow> distinct (map lrq_id rs) \<Longrightarrow> lrq_state r = 0 \<Longrightarrow>
   counted (others r rs) lock"
  using held_others [of r rs] by (simp add: counted_def)

lemma new_test:
  assumes "lock_ok lock" "r \<in> set (lbl_requests lock)" "lrq_state r = 0" "lrq_requested r < 7"
  shows "COMPATIBLE (lrq_requested r) (lbl_state lock) \<longleftrightarrow> grantable r (lbl_requests lock)"
  using lock_okD [OF assms(1)]
    queue_grantable [OF queue_ok_others counted_others_none assms(4)] assms(2,3) by metis


section \<open>Posting the requests that wait\<close>

text \<open>The first request that waits is one that cannot be granted.\<close>

definition blocked_first :: "lrq list \<Rightarrow> bool" where
  "blocked_first rs \<longleftrightarrow> (\<forall>r. find lrq_pending rs = Some r \<longrightarrow> \<not> grantable r rs)"

text \<open>A queue after some of the requests that waited were granted.\<close>

definition served :: "lrq list \<Rightarrow> lrq list \<Rightarrow> bool" where
  "served rs rs' \<longleftrightarrow> list_all2 (\<lambda>q q'. q' = q \<or> lrq_pending q \<and> q' = granted q) rs rs'"

lemma served_refl [simp]: "served rs rs"
  by (simp add: served_def list_all2_refl)

lemma served_Nil [simp]: "served rs [] \<longleftrightarrow> rs = []" "served [] rs \<longleftrightarrow> rs = []"
  by (simp_all add: served_def)

lemma served_granted:
  "lrq_pending r \<Longrightarrow> served (xs @ r # ys) (xs @ granted r # ys)"
  by (simp add: served_def list_all2_append list_all2_refl)

lemma served_trans: "served a b \<Longrightarrow> served b c \<Longrightarrow> served a c"
  unfolding served_def
  by (rule list_all2_trans [where ?P1.0 = "\<lambda>q q'. q' = q \<or> lrq_pending q \<and> q' = granted q"
        and ?P2.0 = "\<lambda>q q'. q' = q \<or> lrq_pending q \<and> q' = granted q"])
    (auto simp: granted_def)

lemma served_ids: "served rs rs' \<Longrightarrow> map lrq_id rs' = map lrq_id rs"
  unfolding served_def by (induction rule: list_all2_induct) auto

lemma served_idle: "served rs rs' \<Longrightarrow> r \<in> set rs \<Longrightarrow> \<not> lrq_pending r \<Longrightarrow> r \<in> set rs'"
  unfolding served_def by (induction rule: list_all2_induct) auto

text \<open>One visit of the loop.\<close>

lemma pending_visit:
  assumes ok: "lock_ok lock" and rs: "lbl_requests lock = xs @ r # ys" and p: "lrq_pending r"
  shows "\<not> grantable r (lbl_requests lock) \<Longrightarrow>
      pending_loop ord (r # ys) lock = (if ord then lock else pending_loop ord ys lock)"
    and "grantable r (lbl_requests lock) \<Longrightarrow>
      \<exists>lock'. lock_ok lock' \<and> lbl_requests lock' = xs @ granted r # ys \<and>
        pending_loop ord (r # ys) lock = pending_loop ord ys lock'"
proof -
  note l = lock_okD [OF ok]
  have r: "r \<in> set (lbl_requests lock)" using rs by simp
  have rq: "request_ok r" by (rule queue_ok_parts(4) [OF l(1) r])
  then have t: "0 < lrq_requested r" "lrq_requested r < 7" "lrq_state r < 7"
    by (simp_all add: request_ok_def)
  let ?l1 = "if lrq_state r = 0 then lock else count_down (lrq_state r) lock"
  have c: "counted (others r (lbl_requests lock)) ?l1"
    using counted_down(1) [OF l(2) r l(5,6)] counted_others_none [OF l(2) r l(5)] t by simp
  have up: "count_up (lrq_state r) (count_down (lrq_state r) lock) = lock" if "lrq_state r \<noteq> 0"
    using counted_down(2) [OF l(2) r l(5,6)] t that by simp
  have l1: "lbl_requests ?l1 = lbl_requests lock"
    "lbl_pending_lrq_count ?l1 = lbl_pending_lrq_count lock" by simp_all
  note tests = conversion_test [OF ok r _ t(2) refl] new_test [OF ok r _ t(2)]
  show "pending_loop ord (r # ys) lock = (if ord then lock else pending_loop ord ys lock)"
    if "\<not> grantable r (lbl_requests lock)"
    using that p tests up by (simp add: Let_def)
  show "\<exists>lock'. lock_ok lock' \<and> lbl_requests lock' = xs @ granted r # ys \<and>
        pending_loop ord (r # ys) lock = pending_loop ord ys lock'"
    if g: "grantable r (lbl_requests lock)"
  proof (intro exI conjI)
    show "lock_ok (grant r ?l1)"
      by (rule grant_ok [of r _ r])
        (use r l queue_ok_others c t g p waiting_others [OF r l(5)] l1 in \<open>simp_all split del: if_split\<close>)
    show "lbl_requests (grant r ?l1) = xs @ granted r # ys"
      using put_split [of xs r ys "granted r"] l(5) rs by (simp add: grant_requests l1)
    show "pending_loop ord (r # ys) lock = pending_loop ord ys (grant r ?l1)"
      using g p tests by (simp add: Let_def)
  qed
qed

lemma pending_loop_spec:
  assumes "lock_ok lock" "lbl_requests lock = xs @ rs"
  shows "lock_ok (pending_loop ord rs lock) \<and>
    served (lbl_requests lock) (lbl_requests (pending_loop ord rs lock)) \<and>
    (ord \<and> (\<forall>q \<in> set xs. \<not> lrq_pending q) \<longrightarrow> blocked_first (lbl_requests (pending_loop ord rs lock)))"
  using assms
proof (induction rs arbitrary: lock xs)
  case Nil
  then have "find lrq_pending (lbl_requests lock) = None" if "\<forall>q \<in> set xs. \<not> lrq_pending q"
    using that by (simp add: find_None_iff)
  then show ?case using Nil by (auto simp: blocked_first_def)
next
  case (Cons r rs)
  show ?case
  proof (cases "lrq_pending r")
    case False
    then show ?thesis using Cons.IH [of lock "xs @ [r]"] Cons.prems by auto
  next
    case p: True
    show ?thesis
    proof (cases "grantable r (lbl_requests lock)")
      case True
      from pending_visit(2) [OF Cons.prems p True] obtain lock' where
        l: "lock_ok lock'" "lbl_requests lock' = xs @ granted r # rs"
          "pending_loop ord (r # rs) lock = pending_loop ord rs lock'" by blast
      have "served (lbl_requests lock) (lbl_requests lock')"
        unfolding l(2) Cons.prems(2) by (rule served_granted) (rule p)
      then show ?thesis
        using Cons.IH [of lock' "xs @ [granted r]"] l(1,2) served_trans unfolding l(3) by auto
    next
      case False
      have "find lrq_pending (lbl_requests lock) = Some r" if "\<forall>q \<in> set xs. \<not> lrq_pending q"
        using that p unfolding Cons.prems(2) by (induction xs) auto
      then have b: "blocked_first (lbl_requests lock)" if "\<forall>q \<in> set xs. \<not> lrq_pending q"
        using that False by (simp add: blocked_first_def)
      have "\<not> (\<forall>q \<in> set (xs @ [r]). \<not> lrq_pending q)" using p by simp
      then show ?thesis
        using b Cons.prems Cons.IH [of lock "xs @ [r]"]
        unfolding pending_visit(1) [OF Cons.prems p False, of ord] by (cases ord) auto
    qed
  qed
qed

lemma post_pending_spec:
  assumes "lock_ok lock"
  shows "lock_ok (post_pending ord lock)"
    "served (lbl_requests lock) (lbl_requests (post_pending ord lock))"
    "ord \<Longrightarrow> blocked_first (lbl_requests (post_pending ord lock))"
proof -
  have "blocked_first (lbl_requests lock)" if "lbl_pending_lrq_count lock = 0"
  proof -
    have "\<forall>q \<in> set (lbl_requests lock). \<not> lrq_pending q"
      using that lock_okD(3) [OF assms] by (simp add: waiting_def filter_empty_conv)
    then have "find lrq_pending (lbl_requests lock) = None" by (simp add: find_None_iff)
    then show ?thesis by (simp add: blocked_first_def)
  qed
  then show "lock_ok (post_pending ord lock)"
    "served (lbl_requests lock) (lbl_requests (post_pending ord lock))"
    "ord \<Longrightarrow> blocked_first (lbl_requests (post_pending ord lock))"
    using pending_loop_spec [OF assms, of "[]" "lbl_requests lock" ord] assms
    by (auto simp: post_pending_def)
qed


section \<open>Operations on one request\<close>

text \<open>A lock that is well-formed but for the request \<open>r\<close> an operation is at work on.\<close>

definition lock_with :: "lrq \<Rightarrow> lbl \<Rightarrow> bool" where
  "lock_with r lock \<longleftrightarrow>
     r \<in> set (lbl_requests lock) \<and> distinct (map lrq_id (lbl_requests lock)) \<and>
     length (lbl_requests lock) < 32768 \<and> queue_ok (others r (lbl_requests lock)) \<and>
     counted (lbl_requests lock) lock \<and> lbl_pending_lrq_count lock = waiting (lbl_requests lock) \<and>
     lbl_state lock = lock_state lock \<and> lrq_state r < 7 \<and> 0 < lrq_requested r \<and> lrq_requested r < 7 \<and>
     (\<forall>q \<in> set (others r (lbl_requests lock)). COMPATIBLE (lrq_state r) (lrq_state q))"

lemma lock_ok_with: "lock_ok lock \<Longrightarrow> r \<in> set (lbl_requests lock) \<Longrightarrow> lock_with r lock"
proof -
  assume ok: "lock_ok lock" and r: "r \<in> set (lbl_requests lock)"
  have q: "queue_ok (lbl_requests lock)" using ok by (simp add: lock_ok_def)
  have "request_ok r" by (rule queue_ok_parts(4) [OF q r])
  moreover have "\<forall>p \<in> set (others r (lbl_requests lock)). COMPATIBLE (lrq_state r) (lrq_state p)"
    using queue_ok_parts(3) [OF q] r by (auto simp: compatible_holders_def)
  ultimately show "lock_with r lock"
    using ok r queue_ok_parts(1,2) [OF q] queue_ok_others [OF q, of r]
    by (simp add: lock_ok_def lock_with_def request_ok_def)
qed

text \<open>The operation changes its request, at the same level.\<close>

lemma lock_with_put:
  assumes "lock_with r lock" "lrq_id r' = lrq_id r" "lrq_state r' = lrq_state r"
    "lrq_pending r' = lrq_pending r" "0 < lrq_requested r'" "lrq_requested r' < 7"
  shows "lock_with r' (put_request r' lock)"
proof -
  let ?rs = "lbl_requests lock"
  have r: "r \<in> set ?rs" "distinct (map lrq_id ?rs)" using assms(1) by (auto simp: lock_with_def)
  have "r' \<in> set (put r' ?rs)" using put_set [of r' ?rs] r(1) assms(2) by force
  moreover have "held k (put r' ?rs) = held k ?rs" "waiting (put r' ?rs) = waiting ?rs" for k
    using held_put [OF r(1) assms(2) r(2)] held_others [OF r] waiting_others [OF r] assms(3,4)
      others_id [OF assms(2)] by simp_all
  moreover have "lock_state (put_request r' lock) = lock_state lock" by (rule lock_state_cong) simp
  ultimately show ?thesis
    using assms others_id [OF assms(2)] by (simp add: lock_with_def counted_def)
qed

lemma lock_state_same:
  assumes "\<And>k. 0 < k \<Longrightarrow> k < 7 \<Longrightarrow> (lbl_counts l ! k = 0) = (lbl_counts l' ! k = 0)"
  shows "lock_state l = lock_state l'"
proof -
  have "(lbl_counts l ! 6 \<noteq> 0) = (lbl_counts l' ! 6 \<noteq> 0)" "(lbl_counts l ! 5 \<noteq> 0) = (lbl_counts l' ! 5 \<noteq> 0)"
    "(lbl_counts l ! 4 \<noteq> 0) = (lbl_counts l' ! 4 \<noteq> 0)" "(lbl_counts l ! 3 \<noteq> 0) = (lbl_counts l' ! 3 \<noteq> 0)"
    "(lbl_counts l ! 2 \<noteq> 0) = (lbl_counts l' ! 2 \<noteq> 0)" "(lbl_counts l ! 1 \<noteq> 0) = (lbl_counts l' ! 1 \<noteq> 0)"
    using assms by simp_all
  then show ?thesis by (simp only: lock_state_def lck_levels)
qed

text \<open>Releasing.\<close>

lemma release_form:
  assumes "lock_with r lock"
  shows "\<exists>lock4. lock_ok lock4 \<and> lbl_requests lock4 = others r (lbl_requests lock) \<and>
    release_request ord r lock =
      (if others r (lbl_requests lock) = [] then None else Some (post_pending ord lock4))"
proof -
  let ?rs = "lbl_requests lock"
  define lock2 where "lock2 = (if lrq_pending r then pending_down (remove_request (lrq_id r) lock)
    else remove_request (lrq_id r) lock)"
  have w: "r \<in> set ?rs" "distinct (map lrq_id ?rs)" "length ?rs < 32768" "queue_ok (others r ?rs)"
    "counted ?rs lock" "lbl_pending_lrq_count lock = waiting ?rs" "lbl_state lock = lock_state lock"
    "lrq_state r < 7" using assms by (auto simp: lock_with_def)
  have rs2: "lbl_requests lock2 = others r ?rs" "lbl_counts lock2 = lbl_counts lock"
    "lbl_state lock2 = lock_state lock2"
    using w(7) lock_state_cong [of lock2 lock] by (auto simp: lock2_def)
  have p2: "lbl_pending_lrq_count lock2 = waiting (others r ?rs)"
    using waiting_others [OF w(1,2)] w(3,6) waiting_le [of ?rs]
    by (auto simp: lock2_def pending_down_def)
  have c2: "counted ?rs lock2" using w(5) counted_cong [OF rs2(2)] by simp
  define lock4 where "lock4 = (if lrq_state r = 0 then lock2
    else let lock3 = count_down (lrq_state r) lock2
      in if lbl_counts lock3 ! lrq_state r = 0 then lock3\<lparr>lbl_state := lock_state lock3\<rparr> else lock3)"
  have "lock_ok lock4"
  proof (cases "lrq_state r = 0")
    case True
    then show ?thesis
      using w(4) rs2 p2 counted_others_none [OF c2 w(1,2)] by (simp add: lock_ok_def lock4_def)
  next
    case False
    let ?l3 = "count_down (lrq_state r) lock2"
    have c3: "counted (others r ?rs) ?l3" using counted_down(1) [OF c2 w(1,2,3) _ w(8)] False by simp
    have "lock_state lock2 = lock_state ?l3" if "lbl_counts ?l3 ! lrq_state r \<noteq> 0"
    proof (rule lock_state_same)
      fix k :: nat assume k: "0 < k" "k < 7"
      show "(lbl_counts lock2 ! k = 0) = (lbl_counts ?l3 ! k = 0)"
      proof (cases "k = lrq_state r")
        case True
        then show ?thesis
          using that c2 c3 k held_others [OF w(1,2), of k] unfolding counted_def by simp
      qed (simp add: count_down_def)
    qed
    moreover have "lock_state (?l3\<lparr>lbl_state := s\<rparr>) = lock_state ?l3" for s
      by (rule lock_state_cong) simp
    moreover have "counted (others r ?rs) (?l3\<lparr>lbl_state := s\<rparr>)" for s
      using c3 by (simp add: counted_def)
    ultimately show ?thesis
      using False w(4) rs2 p2 c3 by (auto simp: lock_ok_def lock4_def Let_def)
  qed
  moreover have "lbl_requests lock4 = others r ?rs" by (simp add: lock4_def rs2 Let_def)
  moreover have "release_request ord r lock =
    (if others r ?rs = [] then None else Some (post_pending ord lock4))"
    by (simp add: release_request_def lock4_def rs2(1) flip: lock2_def) (simp add: Let_def)
  ultimately show ?thesis by blast
qed

lemma release_spec:
  assumes "lock_with r lock"
  shows "if others r (lbl_requests lock) = [] then release_request ord r lock = None
    else \<exists>lock'. release_request ord r lock = Some lock' \<and> lock_ok lock' \<and>
      served (others r (lbl_requests lock)) (lbl_requests lock') \<and>
      (ord \<longrightarrow> blocked_first (lbl_requests lock'))"
proof -
  from release_form [OF assms, of ord] obtain lock4 where l4: "lock_ok lock4"
    "lbl_requests lock4 = others r (lbl_requests lock)"
    "release_request ord r lock =
      (if others r (lbl_requests lock) = [] then None else Some (post_pending ord lock4))" by blast
  show ?thesis
    using post_pending_spec [OF l4(1), of ord] unfolding l4(2,3) by simp
qed


text \<open>Beginning to wait.\<close>

definition waiting_request :: "lrq \<Rightarrow> lrq" where
  "waiting_request r = r\<lparr>lrq_rejected := False, lrq_pending := True\<rparr>"

lemma waiting_request_fields [simp]:
  "lrq_id (waiting_request r) = lrq_id r" "lrq_requested (waiting_request r) = lrq_requested r"
  "lrq_state (waiting_request r) = lrq_state r" "lrq_pending (waiting_request r)"
  "lrq_rejected (waiting_request r) = False" "lrq_owner (waiting_request r) = lrq_owner r"
  by (simp_all add: waiting_request_def)

lemma start_wait_parts:
  "lbl_requests (start_wait ord r lock) =
     (if ord \<and> lrq_state r = 0 then others r (lbl_requests lock) @ [waiting_request r]
      else put (waiting_request r) (lbl_requests lock))"
  "lbl_counts (start_wait ord r lock) = lbl_counts lock"
  "lbl_state (start_wait ord r lock) = lbl_state lock"
  "lbl_pending_lrq_count (start_wait ord r lock) = ushort (lbl_pending_lrq_count lock + 1)"
  by (auto simp: start_wait_def Let_def pending_up_def others_put
      simp flip: waiting_request_def)

lemma queue_ok_snoc:
  assumes "queue_ok rs" "lrq_id r \<notin> lrq_id ` set rs" "length rs < 32767" "request_ok r"
    "\<forall>q \<in> set rs. COMPATIBLE (lrq_state r) (lrq_state q)"
  shows "queue_ok (rs @ [r])"
proof -
  have lt: "lrq_state r < 7" using assms(4) by (simp add: request_ok_def)
  have "compatible_holders (rs @ [r])"
    using queue_ok_parts(3,5) [OF assms(1)] assms(5) compat_sym [OF _ lt]
    by (auto simp: compatible_holders_def)
  then show ?thesis using assms by (auto simp: queue_ok_def)
qed

lemma length_others: "r \<in> set rs \<Longrightarrow> distinct (map lrq_id rs) \<Longrightarrow> length rs = Suc (length (others r rs))"
  by (elim split_request [of r rs]) auto

lemma start_wait_ok:
  assumes w: "lock_with r lock" and p: "\<not> lrq_pending r" "lrq_requested r \<noteq> lrq_state r"
  shows "lock_ok (start_wait ord r lock)"
proof -
  let ?rs = "lbl_requests lock" and ?r' = "waiting_request r"
  let ?ws = "lbl_requests (start_wait ord r lock)"
  have a: "r \<in> set ?rs" "distinct (map lrq_id ?rs)" "length ?rs < 32768" "queue_ok (others r ?rs)"
    "counted ?rs lock" "lbl_pending_lrq_count lock = waiting ?rs" "lbl_state lock = lock_state lock"
    "\<forall>q \<in> set (others r ?rs). COMPATIBLE (lrq_state r) (lrq_state q)"
    using w by (auto simp: lock_with_def)
  have ro: "request_ok ?r'" using w p by (simp add: lock_with_def request_ok_def)
  have q1: "queue_ok (others r ?rs @ [?r'])"
    by (rule queue_ok_snoc) (use a ro length_others [OF a(1,2)] in auto)
  have q2: "queue_ok (put ?r' ?rs)"
    by (rule queue_ok_put) (use a ro others_id [of ?r' r] in auto)
  have h: "held k ?ws = held k ?rs" "waiting ?ws = Suc (waiting ?rs)" for k
    using held_put [OF a(1) _ a(2), of ?r'] held_others [OF a(1,2)] waiting_others [OF a(1,2)] p
      others_id [of ?r' r] by (simp_all add: start_wait_parts)
  have "waiting ?rs < 32768" using waiting_le [of ?rs] a(3) by simp
  moreover have "queue_ok ?ws" using q1 q2 by (simp add: start_wait_parts)
  moreover have "counted ?ws (start_wait ord r lock)"
    using a(5) h by (simp add: counted_def start_wait_parts(2))
  moreover have "lock_state (start_wait ord r lock) = lock_state lock"
    by (rule lock_state_cong) (rule start_wait_parts(2))
  ultimately show ?thesis using a(6,7) h by (simp add: lock_ok_def start_wait_parts(3,4))
qed

text \<open>What stands in the way of a request depends on the levels held.\<close>

lemma grantable_put:
  assumes "r0 \<in> set rs" "lrq_id r = lrq_id r0" "lrq_state r = lrq_state r0" "distinct (map lrq_id rs)"
  shows "grantable p (put r rs) = grantable p rs"
proof -
  have "(\<lambda>q. (lrq_id q, lrq_state q)) ` set (put r rs) = (\<lambda>q. (lrq_id q, lrq_state q)) ` set rs"
    using assms
  proof (elim split_request [of r0 rs])
    fix xs ys assume "rs = xs @ r0 # ys"
    then show ?thesis using put_split [of xs r0 ys r] assms by (simp add: image_Un)
  qed
  then show ?thesis unfolding grantable_def by (force simp: set_eq_iff image_iff)
qed

lemma blocked_first_put:
  assumes "blocked_first rs" "r0 \<in> set rs" "lrq_id r = lrq_id r0" "lrq_state r = lrq_state r0"
    "distinct (map lrq_id rs)" "\<not> lrq_pending r0" "lrq_pending r \<Longrightarrow> \<not> grantable r rs"
  shows "blocked_first (put r rs)"
proof -
  obtain xs ys where rs: "rs = xs @ r0 # ys" using split_request [OF assms(2,5)] by blast
  have s: "put r rs = xs @ r # ys" using put_split [of xs r0 ys r] assms(3,5) by (simp add: rs)
  have f: "find P (xs @ q # ys) = (case find P xs of Some p \<Rightarrow> Some p
      | None \<Rightarrow> if P q then Some q else find P ys)" for P q
    by (induction xs) auto
  have "find lrq_pending (put r rs) = find lrq_pending rs \<or>
      find lrq_pending (put r rs) = Some r \<and> lrq_pending r"
    unfolding s unfolding rs f using assms(6) by (auto split: option.split)
  then show ?thesis
    using assms(1,7) grantable_put [OF assms(2-5)] by (auto simp: blocked_first_def)
qed

lemma blocked_first_snoc:
  assumes "blocked_first rs" "find lrq_pending rs = None \<Longrightarrow> \<not> grantable r rs"
  shows "blocked_first (rs @ [r])"
proof -
  have f: "find lrq_pending (rs @ [r]) = (case find lrq_pending rs of Some p \<Rightarrow> Some p
      | None \<Rightarrow> if lrq_pending r then Some r else None)"
    by (induction rs) auto
  show ?thesis
    using assms by (cases "find lrq_pending rs") (auto simp: f blocked_first_def grantable_def)
qed

text \<open>Rejecting a request that waits.\<close>

lemma reject_ok:
  assumes "lock_ok lock" "r \<in> set (lbl_requests lock)" "lrq_pending r"
  shows "lock_ok (reject_request r lock)"
    "lbl_requests (reject_request r lock) =
       put (r\<lparr>lrq_rejected := True, lrq_pending := False\<rparr>) (lbl_requests lock)"
proof -
  let ?rs = "lbl_requests lock" and ?r' = "r\<lparr>lrq_rejected := True, lrq_pending := False\<rparr>"
  note l = lock_okD [OF assms(1)]
  have w: "lock_with r lock" by (rule lock_ok_with) (fact assms)+
  have ids: "others ?r' ?rs = others r ?rs" by (rule others_id) simp
  show e: "lbl_requests (reject_request r lock) = put ?r' ?rs"
    by (simp add: reject_request_def)
  have "queue_ok (put ?r' ?rs)"
    by (rule queue_ok_put)
      (use w l assms queue_ok_parts(4) [OF l(1) assms(2)] ids in
        \<open>auto simp: lock_with_def request_ok_def\<close>)
  moreover have "held k (put ?r' ?rs) = held k ?rs" "Suc (waiting (put ?r' ?rs)) = waiting ?rs" for k
    using held_put [OF assms(2) _ l(5), of ?r'] held_others [OF assms(2) l(5)]
      waiting_others [OF assms(2) l(5)] assms(3) ids by simp_all
  moreover have "waiting ?rs < 32768" using waiting_le [of ?rs] l(6) by simp
  moreover have "lbl_counts (reject_request r lock) = lbl_counts lock"
    "lbl_state (reject_request r lock) = lbl_state lock"
    "lbl_pending_lrq_count (reject_request r lock) = ushort_sub (lbl_pending_lrq_count lock) 1"
    by (simp_all add: reject_request_def pending_down_def)
  moreover have "lock_state (reject_request r lock) = lock_state lock"
    by (rule lock_state_cong) (simp add: reject_request_def)
  ultimately show "lock_ok (reject_request r lock)"
    using l by (auto simp: lock_ok_def e counted_def)
qed


text \<open>Converting a granted request.\<close>

definition idle :: "lrq \<Rightarrow> bool" where
  "idle r \<longleftrightarrow> \<not> lrq_pending r \<and> lrq_state r \<noteq> LCK_none \<and> lrq_requested r = lrq_state r"

lemma put_same: "r \<in> set rs \<Longrightarrow> distinct (map lrq_id rs) \<Longrightarrow> put r rs = rs"
  by (auto simp: put_def distinct_map inj_on_def intro!: map_idI)

lemma put_request_same:
  "r \<in> set (lbl_requests lock) \<Longrightarrow> distinct (map lrq_id (lbl_requests lock)) \<Longrightarrow> put_request r lock = lock"
  using put_same [of r "lbl_requests lock"] by (simp add: put_request_def put_def)

lemma put_request_twice:
  "lrq_id r' = lrq_id r \<Longrightarrow> put_request r' (put_request r lock) = put_request r' lock"
  by (simp add: put_request_def)

lemma convert_spec:
  fixes r lock type ord
  defines "rs \<equiv> lbl_requests lock" and "r1 \<equiv> r\<lparr>lrq_requested := type\<rparr>"
  assumes ok: "lock_ok lock" and r: "r \<in> set rs" "idle r" and t: "0 < type" "type < 7"
  shows "grantable r1 rs \<Longrightarrow> \<exists>lock'. convert ord r type w lock = (Granted, lock') \<and> lock_ok lock' \<and>
      served (put (granted r1) rs) (lbl_requests lock') \<and> (ord \<longrightarrow> blocked_first (lbl_requests lock'))"
    and "\<not> grantable r1 rs \<Longrightarrow> w \<noteq> 0 \<Longrightarrow> \<exists>lock'. convert ord r type w lock = (Waiting, lock') \<and>
      lock_ok lock' \<and> lbl_requests lock' = put (waiting_request r1) rs"
    and "\<not> grantable r1 rs \<Longrightarrow> convert ord r type 0 lock = (Denied gds_lock_conflict, lock)"
proof -
  note l = lock_okD [OF ok, folded rs_def]
  have idl: "\<not> lrq_pending r" "0 < lrq_state r" "lrq_requested r = lrq_state r"
    using r(2) by (auto simp: idle_def)
  have w0: "lock_with r lock" by (rule lock_ok_with) (use ok r in \<open>simp_all add: rs_def\<close>)
  have w1: "lock_with r1 (put_request r1 lock)"
    by (rule lock_with_put [OF w0]) (use t in \<open>simp_all add: r1_def\<close>)
  have r1: "lrq_id r1 = lrq_id r" "lrq_state r1 = lrq_state r" "lrq_requested r1 = type"
    "\<not> lrq_pending r1" "lrq_state r1 < 7" using idl w0 by (auto simp: r1_def lock_with_def)
  let ?p = "put_request r1 lock"
  let ?l1 = "count_down (lrq_state r1) ?p"
  have a: "r1 \<in> set (put r1 rs)" "distinct (map lrq_id (put r1 rs))" "length (put r1 rs) < 32768"
    "counted (put r1 rs) ?p" "queue_ok (others r1 rs)" "lbl_pending_lrq_count ?p = waiting (put r1 rs)"
    using w1 by (simp_all add: lock_with_def rs_def others_put)
  note cd = counted_down [OF a(4,1,2,3), unfolded r1(2), OF idl(2)] r1(5)
  have c1: "counted (others r1 rs) ?l1" using cd(1) r1(5) by (simp add: r1(2) others_put)
  have up: "count_up (lrq_state r1) ?l1 = ?p" using cd(2) r1(5) by (simp add: r1(2))
  have test: "COMPATIBLE type (lock_state ?l1) \<longleftrightarrow> grantable r1 rs"
    using queue_grantable [OF a(5) c1] t r1(3) by simp
  have st: "lrq_state r \<noteq> type" if "\<not> grantable r1 rs"
    using that w0 r1 by (auto simp: lock_with_def grantable_def rs_def)
  show "\<exists>lock'. convert ord r type w lock = (Granted, lock') \<and> lock_ok lock' \<and>
      served (put (granted r1) rs) (lbl_requests lock') \<and> (ord \<longrightarrow> blocked_first (lbl_requests lock'))"
    if g: "grantable r1 rs"
  proof -
    have gr: "lbl_requests (grant r1 ?l1) = put (granted r1) rs"
      by (simp add: grant_requests rs_def)
    have g1: "grantable r1 (put r1 rs)"
      using g grantable_put [OF r(1) r1(1,2) l(5)] by simp
    have "lock_ok (grant r1 ?l1)"
      by (rule grant_ok [of r1 _ r1])
        (use a c1 t g1 waiting_others [OF a(1,2)] r1(3,4) in \<open>simp_all add: rs_def\<close>)
    from post_pending_spec [OF this, of ord]
    show ?thesis using test g by (simp add: convert_def Let_def gr flip: r1_def)
  qed
  show "\<exists>lock'. convert ord r type w lock = (Waiting, lock') \<and>
      lock_ok lock' \<and> lbl_requests lock' = put (waiting_request r1) rs"
    if g: "\<not> grantable r1 rs" "w \<noteq> 0"
  proof -
    have "lock_ok (start_wait ord r1 ?p)"
      by (rule start_wait_ok [OF w1 r1(4)]) (use st g r1 in auto)
    moreover have "lbl_requests (start_wait ord r1 ?p) = put (waiting_request r1) rs"
      using idl(2) by (simp add: start_wait_parts r1(2) rs_def)
    ultimately show ?thesis using test g up by (simp add: convert_def Let_def flip: r1_def)
  qed
  show "convert ord r type 0 lock = (Denied gds_lock_conflict, lock)" if g: "\<not> grantable r1 rs"
  proof -
    have "r1\<lparr>lrq_requested := lrq_state r1\<rparr> = r" using idl(3) by (simp add: r1_def)
    then have "put_request (r1\<lparr>lrq_requested := lrq_state r1\<rparr>) ?p = lock"
      using put_request_same [of r lock] put_request_twice [OF r1(1) [symmetric], of lock] r l(5)
      by (simp add: rs_def)
    then show ?thesis using test g up by (simp add: convert_def Let_def denied_def flip: r1_def)
  qed
qed

text \<open>After the wait: the request of a conversion was rejected.\<close>

lemma convert_resume_spec:
  assumes ok: "lock_ok lock" and r: "r \<in> set (lbl_requests lock)" "lrq_rejected r" "lrq_state r \<noteq> 0"
  shows "\<exists>lock'. convert_resume ord r w lock = (denied w, lock') \<and> lock_ok lock' \<and>
    (ord \<longrightarrow> blocked_first (lbl_requests lock')) \<and>
    r\<lparr>lrq_requested := lrq_state r\<rparr> \<in> set (lbl_requests lock')"
proof -
  let ?r' = "r\<lparr>lrq_requested := lrq_state r\<rparr>" and ?l = "post_pending ord lock"
  note p = post_pending_spec [OF ok, of ord]
  note l = lock_okD [OF p(1)]
  have np: "\<not> lrq_pending r" "lrq_state r < 7"
    using queue_ok_parts(4) [OF lock_okD(1) [OF ok] r(1)] r(2)
    by (auto simp: request_ok_def split: if_splits)
  have rl: "r \<in> set (lbl_requests ?l)" by (rule served_idle [OF p(2) r(1) np(1)])
  have "lock_with ?r' (put_request ?r' ?l)"
    by (rule lock_with_put [OF lock_ok_with [OF p(1) rl]]) (use np r(3) in auto)
  then have "lock_ok (put_request ?r' ?l)"
    using queue_ok_put [of ?r' "lbl_requests ?l"] queue_ok_others [OF l(1), of r] l(5,6) rl np r
      others_id [of ?r' r "lbl_requests ?l"] lock_ok_with [OF p(1) rl]
    by (auto simp: lock_ok_def lock_with_def request_ok_def others_put)
  moreover have "ord \<longrightarrow> blocked_first (lbl_requests (put_request ?r' ?l))"
    using p(3) blocked_first_put [OF _ rl _ _ l(5) np(1), of ?r'] np(1) by auto
  moreover have "?r' \<in> set (lbl_requests (put_request ?r' ?l))"
    using put_set [of ?r' "lbl_requests ?l"] rl by force
  ultimately show ?thesis using r(2) by (simp add: convert_resume_def)
qed

end
