(* ===== verification/Lock_Steps.thy ===== *)
theory Lock_Steps
  imports Lock_Grant
begin

text \<open>
  The life of a lock of \<open>lock/lock.cpp\<close>: a step is one operation of one owner, from the acquisition
  of the lock table to its release, so the reachable locks are those that any interleaving of the
  operations of any number of owners leads to.
\<close>

section \<open>Steps\<close>

text \<open>A request whose owner has been told that it is refused and has not yet cleaned up.\<close>

definition cleanup_due :: "lrq \<Rightarrow> bool" where
  "cleanup_due r \<longleftrightarrow> \<not> lrq_pending r \<and> lrq_rejected r \<and> lrq_requested r \<noteq> lrq_state r"

text \<open>
  Only a request that is neither waiting nor about to be cleaned up is converted or downgraded; a
  request is dequeued by its owner, or purged, at any time. A lock has fewer than 32768 requests, the
  bound that \<open>validate_lock\<close> checks of the counts.
\<close>

inductive lock_step :: "bool \<Rightarrow> lbl option \<Rightarrow> lbl option \<Rightarrow> bool" for ord where
  enq_new: "0 < type \<Longrightarrow> type < 7 \<Longrightarrow>
    lock_step ord None (snd (LOCK_enq ord rid owner type w None))"
| enq: "0 < type \<Longrightarrow> type < 7 \<Longrightarrow> rid \<notin> lrq_id ` set (lbl_requests lock) \<Longrightarrow>
    length (lbl_requests lock) < 32767 \<Longrightarrow>
    lock_step ord (Some lock) (snd (LOCK_enq ord rid owner type w (Some lock)))"
| enq_rejected: "r \<in> set (lbl_requests lock) \<Longrightarrow> cleanup_due r \<Longrightarrow>
    lrq_state r = LCK_none \<Longrightarrow> lock_step ord (Some lock) (snd (enq_resume ord r w lock))"
| converts: "r \<in> set (lbl_requests lock) \<Longrightarrow> idle r \<Longrightarrow> 0 < type \<Longrightarrow> type < 7 \<Longrightarrow>
    lock_step ord (Some lock) (Some (snd (convert ord r type w lock)))"
| convert_rejected: "r \<in> set (lbl_requests lock) \<Longrightarrow> cleanup_due r \<Longrightarrow>
    lrq_state r \<noteq> LCK_none \<Longrightarrow> lock_step ord (Some lock) (Some (snd (convert_resume ord r w lock)))"
| downgrade: "r \<in> set (lbl_requests lock) \<Longrightarrow> idle r \<Longrightarrow>
    lock_step ord (Some lock) (snd (LOCK_downgrade ord r lock))"
| deq: "r \<in> set (lbl_requests lock) \<Longrightarrow>
    lock_step ord (Some lock) (release_request ord r lock)"
| reject: "r \<in> set (lbl_requests lock) \<Longrightarrow> lrq_pending r \<Longrightarrow>
    lock_step ord (Some lock) (Some (reject_request r lock))"

definition lock_reachable :: "bool \<Rightarrow> lbl option \<Rightarrow> bool" where
  "lock_reachable ord = (lock_step ord)\<^sup>*\<^sup>* None"

inductive_cases lock_step_cases: "lock_step ord lock lock'"

section \<open>New requests\<close>

definition option_ok :: "bool \<Rightarrow> lbl option \<Rightarrow> bool" where
  "option_ok ord lo \<longleftrightarrow> (\<forall>lock. lo = Some lock \<longrightarrow> lbl_requests lock \<noteq> [] \<and> lock_ok lock \<and>
     (ord \<longrightarrow> blocked_first (lbl_requests lock) \<or> (\<exists>q \<in> set (lbl_requests lock). cleanup_due q)))"

lemma option_ok_None [simp]: "option_ok ord None"
  by (simp add: option_ok_def)

lemma new_request_fields [simp]:
  "lrq_id (new_request rid owner type) = rid" "lrq_requested (new_request rid owner type) = type"
  "lrq_state (new_request rid owner type) = 0" "\<not> lrq_pending (new_request rid owner type)"
  "\<not> lrq_rejected (new_request rid owner type)" "lrq_owner (new_request rid owner type) = owner"
  by (simp_all add: new_request_def)

lemma id_fresh: "i \<notin> lrq_id ` set rs \<Longrightarrow> q \<in> set rs \<Longrightarrow> lrq_id q \<noteq> i"
  by (metis imageI)

lemma same_id:
  "distinct (map lrq_id rs) \<Longrightarrow> q \<in> set rs \<Longrightarrow> r \<in> set rs \<Longrightarrow> lrq_id q = lrq_id r \<Longrightarrow> q = r"
  by (simp add: distinct_map inj_on_def)

lemma others_snoc: "lrq_id r \<notin> lrq_id ` set rs \<Longrightarrow> others r (rs @ [r]) = rs"
  using id_fresh [of "lrq_id r" rs] by (auto simp: others_def intro!: filter_True)

lemma enq_with:
  assumes ok: "lock_ok lock" and f: "rid \<notin> lrq_id ` set (lbl_requests lock)"
    "length (lbl_requests lock) < 32767" and t: "0 < type" "type < 7"
  shows "lock_with (new_request rid owner type)
    (lock\<lparr>lbl_requests := lbl_requests lock @ [new_request rid owner type]\<rparr>)"
proof -
  let ?r = "new_request rid owner type"
  note l = lock_okD [OF ok]
  have o: "others ?r (lbl_requests lock @ [?r]) = lbl_requests lock"
    by (rule others_snoc) (simp add: f)
  have "\<forall>q \<in> set (lbl_requests lock). COMPATIBLE 0 (lrq_state q)"
    using queue_ok_parts(5) [OF l(1)] by simp
  then show ?thesis
    using l f t o lock_state_cong [of "lock\<lparr>lbl_requests := lbl_requests lock @ [?r]\<rparr>" lock]
    by (simp add: lock_with_def counted_def)
qed

text \<open>\<open>LOCK_enq\<close> on a lock that exists.\<close>

lemma enq_spec:
  fixes lock rid owner type
  defines "rs \<equiv> lbl_requests lock" and "r \<equiv> new_request rid owner type"
  assumes ok: "lock_ok lock" and f: "rid \<notin> lrq_id ` set rs" "length rs < 32767"
    and t: "0 < type" "type < 7" and ne: "rs \<noteq> []"
  shows "grantable r rs \<Longrightarrow> \<not> ord \<or> type = LCK_null \<or> waiting rs = 0 \<Longrightarrow>
      \<exists>lock'. LOCK_enq ord rid owner type w (Some lock) = (Granted, Some lock') \<and> lock_ok lock' \<and>
        served (rs @ [granted r]) (lbl_requests lock') \<and> (ord \<longrightarrow> blocked_first (lbl_requests lock'))"
    and "\<not> (grantable r rs \<and> (\<not> ord \<or> type = LCK_null \<or> waiting rs = 0)) \<Longrightarrow> w \<noteq> 0 \<Longrightarrow>
      \<exists>lock'. LOCK_enq ord rid owner type w (Some lock) = (Waiting, Some lock') \<and> lock_ok lock' \<and>
        lbl_requests lock' = rs @ [waiting_request r]"
    and "\<not> (grantable r rs \<and> (\<not> ord \<or> type = LCK_null \<or> waiting rs = 0)) \<Longrightarrow>
      \<exists>lock'. LOCK_enq ord rid owner type 0 (Some lock) = (Denied gds_lock_conflict, Some lock') \<and>
        lock_ok lock' \<and> served rs (lbl_requests lock') \<and> (ord \<longrightarrow> blocked_first (lbl_requests lock'))"
proof -
  let ?l = "lock\<lparr>lbl_requests := rs @ [r]\<rparr>"
  note l = lock_okD [OF ok, folded rs_def]
  have w1: "lock_with r ?l"
    using enq_with [OF ok f(1) [unfolded rs_def] f(2) [unfolded rs_def] t] by (simp add: rs_def r_def)
  have rf: "lrq_id r = rid" "lrq_requested r = type" "lrq_state r = 0" "\<not> lrq_pending r"
    by (simp_all add: r_def)
  have o: "others r (rs @ [r]) = rs" by (rule others_snoc) (simp add: f rf)
  have pt: "put x (rs @ [r]) = rs @ [x]" if "lrq_id x = rid" for x
    using put_split [of rs r "[]" x] that rf f l(5) by simp
  have "COMPATIBLE type (lock_state lock) \<longleftrightarrow> (\<forall>q \<in> set rs. COMPATIBLE type (lrq_state q))"
    by (rule compat_lock_state) (use l t queue_ok_parts(3,5) in auto)
  then have test: "COMPATIBLE type (lbl_state lock) \<longleftrightarrow> grantable r rs"
    using f(1) l(4) by (auto simp: grantable_def rf)
  have enq: "LOCK_enq ord rid owner type w (Some lock) = grant_or_que ord r w ?l" for w
    by (simp add: LOCK_enq_def Let_def rs_def r_def)
  have p: "lbl_pending_lrq_count lock = waiting rs" by (fact l(3))
  show "\<exists>lock'. LOCK_enq ord rid owner type w (Some lock) = (Granted, Some lock') \<and> lock_ok lock' \<and>
        served (rs @ [granted r]) (lbl_requests lock') \<and> (ord \<longrightarrow> blocked_first (lbl_requests lock'))"
    if g: "grantable r rs" "\<not> ord \<or> type = LCK_null \<or> waiting rs = 0"
  proof -
    have "lock_ok (grant r ?l)"
      by (rule grant_ok [of r _ r])
        (use w1 o g rf t p l in \<open>auto simp: lock_with_def counted_def grantable_def\<close>)
    from post_pending_spec [OF this, of ord]
    show ?thesis using g test p rf(1) by (simp add: enq grant_or_que_def rf(2) grant_requests pt)
  qed
  assume n: "\<not> (grantable r rs \<and> (\<not> ord \<or> type = LCK_null \<or> waiting rs = 0))"
  show "\<exists>lock'. LOCK_enq ord rid owner type w (Some lock) = (Waiting, Some lock') \<and> lock_ok lock' \<and>
        lbl_requests lock' = rs @ [waiting_request r]" if "w \<noteq> 0"
  proof -
    have "lock_ok (start_wait ord r ?l)"
      by (rule start_wait_ok [OF w1]) (use rf t in auto)
    then show ?thesis
      using n test p that rf(1) by (auto simp: enq grant_or_que_def rf(2) start_wait_parts o pt)
  qed
  show "\<exists>lock'. LOCK_enq ord rid owner type 0 (Some lock) = (Denied gds_lock_conflict, Some lock') \<and>
        lock_ok lock' \<and> served rs (lbl_requests lock') \<and> (ord \<longrightarrow> blocked_first (lbl_requests lock'))"
    using release_spec [OF w1, of ord] n test p ne
    by (auto simp: enq grant_or_que_def rf(2) o denied_def)
qed

lemma enq_new_ok:
  assumes "0 < type" "type < 7"
  shows "\<exists>lock'. LOCK_enq ord rid owner type w None = (Granted, Some lock') \<and> lock_ok lock' \<and>
    lbl_requests lock' = [granted (new_request rid owner type)]"
proof -
  let ?r = "new_request rid owner type"
  let ?l = "\<lparr>lbl_state = type, lbl_requests = [?r], lbl_pending_lrq_count = 0,
    lbl_counts = replicate LCK_max 0\<rparr>"
  have o: "others ?r [?r] = []" by (simp add: others_def)
  have "lock_ok (grant ?r ?l)"
    by (rule grant_ok [of ?r _ ?r])
      (use assms o in \<open>auto simp: queue_ok_def counted_def compatible_holders_def grantable_def\<close>)
  then show ?thesis by (simp add: LOCK_enq_def Let_def grant_requests put_def)
qed


section \<open>Every reachable lock\<close>


lemma lower_state_le: "lower_state p n \<le> n"
  by (induction n) auto

lemma option_ok_release:
  assumes "lock_with r lock"
  shows "option_ok ord (release_request ord r lock)"
  using release_spec [OF assms, of ord] by (auto simp: option_ok_def split: if_splits)

lemma due_stays:
  assumes "\<exists>q \<in> set rs. cleanup_due q" "r \<in> set rs" "distinct (map lrq_id rs)" "\<not> cleanup_due r"
    "lrq_id r' = lrq_id r"
  shows "\<exists>q \<in> set (put r' rs). cleanup_due q"
proof -
  obtain q where q: "q \<in> set rs" "cleanup_due q" using assms(1) by blast
  have "lrq_id q \<noteq> lrq_id r" using same_id [OF assms(3) q(1) assms(2)] q(2) assms(4) by blast
  then have "q \<in> set (put r' rs)" using q(1) assms(2,5) put_set [of r' rs] by simp
  with q(2) show ?thesis by blast
qed

lemma option_ok_convert:
  assumes ok: "option_ok ord (Some lock)" and r: "r \<in> set (lbl_requests lock)" "idle r"
    and t: "0 < type" "type < 7"
  shows "option_ok ord (Some (snd (convert ord r type w lock)))"
proof -
  let ?rs = "lbl_requests lock" and ?r = "r\<lparr>lrq_requested := type\<rparr>"
  have lk: "lock_ok lock" using ok by (simp add: option_ok_def)
  note c = convert_spec(1,2) [OF lk r t, where ord = ord and w = w] convert_spec(3) [OF lk r t, where ord = ord]
  note l = lock_okD [OF lk]
  show ?thesis
  proof (cases "grantable ?r ?rs")
    case True
    from c(1) [OF True] obtain lock' where l': "convert ord r type w lock = (Granted, lock')"
      "lock_ok lock'" "served (put (granted ?r) ?rs) (lbl_requests lock')"
      "ord \<longrightarrow> blocked_first (lbl_requests lock')" by blast
    moreover have "lbl_requests lock' \<noteq> []" using l'(3) r(1) by (auto simp: put_def)
    ultimately show ?thesis by (simp add: option_ok_def)
  next
    case g: False
    show ?thesis
    proof (cases "w = 0")
      case True
      then show ?thesis using c(3) [OF g] ok by simp
    next
      case False
      from c(2) [OF g False] obtain lock' where l': "convert ord r type w lock = (Waiting, lock')"
        "lock_ok lock'" "lbl_requests lock' = put (waiting_request ?r) ?rs" by blast
      have "blocked_first (lbl_requests lock')" if b: "blocked_first ?rs"
        unfolding l'(3)
        by (rule blocked_first_put [OF b r(1)])
          (use l(5) r(2) g in \<open>auto simp: idle_def grantable_def\<close>)
      moreover have "\<exists>q \<in> set (lbl_requests lock'). cleanup_due q" if "\<exists>q \<in> set ?rs. cleanup_due q"
        unfolding l'(3)
        by (rule due_stays [OF that r(1) l(5)]) (use r(2) in \<open>auto simp: idle_def cleanup_due_def\<close>)
      moreover have "lbl_requests lock' \<noteq> []" using l'(3) r(1) by (auto simp: put_def)
      ultimately show ?thesis using ok l' by (auto simp: option_ok_def)
    qed
  qed
qed

lemma option_ok_enq:
  assumes ok: "option_ok ord (Some lock)" and f: "rid \<notin> lrq_id ` set (lbl_requests lock)"
    "length (lbl_requests lock) < 32767" and t: "0 < type" "type < 7"
  shows "option_ok ord (snd (LOCK_enq ord rid owner type w (Some lock)))"
proof -
  let ?rs = "lbl_requests lock" and ?r = "new_request rid owner type"
  have lk: "lock_ok lock" "?rs \<noteq> []" using ok by (auto simp: option_ok_def)
  note e = enq_spec [OF lk(1) f t lk(2), where owner = owner and ord = ord]
  show ?thesis
  proof (cases "grantable ?r ?rs \<and> (\<not> ord \<or> type = LCK_null \<or> waiting ?rs = 0)")
    case True
    then obtain lock' where "LOCK_enq ord rid owner type w (Some lock) = (Granted, Some lock')"
      "lock_ok lock'" "served (?rs @ [granted ?r]) (lbl_requests lock')"
      "ord \<longrightarrow> blocked_first (lbl_requests lock')" using e(1) [of w] by blast
    then show ?thesis by (auto simp: option_ok_def)
  next
    case g: False
    show ?thesis
    proof (cases "w = 0")
      case True
      then obtain lock' where
        "LOCK_enq ord rid owner type w (Some lock) = (Denied gds_lock_conflict, Some lock')"
        "lock_ok lock'" "served ?rs (lbl_requests lock')"
        "ord \<longrightarrow> blocked_first (lbl_requests lock')" using e(3) [OF g] by blast
      then show ?thesis using lk(2) by (auto simp: option_ok_def)
    next
      case False
      from e(2) [OF g False] obtain lock' where l': "lock_ok lock'"
        "LOCK_enq ord rid owner type w (Some lock) = (Waiting, Some lock')"
        "lbl_requests lock' = ?rs @ [waiting_request ?r]" by blast
      have "blocked_first (lbl_requests lock')" if b: "blocked_first ?rs" ord
        unfolding l'(3)
      proof (rule blocked_first_snoc [OF b(1)])
        assume n: "find lrq_pending ?rs = None"
        then have "waiting ?rs = 0" by (simp add: find_None_iff waiting_def filter_empty_conv)
        with g show "\<not> grantable (waiting_request ?r) ?rs" by (simp add: grantable_def)
      qed
      then show ?thesis using ok l' by (auto simp: option_ok_def)
    qed
  qed
qed

lemma option_ok_step: "lock_step ord lo lo' \<Longrightarrow> option_ok ord lo \<Longrightarrow> option_ok ord lo'"
proof (induction rule: lock_step.induct)
  case (enq_new type rid owner w)
  then show ?case
    using enq_new_ok [of type ord rid owner w]
    by (auto simp: option_ok_def blocked_first_def)
next
  case (enq type rid lock owner w)
  then show ?case by (intro option_ok_enq)
next
  case (enq_rejected r lock w)
  then have "option_ok ord (release_request ord r lock)"
    by (intro option_ok_release lock_ok_with) (auto simp: option_ok_def)
  then show ?case using enq_rejected by (simp add: enq_resume_def cleanup_due_def)
next
  case (converts r lock type w)
  then show ?case by (intro option_ok_convert)
next
  case (convert_rejected r lock w)
  then have "\<exists>lock'. convert_resume ord r w lock = (denied w, lock') \<and> lock_ok lock' \<and>
    (ord \<longrightarrow> blocked_first (lbl_requests lock')) \<and>
    r\<lparr>lrq_requested := lrq_state r\<rparr> \<in> set (lbl_requests lock')"
    by (intro convert_resume_spec) (auto simp: option_ok_def cleanup_due_def)
  then show ?case by (auto simp: option_ok_def)
next
  case (downgrade r lock)
  let ?s = "lower_state (highest_pending (lrq_id r) (lbl_requests lock) LCK_none) (lrq_state r)"
  have lk: "lock_ok lock" using downgrade by (simp add: option_ok_def)
  have "lrq_state r < 7"
    using queue_ok_parts(5) [OF lock_okD(1) [OF lk]] downgrade(1) by blast
  then have "?s < 7" using lower_state_le [of _ "lrq_state r"] by (rule le_less_trans [rotated])
  moreover have "option_ok ord (release_request ord r lock)"
    by (intro option_ok_release lock_ok_with lk downgrade)
  ultimately show ?case
    using option_ok_convert [OF downgrade(3,1,2), of ?s 0] by (simp add: LOCK_downgrade_def Let_def)
next
  case (deq r lock)
  then show ?case by (intro option_ok_release lock_ok_with) (auto simp: option_ok_def)
next
  case (reject r lock)
  let ?r = "r\<lparr>lrq_rejected := True, lrq_pending := False\<rparr>"
  have lk: "lock_ok lock" using reject by (simp add: option_ok_def)
  have "request_ok r" using queue_ok_parts(4) [OF lock_okD(1) [OF lk] reject(1)] .
  then have "cleanup_due ?r" using reject(2) by (simp add: cleanup_due_def request_ok_def)
  moreover have "?r \<in> set (put ?r (lbl_requests lock))"
    using put_set [of ?r "lbl_requests lock"] reject(1) by force
  ultimately show ?case
    using reject_ok [OF lk reject(1,2)] by (force simp: option_ok_def)
qed

lemma reachable_ok: "lock_reachable ord lo \<Longrightarrow> option_ok ord lo"
  unfolding lock_reachable_def
  by (induction rule: rtranclp_induct) (auto intro: option_ok_step)


section \<open>The consistency check of the lock manager\<close>

text \<open>
  \<open>validate_lock\<close>, compiled in with \<open>VALIDATE_LOCK_TABLE\<close>: the loop over the queue counts the requests
  that wait and fails (\<open>None\<close>) where a \<open>CHECK\<close> of the code does.
\<close>

fun validate_loop :: "bool \<Rightarrow> nat \<Rightarrow> lrq list \<Rightarrow> nat \<Rightarrow> nat option" where
  "validate_loop ord state [] found_pending = Some found_pending"
| "validate_loop ord state (r # rs) found_pending =
     (if lrq_pending r then
        if \<not> COMPATIBLE (lrq_requested r) state \<or> (ord \<and> found_pending \<noteq> 0)
        then validate_loop ord state rs (found_pending + 1) else None
      else if lrq_rejected r \<or> lrq_requested r = state \<or> COMPATIBLE (lrq_requested r) state
      then validate_loop ord state rs found_pending else None)"

definition validate_lock :: "bool \<Rightarrow> lbl \<Rightarrow> bool" where
  "validate_lock ord lock \<longleftrightarrow>
     lbl_state lock < LCK_max \<and> list_all (\<lambda>c. c < 0x8000) (lbl_counts lock) \<and>
     lbl_pending_lrq_count lock < 0x8000 \<and>
     (case validate_loop ord (lbl_state lock) (lbl_requests lock) 0 of
        None \<Rightarrow> False
      | Some found_pending \<Rightarrow>
          found_pending = lbl_pending_lrq_count lock \<and>
          list_all (\<lambda>i. length (filter (\<lambda>r. lrq_state r = i) (lbl_requests lock)) = lbl_counts lock ! i)
            [LCK_null..<LCK_max])"

text \<open>What the loop finds when every request passes its check.\<close>

lemma validate_loop_unordered:
  assumes "\<forall>r \<in> set rs. \<not> lrq_pending r \<longrightarrow>
      lrq_rejected r \<or> lrq_requested r = s \<or> COMPATIBLE (lrq_requested r) s"
  shows "validate_loop False s rs n =
    (if \<forall>r \<in> set rs. lrq_pending r \<longrightarrow> \<not> COMPATIBLE (lrq_requested r) s then Some (n + waiting rs) else None)"
  using assms
proof (induction rs arbitrary: n)
  case (Cons r rs)
  then show ?case by (cases "lrq_pending r") auto
qed simp

lemma validate_loop_ordered:
  assumes "\<forall>r \<in> set rs. \<not> lrq_pending r \<longrightarrow>
      lrq_rejected r \<or> lrq_requested r = s \<or> COMPATIBLE (lrq_requested r) s"
  shows "validate_loop True s rs n =
    (if n = 0 \<longrightarrow> (\<forall>r. find lrq_pending rs = Some r \<longrightarrow> \<not> COMPATIBLE (lrq_requested r) s) then Some (n + waiting rs) else None)"
  using assms
proof (induction rs arbitrary: n)
  case (Cons r rs)
  then show ?case by (cases "lrq_pending r") auto
qed simp

text \<open>The waiting requests that the check is about: with lock ordering only the first one.\<close>

definition checked_waiters :: "bool \<Rightarrow> lrq list \<Rightarrow> lrq set" where
  "checked_waiters ord rs = (if ord then {r. find lrq_pending rs = Some r} else {r \<in> set rs. lrq_pending r})"

lemma validate_loop_spec:
  assumes "\<forall>r \<in> set rs. \<not> lrq_pending r \<longrightarrow>
      lrq_rejected r \<or> lrq_requested r = s \<or> COMPATIBLE (lrq_requested r) s"
  shows "validate_loop ord s rs 0 =
    (if \<forall>r \<in> checked_waiters ord rs. \<not> COMPATIBLE (lrq_requested r) s then Some (waiting rs) else None)"
  using validate_loop_ordered [OF assms, of 0] validate_loop_unordered [OF assms, of 0]
  by (cases ord) (auto simp: checked_waiters_def)

section \<open>The properties of a reachable lock\<close>

lemma holder_level:
  assumes "lock_ok lock" "r \<in> set (lbl_requests lock)"
  shows "lrq_state r \<le> lbl_state lock"
    "lrq_state r = lbl_state lock \<or> COMPATIBLE (lrq_state r) (lbl_state lock)"
proof -
  note l = lock_okD [OF assms(1)]
  note q = queue_ok_parts [OF l(1)]
  have lt: "lrq_state r < 7" using q(5) assms(2) by blast
  show "lrq_state r \<le> lbl_state lock" using lock_state_held(2) [OF l(2) assms(2) lt] l(4) by simp
  show "lrq_state r = lbl_state lock \<or> COMPATIBLE (lrq_state r) (lbl_state lock)"
  proof (cases "lbl_state lock = 0")
    case False
    then obtain m where m: "m \<in> set (lbl_requests lock)" "lrq_state m = lbl_state lock"
      using lock_state_held(3) [OF l(2)] l(4) by auto
    show ?thesis
    proof (cases "lrq_id m = lrq_id r")
      case True
      then show ?thesis using same_id [OF q(1) m(1) assms(2)] m(2) by simp
    next
      case False
      then show ?thesis using q(3) m assms(2) unfolding compatible_holders_def by metis
    qed
  qed (use lt in simp)
qed

text \<open>C3. Whatever the operations of any number of owners were, a lock that exists has requests, two
  requests never hold incompatible levels, and the lock block says so: its counts are the numbers of
  requests at each level, its state is the highest level held, and its pending count is the number of
  requests that wait.\<close>

theorem lock_grants_safe:
  assumes "lock_reachable ord (Some lock)"
  shows "lbl_requests lock \<noteq> [] \<and> distinct (map lrq_id (lbl_requests lock)) \<and>
    (\<forall>q \<in> set (lbl_requests lock). \<forall>r \<in> set (lbl_requests lock).
      lrq_id q \<noteq> lrq_id r \<longrightarrow> COMPATIBLE (lrq_state q) (lrq_state r)) \<and>
    (\<forall>k. LCK_none < k \<and> k < LCK_max \<longrightarrow>
      lbl_counts lock ! k = length (filter (\<lambda>r. lrq_state r = k) (lbl_requests lock))) \<and>
    lbl_state lock = Max (lrq_state ` set (lbl_requests lock)) \<and>
    lbl_pending_lrq_count lock = length (filter lrq_pending (lbl_requests lock))"
proof -
  have ok: "lock_ok lock" and ne: "lbl_requests lock \<noteq> []"
    using reachable_ok [OF assms] by (auto simp: option_ok_def)
  note l = lock_okD [OF ok]
  have "lbl_state lock \<in> lrq_state ` set (lbl_requests lock)"
  proof (cases "lbl_state lock = 0")
    case True
    obtain r where "r \<in> set (lbl_requests lock)" using ne by (cases "lbl_requests lock") auto
    moreover from this have "lrq_state r = 0" using holder_level(1) [OF ok] True by auto
    ultimately show ?thesis using True by force
  next
    case False
    then show ?thesis using lock_state_held(3) [OF l(2)] l(4) by (auto intro: rev_image_eqI)
  qed
  then have "lbl_state lock = Max (lrq_state ` set (lbl_requests lock))"
    using holder_level(1) [OF ok] by (intro Max_eqI [symmetric]) auto
  then show ?thesis
    using ne l queue_ok_parts(3) [OF l(1)]
    by (simp add: compatible_holders_def counted_def held_def waiting_def)
qed

text \<open>C4. With lock ordering, no wakeup is lost: unless a refused request is still to be cleaned up by
  its owner, the first request that waits is one that some other request really stands in the way of.\<close>

theorem lock_first_waiter_blocked:
  assumes "lock_reachable True (Some lock)"
    and "\<forall>r \<in> set (lbl_requests lock).
      \<not> (\<not> lrq_pending r \<and> lrq_rejected r \<and> lrq_requested r \<noteq> lrq_state r)"
    and "find lrq_pending (lbl_requests lock) = Some r"
  shows "\<exists>q \<in> set (lbl_requests lock).
    lrq_id q \<noteq> lrq_id r \<and> \<not> COMPATIBLE (lrq_requested r) (lrq_state q)"
  using reachable_ok [OF assms(1)] assms(2,3)
  by (auto simp: option_ok_def blocked_first_def cleanup_due_def grantable_def)

text \<open>C7. The consistency check of the lock manager on a reachable lock: the level of the lock, the counts and the
  levels of the requests always pass. What can fail is the test of the waiting requests, so the check passes exactly when
  the state of the lock is incompatible with each of them, or with lock ordering with the first of them. With lock
  ordering it passes whenever no refused request is still to be cleaned up.\<close>

theorem lock_validates:
  assumes "lock_reachable ord (Some lock)"
  shows "(validate_lock ord lock \<longleftrightarrow>
      (\<forall>r \<in> checked_waiters ord (lbl_requests lock). \<not> COMPATIBLE (lrq_requested r) (lbl_state lock))) \<and>
    (ord \<and> (\<forall>r \<in> set (lbl_requests lock). \<not> cleanup_due r) \<longrightarrow> validate_lock ord lock)"
proof -
  have o: "lock_ok lock" "ord \<Longrightarrow> \<forall>r \<in> set (lbl_requests lock). \<not> cleanup_due r \<Longrightarrow> blocked_first (lbl_requests lock)"
    using reachable_ok [OF assms] by (auto simp: option_ok_def)
  note l = lock_okD [OF o(1)]
  note q = queue_ok_parts [OF l(1)]
  have st: "lbl_state lock < 7" using lock_state_held(1) [OF l(2)] l(4) by simp
  have holders: "\<forall>r \<in> set (lbl_requests lock). \<not> lrq_pending r \<longrightarrow>
      lrq_rejected r \<or> lrq_requested r = lbl_state lock \<or> COMPATIBLE (lrq_requested r) (lbl_state lock)"
    using q(4) holder_level(2) [OF o(1)] by (fastforce simp: request_ok_def)
  have counts: "list_all (\<lambda>c. c < 0x8000) (lbl_counts lock)"
  proof -
    have "lbl_counts lock ! k < 0x8000" if "k < 7" for k
      using l(2) that held_le [of k "lbl_requests lock"] l(6)
      by (cases "k = 0") (auto simp: counted_def)
    then show ?thesis using l(2) by (simp add: list_all_length counted_def)
  qed
  have main: "validate_lock ord lock \<longleftrightarrow>
      (\<forall>r \<in> checked_waiters ord (lbl_requests lock). \<not> COMPATIBLE (lrq_requested r) (lbl_state lock))"
    using st l(2,3,6) waiting_le [of "lbl_requests lock"] counts validate_loop_spec [OF holders, of ord]
    by (simp add: validate_lock_def counted_def held_def list_all_iff)
  moreover have "\<forall>r \<in> checked_waiters ord (lbl_requests lock). \<not> COMPATIBLE (lrq_requested r) (lbl_state lock)"
    if ord "\<forall>r \<in> set (lbl_requests lock). \<not> cleanup_due r"
  proof (intro ballI notI)
    fix r assume "r \<in> checked_waiters ord (lbl_requests lock)" and c: "COMPATIBLE (lrq_requested r) (lbl_state lock)"
    then have f: "find lrq_pending (lbl_requests lock) = Some r" using that(1) by (simp add: checked_waiters_def)
    then have "r \<in> set (lbl_requests lock)" by (auto simp: find_Some_iff)
    then have t: "lrq_requested r < 7" using q(4) by (simp add: request_ok_def)
    have "grantable r (lbl_requests lock)"
      using compat_lock_state [OF l(2) q(3,1,5) t] c l(4) by (simp add: grantable_def)
    with o(2) [OF that] f show False by (simp add: blocked_first_def)
  qed
  ultimately show ?thesis by blast
qed

lemma pending_loop_skip:
  "\<forall>q \<in> set xs. \<not> lrq_pending q \<Longrightarrow> pending_loop ord (xs @ ys) lock = pending_loop ord ys lock"
  by (induction xs) auto

lemma find_split:
  "find P rs = Some r \<Longrightarrow> \<exists>xs ys. rs = xs @ r # ys \<and> P r \<and> (\<forall>q \<in> set xs. \<not> P q)"
proof (induction rs)
  case (Cons a rs)
  show ?case
  proof (cases "P a")
    case True
    then show ?thesis using Cons.prems by (intro exI [of _ "[]"] exI [of _ rs]) simp
  next
    case False
    then obtain xs ys where "rs = xs @ r # ys" "P r" "\<forall>q \<in> set xs. \<not> P q"
      using Cons by auto
    then show ?thesis using False by (intro exI [of _ "a # xs"] exI [of _ ys]) auto
  qed
qed simp

lemma post_pending_first:
  assumes ok: "lock_ok lock" and f: "find lrq_pending (lbl_requests lock) = Some r"
    and g: "grantable r (lbl_requests lock)"
  shows "granted r \<in> set (lbl_requests (post_pending ord lock))"
proof -
  obtain xs ys where rs: "lbl_requests lock = xs @ r # ys" "lrq_pending r"
    "\<forall>q \<in> set xs. \<not> lrq_pending q" using find_split [OF f] by blast
  obtain lock' where l': "lock_ok lock'" "lbl_requests lock' = xs @ granted r # ys"
    "pending_loop ord (r # ys) lock = pending_loop ord ys lock'"
    using pending_visit(2) [OF ok rs(1,2) g] by blast
  have "lbl_pending_lrq_count lock \<noteq> 0" using lock_okD(3) [OF ok] rs by simp
  then have e: "post_pending ord lock = pending_loop ord ys lock'"
    using pending_loop_skip [OF rs(3)] l'(3) by (simp add: post_pending_def rs(1))
  have "served (lbl_requests lock') (lbl_requests (pending_loop ord ys lock'))"
    using pending_loop_spec [of lock' "xs @ [granted r]" ys ord] l' by simp
  then show ?thesis unfolding e by (rule served_idle) (simp_all add: l'(2))
qed

lemma find_others:
  "find lrq_pending rs = Some r \<Longrightarrow> lrq_id r \<noteq> lrq_id b \<Longrightarrow> find lrq_pending (others b rs) = Some r"
  by (induction rs) (auto simp: others_def split: if_splits)

text \<open>C6. A lock makes progress: when the last request that stands in the way of the first waiting one
  is released, by its owner or because the owner died, the waiting request is granted.\<close>

theorem lock_progress:
  assumes "lock_reachable ord (Some lock)" and "find lrq_pending (lbl_requests lock) = Some r"
    and "b \<in> set (lbl_requests lock)" and "lrq_id b \<noteq> lrq_id r"
    and "\<forall>q \<in> set (lbl_requests lock).
      \<not> COMPATIBLE (lrq_requested r) (lrq_state q) \<longrightarrow> lrq_id q = lrq_id b \<or> lrq_id q = lrq_id r"
  shows "\<exists>lock'. release_request ord b lock = Some lock' \<and>
    r\<lparr>lrq_state := lrq_requested r, lrq_pending := False\<rparr> \<in> set (lbl_requests lock')"
proof -
  have ok: "lock_ok lock" using reachable_ok [OF assms(1)] by (auto simp: option_ok_def)
  obtain lock4 where l4: "lock_ok lock4" "lbl_requests lock4 = others b (lbl_requests lock)"
    "release_request ord b lock =
      (if others b (lbl_requests lock) = [] then None else Some (post_pending ord lock4))"
    using release_form [OF lock_ok_with [OF ok assms(3)]] by blast
  have f: "find lrq_pending (lbl_requests lock4) = Some r"
    unfolding l4(2) using assms(2,4) by (intro find_others) auto
  moreover have "grantable r (lbl_requests lock4)" using assms(5) by (auto simp: grantable_def l4(2))
  ultimately have "granted r \<in> set (lbl_requests (post_pending ord lock4))"
    by (intro post_pending_first l4(1))
  moreover have "others b (lbl_requests lock) \<noteq> []" using f l4(2) by auto
  ultimately show ?thesis using l4(3) by (simp add: granted_def)
qed

section \<open>Downgrades\<close>





section \<open>Examples\<close>

text \<open>An owner holds protected read, a second one waits for exclusive access.\<close>

definition holder_and_waiter :: lbl where
  "holder_and_waiter =
     \<lparr>lbl_state = LCK_PR,
      lbl_requests =
        [\<lparr>lrq_id = 1, lrq_owner = 10, lrq_requested = LCK_PR, lrq_state = LCK_PR,
          lrq_pending = False, lrq_rejected = False\<rparr>,
         \<lparr>lrq_id = 2, lrq_owner = 20, lrq_requested = LCK_EX, lrq_state = LCK_none,
          lrq_pending = True, lrq_rejected = False\<rparr>],
      lbl_pending_lrq_count = 1, lbl_counts = [0, 0, 0, 1, 0, 0, 0]\<rparr>"

lemma no_counts: "replicate 7 0 = [0, 0, 0, 0, 0, 0, 0 :: nat]"
  by (simp add: numeral_eq_Suc)

lemmas lock_defs = no_counts LOCK_enq_def grant_or_que_def grant_def put_request_def remove_request_def
  count_up_def count_down_def pending_up_def pending_down_def lock_state_def new_request_def
  start_wait_def post_pending_def release_request_def convert_def denied_def Let_def

lemma compat_table [simp]:
  "COMPATIBLE 3 6 = False" "COMPATIBLE 6 3 = False" "COMPATIBLE 6 2 = False" "COMPATIBLE 4 3 = False"
  "COMPATIBLE 3 4 = False" "COMPATIBLE 5 3 = False" "COMPATIBLE 3 5 = False" "COMPATIBLE 2 3" "COMPATIBLE 3 2"
  "COMPATIBLE 3 3" "COMPATIBLE 4 4" "COMPATIBLE 5 2"
  by (simp_all add: compat_iff)

lemma enq_step:
  "LOCK_enq ord rid owner type w (Some lock) = (res, lo) \<Longrightarrow> lock_reachable ord (Some lock) \<Longrightarrow>
   0 < type \<Longrightarrow> type < 7 \<Longrightarrow> rid \<notin> lrq_id ` set (lbl_requests lock) \<Longrightarrow>
   length (lbl_requests lock) < 32767 \<Longrightarrow> lock_reachable ord lo"
  unfolding lock_reachable_def
  by (metis lock_step.enq rtranclp.rtrancl_into_rtrancl snd_conv)

lemma enq_new_step:
  "LOCK_enq ord rid owner type w None = (res, lo) \<Longrightarrow> 0 < type \<Longrightarrow> type < 7 \<Longrightarrow> lock_reachable ord lo"
  unfolding lock_reachable_def by (metis lock_step.enq_new r_into_rtranclp snd_conv)

lemma convert_step:
  "convert ord r type w lock = (res, lock') \<Longrightarrow> lock_reachable ord (Some lock) \<Longrightarrow>
   r \<in> set (lbl_requests lock) \<Longrightarrow> idle r \<Longrightarrow> 0 < type \<Longrightarrow> type < 7 \<Longrightarrow> lock_reachable ord (Some lock')"
  unfolding lock_reachable_def
  by (metis lock_step.converts rtranclp.rtrancl_into_rtrancl snd_conv)

lemma deq_step:
  "release_request ord r lock = lo \<Longrightarrow> lock_reachable ord (Some lock) \<Longrightarrow>
   r \<in> set (lbl_requests lock) \<Longrightarrow> lock_reachable ord lo"
  unfolding lock_reachable_def by (metis lock_step.deq rtranclp.rtrancl_into_rtrancl)

lemma lower_states: "lower_state 6 3 = 1" "lower_state 3 4 = 3"
  by (simp_all add: eval_nat_numeral compat_iff)

lemma all_levels: "[LCK_null..<LCK_max] = [1, 2, 3, 4, 5, 6]"
  by (simp add: upt_rec)

abbreviation req :: "nat \<Rightarrow> nat \<Rightarrow> nat \<Rightarrow> bool \<Rightarrow> lrq" where
  "req i t s p \<equiv> \<lparr>lrq_id = i, lrq_owner = 10 * i, lrq_requested = t, lrq_state = s,
     lrq_pending = p, lrq_rejected = False\<rparr>"

lemma holder_and_waiter_reachable: "lock_reachable ord (Some holder_and_waiter)"
proof -
  have "LOCK_enq ord 1 10 3 1 None = (Granted, Some \<lparr>lbl_state = 3, lbl_requests = [req 1 3 3 False],
      lbl_pending_lrq_count = 0, lbl_counts = [0, 0, 0, 1, 0, 0, 0]\<rparr>)" (is "_ = (_, Some ?l1)")
    by (simp add: lock_defs)
  from enq_new_step [OF this] have r1: "lock_reachable ord (Some ?l1)" by simp
  have "LOCK_enq ord 2 20 6 1 (Some ?l1) = (Waiting, Some holder_and_waiter)"
    by (simp add: lock_defs holder_and_waiter_def)
  from enq_step [OF this r1] show ?thesis by simp
qed

theorem lock_grants_safe_witness:
  "lbl_state holder_and_waiter = Max (lrq_state ` set (lbl_requests holder_and_waiter))"
  using lock_grants_safe [OF holder_and_waiter_reachable [of True]] by blast

lemma holder_and_waiter_clean:
  "\<forall>r \<in> set (lbl_requests holder_and_waiter).
     \<not> (\<not> lrq_pending r \<and> lrq_rejected r \<and> lrq_requested r \<noteq> lrq_state r)"
  "find lrq_pending (lbl_requests holder_and_waiter) = Some (req 2 6 0 True)"
  by (simp_all add: holder_and_waiter_def)

theorem lock_first_waiter_blocked_witness:
  "\<exists>q \<in> set (lbl_requests holder_and_waiter). lrq_id q \<noteq> 2 \<and> \<not> COMPATIBLE 6 (lrq_state q)"
  using lock_first_waiter_blocked [OF holder_and_waiter_reachable holder_and_waiter_clean] by simp

theorem lock_validates_witness: "validate_lock True holder_and_waiter"
proof -
  have "\<forall>r \<in> set (lbl_requests holder_and_waiter). \<not> cleanup_due r"
    using holder_and_waiter_clean(1) by (simp add: cleanup_due_def)
  then show ?thesis using lock_validates [OF holder_and_waiter_reachable [of True]] by blast
qed

theorem lock_progress_witness:
  "\<exists>lock'. release_request True (req 1 3 3 False) holder_and_waiter = Some lock' \<and>
    req 2 6 6 False \<in> set (lbl_requests lock')"
  using lock_progress [OF holder_and_waiter_reachable [of True] holder_and_waiter_clean(2),
      of "req 1 3 3 False"]
  by (simp add: holder_and_waiter_def)


text \<open>\<open>LOCK_downgrade\<close> returns the level it tried to convert to, and not the level held: of two
  owners at shared write, with a protected read waiting, one is told that it has been lowered to
  protected read and still holds shared write.\<close>

lemma lock_downgrade_misreports:
  "\<exists>lock r. lock_reachable True (Some lock) \<and> r \<in> set (lbl_requests lock) \<and> idle r \<and>
     lrq_state r = LCK_SW \<and> LOCK_downgrade True r lock = (LCK_PR, Some lock)"
proof -
  let ?l1 = "\<lparr>lbl_state = 4, lbl_requests = [req 1 4 4 False],
      lbl_pending_lrq_count = 0, lbl_counts = [0, 0, 0, 0, 1, 0, 0]\<rparr>"
  let ?l2 = "\<lparr>lbl_state = 4, lbl_requests = [req 1 4 4 False, req 2 4 4 False],
      lbl_pending_lrq_count = 0, lbl_counts = [0, 0, 0, 0, 2, 0, 0]\<rparr>"
  let ?l3 = "\<lparr>lbl_state = 4, lbl_requests = [req 1 4 4 False, req 2 4 4 False, req 3 3 0 True],
      lbl_pending_lrq_count = 1, lbl_counts = [0, 0, 0, 0, 2, 0, 0]\<rparr>"
  have "LOCK_enq True 1 10 4 1 None = (Granted, Some ?l1)" by (simp add: lock_defs)
  from enq_new_step [OF this] have r1: "lock_reachable True (Some ?l1)" by simp
  have "LOCK_enq True 2 20 4 1 (Some ?l1) = (Granted, Some ?l2)" by (simp add: lock_defs)
  from enq_step [OF this r1] have r2: "lock_reachable True (Some ?l2)" by simp
  have "LOCK_enq True 3 30 3 1 (Some ?l2) = (Waiting, Some ?l3)" by (simp add: lock_defs)
  from enq_step [OF this r2] have r3: "lock_reachable True (Some ?l3)" by simp
  have "LOCK_downgrade True (req 1 4 4 False) ?l3 = (LCK_PR, Some ?l3)"
    by (simp add: LOCK_downgrade_def lock_defs lower_states)
  with r3 show ?thesis
    by (intro exI [of _ ?l3] exI [of _ "req 1 4 4 False"]) (simp add: idle_def)
qed

end
