(* ===== verification/Lock_Deadlock.thy ===== *)
theory Lock_Deadlock
  imports Lock_Steps "HOL-Library.Monad_Syntax"
begin

text \<open>
  The deadlock detection of \<open>lock/lock.cpp\<close>: \<open>deadlock_walk\<close> searches the graph of the requests that wait
  for a cycle, marking the requests on its path (\<open>LRQ_deadlock\<close>) and those it is done with
  (\<open>LRQ_scanned\<close>).

  A request is named by its lock and its \<open>lrq_id\<close>. The marks of the requests are two sets, empty after
  \<open>deadlock_clear\<close>, which clears the marks of every request the walk can reach. The recursion has fuel;
  two more than the number of owners is enough.
\<close>

section \<open>The lock table\<close>

type_synonym lrq_ptr = "nat \<times> nat"

record own =
  own_signaled :: bool
  own_blocks :: "lrq_ptr list"
  own_pending_request :: "lrq_ptr option"

record lhb =
  lhb_locks :: "nat \<Rightarrow> lbl"
  lhb_owners :: "(nat \<times> own) list"

definition no_owner :: own where
  "no_owner = \<lparr>own_signaled = False, own_blocks = [], own_pending_request = None\<rparr>"

definition owner_of :: "lhb \<Rightarrow> nat \<Rightarrow> own" where
  "owner_of table i = (case map_of (lhb_owners table) i of None \<Rightarrow> no_owner | Some owner \<Rightarrow> owner)"

definition no_request :: lrq where
  "no_request = new_request 0 0 0"

definition request_of :: "lhb \<Rightarrow> lrq_ptr \<Rightarrow> lrq" where
  "request_of table p =
     (case find (\<lambda>r. lrq_id r = snd p) (lbl_requests (lhb_locks table (fst p))) of
        None \<Rightarrow> no_request
      | Some r \<Rightarrow> r)"

section \<open>The walk\<close>

record walk_marks =
  on_path :: "lrq_ptr set"
  scanned :: "lrq_ptr set"
  maybe_deadlock :: bool

text \<open>What the owner of a blocking request is doing.\<close>

datatype pursuit = Busy | Free | Waits lrq_ptr

definition pursue :: "lhb \<Rightarrow> lrq \<Rightarrow> pursuit" where
  "pursue table block =
     (let owner = owner_of table (lrq_owner block) in
      if own_signaled owner \<or> own_blocks owner \<noteq> [] then Busy
      else
        case own_pending_request owner of
          None \<Rightarrow> Free
        | Some target \<Rightarrow> if lrq_pending (request_of table target) then Waits target else Free)"

text \<open>The loop over the queue; \<open>walk\<close> is the recursive call.\<close>

fun walk_loop ::
    "(lrq_ptr \<Rightarrow> walk_marks \<Rightarrow> (lrq_ptr option \<times> walk_marks) option) \<Rightarrow> bool \<Rightarrow> lhb \<Rightarrow> lrq \<Rightarrow> bool \<Rightarrow>
     lrq list \<Rightarrow> walk_marks \<Rightarrow> (lrq_ptr option \<times> walk_marks) option"
  where
  "walk_loop walk ord table request conversion [] st = Some (None, st)"
| "walk_loop walk ord table request conversion (block # blocks) st =
     (let continue = walk_loop walk ord table request conversion blocks;
          examine = (\<lambda>st. case pursue table block of
              Busy \<Rightarrow> continue (st\<lparr>maybe_deadlock := True\<rparr>)
            | Free \<Rightarrow> continue st
            | Waits target \<Rightarrow>
                do {
                  (victim, st') \<leftarrow> walk target st;
                  case victim of Some v \<Rightarrow> Some (Some v, st') | None \<Rightarrow> continue st'
                })
      in
      if \<not> ord \<or> conversion then
        if lrq_id request = lrq_id block then continue st
        else if COMPATIBLE (lrq_requested request) (lrq_state block) then continue st
        else examine st
      else
        if lrq_id request = lrq_id block then Some (None, st)
        else if COMPATIBLE (lrq_requested request) (max (lrq_state block) (lrq_requested block))
        then continue st
        else examine st)"

fun deadlock_walk ::
    "nat \<Rightarrow> bool \<Rightarrow> lhb \<Rightarrow> lrq_ptr \<Rightarrow> walk_marks \<Rightarrow> (lrq_ptr option \<times> walk_marks) option"
  where
  "deadlock_walk 0 ord table p st = None"
| "deadlock_walk (Suc n) ord table p st =
     (if p \<in> scanned st then Some (None, st)
      else if p \<in> on_path st then Some (Some p, st)
      else
        let request = request_of table p;
            conversion = (LCK_null < lrq_state request) in
        do {
          (victim, st') \<leftarrow> walk_loop (deadlock_walk n ord table) ord table request conversion
             (lbl_requests (lhb_locks table (fst p))) (st\<lparr>on_path := insert p (on_path st)\<rparr>);
          case victim of
            Some v \<Rightarrow> Some (Some v, st')
          | None \<Rightarrow> Some (None, st'\<lparr>on_path := on_path st' - {p}, scanned := insert p (scanned st')\<rparr>)
        })"

text \<open>
  \<open>deadlock_scan\<close>: the victim, and whether the owner is marked as scanned (\<open>OWN_scanned\<close>).
\<close>

definition deadlock_scan :: "bool \<Rightarrow> lhb \<Rightarrow> lrq_ptr \<Rightarrow> (lrq_ptr option \<times> bool) option" where
  "deadlock_scan ord table p =
     do {
       (victim, st) \<leftarrow> deadlock_walk (length (lhb_owners table) + 2) ord table p
          \<lparr>on_path = {}, scanned = {}, maybe_deadlock = False\<rparr>;
       Some (victim, victim = None \<and> \<not> maybe_deadlock st)
     }"


section \<open>The graph of the requests that wait\<close>

definition blockers :: "bool \<Rightarrow> lhb \<Rightarrow> lrq_ptr \<Rightarrow> lrq list" where
  "blockers ord table p =
     (let request = request_of table p; queue = lbl_requests (lhb_locks table (fst p)) in
      if \<not> ord \<or> LCK_null < lrq_state request
      then filter (\<lambda>b. lrq_id request \<noteq> lrq_id b \<and> \<not> COMPATIBLE (lrq_requested request) (lrq_state b)) queue
      else filter (\<lambda>b. \<not> COMPATIBLE (lrq_requested request) (max (lrq_state b) (lrq_requested b)))
        (takeWhile (\<lambda>b. lrq_id request \<noteq> lrq_id b) queue))"

text \<open>
  \<open>p\<close> waits for \<open>q\<close>: the owner of a request that blocks \<open>p\<close> waits for its request \<open>q\<close>. \<open>pursues\<close> is the
  part of this relation that the walk follows, which leaves out the owners that are busy.
\<close>

definition waits_for :: "bool \<Rightarrow> lhb \<Rightarrow> lrq_ptr \<Rightarrow> lrq_ptr \<Rightarrow> bool" where
  "waits_for ord table p q \<longleftrightarrow>
     (\<exists>b \<in> set (blockers ord table p).
       own_pending_request (owner_of table (lrq_owner b)) = Some q \<and> lrq_pending (request_of table q))"

definition pursues :: "bool \<Rightarrow> lhb \<Rightarrow> lrq_ptr \<Rightarrow> lrq_ptr \<Rightarrow> bool" where
  "pursues ord table p q \<longleftrightarrow> Waits q \<in> pursue table ` set (blockers ord table p)"

definition meets_busy :: "bool \<Rightarrow> lhb \<Rightarrow> lrq_ptr \<Rightarrow> bool" where
  "meets_busy ord table p \<longleftrightarrow> Busy \<in> pursue table ` set (blockers ord table p)"

lemma pursue_waits:
  "pursue table b = Waits q \<Longrightarrow>
   own_pending_request (owner_of table (lrq_owner b)) = Some q \<and> lrq_pending (request_of table q)"
  by (auto simp: pursue_def Let_def split: if_splits option.splits)

lemma pursues_waits_for: "pursues ord table p q \<Longrightarrow> waits_for ord table p q"
  by (auto simp: pursues_def waits_for_def dest!: pursue_waits [OF sym])

lemma waits_for_pursues:
  assumes "waits_for ord table p q" "\<not> meets_busy ord table p"
  shows "pursues ord table p q"
proof -
  obtain b where b: "b \<in> set (blockers ord table p)"
    "own_pending_request (owner_of table (lrq_owner b)) = Some q" "lrq_pending (request_of table q)"
    using assms(1) unfolding waits_for_def by blast
  have "pursue table b \<noteq> Busy" using assms(2) b(1) unfolding meets_busy_def by (metis imageI)
  then have "pursue table b = Waits q" using b(2,3) by (auto simp: pursue_def Let_def split: if_splits)
  then show ?thesis using b(1) unfolding pursues_def by (metis imageI)
qed

text \<open>The loop of the walk visits the blockers.\<close>

fun visit_all ::
    "(lrq_ptr \<Rightarrow> walk_marks \<Rightarrow> (lrq_ptr option \<times> walk_marks) option) \<Rightarrow> pursuit list \<Rightarrow> walk_marks \<Rightarrow>
     (lrq_ptr option \<times> walk_marks) option" where
  "visit_all walk [] st = Some (None, st)"
| "visit_all walk (Busy # xs) st = visit_all walk xs (st\<lparr>maybe_deadlock := True\<rparr>)"
| "visit_all walk (Free # xs) st = visit_all walk xs st"
| "visit_all walk (Waits target # xs) st =
     do {
       (victim, st') \<leftarrow> walk target st;
       case victim of Some v \<Rightarrow> Some (Some v, st') | None \<Rightarrow> visit_all walk xs st'
     }"

lemma walk_loop_visits:
  "walk_loop walk ord table r conv rs st =
     visit_all walk (map (pursue table)
       (if \<not> ord \<or> conv
        then filter (\<lambda>b. lrq_id r \<noteq> lrq_id b \<and> \<not> COMPATIBLE (lrq_requested r) (lrq_state b)) rs
        else filter (\<lambda>b. \<not> COMPATIBLE (lrq_requested r) (max (lrq_state b) (lrq_requested b)))
          (takeWhile (\<lambda>b. lrq_id r \<noteq> lrq_id b) rs))) st"
proof (induction rs arbitrary: st)
  case (Cons b rs)
  have "(case pursue table b of
          Busy \<Rightarrow> walk_loop walk ord table r conv rs (st\<lparr>maybe_deadlock := True\<rparr>)
        | Free \<Rightarrow> walk_loop walk ord table r conv rs st
        | Waits target \<Rightarrow>
            do {
              (victim, st') \<leftarrow> walk target st;
              case victim of Some v \<Rightarrow> Some (Some v, st')
              | None \<Rightarrow> walk_loop walk ord table r conv rs st'
            }) = visit_all walk (pursue table b # map (pursue table)
       (if \<not> ord \<or> conv
        then filter (\<lambda>b. lrq_id r \<noteq> lrq_id b \<and> \<not> COMPATIBLE (lrq_requested r) (lrq_state b)) rs
        else filter (\<lambda>b. \<not> COMPATIBLE (lrq_requested r) (max (lrq_state b) (lrq_requested b)))
          (takeWhile (\<lambda>b. lrq_id r \<noteq> lrq_id b) rs))) st"
    by (cases "pursue table b") (simp_all add: Cons.IH cong: option.case_cong)
  then show ?case using Cons.IH by (auto simp: Let_def)
qed simp

lemma deadlock_walk_visits:
  "deadlock_walk (Suc n) ord table p st =
     (if p \<in> scanned st then Some (None, st)
      else if p \<in> on_path st then Some (Some p, st)
      else
        do {
          (victim, st') \<leftarrow> visit_all (deadlock_walk n ord table)
             (map (pursue table) (blockers ord table p)) (st\<lparr>on_path := insert p (on_path st)\<rparr>);
          case victim of
            Some v \<Rightarrow> Some (Some v, st')
          | None \<Rightarrow> Some (None, st'\<lparr>on_path := on_path st' - {p}, scanned := insert p (scanned st')\<rparr>)
        })"
  by (simp add: walk_loop_visits blockers_def Let_def)

declare deadlock_walk.simps [simp del]

section \<open>Sets the walk is done with\<close>

text \<open>A set of nodes that is closed under a relation and holds no cycle of it.\<close>

definition exhausted :: "('p \<Rightarrow> 'p \<Rightarrow> bool) \<Rightarrow> 'p set \<Rightarrow> bool" where
  "exhausted E D \<longleftrightarrow> (\<forall>d \<in> D. \<forall>q. E d q \<longrightarrow> q \<in> D) \<and> (\<forall>d \<in> D. \<not> E\<^sup>+\<^sup>+ d d)"

lemma exhausted_closed: "E\<^sup>*\<^sup>* d q \<Longrightarrow> exhausted E D \<Longrightarrow> d \<in> D \<Longrightarrow> q \<in> D"
  by (induction rule: rtranclp_induct) (auto simp: exhausted_def)

lemma exhausted_insert:
  assumes D: "exhausted E D" and s: "\<And>q. E p q \<Longrightarrow> q \<in> D" and p: "p \<notin> D"
  shows "exhausted E (insert p D)"
proof -
  have "\<not> E\<^sup>+\<^sup>+ p p"
  proof
    assume "E\<^sup>+\<^sup>+ p p"
    from tranclpD [OF this] obtain q where q: "E p q" "E\<^sup>*\<^sup>* q p" by (elim exE conjE)
    from exhausted_closed [OF q(2) D s [OF q(1)]] show False using p by contradiction
  qed
  moreover from D have "\<forall>d \<in> D. \<forall>q. E d q \<longrightarrow> q \<in> D" "\<forall>d \<in> D. \<not> E\<^sup>+\<^sup>+ d d"
    unfolding exhausted_def by (rule conjunct1, rule conjunct2)
  ultimately show ?thesis unfolding exhausted_def using s by (metis insert_iff)
qed

lemma exhausted_no_cycle: "exhausted E D \<Longrightarrow> d \<in> D \<Longrightarrow> E\<^sup>*\<^sup>* d q \<Longrightarrow> \<not> E\<^sup>+\<^sup>+ q q"
  using exhausted_closed [of E d q D] by (auto simp: exhausted_def)

text \<open>Where two relations agree on the set, it is exhausted for both.\<close>

lemma exhausted_cong:
  assumes D: "exhausted E D" and eq: "\<And>d q. d \<in> D \<Longrightarrow> F d q = E d q"
  shows "exhausted F D"
proof -
  have cl: "\<forall>d \<in> D. \<forall>q. F d q \<longrightarrow> q \<in> D" using D eq by (simp add: exhausted_def)
  have "E\<^sup>+\<^sup>+ d q \<and> q \<in> D" if "F\<^sup>+\<^sup>+ d q" "d \<in> D" for d q
    using that
  proof (induction rule: tranclp_induct)
    case (step y z)
    then show ?case using eq cl by (meson tranclp.trancl_into_trancl)
  qed (use eq cl in \<open>auto intro: tranclp.r_into_trancl\<close>)
  moreover from D have "\<forall>d \<in> D. \<not> E\<^sup>+\<^sup>+ d d" unfolding exhausted_def by (rule conjunct2)
  ultimately show ?thesis unfolding exhausted_def using cl by metis
qed

section \<open>What the walk finds\<close>

definition marks_ok :: "bool \<Rightarrow> lhb \<Rightarrow> walk_marks \<Rightarrow> bool" where
  "marks_ok ord table st \<longleftrightarrow>
     exhausted (pursues ord table) (scanned st) \<and> scanned st \<inter> on_path st = {} \<and>
     (\<not> maybe_deadlock st \<longrightarrow> (\<forall>d \<in> scanned st. \<not> meets_busy ord table d))"

definition later :: "walk_marks \<Rightarrow> walk_marks \<Rightarrow> bool" where
  "later st st' \<longleftrightarrow> on_path st' = on_path st \<and> scanned st \<subseteq> scanned st' \<and>
     (maybe_deadlock st \<longrightarrow> maybe_deadlock st')"

lemma later_trans: "later a b \<Longrightarrow> later b c \<Longrightarrow> later a c"
  by (auto simp: later_def)

text \<open>
  A search from \<open>p\<close> ends, with a request on a cycle that \<open>p\<close> leads to, or with marks of which
  \<open>P\<close> holds.
\<close>

definition search_ok ::
  "bool \<Rightarrow> lhb \<Rightarrow> lrq_ptr \<Rightarrow> walk_marks \<Rightarrow> (walk_marks \<Rightarrow> bool) \<Rightarrow> (lrq_ptr option \<times> walk_marks) option \<Rightarrow> bool"
  where
  "search_ok ord table p st P res \<longleftrightarrow>
     (\<exists>q st'. res = Some (Some q, st') \<and> (pursues ord table)\<^sup>*\<^sup>* p q \<and> (pursues ord table)\<^sup>+\<^sup>+ q q) \<or>
     (\<exists>st'. res = Some (None, st') \<and> later st st' \<and> marks_ok ord table st' \<and> P st')"

lemma search_ok_victim:
  "(pursues ord table)\<^sup>*\<^sup>* p q \<Longrightarrow> (pursues ord table)\<^sup>+\<^sup>+ q q \<Longrightarrow> search_ok ord table p st P (Some (Some q, st'))"
  by (simp add: search_ok_def)

lemma search_ok_done:
  "later st st' \<Longrightarrow> marks_ok ord table st' \<Longrightarrow> P st' \<Longrightarrow> search_ok ord table p st P (Some (None, st'))"
  by (simp add: search_ok_def)

lemma search_okE:
  assumes "search_ok ord table p st P res"
  obtains q st' where "res = Some (Some q, st')" "(pursues ord table)\<^sup>*\<^sup>* p q" "(pursues ord table)\<^sup>+\<^sup>+ q q"
  | st' where "res = Some (None, st')" "later st st'" "marks_ok ord table st'" "P st'"
  using assms unfolding search_ok_def by blast

text \<open>The marks from which a walk may start at \<open>p\<close> with fuel \<open>n\<close>; \<open>U\<close> holds the requests it can reach.\<close>

definition walk_pre :: "bool \<Rightarrow> lhb \<Rightarrow> lrq_ptr set \<Rightarrow> nat \<Rightarrow> lrq_ptr \<Rightarrow> walk_marks \<Rightarrow> bool" where
  "walk_pre ord table U n p st \<longleftrightarrow>
     marks_ok ord table st \<and> p \<in> U \<and> card (U - on_path st) < n \<and>
     (\<forall>s \<in> on_path st. (pursues ord table)\<^sup>+\<^sup>+ s p)"

definition visited :: "pursuit list \<Rightarrow> walk_marks \<Rightarrow> bool" where
  "visited xs st \<longleftrightarrow> (\<forall>q. Waits q \<in> set xs \<longrightarrow> q \<in> scanned st) \<and> (Busy \<in> set xs \<longrightarrow> maybe_deadlock st)"

lemma visit_all_spec:
  assumes walk: "\<And>p st. walk_pre ord table U n p st \<Longrightarrow>
      search_ok ord table p st (\<lambda>st'. p \<in> scanned st') (walk p st)"
    and st: "marks_ok ord table st"
    and tg: "\<And>q. Waits q \<in> set xs \<Longrightarrow> q \<in> U \<and> pursues ord table p q \<and>
      (\<forall>s \<in> on_path st. (pursues ord table)\<^sup>+\<^sup>+ s q)"
    and fuel: "card (U - on_path st) < n"
  shows "search_ok ord table p st (visited xs) (visit_all walk xs st)"
  using st tg fuel
proof (induction xs arbitrary: st)
  case Nil
  then show ?case by (auto simp: later_def visited_def intro!: search_ok_done)
next
  case (Cons x xs)
  show ?case
  proof (cases x)
    case Busy
    let ?st = "st\<lparr>maybe_deadlock := True\<rparr>"
    have "marks_ok ord table ?st" using Cons.prems(1) by (simp add: marks_ok_def)
    then have "search_ok ord table p ?st (visited xs) (visit_all walk xs ?st)"
      using Cons.prems(2,3) by (intro Cons.IH) auto
    then show ?thesis
      by (rule search_okE)
        (auto simp: Busy later_def visited_def intro: search_ok_victim intro!: search_ok_done)
  next
    case Free
    have "search_ok ord table p st (visited xs) (visit_all walk xs st)"
      using Cons.prems by (intro Cons.IH) auto
    then show ?thesis
      by (rule search_okE)
        (auto simp: Free later_def visited_def intro: search_ok_victim intro!: search_ok_done)
  next
    case (Waits q)
    have pq: "pursues ord table p q" using Cons.prems(2) Waits by simp
    have "walk_pre ord table U n q st"
      using Cons.prems Waits by (simp add: walk_pre_def)
    from walk [OF this] show ?thesis
    proof (cases rule: search_okE)
      case (1 v st1)
      then show ?thesis
        using pq by (auto simp: Waits intro: search_ok_victim converse_rtranclp_into_rtranclp)
    next
      case (2 st1)
      have "search_ok ord table p st1 (visited xs) (visit_all walk xs st1)"
        using Cons.prems(2,3) 2(2,3) by (intro Cons.IH) (auto simp: later_def)
      then show ?thesis
      proof (cases rule: search_okE)
        case (1 v st')
        then show ?thesis using 2(1) by (auto simp: Waits intro: search_ok_victim)
      next
        case s: (2 st')
        have "later st st'" using 2(2) s(2) by (rule later_trans)
        moreover have "visited (x # xs) st'"
          using s 2(4) by (auto simp: visited_def Waits later_def)
        ultimately show ?thesis using 2(1) s(1,3) by (simp add: Waits search_ok_done)
      qed
    qed
  qed
qed

lemma deadlock_walk_spec:
  assumes fin: "finite U" and U: "\<And>x y. pursues ord table x y \<Longrightarrow> y \<in> U"
  shows "walk_pre ord table U n p st \<Longrightarrow>
    search_ok ord table p st (\<lambda>st'. p \<in> scanned st') (deadlock_walk n ord table p st)"
proof (induction n arbitrary: p st)
  case 0
  then show ?case by (simp add: walk_pre_def)
next
  case (Suc n)
  let ?E = "pursues ord table"
  have pre: "marks_ok ord table st" "p \<in> U" "card (U - on_path st) < Suc n"
    "\<And>s. s \<in> on_path st \<Longrightarrow> ?E\<^sup>+\<^sup>+ s p" using Suc.prems by (auto simp: walk_pre_def)
  consider "p \<in> scanned st" | "p \<notin> scanned st" "p \<in> on_path st" | "p \<notin> scanned st" "p \<notin> on_path st"
    by blast
  then show ?case
  proof cases
    case 1
    then show ?thesis using pre(1) by (simp add: deadlock_walk_visits search_ok_done later_def)
  next
    case 2
    then show ?thesis using pre(4) by (simp add: deadlock_walk_visits search_ok_victim)
  next
    case new: 3
    let ?st = "st\<lparr>on_path := insert p (on_path st)\<rparr>"
    let ?xs = "map (pursue table) (blockers ord table p)"
    have e: "Waits q \<in> set ?xs \<longleftrightarrow> ?E p q" for q by (simp add: pursues_def)
    have m: "marks_ok ord table ?st" using pre(1) new by (auto simp: marks_ok_def)
    have "U - on_path ?st \<subset> U - on_path st" using new pre(2) by auto
    then have "card (U - on_path ?st) < card (U - on_path st)"
      using fin by (intro psubset_card_mono) auto
    then have f: "card (U - on_path ?st) < n" using pre(3) by simp
    have tg: "q \<in> U \<and> ?E p q \<and> (\<forall>s \<in> on_path ?st. ?E\<^sup>+\<^sup>+ s q)" if "Waits q \<in> set ?xs" for q
    proof -
      have pq: "?E p q" using that unfolding e .
      have "?E\<^sup>+\<^sup>+ s q" if "s \<in> on_path ?st" for s
      proof (cases "s = p")
        case False
        then have "s \<in> on_path st" using that by simp
        then show ?thesis by (rule tranclp.trancl_into_trancl [OF pre(4) pq])
      qed (use pq in \<open>simp add: tranclp.r_into_trancl\<close>)
      with U [OF pq] pq show ?thesis by blast
    qed
    have "search_ok ord table p ?st (visited ?xs) (visit_all (deadlock_walk n ord table) ?xs ?st)"
      by (rule visit_all_spec [OF _ m tg f]) (rule Suc.IH)
    then show ?thesis
    proof (cases rule: search_okE)
      case (1 q st')
      then show ?thesis using new by (simp add: deadlock_walk_visits search_ok_victim)
    next
      case (2 st')
      let ?st' = "st'\<lparr>on_path := on_path st' - {p}, scanned := insert p (scanned st')\<rparr>"
      have q: "?E p q \<Longrightarrow> q \<in> scanned st'" for q using 2(4) unfolding visited_def e by blast
      have b: "meets_busy ord table p \<Longrightarrow> maybe_deadlock st'"
        using 2(4) by (simp add: visited_def meets_busy_def)
      have x: "exhausted ?E (scanned st')" "scanned st' \<inter> on_path st' = {}"
        "\<not> maybe_deadlock st' \<longrightarrow> (\<forall>d \<in> scanned st'. \<not> meets_busy ord table d)"
        using 2(3) by (simp_all add: marks_ok_def)
      have pn: "p \<notin> scanned st'" using x(2) 2(2) by (auto simp: later_def)
      have "exhausted ?E (insert p (scanned st'))" by (rule exhausted_insert [OF x(1) q pn])
      then have "marks_ok ord table ?st'" using x(2,3) b by (auto simp: marks_ok_def)
      moreover have "later st ?st'" using 2(2) new by (auto simp: later_def)
      ultimately show ?thesis using 2(1) new by (simp add: deadlock_walk_visits search_ok_done)
    qed
  qed
qed

section \<open>The properties of the deadlock scan\<close>

definition reach_set :: "lhb \<Rightarrow> lrq_ptr \<Rightarrow> lrq_ptr set" where
  "reach_set table p =
     insert p (set (concat (map (\<lambda>x. case own_pending_request (snd x) of None \<Rightarrow> [] | Some q \<Rightarrow> [q])
       (lhb_owners table))))"

lemma length_targets:
  "length (concat (map (\<lambda>x. case own_pending_request (snd x) of None \<Rightarrow> [] | Some q \<Rightarrow> [q]) xs)) \<le> length xs"
  by (induction xs) (auto split: option.splits)

lemma reach_set_card: "finite (reach_set table p)" "card (reach_set table p) < length (lhb_owners table) + 2"
proof -
  let ?qs = "concat (map (\<lambda>x. case own_pending_request (snd x) of None \<Rightarrow> [] | Some q \<Rightarrow> [q]) (lhb_owners table))"
  have "length ?qs \<le> length (lhb_owners table)"
    by (rule length_targets)
  moreover have "card (insert p (set ?qs)) \<le> Suc (length ?qs)"
    using card_length [of ?qs] card_insert_le_m1 [of "Suc (length ?qs)" "set ?qs" p] by simp
  ultimately show "card (reach_set table p) < length (lhb_owners table) + 2"
    unfolding reach_set_def by linarith
  show "finite (reach_set table p)" unfolding reach_set_def by (intro finite.insertI finite_set)
qed

lemma owner_of_cases: "owner_of table i = no_owner \<or> owner_of table i \<in> snd ` set (lhb_owners table)"
  by (auto simp: owner_of_def split: option.splits dest!: map_of_SomeD intro: rev_image_eqI)

lemma owner_pending_reach:
  assumes "own_pending_request (owner_of table i) = Some y"
  shows "y \<in> reach_set table p"
proof -
  have "owner_of table i \<in> snd ` set (lhb_owners table)"
    using owner_of_cases [of table i] assms by (auto simp: no_owner_def)
  then obtain x where "x \<in> set (lhb_owners table)" "own_pending_request (snd x) = Some y"
    using assms by auto
  then show ?thesis
    unfolding reach_set_def set_concat set_map by (intro insertI2 UN_I [OF imageI]) (assumption, simp)
qed

lemma waits_for_reach: "waits_for ord table x y \<Longrightarrow> y \<in> reach_set table p"
  unfolding waits_for_def using owner_pending_reach by blast

lemma rtranclp_waits: "(pursues ord table)\<^sup>*\<^sup>* p q \<Longrightarrow> (waits_for ord table)\<^sup>*\<^sup>* p q"
  by (rule rtranclp_mono [THEN predicate2D]) (auto intro: pursues_waits_for)

lemma tranclp_waits: "(pursues ord table)\<^sup>+\<^sup>+ p q \<Longrightarrow> (waits_for ord table)\<^sup>+\<^sup>+ p q"
  by (induction rule: tranclp_induct) (auto intro: pursues_waits_for tranclp.intros)

definition none_busy :: "lhb \<Rightarrow> bool" where
  "none_busy table \<longleftrightarrow> list_all (\<lambda>x. \<not> own_signaled (snd x) \<and> own_blocks (snd x) = []) (lhb_owners table)"

lemma none_busy_meets:
  assumes "none_busy table"
  shows "\<not> meets_busy ord table p"
proof -
  have "\<not> own_signaled (owner_of table i) \<and> own_blocks (owner_of table i) = []" for i
    using owner_of_cases [of table i] assms by (auto simp: none_busy_def list_all_iff no_owner_def)
  then have "pursue table b \<noteq> Busy" for b
    by (simp add: pursue_def Let_def split: option.splits)
  then show ?thesis unfolding meets_busy_def by (metis imageE)
qed

text \<open>C5. The deadlock scan always ends. A victim it names is on a cycle of requests each of which waits
  for the next, and the request that was scanned leads to that cycle. When it names none and marks
  the owner as scanned, or no owner was busy with its blocking routine, no such cycle exists.\<close>

theorem deadlock_scan_correct:
  "\<exists>victim marked. deadlock_scan ord table p = Some (victim, marked) \<and>
    (\<forall>v. victim = Some v \<longrightarrow> (waits_for ord table)\<^sup>*\<^sup>* p v \<and> (waits_for ord table)\<^sup>+\<^sup>+ v v) \<and>
    (victim = None \<and> (marked \<or> none_busy table) \<longrightarrow>
      (\<forall>v. (waits_for ord table)\<^sup>*\<^sup>* p v \<longrightarrow> \<not> (waits_for ord table)\<^sup>+\<^sup>+ v v))"
proof -
  let ?st = "\<lparr>on_path = {}, scanned = {}, maybe_deadlock = False\<rparr>"
  have "walk_pre ord table (reach_set table p) (length (lhb_owners table) + 2) p ?st"
    using reach_set_card(2) [of table p]
    by (simp add: walk_pre_def marks_ok_def exhausted_def) (simp add: reach_set_def)
  then have "search_ok ord table p ?st (\<lambda>st'. p \<in> scanned st')
      (deadlock_walk (length (lhb_owners table) + 2) ord table p ?st)"
    by (rule deadlock_walk_spec [OF reach_set_card(1), rotated]) (rule waits_for_reach [OF pursues_waits_for])
  then show ?thesis
  proof (cases rule: search_okE)
    case (1 q st')
    then show ?thesis
      using rtranclp_waits [OF 1(2)] tranclp_waits [OF 1(3)] by (auto simp: deadlock_scan_def)
  next
    case (2 st')
    have "exhausted (waits_for ord table) (scanned st')" if "\<not> maybe_deadlock st' \<or> none_busy table"
    proof (rule exhausted_cong)
      show "exhausted (pursues ord table) (scanned st')" using 2(3) by (simp add: marks_ok_def)
      fix d q assume "d \<in> scanned st'"
      then have "\<not> meets_busy ord table d" using that 2(3) none_busy_meets [of table ord d]
        unfolding marks_ok_def by blast
      then show "waits_for ord table d q = pursues ord table d q"
        using pursues_waits_for waits_for_pursues by blast
    qed
    then have "\<forall>v. (waits_for ord table)\<^sup>*\<^sup>* p v \<longrightarrow> \<not> (waits_for ord table)\<^sup>+\<^sup>+ v v"
      if "\<not> maybe_deadlock st' \<or> none_busy table"
      using exhausted_no_cycle [OF _ 2(4)] that by blast
    then show ?thesis using 2(1) by (auto simp: deadlock_scan_def)
  qed
qed

text \<open>Two owners, each of which holds the lock that the other one waits for.\<close>

definition two_locks :: lhb where
  "two_locks =
     \<lparr>lhb_locks = (\<lambda>i.
        \<lparr>lbl_state = LCK_EX,
         lbl_requests = (if i = 1 then [req 1 6 6 False, req 2 6 0 True]
           else [(req 2 6 6 False)\<lparr>lrq_id := 3\<rparr>, (req 1 6 0 True)\<lparr>lrq_id := 4\<rparr>]),
         lbl_pending_lrq_count = 1, lbl_counts = [0, 0, 0, 0, 0, 0, 1]\<rparr>),
      lhb_owners = [(10, no_owner\<lparr>own_pending_request := Some (2, 4)\<rparr>),
        (20, no_owner\<lparr>own_pending_request := Some (1, 2)\<rparr>)]\<rparr>"

lemma two_locks_scan: "deadlock_scan True two_locks (1, 2) = Some (Some (1, 2), False)"
proof -
  have "COMPATIBLE 6 6 = False" by (simp add: compat_iff)
  then show ?thesis
    by (simp add: deadlock_scan_def two_locks_def request_of_def pursue_def owner_of_def no_owner_def
        deadlock_walk.simps eval_nat_numeral)
qed

theorem deadlock_scan_correct_witness: "(waits_for True two_locks)\<^sup>+\<^sup>+ (1, 2) (1, 2)"
  using deadlock_scan_correct [of True two_locks "(1, 2)"] two_locks_scan by simp

text \<open>A table of one lock with two requests whose owners wait for them.\<close>

definition stalled_table :: "lbl \<Rightarrow> lrq \<Rightarrow> lrq \<Rightarrow> lhb" where
  "stalled_table lock a b =
     \<lparr>lhb_locks = (\<lambda>i. lock),
      lhb_owners = [(lrq_owner a, no_owner\<lparr>own_pending_request := Some (1, lrq_id a)\<rparr>),
        (lrq_owner b, no_owner\<lparr>own_pending_request := Some (1, lrq_id b)\<rparr>)]\<rparr>"

text \<open>C35. With lock ordering a conversion that nothing stands in the way of can be left waiting:
  \<open>post_pending\<close> stops at the first request that is blocked, and a request that was granted a null lock
  behind a waiting one and then converted waits behind it. In the lock below \<open>b\<close> could be granted,
  \<open>a\<close> is blocked by \<open>b\<close> alone, and \<open>post_pending\<close> changes nothing. The deadlock scan of either finds
  no cycle and marks its owner as scanned.\<close>

theorem lock_conversion_stalls:
  "\<exists>lock a b. lock_reachable True (Some lock) \<and> lbl_requests lock = [a, b] \<and>
     lrq_pending a \<and> lrq_pending b \<and> lrq_state b = LCK_SR \<and> lrq_requested b = LCK_PW \<and>
     \<not> COMPATIBLE (lrq_requested a) (lrq_state b) \<and> COMPATIBLE (lrq_requested b) (lrq_state a) \<and>
     post_pending True lock = lock \<and> validate_lock True lock \<and>
     deadlock_scan True (stalled_table lock a b) (1, lrq_id a) = Some (None, True) \<and>
     deadlock_scan True (stalled_table lock a b) (1, lrq_id b) = Some (None, True)"
proof -
  let ?l3 = "\<lparr>lbl_state = 3, lbl_requests = [req 1 3 3 False, req 2 6 0 True, req 3 1 1 False],
      lbl_pending_lrq_count = 1, lbl_counts = [0, 1, 0, 1, 0, 0, 0]\<rparr>"
  let ?l4 = "\<lparr>lbl_state = 3, lbl_requests = [req 1 3 3 False, req 2 6 0 True, req 3 2 2 False],
      lbl_pending_lrq_count = 1, lbl_counts = [0, 0, 1, 1, 0, 0, 0]\<rparr>"
  let ?l5 = "\<lparr>lbl_state = 3, lbl_requests = [req 1 3 3 False, req 2 6 0 True, req 3 5 2 True],
      lbl_pending_lrq_count = 2, lbl_counts = [0, 0, 1, 1, 0, 0, 0]\<rparr>"
  let ?l6 = "\<lparr>lbl_state = 2, lbl_requests = [req 2 6 0 True, req 3 5 2 True],
      lbl_pending_lrq_count = 2, lbl_counts = [0, 0, 1, 0, 0, 0, 0]\<rparr>"
  have "LOCK_enq True 3 30 1 1 (Some holder_and_waiter) = (Granted, Some ?l3)"
    by (simp add: lock_defs holder_and_waiter_def)
  from enq_step [OF this holder_and_waiter_reachable] have r3: "lock_reachable True (Some ?l3)"
    by (simp add: holder_and_waiter_def)
  have "convert True (req 3 1 1 False) 2 1 ?l3 = (Granted, ?l4)"
    by (simp add: lock_defs)
  from convert_step [OF this r3] have r4: "lock_reachable True (Some ?l4)" by (simp add: idle_def)
  have "convert True (req 3 2 2 False) 5 1 ?l4 = (Waiting, ?l5)"
    by (simp add: lock_defs)
  from convert_step [OF this r4] have r5: "lock_reachable True (Some ?l5)" by (simp add: idle_def)
  have "release_request True (req 1 3 3 False) ?l5 = Some ?l6"
    by (simp add: lock_defs)
  from deq_step [OF this r5] have "lock_reachable True (Some ?l6)" by simp
  moreover have "post_pending True ?l6 = ?l6" by (simp add: lock_defs)
  moreover have "validate_lock True ?l6" by (simp add: validate_lock_def all_levels del: lck_levels) (simp add: lck_levels)
  moreover have
    "deadlock_scan True (stalled_table ?l6 (req 2 6 0 True) (req 3 5 2 True)) (1, 2) = Some (None, True)"
    "deadlock_scan True (stalled_table ?l6 (req 2 6 0 True) (req 3 5 2 True)) (1, 3) = Some (None, True)"
    by (simp_all add: deadlock_scan_def stalled_table_def request_of_def pursue_def owner_of_def
        no_owner_def deadlock_walk.simps eval_nat_numeral)
  ultimately show ?thesis
    by (intro exI [of _ ?l6] exI [of _ "req 2 6 0 True"] exI [of _ "req 3 5 2 True"]) simp
qed


end
