(* ===== verification/Gds_Dates.thy ===== *)
theory Gds_Dates
  imports Fb_Prelude "HOL-Library.Signed_Division"
begin

text \<open>
  \<open>jrd/gds.cpp\<close>: dates and times between the engine's form (a number of days since 17 November 1858, a
  number of ten-thousandths of a second since midnight) and the C structure \<open>tm\<close>. The division of C
  truncates (\<open>sdiv\<close>); the fields of \<open>tm\<close> are converted to \<open>SSHORT\<close> where the code does. The intermediate
  values of \<open>ndate\<close> and \<open>nday\<close> fit the 32 bits of \<open>SLONG\<close> (and \<open>SINT64\<close>) for the days used here, at most
  11289324, the last day of the year 32767.
\<close>

section \<open>Days\<close>

record tm =
  tm_sec :: int
  tm_min :: int
  tm_hour :: int
  tm_mday :: int
  tm_mon :: int
  tm_year :: int
  tm_wday :: int
  tm_yday :: int

definition tm_zero :: tm where
  "tm_zero = \<lparr>tm_sec = 0, tm_min = 0, tm_hour = 0, tm_mday = 0, tm_mon = 0, tm_year = 0,
     tm_wday = 0, tm_yday = 0\<rparr>"

definition month_days :: "int list" where
  "month_days = [31, 28, 31, 30, 31, 30, 31, 31, 30, 31, 30, 31]"

definition yday :: "tm \<Rightarrow> int" where
  "yday tms =
     (let day = sshort (tm_mday tms) - 1;
          month = sshort (tm_mon tms);
          year = sshort (tm_year tms + 1900);
          day = day + sum_list (take (nat month) month_days) in
      if month < 2 then day
      else
        let day = (if year smod 4 = 0 then day + 1 else day);
            day = (if year smod 100 = 0 then day - 1 else day);
            day = (if year smod 400 = 0 then day + 1 else day)
        in day)"

definition ndate :: "int \<Rightarrow> tm \<Rightarrow> tm" where
  "ndate nday tms =
     (let nday = nday - (1721119 - 2400001);
          century = (4 * nday - 1) sdiv 146097;
          nday = 4 * nday - 1 - 146097 * century;
          day = nday sdiv 4;
          nday = (4 * day + 3) sdiv 1461;
          day = 4 * day + 3 - 1461 * nday;
          day = (day + 4) sdiv 4;
          month = (5 * day - 3) sdiv 153;
          day = 5 * day - 3 - 153 * month;
          day = (day + 5) sdiv 5;
          year = 100 * century + nday;
          (month, year) = (if month < 10 then (month + 3, year) else (month - 9, year + 1))
      in tms\<lparr>tm_mday := day, tm_mon := month - 1, tm_year := year - 1900\<rparr>)"

definition nday :: "tm \<Rightarrow> int" where
  "nday tms =
     (let day = sshort (tm_mday tms);
          month = sshort (tm_mon tms + 1);
          year = sshort (tm_year tms + 1900);
          (month, year) = (if 2 < month then (month - 3, year) else (month + 9, sshort (year - 1)));
          c = year sdiv 100;
          ya = year - 100 * c
      in (146097 * c) sdiv 4 + (1461 * ya) sdiv 4 + (153 * month + 2) sdiv 5 + day + 1721119 - 2400001)"

definition isc_decode_sql_date :: "int \<Rightarrow> tm" where
  "isc_decode_sql_date date =
     (let tms = ndate date tm_zero;
          tms = tms\<lparr>tm_yday := yday tms\<rparr>;
          tms = tms\<lparr>tm_wday := (date + 3) smod 7\<rparr>
      in if tm_wday tms < 0 then tms\<lparr>tm_wday := tm_wday tms + 7\<rparr> else tms)"

definition isc_encode_sql_date :: "tm \<Rightarrow> int" where
  "isc_encode_sql_date tms = nday tms"

section \<open>Times\<close>

definition ISC_TIME_SECONDS_PRECISION :: nat where
  "ISC_TIME_SECONDS_PRECISION = 10000"

definition isc_decode_sql_time :: "nat \<Rightarrow> tm" where
  "isc_decode_sql_time sql_time =
     (let minutes = sql_time div (ISC_TIME_SECONDS_PRECISION * 60) in
      tm_zero\<lparr>tm_hour := int (minutes div 60), tm_min := int (minutes mod 60),
        tm_sec := int ((sql_time div ISC_TIME_SECONDS_PRECISION) mod 60)\<rparr>)"

definition isc_encode_sql_time :: "tm \<Rightarrow> nat" where
  "isc_encode_sql_time tms =
     nat (((tm_hour tms * 60 + tm_min tms) * 60 + tm_sec tms) * int ISC_TIME_SECONDS_PRECISION)"

record gds_timestamp =
  timestamp_date :: int
  timestamp_time :: nat

definition isc_decode_timestamp :: "gds_timestamp \<Rightarrow> tm" where
  "isc_decode_timestamp date =
     (let tms = ndate (timestamp_date date) tm_zero;
          tms = tms\<lparr>tm_yday := yday tms\<rparr>;
          tms = tms\<lparr>tm_wday := (timestamp_date date + 3) smod 7\<rparr>;
          tms = (if tm_wday tms < 0 then tms\<lparr>tm_wday := tm_wday tms + 7\<rparr> else tms);
          minutes = timestamp_time date div (ISC_TIME_SECONDS_PRECISION * 60)
      in tms\<lparr>tm_hour := int (minutes div 60), tm_min := int (minutes mod 60),
        tm_sec := int ((timestamp_time date div ISC_TIME_SECONDS_PRECISION) mod 60)\<rparr>)"

definition isc_encode_timestamp :: "tm \<Rightarrow> gds_timestamp" where
  "isc_encode_timestamp tms =
     \<lparr>timestamp_date = nday tms,
      timestamp_time =
        nat (((tm_hour tms * 60 + tm_min tms) * 60 + tm_sec tms) * int ISC_TIME_SECONDS_PRECISION)\<rparr>"

section \<open>The calendar\<close>

definition leap :: "int \<Rightarrow> bool" where
  "leap year \<longleftrightarrow> year mod 4 = 0 \<and> (year mod 100 \<noteq> 0 \<or> year mod 400 = 0)"

definition days_in_month :: "int \<Rightarrow> int \<Rightarrow> int" where
  "days_in_month year mon = (if mon = 1 \<and> leap year then 29 else month_days ! nat mon)"

text \<open>A date of the proleptic Gregorian calendar from 1 March of the year 0 on, in a year that fits an \<open>SSHORT\<close>.\<close>

definition valid_date :: "tm \<Rightarrow> bool" where
  "valid_date t \<longleftrightarrow>
     0 \<le> tm_mon t \<and> tm_mon t < 12 \<and> 0 \<le> tm_year t + 1900 \<and> tm_year t + 1900 < 32768 \<and>
     (tm_year t + 1900 = 0 \<longrightarrow> 2 \<le> tm_mon t) \<and>
     1 \<le> tm_mday t \<and> tm_mday t \<le> days_in_month (tm_year t + 1900) (tm_mon t)"

text \<open>The month counted from March, and the year that begins with March.\<close>

definition march_month :: "tm \<Rightarrow> int" where
  "march_month t = (if 2 \<le> tm_mon t then tm_mon t - 2 else tm_mon t + 10)"

definition march_year :: "tm \<Rightarrow> int" where
  "march_year t = (if 2 \<le> tm_mon t then tm_year t + 1900 else tm_year t + 1899)"

text \<open>The first day of a year that begins with March, and the first day of a month in it.\<close>

definition era_days :: "int \<Rightarrow> int" where
  "era_days c = (146097 * c) div 4"

definition span_days :: "int \<Rightarrow> int" where
  "span_days y = (1461 * y) div 4"

definition year_start :: "int \<Rightarrow> int" where
  "year_start y = era_days (y div 100) + span_days (y mod 100)"

definition month_start :: "int \<Rightarrow> int" where
  "month_start m = (153 * m + 2) div 5"


lemma sdiv_pos: "0 \<le> a \<Longrightarrow> 0 < b \<Longrightarrow> a sdiv b = a div b" for a b :: int
  by (simp add: signed_divide_int_def sgn_if)

lemma smod_zero: "0 \<le> a \<Longrightarrow> 0 < b \<Longrightarrow> a smod b = a mod b" for a b :: int
  by (cases "a = 0") (simp_all add: signed_modulo_int_def sgn_if)

lemma smod_7: "(if a smod 7 < 0 then a smod 7 + 7 else a smod 7) = a mod 7" for a :: int
proof (cases "0 \<le> a")
  case True
  then show ?thesis by (simp add: smod_zero)
next
  case False
  then have "a smod 7 = - ((- a) mod 7)" by (simp add: signed_modulo_int_def)
  moreover have "a mod 7 = (if (- a) mod 7 = 0 then 0 else 7 - (- a) mod 7)"
    using zmod_zminus1_eq_if [of "- a" 7] by simp
  moreover have "0 \<le> (- a) mod 7" by simp
  ultimately show ?thesis by (auto split: if_splits)
qed

lemma twelve_months:
  "0 \<le> m \<Longrightarrow> m < 12 \<Longrightarrow> m = 0 \<or> m = 1 \<or> m = 2 \<or> m = 3 \<or> m = 4 \<or> m = 5 \<or> m = 6 \<or> m = 7 \<or> m = 8 \<or>
   m = 9 \<or> m = 10 \<or> m = (11 :: int)"
  by presburger

lemma valid_bounds:
  assumes "valid_date t"
  shows "1 \<le> tm_mday t" "tm_mday t \<le> 31" "0 \<le> march_month t" "march_month t < 12" "0 \<le> march_year t"
    "march_year t < 32768"
proof -
  have m: "0 \<le> tm_mon t" "tm_mon t < 12" using assms by (auto simp: valid_date_def)
  have "days_in_month (tm_year t + 1900) (tm_mon t) \<le> 31"
    using twelve_months [OF m] by (elim disjE) (simp_all add: days_in_month_def month_days_def)
  then show "1 \<le> tm_mday t" "tm_mday t \<le> 31" "0 \<le> march_month t" "march_month t < 12" "0 \<le> march_year t"
    "march_year t < 32768"
    using assms by (auto simp: valid_date_def march_month_def march_year_def)
qed

lemma nday_march:
  assumes "valid_date t"
  shows "nday t = year_start (march_year t) + month_start (march_month t) + tm_mday t - 678882"
proof -
  note b = valid_bounds [OF assms]
  have v: "0 \<le> tm_mon t" "tm_mon t < 12" "0 \<le> tm_year t + 1900" "tm_year t + 1900 < 32768"
    using assms by (auto simp: valid_date_def)
  have s: "sshort (tm_mday t) = tm_mday t" "sshort (tm_mon t + 1) = tm_mon t + 1"
    "sshort (tm_year t + 1900) = tm_year t + 1900" "sshort (tm_year t + 1899) = tm_year t + 1899"
    using b v by (simp_all add: sshort_id)
  have d: "march_year t sdiv 100 = march_year t div 100" using b by (simp add: sdiv_pos)
  have r: "march_year t - 100 * (march_year t div 100) = march_year t mod 100"
    by (simp add: minus_mult_div_eq_mod)
  have e: "tm_mon t + 1 - 3 = tm_mon t - 2" "tm_mon t + 1 + 9 = tm_mon t + 10"
    "tm_year t + 1900 - 1 = tm_year t + 1899" by simp_all
  have "nday t = (146097 * (march_year t sdiv 100)) sdiv 4 +
      (1461 * (march_year t - 100 * (march_year t sdiv 100))) sdiv 4 +
      (153 * march_month t + 2) sdiv 5 + tm_mday t + 1721119 - 2400001"
  proof (cases "2 \<le> tm_mon t")
    case True
    then have "(2 < tm_mon t + 1) = True" by simp
    then show ?thesis
      by (simp only: nday_def Let_def march_month_def march_year_def s e True if_True prod.case)
  next
    case False
    then have "(2 < tm_mon t + 1) = False" by simp
    then show ?thesis
      by (simp only: nday_def Let_def march_month_def march_year_def s e False if_False prod.case)
  qed
  moreover have "(146097 * (march_year t div 100)) sdiv 4 = era_days (march_year t div 100)"
    unfolding era_days_def by (rule sdiv_pos) (use b in simp_all)
  moreover have "(1461 * (march_year t mod 100)) sdiv 4 = span_days (march_year t mod 100)"
    unfolding span_days_def by (rule sdiv_pos) simp_all
  moreover have "(153 * march_month t + 2) sdiv 5 = month_start (march_month t)"
    unfolding month_start_def by (rule sdiv_pos) (use b in simp_all)
  ultimately have "nday t = era_days (march_year t div 100) + span_days (march_year t mod 100) +
      month_start (march_month t) + tm_mday t + 1721119 - 2400001"
    by (simp only: d r)
  then show ?thesis by (simp add: year_start_def)
qed

lemma era_days_step:
  assumes "0 \<le> q" "q < 4"
  shows "era_days (4 * c + q + 1) = era_days (4 * c + q) + (if q = 3 then 36525 else 36524)"
proof -
  have k: "era_days (4 * c + k) = 146097 * c + era_days k" for k
  proof -
    have "146097 * (4 * c + k) = 146097 * k + 4 * (146097 * c)" by simp
    then show ?thesis by (simp add: era_days_def)
  qed
  have "q = 0 \<or> q = 1 \<or> q = 2 \<or> q = 3" using assms by linarith
  then have "era_days (q + 1) = era_days q + (if q = 3 then 36525 else 36524)"
    by (elim disjE) (simp_all add: era_days_def)
  then show ?thesis using k [of q] k [of "q + 1"] by (simp add: add.assoc)
qed

lemma span_days_step: "span_days (s + 1) = span_days s + (if (s + 1) mod 4 = 0 then 366 else 365)"
proof -
  have k: "span_days k = 365 * k + k div 4" for k
  proof -
    have "1461 * k = k + 4 * (365 * k)" by simp
    then show ?thesis by (simp add: span_days_def)
  qed
  have "(s + 1) div 4 = s div 4 + (if (s + 1) mod 4 = 0 then 1 else 0)" by presburger
  then show ?thesis unfolding k by simp
qed

text \<open>The days of a year that begins with March.\<close>

lemma year_length: "year_start (y + 1) - year_start y = (if leap (y + 1) then 366 else 365)"
proof -
  obtain c r where c: "c = y div 400" and r: "r = y mod 400" by simp
  have y: "y = 400 * c + r" "0 \<le> r" "r < 400" unfolding c r by simp_all
  define q where "q = r div 100"
  define s where "s = r mod 100"
  have rs: "r = 100 * q + s" "0 \<le> s" "s < 100" "0 \<le> q" "q < 4" using y(2,3) by (auto simp: q_def s_def)
  have hundred: "y' div 100 = k \<and> y' mod 100 = u" if "y' = 100 * k + u" "0 \<le> u" "u < 100" for y' k u :: int
    using int_div_pos_eq [OF that] int_mod_pos_eq [OF that] by simp
  have yc: "y div 100 = 4 * c + q" "y mod 100 = s" using hundred [of y "4 * c + q" s] y(1) rs by simp_all
  show ?thesis
  proof (cases "s = 99")
    case True
    then have n: "(y + 1) div 100 = 4 * c + q + 1" "(y + 1) mod 100 = 0"
      using hundred [of "y + 1" "4 * c + q + 1" 0] y(1) rs by simp_all
    have l: "leap (y + 1) \<longleftrightarrow> q = 3"
    proof -
      have e: "y + 1 = 100 * (4 * c + q + 1)" using y(1) rs True by simp
      have "(y + 1) mod 400 = 100 * ((4 * c + q + 1) mod 4)"
        unfolding e using mult_mod_right [of 100 "4 * c + q + 1" 4] by simp
      moreover have "(4 * c + q + 1) mod 4 = (q + 1) mod 4"
        by (metis add.assoc mod_mult_self4)
      moreover have "(y + 1) mod 4 = 0" unfolding e by simp
      moreover have "(q + 1) mod 4 = 0 \<longleftrightarrow> q = 3" using rs(4,5) by presburger
      moreover have "(y + 1) mod 100 = 0" unfolding e by simp
      ultimately show ?thesis by (simp add: leap_def)
    qed
    have sp: "span_days 99 = 36159" "span_days 0 = 0" by (simp_all add: span_days_def)
    show ?thesis unfolding year_start_def yc n True sp era_days_step [OF rs(4,5)] l by simp
  next
    case False
    then have n: "(y + 1) div 100 = 4 * c + q" "(y + 1) mod 100 = s + 1"
      using hundred [of "y + 1" "4 * c + q" "s + 1"] y(1) rs by simp_all
    have l: "leap (y + 1) \<longleftrightarrow> (s + 1) mod 4 = 0"
    proof -
      have "y + 1 = (s + 1) + 4 * (100 * c + 25 * q)" using y(1) rs by simp
      then have "(y + 1) mod 4 = (s + 1) mod 4" by (metis mod_mult_self2)
      then show ?thesis
        using n(2) rs(2) by (simp add: leap_def)
    qed
    show ?thesis unfolding year_start_def yc n span_days_step l by simp
  qed
qed

text \<open>A date lies in its year and in its month.\<close>

lemma month_room:
  assumes "valid_date t"
  shows "month_start (march_month t) + tm_mday t \<le> year_start (march_year t + 1) - year_start (march_year t)"
    and "march_month t < 11 \<Longrightarrow>
      month_start (march_month t) + tm_mday t \<le> month_start (march_month t + 1)"
proof -
  have m: "0 \<le> tm_mon t" "tm_mon t < 12"
    and d: "tm_mday t \<le> days_in_month (tm_year t + 1900) (tm_mon t)"
    using assms by (auto simp: valid_date_def)
  show "march_month t < 11 \<Longrightarrow>
      month_start (march_month t) + tm_mday t \<le> month_start (march_month t + 1)"
    using twelve_months [OF m] d
    by (elim disjE) (simp_all add: march_month_def month_start_def days_in_month_def month_days_def)
  show "month_start (march_month t) + tm_mday t \<le> year_start (march_year t + 1) - year_start (march_year t)"
    using twelve_months [OF m] d unfolding year_length
    by (elim disjE)
      (simp_all add: march_month_def march_year_def month_start_def days_in_month_def month_days_def
        algebra_simps split: if_splits)
qed


section \<open>Encoding, then decoding\<close>

text \<open>A floor division split at its quotient.\<close>

lemma sdiv_eq: "a = b * q + r \<Longrightarrow> 0 \<le> r \<Longrightarrow> r < b \<Longrightarrow> 0 \<le> q \<Longrightarrow> a sdiv b = q" for a b q r :: int
  using int_div_pos_eq [of a b q r] sdiv_pos [of a b] by simp

lemma month_start_split:
  obtains g where "5 * month_start m = 153 * m + 2 - g" "0 \<le> g" "g < 5"
proof
  show "5 * month_start m = 153 * m + 2 - (153 * m + 2) mod 5"
    unfolding month_start_def by (simp add: minus_mod_eq_mult_div)
qed simp_all

lemma era_days_split:
  obtains a where "4 * era_days c = 146097 * c - a" "0 \<le> a" "a < 4"
proof
  show "4 * era_days c = 146097 * c - (146097 * c) mod 4"
    unfolding era_days_def by (simp add: minus_mod_eq_mult_div)
qed simp_all

lemma span_days_split:
  obtains b where "4 * span_days y = 1461 * y - b" "b = y mod 4" "0 \<le> b" "b < 4"
proof
  have "1461 * y = y + 4 * (365 * y)" by simp
  then have "(1461 * y) mod 4 = y mod 4" by (metis mod_mult_self2)
  then show "4 * span_days y = 1461 * y - y mod 4"
    unfolding span_days_def by (metis minus_mod_eq_mult_div)
qed simp_all

lemma year_start_Suc: "year_start y + 365 \<le> year_start (y + 1)"
  using year_length [of y] by (simp split: if_splits)

lemma year_start_mono: "y \<le> z \<Longrightarrow> year_start y \<le> year_start z"
proof (induction z rule: int_ge_induct)
  case (step z)
  then show ?case using year_start_Suc [of z] by simp
qed simp

lemma month_start_pos: "0 \<le> m \<Longrightarrow> 0 \<le> month_start m"
  by (simp add: month_start_def)

text \<open>The steps of \<open>ndate\<close> for the date that begins with the year \<open>y\<close>, month \<open>m\<close> and day \<open>d\<close> counted from March.\<close>

lemma ndate_steps:
  assumes y: "0 \<le> y" and m: "0 \<le> m" "m < 12" and d: "1 \<le> d" "d \<le> 31" "m = 11 \<Longrightarrow> d \<le> 29"
    and yr: "month_start m + d \<le> year_start (y + 1) - year_start y"
    and mr: "m < 11 \<Longrightarrow> month_start m + d \<le> month_start (m + 1)"
  shows "ndate (year_start y + month_start m + d - 678882) tms =
    tms\<lparr>tm_mday := d, tm_mon := (if m < 10 then m + 3 else m - 9) - 1,
      tm_year := (if m < 10 then y else y + 1) - 1900\<rparr>"
proof -
  define c where "c = y div 100"
  define ya where "ya = y mod 100"
  define e where "e = month_start m + d"
  have yc: "y = 100 * c + ya" "0 \<le> ya" "ya < 100" "0 \<le> c" using y by (simp_all add: c_def ya_def)
  obtain a where a: "4 * era_days c = 146097 * c - a" "0 \<le> a" "a < 4" by (rule era_days_split)
  obtain a' where a': "4 * era_days (c + 1) = 146097 * (c + 1) - a'" "0 \<le> a'" "a' < 4" by (rule era_days_split)
  obtain b where b: "4 * span_days ya = 1461 * ya - b" "b = ya mod 4" "0 \<le> b" "b < 4" by (rule span_days_split)
  obtain b' where b': "4 * span_days (ya + 1) = 1461 * (ya + 1) - b'" "0 \<le> b'" "b' < 4" by (rule span_days_split)
  obtain g where g: "5 * month_start m = 153 * m + 2 - g" "0 \<le> g" "g < 5" by (rule month_start_split)
  obtain g' where g': "5 * month_start (m + 1) = 153 * (m + 1) + 2 - g'" "0 \<le> g'" "g' < 5" by (rule month_start_split)
  have ys: "year_start y = era_days c + span_days ya" by (simp add: year_start_def c_def ya_def)
  have e1: "1 \<le> e" using d(1) month_start_pos [OF m(1)] by (simp add: e_def)
  have sp: "0 \<le> span_days ya" using yc(2) by (simp add: span_days_def)
  have last: "year_start (y + 1) \<le> era_days (c + 1)"
  proof -
    have "year_start (100 * (c + 1)) = era_days (c + 1)" by (simp add: year_start_def span_days_def)
    moreover have "y + 1 \<le> 100 * (c + 1)" using yc by simp
    ultimately show ?thesis using year_start_mono by metis
  qed
  define k where "k = span_days ya + e"
  have k1: "1 \<le> k" using e1 sp by (simp add: k_def)
  have "k \<le> era_days (c + 1) - era_days c" using yr last ys by (simp add: k_def e_def)
  then have "4 * k \<le> 4 * era_days (c + 1) - 4 * era_days c" by simp
  then have k2: "4 * k \<le> 146097 + a - a'" unfolding a(1) a'(1) by simp
  note k = k1 k2
  let ?n = "year_start y + month_start m + d"
  have n: "?n = era_days c + k" by (simp add: ys k_def e_def)
  have n4: "4 * ?n = 146097 * c - a + 4 * k" unfolding n using a(1) by simp
  have century: "(4 * ?n - 1) sdiv 146097 = c"
  proof (rule sdiv_eq [of _ _ _ "4 * k - 1 - a"])
    show "4 * ?n - 1 = 146097 * c + (4 * k - 1 - a)" unfolding n4 by simp
  qed (use a' a k yc(4) in simp_all)
  have rest: "4 * ?n - 1 - 146097 * c = 4 * k - 1 - a" unfolding n4 by simp
  have day1: "(4 * k - 1 - a) sdiv 4 = k - 1"
    by (rule sdiv_eq [of _ _ _ "3 - a"]) (use a k in simp_all)
  have el: "4 * e - 1 - b < 1461"
  proof (cases "ya = 99")
    case True
    then have "b = 3" using b(2) by simp
    moreover have "e \<le> 366" using yr year_length [of y] by (simp add: e_def split: if_splits)
    ultimately show ?thesis by simp
  next
    case False
    then have "year_start (y + 1) = era_days c + span_days (ya + 1)"
      using int_div_pos_eq [of "y + 1" 100 c "ya + 1"] int_mod_pos_eq [of "y + 1" 100 c "ya + 1"] yc
      by (simp add: year_start_def)
    then have "e \<le> span_days (ya + 1) - span_days ya" using yr ys by (simp add: e_def)
    then have "4 * e \<le> 4 * span_days (ya + 1) - 4 * span_days ya" by simp
    then have "4 * e \<le> 1461 + b - b'" unfolding b(1) b'(1) by simp
    then show ?thesis using b'(2) by simp
  qed
  have year: "(4 * (k - 1) + 3) sdiv 1461 = ya"
    by (rule sdiv_eq [of _ _ _ "4 * e - 1 - b"]) (use b e1 yc el in \<open>simp_all add: k_def\<close>)
  have rest2: "4 * (k - 1) + 3 - 1461 * ya = 4 * e - 1 - b" using b by (simp add: k_def)
  have day2: "(4 * e - 1 - b + 4) sdiv 4 = e"
    by (rule sdiv_eq [of _ _ _ "3 - b"]) (use b e1 in simp_all)
  have ml: "5 * d - 1 - g < 153"
  proof (cases "m = 11")
    case False
    then have "d \<le> month_start (m + 1) - month_start m" using mr m(2) by simp
    then have "5 * d \<le> 5 * month_start (m + 1) - 5 * month_start m" by simp
    then have "5 * d \<le> 153 + g - g'" unfolding g(1) g'(1) by simp
    then show ?thesis using g'(2) by simp
  qed (use d(3) g in simp)
  have month: "(5 * e - 3) sdiv 153 = m"
    by (rule sdiv_eq [of _ _ _ "5 * d - 1 - g"]) (use g d m ml in \<open>simp_all add: e_def\<close>)
  have rest3: "5 * e - 3 - 153 * m = 5 * d - 1 - g" using g by (simp add: e_def)
  have day3: "(5 * d - 1 - g + 5) sdiv 5 = d"
    by (rule sdiv_eq [of _ _ _ "4 - g"]) (use g d in simp_all)
  have n0: "?n - 678882 - (1721119 - 2400001) = ?n" by simp
  have y2: "100 * c + ya = y" using yc by simp
  show ?thesis
    unfolding ndate_def Let_def n0 century rest day1 year rest2 day2 month rest3 day3 y2
    by (simp only: prod.case if_distrib split: if_split) simp
qed


lemma ndate_nday:
  assumes "valid_date t"
  shows "ndate (nday t) tms = tms\<lparr>tm_mday := tm_mday t, tm_mon := tm_mon t, tm_year := tm_year t\<rparr>"
proof -
  note b = valid_bounds [OF assms]
  have mon: "0 \<le> tm_mon t" "tm_mon t < 12" using assms by (auto simp: valid_date_def)
  have feb: "tm_mday t \<le> 29" if "march_month t = 11"
  proof -
    have "tm_mon t = 1" using that mon by (simp add: march_month_def split: if_splits)
    then show ?thesis using assms by (auto simp: valid_date_def days_in_month_def month_days_def split: if_splits)
  qed
  have "(if march_month t < 10 then march_month t + 3 else march_month t - 9) - 1 = tm_mon t"
    "(if march_month t < 10 then march_year t else march_year t + 1) - 1900 = tm_year t"
    using mon by (auto simp: march_month_def march_year_def)
  then show ?thesis
    unfolding nday_march [OF assms]
    using ndate_steps [OF b(5,3,4,1,2) feb month_room(1) [OF assms] month_room(2) [OF assms], of tms]
    by simp
qed

text \<open>The day of the year, counted from 0, by the lengths of the months before.\<close>

definition day_of_year :: "tm \<Rightarrow> int" where
  "day_of_year t =
     sum_list (map (\<lambda>m. days_in_month (tm_year t + 1900) (int m)) [0..<nat (tm_mon t)]) + tm_mday t - 1"

lemma leap_steps:
  "(b400 \<longrightarrow> b100) \<Longrightarrow> (b100 \<longrightarrow> b4) \<Longrightarrow>
   (let day = (if b4 then day + 1 else day); day = (if b100 then day - 1 else day);
        day = (if b400 then day + 1 else day) in day) =
   (if b4 \<and> (\<not> b100 \<or> b400) then day + 1 else day)" for day :: int
  by (cases b4; cases b100; cases b400; simp)

lemma leap_smod:
  fixes y day :: int
  assumes "0 \<le> y"
  shows "(let day = (if y smod 4 = 0 then day + 1 else day);
              day = (if y smod 100 = 0 then day - 1 else day);
              day = (if y smod 400 = 0 then day + 1 else day) in day) = (if leap y then day + 1 else day)"
proof -
  have "y mod 400 = 0 \<longrightarrow> y mod 100 = 0" "y mod 100 = 0 \<longrightarrow> y mod 4 = 0"
    using mod_mod_cancel [of 4 100 y] mod_mod_cancel [of 100 400 y] by auto
  note steps = leap_steps [OF this]
  have "y smod 4 = y mod 4" "y smod 100 = y mod 100" "y smod 400 = y mod 400"
    using assms by (simp_all add: smod_zero)
  then show ?thesis unfolding leap_def by (simp only: steps)
qed

lemma yday_valid:
  assumes "valid_date t"
  shows "yday t = day_of_year t"
proof -
  note b = valid_bounds [OF assms]
  have v: "0 \<le> tm_mon t" "tm_mon t < 12" "0 \<le> tm_year t + 1900" "tm_year t + 1900 < 32768"
    using assms by (auto simp: valid_date_def)
  have s: "sshort (tm_mday t) = tm_mday t" "sshort (tm_mon t) = tm_mon t"
    "sshort (tm_year t + 1900) = tm_year t + 1900" using b v by (simp_all add: sshort_id)
  have "yday t = (if tm_mon t < 2 then tm_mday t - 1 + sum_list (take (nat (tm_mon t)) month_days)
    else if leap (tm_year t + 1900) then tm_mday t - 1 + sum_list (take (nat (tm_mon t)) month_days) + 1
    else tm_mday t - 1 + sum_list (take (nat (tm_mon t)) month_days))"
    unfolding yday_def s Let_def leap_smod [OF v(3), unfolded Let_def] ..
  also have "\<dots> = day_of_year t"
    using twelve_months [OF v(1,2)]
    by (elim disjE) (simp_all add: day_of_year_def days_in_month_def month_days_def upt_rec)
  finally show ?thesis .
qed

lemma valid_cong:
  "tm_mday t = tm_mday u \<Longrightarrow> tm_mon t = tm_mon u \<Longrightarrow> tm_year t = tm_year u \<Longrightarrow> valid_date t = valid_date u"
  "tm_mday t = tm_mday u \<Longrightarrow> tm_mon t = tm_mon u \<Longrightarrow> tm_year t = tm_year u \<Longrightarrow> nday t = nday u"
  "tm_mday t = tm_mday u \<Longrightarrow> tm_mon t = tm_mon u \<Longrightarrow> tm_year t = tm_year u \<Longrightarrow> yday t = yday u"
  by (simp_all add: valid_date_def nday_def yday_def)

lemma decode_nday:
  assumes "valid_date t"
  shows "isc_decode_sql_date (nday t) =
    tm_zero\<lparr>tm_mday := tm_mday t, tm_mon := tm_mon t, tm_year := tm_year t,
      tm_wday := (nday t + 3) mod 7, tm_yday := day_of_year t\<rparr>"
proof -
  have "yday (tm_zero\<lparr>tm_mday := tm_mday t, tm_mon := tm_mon t, tm_year := tm_year t\<rparr>) = day_of_year t"
    using yday_valid [OF assms]
      valid_cong(3) [of "tm_zero\<lparr>tm_mday := tm_mday t, tm_mon := tm_mon t, tm_year := tm_year t\<rparr>" t]
    by simp
  then show ?thesis
    using smod_7 [of "nday t + 3"]
    by (auto simp: isc_decode_sql_date_def ndate_nday [OF assms] Let_def)
qed

section \<open>Consecutive days\<close>

definition next_date :: "tm \<Rightarrow> tm" where
  "next_date t =
     (if tm_mday t < days_in_month (tm_year t + 1900) (tm_mon t) then t\<lparr>tm_mday := tm_mday t + 1\<rparr>
      else if tm_mon t < 11 then t\<lparr>tm_mday := 1, tm_mon := tm_mon t + 1\<rparr>
      else t\<lparr>tm_mday := 1, tm_mon := 0, tm_year := tm_year t + 1\<rparr>)"

lemma next_date_nday:
  assumes v: "valid_date t" and l: "\<not> (tm_year t + 1900 = 32767 \<and> tm_mon t = 11 \<and> tm_mday t = 31)"
  shows "valid_date (next_date t)" "nday (next_date t) = nday t + 1"
proof -
  have m: "0 \<le> tm_mon t" "tm_mon t < 12" and d: "tm_mday t \<le> days_in_month (tm_year t + 1900) (tm_mon t)"
    and y: "0 \<le> tm_year t + 1900" "tm_year t + 1900 < 32768" "tm_year t + 1900 = 0 \<longrightarrow> 2 \<le> tm_mon t"
    "1 \<le> tm_mday t"
    using v by (auto simp: valid_date_def)
  have dm: "1 \<le> days_in_month z k" if "0 \<le> k" "k < 12" for z k
    using twelve_months [OF that] by (elim disjE) (simp_all add: days_in_month_def month_days_def)
  have dec: "days_in_month z 11 = 31" for z by (simp add: days_in_month_def month_days_def)
  show vn: "valid_date (next_date t)"
  proof (cases "tm_mday t < days_in_month (tm_year t + 1900) (tm_mon t)")
    case True
    then show ?thesis using v by (simp add: valid_date_def next_date_def)
  next
    case False
    show ?thesis
    proof (cases "tm_mon t < 11")
      case True
      then show ?thesis
        using False m y dm [of "tm_mon t + 1"] by (auto simp: valid_date_def next_date_def)
    next
      case dec11: False
      then have "tm_mon t = 11" using m by simp
      then have "tm_mday t = 31" using False d dec by simp
      then have "tm_year t + 1901 < 32768" using l \<open>tm_mon t = 11\<close> y(2) by simp
      moreover have "tm_year t + 1900 \<noteq> -1" using y(1) by simp
      ultimately show ?thesis
        using False dec11 y(1) dm [of 0] by (simp add: valid_date_def next_date_def)
    qed
  qed
  show "nday (next_date t) = nday t + 1"
  proof (cases "tm_mday t < days_in_month (tm_year t + 1900) (tm_mon t)")
    case True
    then have "next_date t = t\<lparr>tm_mday := tm_mday t + 1\<rparr>" by (simp add: next_date_def)
    then show ?thesis
      using nday_march [OF v] nday_march [OF vn] by (simp add: march_month_def march_year_def)
  next
    case False
    then have last: "tm_mday t = days_in_month (tm_year t + 1900) (tm_mon t)" using d by simp
    have "year_start (march_year (next_date t)) + month_start (march_month (next_date t)) =
      year_start (march_year t) + month_start (march_month t) + tm_mday t"
    proof (cases "tm_mon t = 1")
      case True
      then have n: "march_month t = 11" "march_month (next_date t) = 0"
        "march_year t = tm_year t + 1899" "march_year (next_date t) = tm_year t + 1899 + 1"
        using False by (simp_all add: next_date_def march_month_def march_year_def)
      have "tm_mday t = (if leap (tm_year t + 1899 + 1) then 29 else 28)"
        using last True by (simp add: days_in_month_def month_days_def add.assoc)
      then show ?thesis
        using year_length [of "tm_year t + 1899"] unfolding n by (simp add: month_start_def split: if_splits)
    next
      case other: False
      then have "march_year (next_date t) = march_year t" "march_month (next_date t) = march_month t + 1"
        using False m by (auto simp: next_date_def march_month_def march_year_def)
      moreover have "month_start (march_month t + 1) = month_start (march_month t) + tm_mday t"
        using twelve_months [OF m] other unfolding last
        by (elim disjE) (simp_all add: march_month_def month_start_def days_in_month_def month_days_def)
      ultimately show ?thesis by simp
    qed
    moreover have "tm_mday (next_date t) = 1" using False by (simp add: next_date_def)
    ultimately show ?thesis using nday_march [OF v] nday_march [OF vn] by simp
  qed
qed

definition first_day :: int where "first_day = -678881"
definition last_day :: int where "last_day = 11289324"

lemma nday_last:
  assumes "valid_date t" "tm_year t + 1900 = 32767 \<and> tm_mon t = 11 \<and> tm_mday t = 31"
  shows "nday t = last_day"
  using assms nday_march [OF assms(1)]
  by (simp add: march_month_def march_year_def year_start_def era_days_def span_days_def month_start_def
      last_day_def)

lemma every_day:
  assumes "first_day \<le> d" "d \<le> last_day"
  shows "\<exists>t. valid_date t \<and> nday t = d"
  using assms
proof (induction d rule: int_ge_induct)
  case base
  let ?t = "tm_zero\<lparr>tm_mday := 1, tm_mon := 2, tm_year := -1900\<rparr>"
  have "valid_date ?t" by (simp add: valid_date_def days_in_month_def month_days_def)
  then show ?case
    using nday_march [of ?t]
    by (intro exI [of _ ?t])
      (simp add: march_month_def march_year_def year_start_def era_days_def span_days_def month_start_def
        first_day_def)
next
  case (step d)
  then obtain t where t: "valid_date t" "nday t = d" by auto
  have "\<not> (tm_year t + 1900 = 32767 \<and> tm_mon t = 11 \<and> tm_mday t = 31)"
    using nday_last [OF t(1)] t(2) step.prems by auto
  from next_date_nday [OF t(1) this] show ?case using t(2) by auto
qed

section \<open>Round trips\<close>

text \<open>C14. A calendar date from 1 March 0000 to 31 December 32767, encoded and decoded again, is the same
  date, with its day of the week and its day of the year.\<close>

theorem date_encode_decode:
  assumes "valid_date t"
  shows "isc_decode_sql_date (isc_encode_sql_date t) =
    tm_zero\<lparr>tm_mday := tm_mday t, tm_mon := tm_mon t, tm_year := tm_year t,
      tm_wday := (isc_encode_sql_date t + 3) mod 7, tm_yday := day_of_year t\<rparr>"
  unfolding isc_encode_sql_date_def by (rule decode_nday) (rule assms)

theorem date_encode_decode_witness:
  "isc_decode_sql_date (isc_encode_sql_date (tm_zero\<lparr>tm_mday := 29, tm_mon := 1, tm_year := 100\<rparr>)) =
    tm_zero\<lparr>tm_mday := 29, tm_mon := 1, tm_year := 100,
      tm_wday := (isc_encode_sql_date (tm_zero\<lparr>tm_mday := 29, tm_mon := 1, tm_year := 100\<rparr>) + 3) mod 7,
      tm_yday := 59\<rparr>"
  using date_encode_decode [of "tm_zero\<lparr>tm_mday := 29, tm_mon := 1, tm_year := 100\<rparr>"]
  by (simp add: valid_date_def days_in_month_def month_days_def leap_def day_of_year_def)

text \<open>C13. Every day number from that of 1 March 0000 to that of 31 December 32767 decodes to a date of the
  calendar that encodes to it again, and the next day number decodes to the next date.\<close>

theorem date_decode_encode:
  assumes "first_day \<le> d" and "d \<le> last_day"
  shows "valid_date (isc_decode_sql_date d) \<and> isc_encode_sql_date (isc_decode_sql_date d) = d \<and>
    (d < last_day \<longrightarrow>
      (let t = next_date (isc_decode_sql_date d); u = isc_decode_sql_date (d + 1) in
       tm_mday u = tm_mday t \<and> tm_mon u = tm_mon t \<and> tm_year u = tm_year t))"
proof -
  obtain t where t: "valid_date t" "nday t = d" using every_day [OF assms] by blast
  let ?u = "isc_decode_sql_date d"
  have u: "tm_mday ?u = tm_mday t" "tm_mon ?u = tm_mon t" "tm_year ?u = tm_year t"
    using decode_nday [OF t(1)] t(2) by simp_all
  have "tm_mday (isc_decode_sql_date (d + 1)) = tm_mday (next_date ?u) \<and>
      tm_mon (isc_decode_sql_date (d + 1)) = tm_mon (next_date ?u) \<and>
      tm_year (isc_decode_sql_date (d + 1)) = tm_year (next_date ?u)" if "d < last_day"
  proof -
    have "\<not> (tm_year t + 1900 = 32767 \<and> tm_mon t = 11 \<and> tm_mday t = 31)"
      using nday_last [OF t(1)] t(2) that by auto
    from next_date_nday [OF t(1) this] have n: "valid_date (next_date t)" "nday (next_date t) = d + 1"
      using t(2) by simp_all
    have "tm_mday (next_date ?u) = tm_mday (next_date t)" "tm_mon (next_date ?u) = tm_mon (next_date t)"
      "tm_year (next_date ?u) = tm_year (next_date t)"
      using u by (simp_all add: next_date_def)
    then show ?thesis using decode_nday [OF n(1)] n(2) by simp
  qed
  then show ?thesis
    using t u valid_cong(1,2) [of ?u t] by (simp add: isc_encode_sql_date_def Let_def)
qed

theorem date_decode_encode_witness: "isc_encode_sql_date (isc_decode_sql_date (-678881)) = -678881"
  using date_decode_encode [of "-678881"] by (simp add: first_day_def last_day_def)

text \<open>C15. A timestamp from 1 March 0000 to 31 December 32767, decoded and encoded again, keeps its date and loses the fraction of its second, and
  nothing more; a time of day in whole seconds survives both ways.\<close>

theorem timestamp_roundtrip:
  assumes "first_day \<le> timestamp_date ts" and "timestamp_date ts \<le> last_day"
    and "timestamp_time ts < 24 * 60 * 60 * ISC_TIME_SECONDS_PRECISION"
  shows "isc_encode_timestamp (isc_decode_timestamp ts) =
      ts\<lparr>timestamp_time := timestamp_time ts - timestamp_time ts mod ISC_TIME_SECONDS_PRECISION\<rparr> \<and>
    isc_encode_sql_time (isc_decode_sql_time (timestamp_time ts)) =
      timestamp_time ts - timestamp_time ts mod ISC_TIME_SECONDS_PRECISION \<and>
    tm_hour (isc_decode_timestamp ts) < 24 \<and> tm_min (isc_decode_timestamp ts) < 60 \<and>
    tm_sec (isc_decode_timestamp ts) < 60"
proof -
  let ?x = "timestamp_time ts" and ?t = "isc_decode_timestamp ts"
  have f: "tm_mday ?t = tm_mday (isc_decode_sql_date (timestamp_date ts))"
    "tm_mon ?t = tm_mon (isc_decode_sql_date (timestamp_date ts))"
    "tm_year ?t = tm_year (isc_decode_sql_date (timestamp_date ts))"
    "tm_hour ?t = int (?x div 600000 div 60)" "tm_min ?t = int (?x div 600000 mod 60)"
    "tm_sec ?t = int (?x div 10000 mod 60)"
    by (auto simp: isc_decode_timestamp_def isc_decode_sql_date_def Let_def
        ISC_TIME_SECONDS_PRECISION_def ndate_def split: prod.split)
  obtain t where t: "valid_date t" "nday t = timestamp_date ts" using every_day [OF assms(1,2)] by blast
  have "nday ?t = timestamp_date ts"
    using valid_cong(2) [of ?t t] decode_nday [OF t(1)] t(2) f(1-3) by simp
  moreover have sec: "((?x div 600000 div 60 * 60 + ?x div 600000 mod 60) * 60 + ?x div 10000 mod 60) * 10000 =
      ?x - ?x mod 10000"
  proof -
    have "?x div 600000 = ?x div 10000 div 60" using div_mult2_eq [of ?x 10000 60] by simp
    then have "(?x div 600000 div 60 * 60 + ?x div 600000 mod 60) * 60 + ?x div 10000 mod 60 = ?x div 10000"
      by (simp only: div_mult_mod_eq)
    then show ?thesis by (simp add: minus_mod_eq_div_mult)
  qed
  moreover have "nat (((int a * 60 + int b) * 60 + int c) * int 10000) = ((a * 60 + b) * 60 + c) * 10000" for a b c
    by (simp flip: of_nat_mult of_nat_add)
  ultimately have e: "nat (((tm_hour ?t * 60 + tm_min ?t) * 60 + tm_sec ?t) * int 10000) = ?x - ?x mod 10000"
    by (simp only: f(4-6))
  have "?x div 600000 div 60 < 24" using assms(3) by (simp add: ISC_TIME_SECONDS_PRECISION_def div_less_iff_less_mult)
  then have "tm_hour ?t < 24 \<and> tm_min ?t < 60 \<and> tm_sec ?t < 60"
    by (simp only: f(4-6)) simp
  moreover have "isc_encode_sql_time (isc_decode_sql_time ?x) = ?x - ?x mod 10000"
    using e by (simp add: f(4-6) isc_encode_sql_time_def isc_decode_sql_time_def Let_def
        ISC_TIME_SECONDS_PRECISION_def)
  ultimately show ?thesis
    using e \<open>nday ?t = timestamp_date ts\<close>
    by (simp add: isc_encode_timestamp_def ISC_TIME_SECONDS_PRECISION_def)
qed

theorem timestamp_roundtrip_witness:
  "isc_encode_sql_time (isc_decode_sql_time 123456789) = 123450000"
  using timestamp_roundtrip [of "\<lparr>timestamp_date = 0, timestamp_time = 123456789\<rparr>"]
  by (simp add: first_day_def last_day_def ISC_TIME_SECONDS_PRECISION_def)

end
