(* ===== verification/Evl_Like.thy ===== *)
theory Evl_Like
  imports Fb_Prelude "HOL-Library.Sublist"
begin

text \<open>
  \<open>jrd/evl_like.cpp\<close>, included by \<open>jrd/evl.cpp\<close> once for bytes and once for UCS-2 characters: the operators
  \<open>LIKE\<close> and \<open>MATCHES\<close>; and \<open>EVL_nc_contains\<close> and \<open>EVL_wc_contains\<close> of \<open>jrd/evl.cpp\<close>, the operator
  \<open>CONTAINING\<close>.

  A pattern and a string are lists of characters; their lengths, which \<open>LIKE\<close> and \<open>MATCHES\<close> hold in
  variables of type \<open>SSHORT\<close>, are at most 32767. The lengths of \<open>CONTAINING\<close> are parameters with their
  conversions written out. \<open>ERR_post\<close> does not return: it is the left summand of the result.
\<close>

section \<open>LIKE\<close>

definition SQL_MATCH_ONE :: nat where "SQL_MATCH_ONE = 0x5F"
definition SQL_MATCH_ANY :: nat where "SQL_MATCH_ANY = 0x25"

datatype like_error = Like_escape_invalid

type_synonym like_result = "like_error + bool"

text \<open>
  \<open>while (l1) if (LIKENAME (p1++, l1--, ...)) return TRUE; return FALSE\<close>: the first suffix of the string,
  from the whole down to the last character, on which the rest of the pattern does not fail.
\<close>

fun first_suffix :: "('c list \<Rightarrow> like_result) \<Rightarrow> 'c list \<Rightarrow> like_result" where
  "first_suffix f [] = Inr False"
| "first_suffix f (c # s) =
     (case f (c # s) of
        Inl e \<Rightarrow> Inl e
      | Inr True \<Rightarrow> Inr True
      | Inr False \<Rightarrow> first_suffix f s)"

lemma length_dropWhile_less [simp]: "length (dropWhile P xs) < Suc (length xs)"
  by (simp add: length_dropWhile_le le_imp_less_Suc)

function LIKENAME :: "u16 \<Rightarrow> 'c::len word list \<Rightarrow> 'c word list \<Rightarrow> like_result" where
  "LIKENAME escape_char s [] = Inr (s = [])"
| "LIKENAME escape_char s (c # p) =
     (if escape_char \<noteq> 0 \<and> ucast c = escape_char
      then
        case p of
          [] \<Rightarrow> Inl Like_escape_invalid
        | d # p' \<Rightarrow>
            if ucast d = escape_char \<or> ucast d = (of_nat SQL_MATCH_ANY :: u16) \<or>
               ucast d = (of_nat SQL_MATCH_ONE :: u16)
            then
              case s of
                [] \<Rightarrow> Inr False
              | x # s' \<Rightarrow> if d \<noteq> x then Inr False else LIKENAME escape_char s' p'
            else Inl Like_escape_invalid
      else if c = of_nat SQL_MATCH_ANY
      then
        let p' = dropWhile (\<lambda>d. d = of_nat SQL_MATCH_ANY) p in
        if p' = [] then Inr True else first_suffix (\<lambda>t. LIKENAME escape_char t p') s
      else
        case s of
          [] \<Rightarrow> Inr False
        | x # s' \<Rightarrow>
            if c \<noteq> of_nat SQL_MATCH_ONE \<and> c \<noteq> x then Inr False else LIKENAME escape_char s' p)"
  by pat_completeness auto
termination
  by (relation "measure (\<lambda>(_, _, p). length p)") auto

section \<open>MATCHES\<close>

definition GDML_MATCH_ONE :: nat where "GDML_MATCH_ONE = 0x3F"
definition GDML_MATCH_ANY :: nat where "GDML_MATCH_ANY = 0x2A"

function MATCHESNAME :: "'c::len word list \<Rightarrow> 'c word list \<Rightarrow> like_result" where
  "MATCHESNAME s [] = Inr (s = [])"
| "MATCHESNAME s (c # p) =
     (if c = of_nat GDML_MATCH_ANY
      then
        let p' = dropWhile (\<lambda>d. d = of_nat GDML_MATCH_ANY) p in
        if p' = [] then Inr True else first_suffix (\<lambda>t. MATCHESNAME t p') s
      else
        case s of
          [] \<Rightarrow> Inr False
        | x # s' \<Rightarrow>
            if c \<noteq> of_nat GDML_MATCH_ONE \<and> c \<noteq> x then Inr False else MATCHESNAME s' p)"
  by pat_completeness auto
termination
  by (relation "measure (\<lambda>(_, p). length p)") auto

section \<open>CONTAINING\<close>

text \<open>
  The comparison of the string at one position with the pattern; \<open>unit\<close> is the number of bytes of a
  character, and \<open>l\<close> the number of bytes of the pattern that are left, an \<open>SSHORT\<close>.
\<close>

fun contains_here :: "('c \<Rightarrow> 'c) \<Rightarrow> nat \<Rightarrow> 'c list \<Rightarrow> 'c list \<Rightarrow> int \<Rightarrow> bool option" where
  "contains_here up unit q1 q2 l =
     (let l' = sshort (l - int unit) in
      if l' < 0 then Some True
      else
        case q1 of
          [] \<Rightarrow> None
        | c1 # q1' \<Rightarrow>
            (case q2 of
               [] \<Rightarrow> None
             | c2 # q2' \<Rightarrow>
                 if up c1 = up c2 then contains_here up unit q1' q2' l' else Some False))"

declare contains_here.simps [simp del]

lemma contains_here_false: "contains_here up unit q1 q2 l = Some False \<Longrightarrow> q1 \<noteq> []"
  by (subst (asm) contains_here.simps) (auto simp: Let_def split: if_splits)

function contains_loop :: "('c \<Rightarrow> 'c) \<Rightarrow> nat \<Rightarrow> 'c list \<Rightarrow> nat \<Rightarrow> 'c list \<Rightarrow> nat \<Rightarrow> bool option" where
  "contains_loop up unit p1 l1 p2 l2 =
     (if l2 \<le> l1
      then
        case contains_here up unit p1 p2 (sshort (int l2)) of
          None \<Rightarrow> None
        | Some True \<Rightarrow> Some True
        | Some False \<Rightarrow> contains_loop up unit (tl p1) (ushort_sub l1 unit) p2 l2
      else Some False)"
  by pat_completeness auto
termination
  by (relation "measure (\<lambda>(_, _, p1, _). length p1)") (auto dest: contains_here_false)

declare contains_loop.simps [simp del]

definition EVL_nc_contains :: "(u8 \<Rightarrow> u8) \<Rightarrow> u8 list \<Rightarrow> nat \<Rightarrow> u8 list \<Rightarrow> nat \<Rightarrow> bool option" where
  "EVL_nc_contains to_upper p1 l1 p2 l2 = contains_loop to_upper 1 p1 l1 p2 l2"

definition EVL_wc_contains :: "(u16 \<Rightarrow> u16) \<Rightarrow> u16 list \<Rightarrow> nat \<Rightarrow> u16 list \<Rightarrow> nat \<Rightarrow> bool option" where
  "EVL_wc_contains to_upper p1 l1 p2 l2 = contains_loop to_upper 2 p1 l1 p2 l2"


section \<open>What a pattern means\<close>

datatype 'c item = One | Any | Lit 'c

text \<open>The items of a \<open>LIKE\<close> pattern; the escape character may stand before itself, \<open>%\<close> and \<open>_\<close> only.\<close>

fun like_items :: "u16 \<Rightarrow> 'c::len word list \<Rightarrow> 'c word item list option" where
  "like_items escape_char [] = Some []"
| "like_items escape_char [c] =
     (if escape_char \<noteq> 0 \<and> ucast c = escape_char then None
      else Some [if c = of_nat SQL_MATCH_ANY then Any else if c = of_nat SQL_MATCH_ONE then One else Lit c])"
| "like_items escape_char (c # d # p) =
     (if escape_char \<noteq> 0 \<and> ucast c = escape_char
      then
        if ucast d = escape_char \<or> ucast d = (of_nat SQL_MATCH_ANY :: u16) \<or>
           ucast d = (of_nat SQL_MATCH_ONE :: u16)
        then map_option ((#) (Lit d)) (like_items escape_char p) else None
      else map_option
        ((#) (if c = of_nat SQL_MATCH_ANY then Any else if c = of_nat SQL_MATCH_ONE then One else Lit c))
        (like_items escape_char (d # p)))"

definition matches_item :: "'c::len word \<Rightarrow> 'c word item" where
  "matches_item c =
     (if c = of_nat GDML_MATCH_ANY then Any else if c = of_nat GDML_MATCH_ONE then One else Lit c)"

inductive like_match :: "'c item list \<Rightarrow> 'c list \<Rightarrow> bool" where
  nil: "like_match [] []"
| lit: "like_match ts s \<Longrightarrow> like_match (Lit c # ts) (c # s)"
| one: "like_match ts s \<Longrightarrow> like_match (One # ts) (c # s)"
| none: "like_match ts s \<Longrightarrow> like_match (Any # ts) s"
| more: "like_match (Any # ts) s \<Longrightarrow> like_match (Any # ts) (c # s)"

inductive_simps like_match_Nil [simp]: "like_match [] s"
inductive_simps like_match_Lit [simp]: "like_match (Lit c # ts) s"
inductive_simps like_match_One [simp]: "like_match (One # ts) s"
inductive_simps like_match_Any_Nil [simp]: "like_match (Any # ts) []"
inductive_simps like_match_Any_Cons: "like_match (Any # ts) (c # s)"

lemma like_match_Any: "like_match (Any # ts) s \<longleftrightarrow> (\<exists>u t. s = u @ t \<and> like_match ts t)"
proof (induction s)
  case (Cons c s)
  have "(\<exists>u t. c # s = u @ t \<and> like_match ts t) \<longleftrightarrow>
      like_match ts (c # s) \<or> (\<exists>u t. s = u @ t \<and> like_match ts t)"
    by (metis append_Cons append_eq_Cons_conv)
  then show ?case using Cons by (simp add: like_match_Any_Cons disj_commute)
qed simp

lemma like_match_Any_Any [simp]: "like_match (Any # Any # ts) s = like_match (Any # ts) s"
  unfolding like_match_Any [of "Any # ts"] by (metis append.assoc append_Nil like_match_Any)

text \<open>The search through the suffixes.\<close>

lemma first_suffix_total:
  assumes "\<And>t. f t = Inr (P t)"
  shows "first_suffix f s = Inr (\<exists>u t. s = u @ t \<and> t \<noteq> [] \<and> P t)"
proof (induction s)
  case (Cons c s)
  have "(\<exists>u t. c # s = u @ t \<and> t \<noteq> [] \<and> P t) \<longleftrightarrow> P (c # s) \<or> (\<exists>u t. s = u @ t \<and> t \<noteq> [] \<and> P t)"
    by (auto simp: Cons_eq_append_conv)
  then show ?case using Cons assms by (cases "P (c # s)") simp_all
qed simp

lemma first_suffix_fails:
  assumes "\<And>t. f t = Inl e \<or> f t = Inr False"
  shows "first_suffix f s = Inl e \<or> first_suffix f s = Inr False"
proof (induction s)
  case (Cons c s)
  then show ?case using assms [of "c # s"] by auto
qed simp

text \<open>A run of \<open>%\<close> is one.\<close>

lemma like_items_Cons:
  "\<not> (escape_char \<noteq> 0 \<and> ucast c = escape_char) \<Longrightarrow>
   like_items escape_char (c # p) = map_option
     ((#) (if c = of_nat SQL_MATCH_ANY then Any else if c = of_nat SQL_MATCH_ONE then One else Lit c))
     (like_items escape_char p)"
  by (cases p) auto

lemma like_items_run:
  fixes p :: "'c::len word list"
  assumes "\<not> (escape_char \<noteq> 0 \<and> ucast (of_nat SQL_MATCH_ANY :: 'c word) = escape_char)"
  defines "p' \<equiv> dropWhile (\<lambda>d. d = of_nat SQL_MATCH_ANY) p"
  shows "(like_items escape_char p = None \<longleftrightarrow> like_items escape_char p' = None) \<and>
    (\<forall>ts ts'. like_items escape_char p = Some ts \<longrightarrow> like_items escape_char p' = Some ts' \<longrightarrow>
      (\<forall>s. like_match (Any # ts) s = like_match (Any # ts') s))"
  unfolding p'_def
proof (induction p)
  case (Cons c p)
  show ?case
  proof (cases "c = of_nat SQL_MATCH_ANY")
    case True
    then show ?thesis using Cons assms(1) by (auto simp: like_items_Cons)
  qed simp
qed simp

text \<open>A pattern that does not begin with \<open>%\<close> needs a character.\<close>

lemma like_items_head:
  "like_items escape_char (c # p) = Some ts \<Longrightarrow>
   \<not> (escape_char \<noteq> 0 \<and> ucast c = escape_char) \<longrightarrow> c \<noteq> of_nat SQL_MATCH_ANY \<Longrightarrow> \<not> like_match ts []"
  by (cases p) (auto split: if_splits)

lemma run_head:
  "dropWhile (\<lambda>d. d = a) p = c # q \<Longrightarrow> c \<noteq> a"
  by (metis (mono_tags) dropWhile_eq_Cons_conv)

text \<open>The two cases of the theorem on \<open>LIKE\<close>.\<close>

definition like_ok :: "u16 \<Rightarrow> 'c::len word list \<Rightarrow> 'c word list \<Rightarrow> like_result \<Rightarrow> bool" where
  "like_ok escape_char s p res \<longleftrightarrow>
     (case like_items escape_char p of
        Some ts \<Rightarrow> res = Inr (like_match ts s)
      | None \<Rightarrow> res = Inl Like_escape_invalid \<or> res = Inr False)"

lemma like_ok_run:
  fixes p :: "'c::len word list"
  assumes esc: "\<not> (escape_char \<noteq> 0 \<and> ucast (of_nat SQL_MATCH_ANY :: 'c word) = escape_char)"
    and p': "p' = dropWhile (\<lambda>d. d = of_nat SQL_MATCH_ANY) p"
    and ih: "p' \<noteq> [] \<Longrightarrow> (\<And>t. like_ok escape_char t p' (f t))"
  shows "like_ok escape_char s (of_nat SQL_MATCH_ANY # p) (if p' = [] then Inr True else first_suffix f s)"
proof -
  note run = like_items_run [OF esc, of p, folded p']
  have items: "like_items escape_char (of_nat SQL_MATCH_ANY # p) = map_option ((#) Any) (like_items escape_char p)"
    using like_items_Cons [OF esc] by simp
  show ?thesis
  proof (cases p')
    case Nil
    then obtain ts where ts: "like_items escape_char p = Some ts" "\<And>s. like_match (Any # ts) s = like_match [Any] s"
      using run by auto
    moreover have "like_match [Any] s" by (simp add: like_match_Any)
    ultimately show ?thesis using Nil by (simp add: like_ok_def items)
  next
    case (Cons c q)
    then have ih': "\<And>t. like_ok escape_char t p' (f t)" using ih by simp
    show ?thesis
    proof (cases "like_items escape_char p'")
      case None
      then have "f t = Inl Like_escape_invalid \<or> f t = Inr False" for t
        using ih' [of t] by (simp add: like_ok_def)
      from first_suffix_fails [OF this] show ?thesis
        using None run Cons by (simp add: like_ok_def items)
    next
      case (Some ts')
      then have f: "f t = Inr (like_match ts' t)" for t using ih' [of t] by (simp add: like_ok_def)
      obtain ts where ts: "like_items escape_char p = Some ts" "\<And>s. like_match (Any # ts) s = like_match (Any # ts') s"
        using run Some by auto
      have "\<not> like_match ts' []"
        using like_items_head [of escape_char c q ts'] Some Cons run_head [of _ p c q] p' by auto
      then have "(\<exists>u t. s = u @ t \<and> t \<noteq> [] \<and> like_match ts' t) = like_match (Any # ts') s"
        unfolding like_match_Any by metis
      then show ?thesis
        using first_suffix_total [of f, OF f, of s] ts Cons by (simp add: like_ok_def items)
    qed
  qed
qed


lemma like_ok_LIKENAME: "like_ok escape_char s p (LIKENAME escape_char s p)"
proof (induction "length p" arbitrary: s p rule: less_induct)
  case less
  show ?case
  proof (cases p)
    case Nil
    then show ?thesis by (simp add: like_ok_def)
  next
    case (Cons c q)
    show ?thesis
    proof (cases "escape_char \<noteq> 0 \<and> ucast c = escape_char")
      case esc: True
      show ?thesis
      proof (cases q)
        case Nil
        then show ?thesis using Cons esc by (simp add: like_ok_def)
      next
        case (Cons d p')
        show ?thesis
        proof (cases "ucast d = escape_char \<or> ucast d = (of_nat SQL_MATCH_ANY :: u16) \<or>
            ucast d = (of_nat SQL_MATCH_ONE :: u16)")
          case True
          have "like_ok escape_char t p' (LIKENAME escape_char t p')" for t
            using less.hyps [of p'] \<open>p = c # q\<close> Cons by simp
          then show ?thesis
            using \<open>p = c # q\<close> Cons esc True
            by (cases s; cases "like_items escape_char p'") (auto simp: like_ok_def)
        qed (use \<open>p = c # q\<close> Cons esc in \<open>simp add: like_ok_def\<close>)
      qed
    next
      case esc: False
      show ?thesis
      proof (cases "c = of_nat SQL_MATCH_ANY")
        case any: True
        define p' where "p' = dropWhile (\<lambda>d. d = of_nat SQL_MATCH_ANY) q"
        have "length p' \<le> length q" unfolding p'_def by (rule length_dropWhile_le)
        then have "like_ok escape_char t p' (LIKENAME escape_char t p')" for t
          using less.hyps [of p'] Cons by simp
        from like_ok_run [OF esc [unfolded any] p'_def this, of s]
        moreover have "LIKENAME escape_char s (c # q) =
            (if p' = [] then Inr True else first_suffix (\<lambda>t. LIKENAME escape_char t p') s)"
          by (subst LIKENAME.simps, subst if_not_P [OF esc], subst if_P [OF any])
            (simp only: p'_def [symmetric] Let_def)
        ultimately show ?thesis using Cons any by simp
      next
        case lit: False
        have "like_ok escape_char t q (LIKENAME escape_char t q)" for t
          using less.hyps [of q] Cons by simp
        then show ?thesis
          using Cons esc lit
          by (cases s; cases "like_items escape_char q") (auto simp: like_ok_def like_items_Cons)
      qed
    qed
  qed
qed

lemma like_items_0: "like_items 0 (c # p) = map_option
     ((#) (if c = of_nat SQL_MATCH_ANY then Any else if c = of_nat SQL_MATCH_ONE then One else Lit c))
     (like_items 0 p)"
  by (rule like_items_Cons) simp

lemma matches_run:
  "like_match (Any # map matches_item (dropWhile (\<lambda>d. d = of_nat GDML_MATCH_ANY) p)) s =
   like_match (Any # map matches_item p) s"
  by (induction p) (auto simp: matches_item_def)

lemma MATCHESNAME_match: "MATCHESNAME s p = Inr (like_match (map matches_item p) s)"
proof (induction "length p" arbitrary: s p rule: less_induct)
  case less
  show ?case
  proof (cases p)
    case (Cons c q)
    have qq: "MATCHESNAME t q = Inr (like_match (map matches_item q) t)" for t
      using less.hyps [of q] Cons by simp
    show ?thesis
    proof (cases "c = of_nat GDML_MATCH_ANY")
      case any: True
      define p' where "p' = dropWhile (\<lambda>d. d = of_nat GDML_MATCH_ANY) q"
      have run: "like_match (Any # map matches_item p') s = like_match (map matches_item p) s"
        using matches_run [of q s] Cons any by (simp add: p'_def matches_item_def)
      show ?thesis
      proof (cases p')
        case Nil
        then have "like_match (map matches_item p) s" using run by (simp add: like_match_Any)
        then show ?thesis using Cons any Nil by (simp add: p'_def [symmetric])
      next
        case nn: (Cons d r)
        have "length p' \<le> length q" unfolding p'_def by (rule length_dropWhile_le)
        then have f: "MATCHESNAME t p' = Inr (like_match (map matches_item p') t)" for t
          using less.hyps [of p'] Cons by simp
        have "d \<noteq> of_nat GDML_MATCH_ANY" using run_head nn unfolding p'_def by metis
        then have "\<not> like_match (map matches_item p') []" using nn by (simp add: matches_item_def)
        then have "(\<exists>u t. s = u @ t \<and> t \<noteq> [] \<and> like_match (map matches_item p') t) =
            like_match (map matches_item p) s"
          unfolding run [symmetric] like_match_Any by metis
        then show ?thesis
          using first_suffix_total [of "\<lambda>t. MATCHESNAME t p'", OF f, of s] Cons any nn
          by (simp add: p'_def [symmetric] Let_def)
      qed
    next
      case False
      then show ?thesis using Cons qq by (cases s) (auto simp: matches_item_def)
    qed
  qed simp
qed

text \<open>C16. \<open>LIKE\<close> and \<open>MATCHES\<close> return on all strings and patterns (whose lengths fit an \<open>SSHORT\<close>) and decide whether the string is in the
  language of the pattern. A pattern with an escape character before another character is reported as
  invalid, or the answer is that it does not match.\<close>

theorem like_matches_correct:
  "(case like_items escape_char p of
      Some ts \<Rightarrow> LIKENAME escape_char s p = Inr (like_match ts s)
    | None \<Rightarrow> LIKENAME escape_char s p \<in> {Inl Like_escape_invalid, Inr False}) \<and>
   MATCHESNAME s q = Inr (like_match (map matches_item q) s)"
  using like_ok_LIKENAME [of escape_char s p] MATCHESNAME_match [of s q]
  by (auto simp: like_ok_def split: option.splits)

section \<open>What CONTAINING finds\<close>

lemma sshort_nat: "n \<le> 32767 \<Longrightarrow> sshort (int n) = int n"
  by (simp add: sshort_id)

lemma contains_here_spec:
  assumes u: "unit = 1 \<or> unit = 2" and "unit * k \<le> 32767" "k \<le> length q1" "k \<le> length q2"
  shows "contains_here up unit q1 q2 (int (unit * k)) = Some (map up (take k q1) = map up (take k q2))"
  using assms(2-4)
proof (induction k arbitrary: q1 q2)
  case 0
  have "sshort (- int unit) < 0" using u by (auto simp: sshort_id)
  then show ?case by (subst contains_here.simps) simp
next
  case (Suc k)
  obtain c1 r1 c2 r2 where q: "q1 = c1 # r1" "q2 = c2 # r2"
    using Suc.prems by (metis Suc_le_length_iff)
  have "int (unit * Suc k) - int unit = int (unit * k)" by simp
  moreover have "sshort (int (unit * k)) = int (unit * k)" using Suc.prems(1) by (intro sshort_nat) simp
  ultimately have l: "sshort (int (unit * Suc k) - int unit) = int (unit * k)" by (simp only:)
  have "contains_here up unit r1 r2 (int (unit * k)) = Some (map up (take k r1) = map up (take k r2))"
    using Suc.prems q by (intro Suc.IH) auto
  moreover have "contains_here up unit q1 q2 (int (unit * Suc k)) =
      (if up c1 = up c2 then contains_here up unit r1 r2 (int (unit * k)) else Some False)"
    unfolding q by (subst contains_here.simps) (simp only: l Let_def of_nat_less_0_iff if_False list.case)
  ultimately show ?case unfolding q by simp
qed

lemma contains_loop_spec:
  assumes u: "unit = 1 \<or> unit = 2" and "unit * k \<le> 32767" "k \<le> length p2"
    and "unit * n < 65536" "n \<le> length p1"
  shows "contains_loop up unit p1 (unit * n) p2 (unit * k) =
    Some (sublist (map up (take k p2)) (map up (take n p1)))"
  using assms(4,5)
proof (induction n arbitrary: p1)
  case 0
  show ?case
  proof (cases "k = 0")
    case True
    have "contains_here up unit p1 p2 (int (unit * 0)) = Some True"
      by (subst contains_here_spec [OF u]) simp_all
    then show ?thesis using True by (subst contains_loop.simps) (simp add: sshort_id)
  next
    case False
    moreover have "length (take k p2) = k" using assms(3) by simp
    ultimately show ?thesis using u by (subst contains_loop.simps) auto
  qed
next
  case (Suc n)
  obtain c r where p: "p1 = c # r" using Suc.prems(2) by (cases p1) auto
  show ?case
  proof (cases "k \<le> Suc n")
    case False
    have "\<not> sublist (map up (take k p2)) (map up (take (Suc n) p1))"
    proof
      assume "sublist (map up (take k p2)) (map up (take (Suc n) p1))"
      from sublist_length_le [OF this] show False using False assms(3) by simp
    qed
    then show ?thesis using False u by (subst contains_loop.simps) auto
  next
    case True
    have here: "contains_here up unit p1 p2 (int (unit * k)) = Some (map up (take k p1) = map up (take k p2))"
      using True Suc.prems(2) assms(2,3) by (intro contains_here_spec [OF u]) simp_all
    have ih: "contains_loop up unit r (unit * n) p2 (unit * k) =
        Some (sublist (map up (take k p2)) (map up (take n r)))"
      using Suc.prems p by (intro Suc.IH) auto
    have s: "sshort (int (unit * k)) = int (unit * k)" by (rule sshort_nat) (rule assms(2))
    have "ushort_sub (unit * Suc n) unit = unit * n" using Suc.prems(1) by simp
    moreover have "unit * k \<le> unit * Suc n" using True by (rule mult_le_mono2)
    ultimately have "contains_loop up unit p1 (unit * Suc n) p2 (unit * k) =
        Some (map up (take k p1) = map up (take k p2) \<or> sublist (map up (take k p2)) (map up (take n r)))"
      using here ih unfolding p by (subst contains_loop.simps) (simp add: s del: of_nat_mult mult_Suc_right split: bool.split)
    moreover have "prefix (map up (take k p2)) (map up (take (Suc n) p1)) \<longleftrightarrow>
        map up (take k p1) = map up (take k p2)"
    proof -
      have "take k (map up (take (Suc n) p1)) = map up (take k p1)"
        using True by (simp add: take_map min_def)
      moreover have "prefix xs ys \<longleftrightarrow> take (length xs) ys = xs" for xs ys :: "'a list"
        by (metis append_eq_conv_conj prefix_def append_take_drop_id)
      moreover have "length (map up (take k p2)) = k" using assms(3) by simp
      ultimately show ?thesis by metis
    qed
    moreover have "map up (take (Suc n) p1) = up c # map up (take n r)" by (simp add: p)
    ultimately show ?thesis by (simp add: sublist_Cons_right)
  qed
qed

text \<open>C17. \<open>CONTAINING\<close> returns and decides whether the pattern occurs in the string when both are brought to
  upper case, for patterns of at most 32767 bytes.\<close>

theorem contains_correct:
  assumes "l1 \<le> length p1" and "l1 < 65536" and "l2 \<le> length p2" and "l2 \<le> 32767"
    and "m1 \<le> length w1" and "2 * m1 < 65536" and "m2 \<le> length w2" and "2 * m2 \<le> 32767"
  shows "EVL_nc_contains up8 p1 l1 p2 l2 = Some (sublist (map up8 (take l2 p2)) (map up8 (take l1 p1))) \<and>
    EVL_wc_contains up16 w1 (2 * m1) w2 (2 * m2) =
      Some (sublist (map up16 (take m2 w2)) (map up16 (take m1 w1)))"
  using contains_loop_spec [of 1 l2 p2 l1 p1 up8] contains_loop_spec [of 2 m2 w2 m1 w1 up16] assms
  by (simp add: EVL_nc_contains_def EVL_wc_contains_def)

theorem contains_correct_witness:
  "EVL_nc_contains id [1, 2, 3] 3 [2, 3] 2 = Some True"
  using contains_correct [of 3 "[1, 2, 3]" 2 "[2, 3]" 0 "[]" 0 "[]" id id]
  by (simp add: sublist_Cons_right)

lemma contains_long:
  assumes "32769 < l2" "l2 \<le> l1" "l1 < 65536" "unit = 1 \<or> unit = 2"
  shows "contains_loop up unit p l1 q l2 = Some True"
proof -
  have "(int l2 + 32768) mod 65536 = int l2 - 32768"
    by (rule int_mod_pos_eq [of _ 65536 1]) (use assms in auto)
  then have s: "sshort (int l2) = int l2 - 65536" by (simp add: sshort_def)
  have "sshort (int l2 - 65536 - int unit) < 0" using assms by (auto simp: sshort_id)
  then have "contains_here up unit p q (sshort (int l2)) = Some True"
    by (subst contains_here.simps) (simp add: s)
  then show ?thesis using assms(2) by (subst contains_loop.simps) simp
qed

text \<open>The length of a pattern is copied to a signed 16-bit variable: a pattern of more than 32769
  bytes is found in every string that is at least as long, whatever their contents.\<close>

lemma contains_long_pattern:
  assumes "32769 < l2" and "l2 \<le> l1" and "l1 < 65536"
  shows "EVL_nc_contains up8 p1 l1 p2 l2 = Some True \<and> EVL_wc_contains up16 w1 l1 w2 l2 = Some True"
  unfolding EVL_nc_contains_def EVL_wc_contains_def using assms by (intro conjI contains_long) simp_all

lemma contains_long_pattern_example:
  "EVL_nc_contains id (replicate 40000 1) 40000 (replicate 40000 2) 40000 = Some True"
  using contains_long_pattern [of 40000 40000 id "replicate 40000 1" "replicate 40000 2"]
  by simp

end
