(* ===== verification/Sort_Quick.thy ===== *)
theory Sort_Quick
  imports Fb_Prelude "HOL-Library.Multiset" "HOL-Library.Monad_Syntax"
begin

text \<open>
  \<open>jrd/sort.cpp\<close>: the sort of the records in memory. \<open>quick\<close> sorts the array of pointers to the records
  with an explicit stack of intervals and leaves intervals of two records alone; \<open>sort\<close> puts the guard
  with the greatest key behind the last pointer, calls \<open>quick\<close> and puts the pairs in order in a last pass.
  Every record keeps a pointer back to its slot in the array.

  The array \<open>sa_pointers\<close> begins at \<open>scb_first_pointer\<close>, with the low guard at index 0; a slot is its index.
  \<open>sa_back\<close> is the longword before the record, the slot of the record. \<open>mem\<close> gives the longwords at an
  address up to the end of its block, and \<open>None\<close> stands for a read or write outside a block or an array, for
  more than 50 stacked intervals, and for a loop that does not end. What follows the early return for a sort
  without a \<open>scb_dup_callback\<close> is not modelled.
\<close>

section \<open>Comparisons\<close>

type_synonym addr = nat
type_synonym u32 = "32 word"
type_synonym sort_mem = "addr \<Rightarrow> u32 list"

record sort_array =
  sa_pointers :: "addr list"
  sa_back :: "addr \<Rightarrow> nat"

definition slot :: "sort_array \<Rightarrow> nat \<Rightarrow> addr option" where
  "slot a i = (if i < length (sa_pointers a) then Some (sa_pointers a ! i) else None)"

text \<open>\<open>**i\<close>, the first longword of the key.\<close>

definition first_long :: "sort_mem \<Rightarrow> sort_array \<Rightarrow> nat \<Rightarrow> u32 option" where
  "first_long mem a i =
     do { p \<leftarrow> slot a i;
          case mem p of [] \<Rightarrow> None | w # _ \<Rightarrow> Some w }"

text \<open>
  \<open>while (tl && *p == *q) { p++; q++; tl--; }\<close> with what \<open>*p\<close> and \<open>*q\<close> are then; \<open>Some None\<close> when \<open>tl\<close> is 0.
\<close>

fun compare_longs :: "nat \<Rightarrow> u32 list \<Rightarrow> u32 list \<Rightarrow> (u32 \<times> u32) option option" where
  "compare_longs 0 p q = Some None"
| "compare_longs (Suc n) (x # p) (y # q) = (if x = y then compare_longs n p q else Some (Some (x, y)))"
| "compare_longs (Suc n) _ _ = None"

definition compare_slots :: "sort_mem \<Rightarrow> nat \<Rightarrow> sort_array \<Rightarrow> nat \<Rightarrow> nat \<Rightarrow> (u32 \<times> u32) option option" where
  "compare_slots mem longs a i j =
     do { p \<leftarrow> slot a i; q \<leftarrow> slot a j; compare_longs (longs - 1) (mem p) (mem q) }"

text \<open>The two back pointers are set, then the slots are exchanged.\<close>

definition exchange :: "nat \<Rightarrow> nat \<Rightarrow> sort_array \<Rightarrow> sort_array option" where
  "exchange i j a =
     do { p \<leftarrow> slot a i;
          q \<leftarrow> slot a j;
          Some \<lparr>sa_pointers = (sa_pointers a)[i := q, j := p], sa_back = (sa_back a)(p := j, q := i)\<rparr> }"

section \<open>Partitions\<close>

text \<open>\<open>while (**i < key) i++;\<close> and, when the first longword is that of the pivot, the loop on whole records.\<close>

function skip_smaller :: "sort_mem \<Rightarrow> sort_array \<Rightarrow> u32 \<Rightarrow> nat \<Rightarrow> nat option" where
  "skip_smaller mem a key i =
     (if i < length (sa_pointers a)
      then do { w \<leftarrow> first_long mem a i; if w < key then skip_smaller mem a key (i + 1) else Some i }
      else None)"
  by pat_completeness auto
termination
  by (relation "measure (\<lambda>(_, a, _, i). length (sa_pointers a) - i)") auto

function skip_not_greater :: "sort_mem \<Rightarrow> nat \<Rightarrow> sort_array \<Rightarrow> nat \<Rightarrow> nat \<Rightarrow> nat option" where
  "skip_not_greater mem longs a r i =
     (if i < length (sa_pointers a)
      then do { d \<leftarrow> compare_slots mem longs a i r;
                case d of
                  Some (p, q) \<Rightarrow> if q < p then Some i else skip_not_greater mem longs a r (i + 1)
                | None \<Rightarrow> skip_not_greater mem longs a r (i + 1) }
      else None)"
  by pat_completeness auto
termination
  by (relation "measure (\<lambda>(_, _, a, _, i). length (sa_pointers a) - i)") auto

definition scan_up :: "sort_mem \<Rightarrow> nat \<Rightarrow> sort_array \<Rightarrow> nat \<Rightarrow> u32 \<Rightarrow> nat \<Rightarrow> nat option" where
  "scan_up mem longs a r key i =
     do { i \<leftarrow> skip_smaller mem a key i;
          w \<leftarrow> first_long mem a i;
          if w = key then skip_not_greater mem longs a r i else Some i }"

fun skip_greater :: "sort_mem \<Rightarrow> sort_array \<Rightarrow> u32 \<Rightarrow> nat \<Rightarrow> nat option" where
  "skip_greater mem a key j =
     do { w \<leftarrow> first_long mem a j;
          if key < w then case j of 0 \<Rightarrow> None | Suc j' \<Rightarrow> skip_greater mem a key j' else Some j }"

fun skip_not_smaller :: "sort_mem \<Rightarrow> nat \<Rightarrow> sort_array \<Rightarrow> nat \<Rightarrow> nat \<Rightarrow> nat option" where
  "skip_not_smaller mem longs a r j =
     (if j \<noteq> r
      then do { d \<leftarrow> compare_slots mem longs a j r;
                case d of
                  Some (p, q) \<Rightarrow>
                    if p < q then Some j
                    else (case j of 0 \<Rightarrow> None | Suc j' \<Rightarrow> skip_not_smaller mem longs a r j')
                | None \<Rightarrow> (case j of 0 \<Rightarrow> None | Suc j' \<Rightarrow> skip_not_smaller mem longs a r j') }
      else Some j)"

definition scan_down :: "sort_mem \<Rightarrow> nat \<Rightarrow> sort_array \<Rightarrow> nat \<Rightarrow> u32 \<Rightarrow> nat \<Rightarrow> nat option" where
  "scan_down mem longs a r key j =
     do { j \<leftarrow> skip_greater mem a key j;
          w \<leftarrow> first_long mem a j;
          if w = key then skip_not_smaller mem longs a r j else Some j }"

partial_function (option) converge ::
  "sort_mem \<Rightarrow> nat \<Rightarrow> nat \<Rightarrow> u32 \<Rightarrow> sort_array \<Rightarrow> nat \<Rightarrow> nat \<Rightarrow> (sort_array \<times> nat) option" where
  "converge mem longs r key a i j =
     do { i \<leftarrow> scan_up mem longs a r key i;
          j \<leftarrow> scan_down mem longs a r key j;
          if j \<le> i then Some (a, j)
          else do { a \<leftarrow> exchange i j a; converge mem longs r key a (i + 1) (j - 1) } }"

section \<open>The stack of intervals\<close>

definition QUICK_STACK :: nat where "QUICK_STACK = 50"

text \<open>One interval of three records or more: the pivot is the record in the middle.\<close>

definition split_interval :: "sort_mem \<Rightarrow> nat \<Rightarrow> nat \<Rightarrow> nat \<Rightarrow> sort_array \<Rightarrow> (sort_array \<times> nat) option" where
  "split_interval mem longs r j a =
     do { a \<leftarrow> exchange r (r + (j - r) div 2) a;
          key \<leftarrow> first_long mem a r;
          (a, j) \<leftarrow> converge mem longs r key a (r + 1) j;
          a \<leftarrow> exchange r j a;
          Some (a, j) }"

text \<open>The stack holds the bounds of the intervals, the next_pointer one first. The larger interval goes below.\<close>

definition push_intervals :: "nat \<Rightarrow> nat \<Rightarrow> nat \<Rightarrow> (nat \<times> nat) list \<Rightarrow> (nat \<times> nat) list" where
  "push_intervals r j i stack =
     (if int j - int r > int i - int j + 1
      then (j + 1, i) # (r, j - 1) # stack
      else (r, j - 1) # (j + 1, i) # stack)"

partial_function (option) quick_loop ::
  "sort_mem \<Rightarrow> nat \<Rightarrow> (nat \<times> nat) list \<Rightarrow> sort_array \<Rightarrow> sort_array option" where
  "quick_loop mem longs stack a =
     (case stack of
        [] \<Rightarrow> Some a
      | (r, j) # stack \<Rightarrow>
          if int j - int r < 2 then quick_loop mem longs stack a
          else do { (a, p) \<leftarrow> split_interval mem longs r j a;
                    let stack = push_intervals r p j stack;
                    if length stack \<le> QUICK_STACK then quick_loop mem longs stack a else None })"

definition quick :: "sort_mem \<Rightarrow> nat \<Rightarrow> nat \<Rightarrow> nat \<Rightarrow> sort_array \<Rightarrow> sort_array option" where
  "quick mem n pointers longs a = quick_loop mem longs [(pointers, pointers + n - 1)] a"

section \<open>The last pass\<close>

function order_pairs :: "sort_mem \<Rightarrow> nat \<Rightarrow> nat \<Rightarrow> nat \<Rightarrow> sort_array \<Rightarrow> sort_array option" where
  "order_pairs mem longs next_pointer j a =
     (if j < next_pointer
      then do {
        v \<leftarrow> first_long mem a j;
        w \<leftarrow> first_long mem a (j + 1);
        a \<leftarrow> (if w \<le> v
             then do { d \<leftarrow> compare_slots mem longs a j (j + 1);
                       case d of
                         Some (p, q) \<Rightarrow> if q < p then exchange j (j + 1) a else Some a
                       | None \<Rightarrow> Some a }
             else Some a);
        order_pairs mem longs next_pointer (j + 1) a }
      else Some a)"
  by pat_completeness auto
termination
  by (relation "measure (\<lambda>(_, _, next_pointer, j, _). next_pointer - j)") auto

text \<open>\<open>next_pointer\<close> is the slot \<open>scb_next_pointer\<close>, the one after the last record; \<open>high_key\<close> is put there.\<close>

definition sort_records :: "sort_mem \<Rightarrow> nat \<Rightarrow> addr \<Rightarrow> sort_array \<Rightarrow> sort_array option" where
  "sort_records mem longs high_key a =
     (let next_pointer = length (sa_pointers a);
          a = a\<lparr>sa_pointers := sa_pointers a @ [high_key]\<rparr>;
          j = 1
      in do { a \<leftarrow> quick mem (next_pointer - j) j longs a;
              order_pairs mem longs next_pointer j a })"

declare skip_smaller.simps [simp del] skip_not_greater.simps [simp del] skip_greater.simps [simp del]
  skip_not_smaller.simps [simp del] order_pairs.simps [simp del]


section \<open>The order of the records\<close>

text \<open>The number that the first \<open>n\<close> longwords form.\<close>

fun rval :: "nat \<Rightarrow> u32 list \<Rightarrow> nat" where
  "rval 0 p = 0"
| "rval (Suc n) [] = 0"
| "rval (Suc n) (x # p) = unat x * 2 ^ (32 * n) + rval n p"

lemma rval_less: "rval n p < 2 ^ (32 * n)"
proof (induction n p rule: rval.induct)
  case (3 n x p)
  have "unat x < 2 ^ 32" using unsigned_less [of x] by simp
  then have "(unat x + 1) * 2 ^ (32 * n) \<le> 2 ^ 32 * 2 ^ (32 * n)" by (intro mult_right_mono) simp_all
  then have "unat x * 2 ^ (32 * n) + 2 ^ (32 * n) \<le> 2 ^ (32 * Suc n)" by (simp add: power_add algebra_simps)
  then show ?case using 3 by simp
qed simp_all

lemma rval_Cons_less: "x < y \<Longrightarrow> rval (Suc n) (x # p) < rval (Suc n) (y # q)"
proof -
  assume "x < y"
  then have "unat x + 1 \<le> unat y" by (simp add: word_less_nat_alt)
  then have "(unat x + 1) * 2 ^ (32 * n) \<le> unat y * 2 ^ (32 * n)" by (intro mult_right_mono) simp_all
  then show ?thesis using rval_less [of n p] by simp
qed

text \<open>A result of the comparison is the order of two numbers.\<close>

definition orders :: "(u32 \<times> u32) option \<Rightarrow> nat \<Rightarrow> nat \<Rightarrow> bool" where
  "orders d v w \<longleftrightarrow>
     (case d of None \<Rightarrow> v = w | Some (x, y) \<Rightarrow> x < y \<and> v < w \<or> y < x \<and> w < v)"

lemma compare_longs_orders: "compare_longs n p q = Some d \<Longrightarrow> orders d (rval n p) (rval n q)"
proof (induction n p q rule: compare_longs.induct)
  case (2 n x p y q)
  show ?case
  proof (cases "x = y")
    case True
    then show ?thesis using 2 by (simp add: orders_def split: option.splits prod.splits)
  next
    case False
    then have "d = Some (x, y)" using 2 by simp
    then show ?thesis using False rval_Cons_less neq_iff [of x y] by (auto simp: orders_def simp del: rval.simps)
  qed
qed (simp_all add: orders_def)

lemma compare_longs_defined: "n \<le> length p \<Longrightarrow> n \<le> length q \<Longrightarrow> \<exists>d. compare_longs n p q = Some d"
  by (induction n p q rule: compare_longs.induct) simp_all

lemma compare_longs_sym:
  "compare_longs n p q = Some (Some (x, y)) \<Longrightarrow> compare_longs n q p = Some (Some (y, x))"
  by (induction n p q rule: compare_longs.induct) (auto split: if_splits)

lemma compare_longs_hd:
  "compare_longs n p q = Some (Some (x, y)) \<Longrightarrow> x < y \<Longrightarrow> p \<noteq> [] \<and> q \<noteq> [] \<and> hd p \<le> hd q"
  by (cases n; cases p; cases q) (auto split: if_splits)

lemma compare_longs_refl: "compare_longs n p p \<noteq> Some (Some (x, y))"
proof (induction n arbitrary: p)
  case (Suc n)
  then show ?case by (cases p) simp_all
qed simp

text \<open>
  The records of a sort: as long as the sort compares, and below the guard with the greatest key, which the
  comparison finds before it reaches the end of the guard.
\<close>

definition below_guard :: "sort_mem \<Rightarrow> nat \<Rightarrow> addr \<Rightarrow> addr \<Rightarrow> bool" where
  "below_guard mem longs high p \<longleftrightarrow>
     longs - 1 \<le> length (mem p) \<and>
     (case compare_longs (longs - 1) (mem p) (mem high) of Some (Some (x, y)) \<Rightarrow> x < y | _ \<Rightarrow> False)"

definition key_value :: "sort_mem \<Rightarrow> nat \<Rightarrow> addr \<Rightarrow> addr \<Rightarrow> nat" where
  "key_value mem longs high p = (if p = high then 2 ^ (32 * (longs - 1)) else rval (longs - 1) (mem p))"

lemma below_guardE:
  assumes "below_guard mem longs high p"
  obtains x y where "compare_longs (longs - 1) (mem p) (mem high) = Some (Some (x, y))" "x < y"
    "longs - 1 \<le> length (mem p)"
  using assms by (auto simp: below_guard_def split: option.splits prod.splits)

lemma below_guard_neq: "below_guard mem longs high p \<Longrightarrow> p \<noteq> high"
  using compare_longs_refl by (metis below_guardE)

lemma compare_keys:
  assumes "below_guard mem longs high p \<or> p = high" "below_guard mem longs high q \<or> q = high"
    and "p \<noteq> high \<or> q \<noteq> high"
  shows "\<exists>d. compare_longs (longs - 1) (mem p) (mem q) = Some d \<and>
    orders d (key_value mem longs high p) (key_value mem longs high q)"
proof -
  consider "p = high" "below_guard mem longs high q" "q \<noteq> high"
    | "q = high" "below_guard mem longs high p" "p \<noteq> high"
    | "p \<noteq> high" "q \<noteq> high" "below_guard mem longs high p" "below_guard mem longs high q"
    using assms by blast
  then show ?thesis
  proof cases
    case 1
    then obtain x y where xy: "compare_longs (longs - 1) (mem q) (mem high) = Some (Some (x, y))" "x < y"
      by (auto elim: below_guardE)
    from compare_longs_sym [OF xy(1)] show ?thesis using 1 xy(2) by (simp add: orders_def key_value_def rval_less)
  next
    case 2
    then obtain x y where "compare_longs (longs - 1) (mem p) (mem high) = Some (Some (x, y))" "x < y"
      by (auto elim: below_guardE)
    then show ?thesis using 2 by (simp add: orders_def key_value_def rval_less)
  next
    case 3
    then obtain d where "compare_longs (longs - 1) (mem p) (mem q) = Some d"
      using compare_longs_defined by (metis below_guardE)
    then show ?thesis using 3 by (auto simp: key_value_def dest: compare_longs_orders)
  qed
qed

lemma first_keys:
  assumes "below_guard mem longs high p \<or> p = high" "below_guard mem longs high q \<or> q = high"
    and "p \<noteq> high \<or> q \<noteq> high" and "hd (mem p) < hd (mem q)"
  shows "key_value mem longs high p < key_value mem longs high q"
proof -
  consider "p = high" "below_guard mem longs high q" "q \<noteq> high"
    | "q = high" "below_guard mem longs high p" "p \<noteq> high"
    | "p \<noteq> high" "q \<noteq> high" "below_guard mem longs high p" "below_guard mem longs high q"
    using assms by blast
  then show ?thesis
  proof cases
    case 1
    then have "hd (mem q) \<le> hd (mem high)" using compare_longs_hd by (metis below_guardE)
    then show ?thesis using assms(4) 1 by simp
  next
    case 2
    then show ?thesis by (simp add: key_value_def rval_less)
  next
    case 3
    from 3(3) obtain n where "longs - 1 = Suc n" by (rule below_guardE) (cases "longs - 1"; auto)
    moreover from this 3 obtain x p' y q' where "mem p = x # p'" "mem q = y # q'"
      by (metis below_guardE Suc_le_length_iff)
    ultimately show ?thesis using 3 assms(4) rval_Cons_less by (simp add: key_value_def)
  qed
qed


section \<open>The array\<close>

text \<open>
  The slots 1 to \<open>n\<close> hold records that know their slots, and the slot behind them holds the guard.
  \<open>value\<close> is the number whose order is that of the records.
\<close>

definition laid_out :: "sort_mem \<Rightarrow> nat \<Rightarrow> addr \<Rightarrow> nat \<Rightarrow> sort_array \<Rightarrow> bool" where
  "laid_out mem longs high n a \<longleftrightarrow>
     length (sa_pointers a) = n + 2 \<and> sa_pointers a ! (n + 1) = high \<and>
     (\<forall>i. 1 \<le> i \<longrightarrow> i \<le> n \<longrightarrow>
       below_guard mem longs high (sa_pointers a ! i) \<and> sa_back a (sa_pointers a ! i) = i)"

definition slot_value :: "sort_mem \<Rightarrow> nat \<Rightarrow> addr \<Rightarrow> sort_array \<Rightarrow> nat \<Rightarrow> nat" where
  "slot_value mem longs high a i = key_value mem longs high (sa_pointers a ! i)"

text \<open>Only the slots from \<open>l\<close> to \<open>u\<close> are rearranged.\<close>

definition rearranged :: "nat \<Rightarrow> nat \<Rightarrow> sort_array \<Rightarrow> sort_array \<Rightarrow> bool" where
  "rearranged l u a b \<longleftrightarrow>
     mset (sa_pointers b) = mset (sa_pointers a) \<and>
     (\<forall>k. k < l \<or> u < k \<longrightarrow> sa_pointers b ! k = sa_pointers a ! k) \<and>
     (\<forall>k. l \<le> k \<longrightarrow> k \<le> u \<longrightarrow> (\<exists>m. l \<le> m \<and> m \<le> u \<and> sa_pointers b ! k = sa_pointers a ! m))"

lemma rearranged_refl [simp]: "rearranged l u a a"
  by (auto simp: rearranged_def)

lemma rearranged_trans: "rearranged l u a b \<Longrightarrow> rearranged l u b c \<Longrightarrow> rearranged l u a c"
  unfolding rearranged_def by metis

lemma rearranged_mono: "rearranged l u a b \<Longrightarrow> l' \<le> l \<Longrightarrow> u \<le> u' \<Longrightarrow> rearranged l' u' a b"
  unfolding rearranged_def by (metis le_trans linorder_not_le order_less_le_trans order_le_less_trans)

lemma rearranged_value:
  assumes "rearranged l u a b"
  shows "k < l \<or> u < k \<Longrightarrow> slot_value mem longs high b k = slot_value mem longs high a k"
    and "l \<le> k \<Longrightarrow> k \<le> u \<Longrightarrow>
      \<exists>m. l \<le> m \<and> m \<le> u \<and> slot_value mem longs high b k = slot_value mem longs high a m"
  using assms by (auto simp: rearranged_def slot_value_def) metis

lemma slot_laid_out: "laid_out mem longs high n a \<Longrightarrow> i \<le> n + 1 \<Longrightarrow> slot a i = Some (sa_pointers a ! i)"
  by (simp add: slot_def laid_out_def)

lemma laid_out_addr:
  assumes "laid_out mem longs high n a" "1 \<le> i" "i \<le> n + 1"
  shows "below_guard mem longs high (sa_pointers a ! i) \<or> sa_pointers a ! i = high"
  using assms by (cases "i = n + 1") (auto simp: laid_out_def)

lemma laid_out_neq:
  assumes "laid_out mem longs high n a" "1 \<le> i" "i \<le> n"
  shows "sa_pointers a ! i \<noteq> high" and "below_guard mem longs high (sa_pointers a ! i)"
  using assms below_guard_neq unfolding laid_out_def by blast+

lemma exchange_ok:
  assumes ok: "laid_out mem longs high n a" and i: "1 \<le> i" "i \<le> n" and j: "1 \<le> j" "j \<le> n"
    and l: "l \<le> i" "i \<le> u" "l \<le> j" "j \<le> u"
  shows "\<exists>b. exchange i j a = Some b \<and> laid_out mem longs high n b \<and> rearranged l u a b \<and>
    (\<forall>k. slot_value mem longs high b k =
      slot_value mem longs high a (if k = i then j else if k = j then i else k))"
proof -
  let ?p = "sa_pointers a"
  define b where "b = \<lparr>sa_pointers = ?p[i := ?p ! j, j := ?p ! i], sa_back = (sa_back a)(?p ! i := j, ?p ! j := i)\<rparr>"
  have len: "length ?p = n + 2" using ok by (simp add: laid_out_def)
  have nth: "sa_pointers b ! k = ?p ! (if k = i then j else if k = j then i else k)" for k
    using i j len by (simp add: b_def nth_list_update)
  have same: "?p ! k = ?p ! m \<longleftrightarrow> k = m" if "1 \<le> k" "k \<le> n" "1 \<le> m" "m \<le> n" for k m
    using ok that unfolding laid_out_def by metis
  have slots: "sa_back b (sa_pointers b ! k) = k" if "1 \<le> k" "k \<le> n" for k
    unfolding nth using that i j same ok unfolding b_def laid_out_def by auto
  have "laid_out mem longs high n b"
    using ok slots i j unfolding laid_out_def nth by (auto simp: b_def)
  moreover have "rearranged l u a b"
    using l i j len unfolding rearranged_def nth
    by (auto simp: b_def mset_swap)
  moreover have "exchange i j a = Some b"
    using ok i j by (simp add: exchange_def slot_laid_out b_def)
  ultimately show ?thesis by (auto simp: slot_value_def nth)
qed

lemma compare_slots_ok:
  assumes "laid_out mem longs high n a" "1 \<le> i" "i \<le> n + 1" "1 \<le> j" "j \<le> n + 1" "i \<le> n \<or> j \<le> n"
  shows "\<exists>d. compare_slots mem longs a i j = Some d \<and>
    orders d (slot_value mem longs high a i) (slot_value mem longs high a j)"
  using compare_keys [of mem longs high "sa_pointers a ! i" "sa_pointers a ! j"]
    laid_out_addr [OF assms(1-3)] laid_out_addr [OF assms(1,4,5)] laid_out_neq [OF assms(1)] assms
  by (auto simp: compare_slots_def slot_laid_out slot_value_def)

lemma first_long_ok:
  assumes ok: "laid_out mem longs high n a" and "1 \<le> i" "i \<le> n + 1" "1 \<le> n"
  shows "first_long mem a i = Some (hd (mem (sa_pointers a ! i)))"
proof -
  have "mem (sa_pointers a ! k) \<noteq> []" "mem high \<noteq> []" if "1 \<le> k" "k \<le> n" for k
    using laid_out_neq(2) [OF ok that] compare_longs_hd by (metis below_guardE)+
  moreover have "sa_pointers a ! (n + 1) = high" using ok by (simp add: laid_out_def)
  ultimately have "mem (sa_pointers a ! i) \<noteq> []" using assms(2-4) by (cases "i = n + 1") auto
  then show ?thesis
    using assms by (cases "mem (sa_pointers a ! i)") (simp_all add: first_long_def slot_laid_out)
qed

lemma first_long_less:
  assumes ok: "laid_out mem longs high n a" and "1 \<le> i" "i \<le> n + 1" "1 \<le> j" "j \<le> n + 1" "i \<le> n \<or> j \<le> n"
    and "hd (mem (sa_pointers a ! i)) < hd (mem (sa_pointers a ! j))"
  shows "slot_value mem longs high a i < slot_value mem longs high a j"
  using first_keys [of mem longs high "sa_pointers a ! i" "sa_pointers a ! j"]
    laid_out_addr [OF assms(1-3)] laid_out_addr [OF assms(1,4,5)] laid_out_neq [OF assms(1)] assms
  by (auto simp: slot_value_def)


section \<open>A partition\<close>

lemma below_high:
  assumes "laid_out mem longs high n a" "1 \<le> r" "r \<le> n"
  shows "slot_value mem longs high a r < slot_value mem longs high a (n + 1)"
  using laid_out_neq [OF assms] assms(1) rval_less by (simp add: slot_value_def key_value_def laid_out_def)

definition all_in :: "(nat \<Rightarrow> bool) \<Rightarrow> nat \<Rightarrow> nat \<Rightarrow> bool" where
  "all_in P i m \<longleftrightarrow> (\<forall>k. i \<le> k \<longrightarrow> k < m \<longrightarrow> P k)"

lemma all_in_empty [simp]: "m \<le> i \<Longrightarrow> all_in P i m"
  by (simp add: all_in_def)

lemma all_inD: "all_in P i m \<Longrightarrow> i \<le> k \<Longrightarrow> k < m \<Longrightarrow> P k"
  by (simp add: all_in_def)

lemma all_in_join: "all_in P i m \<Longrightarrow> all_in P m m' \<Longrightarrow> all_in P i m'"
  unfolding all_in_def using not_le by blast

lemma all_in_first: "P i \<Longrightarrow> all_in P (i + 1) m \<Longrightarrow> all_in P i m"
  unfolding all_in_def by (metis Suc_eq_plus1 le_neq_implies_less Suc_leI)

lemma all_in_last: "P m \<Longrightarrow> all_in P i m \<Longrightarrow> all_in P i (m + 1)"
  unfolding all_in_def by (metis Suc_eq_plus1 less_Suc_eq)

lemma skip_smaller_ok:
  assumes ok: "laid_out mem longs high n a" and r: "1 \<le> r" "r \<le> n"
    and "1 \<le> i" "i \<le> n + 1"
  shows "\<exists>m. skip_smaller mem a (hd (mem (sa_pointers a ! r))) i = Some m \<and> i \<le> m \<and> m \<le> n + 1 \<and>
    hd (mem (sa_pointers a ! r)) \<le> hd (mem (sa_pointers a ! m)) \<and>
    all_in (\<lambda>k. slot_value mem longs high a k \<le> slot_value mem longs high a r) i m"
  using assms(4,5)
proof (induction "n + 1 - i" arbitrary: i rule: less_induct)
  case less
  let ?v = "slot_value mem longs high a" and ?key = "hd (mem (sa_pointers a ! r))"
  have len: "i < length (sa_pointers a)" using ok less.prems by (simp add: laid_out_def)
  have w: "first_long mem a i = Some (hd (mem (sa_pointers a ! i)))"
    using first_long_ok [OF ok less.prems] r by simp
  show ?case
  proof (cases "hd (mem (sa_pointers a ! i)) < ?key")
    case True
    have v: "?v i < ?v r"
      using first_long_less [OF ok less.prems, of r] r True by simp
    then have i: "i \<noteq> n + 1" using below_high [OF ok r] by auto
    have "n + 1 - (i + 1) < n + 1 - i" using i less.prems by simp
    from less.hyps [OF this] i less.prems obtain m where "skip_smaller mem a ?key (i + 1) = Some m"
      "i + 1 \<le> m" "m \<le> n + 1" "?key \<le> hd (mem (sa_pointers a ! m))" "all_in (\<lambda>k. ?v k \<le> ?v r) (i + 1) m"
      by auto
    moreover have "skip_smaller mem a ?key i = skip_smaller mem a ?key (i + 1)"
      using w True len by (subst skip_smaller.simps) simp
    ultimately show ?thesis using v all_in_first [of "\<lambda>k. ?v k \<le> ?v r" i m] by auto
  next
    case False
    then show ?thesis using w len less.prems by (subst skip_smaller.simps) simp
  qed
qed

lemma skip_not_greater_ok:
  assumes ok: "laid_out mem longs high n a" and r: "1 \<le> r" "r \<le> n"
    and "1 \<le> i" "i \<le> n + 1"
  shows "\<exists>m. skip_not_greater mem longs a r i = Some m \<and> i \<le> m \<and> m \<le> n + 1 \<and>
    slot_value mem longs high a r < slot_value mem longs high a m \<and>
    all_in (\<lambda>k. slot_value mem longs high a k \<le> slot_value mem longs high a r) i m"
  using assms(4,5)
proof (induction "n + 1 - i" arbitrary: i rule: less_induct)
  case less
  let ?v = "slot_value mem longs high a"
  have len: "i < length (sa_pointers a)" using ok less.prems by (simp add: laid_out_def)
  obtain d where d: "compare_slots mem longs a i r = Some d" "orders d (?v i) (?v r)"
    using compare_slots_ok [OF ok less.prems, of r] r by auto
  show ?case
  proof (cases "?v r < ?v i")
    case True
    then obtain x y where "d = Some (x, y)" "y < x"
      using d(2) by (auto simp: orders_def split: option.splits)
    then show ?thesis using True d len less.prems by (subst skip_not_greater.simps) simp
  next
    case False
    then have step: "skip_not_greater mem longs a r i = skip_not_greater mem longs a r (i + 1)"
      using d len by (subst skip_not_greater.simps) (auto simp: orders_def split: option.splits)
    have i: "i \<noteq> n + 1" using False below_high [OF ok r] by auto
    have "n + 1 - (i + 1) < n + 1 - i" using i less.prems by simp
    from less.hyps [OF this] i less.prems obtain m where "skip_not_greater mem longs a r (i + 1) = Some m"
      "i + 1 \<le> m" "m \<le> n + 1" "?v r < ?v m" "all_in (\<lambda>k. ?v k \<le> ?v r) (i + 1) m"
      by auto
    then show ?thesis using step False all_in_first [of "\<lambda>k. ?v k \<le> ?v r" i m] by auto
  qed
qed

lemma scan_up_ok:
  assumes ok: "laid_out mem longs high n a" and r: "1 \<le> r" "r \<le> n"
    and i: "1 \<le> i" "i \<le> n + 1"
  shows "\<exists>m. scan_up mem longs a r (hd (mem (sa_pointers a ! r))) i = Some m \<and> i \<le> m \<and> m \<le> n + 1 \<and>
    slot_value mem longs high a r < slot_value mem longs high a m \<and>
    all_in (\<lambda>k. slot_value mem longs high a k \<le> slot_value mem longs high a r) i m"
proof -
  let ?v = "slot_value mem longs high a" and ?key = "hd (mem (sa_pointers a ! r))"
  obtain m where m: "skip_smaller mem a ?key i = Some m" "i \<le> m" "m \<le> n + 1"
    "?key \<le> hd (mem (sa_pointers a ! m))" "all_in (\<lambda>k. ?v k \<le> ?v r) i m"
    using skip_smaller_ok [OF assms] by blast
  have w: "first_long mem a m = Some (hd (mem (sa_pointers a ! m)))"
    using first_long_ok [OF ok] m(2,3) i r by simp
  show ?thesis
  proof (cases "hd (mem (sa_pointers a ! m)) = ?key")
    case True
    obtain m' where "skip_not_greater mem longs a r m = Some m'" "m \<le> m'" "m' \<le> n + 1" "?v r < ?v m'"
      "all_in (\<lambda>k. ?v k \<le> ?v r) m m'"
      using skip_not_greater_ok [OF ok r, of m] m(2,3) i by auto
    moreover have "scan_up mem longs a r ?key i = skip_not_greater mem longs a r m"
      using m(1) w True by (simp add: scan_up_def)
    ultimately show ?thesis using m(2) all_in_join [OF m(5)] by auto
  next
    case False
    then have "?v r < ?v m"
      using first_long_less [OF ok r(1) _ _ m(3)] m(2,4) r i by (simp add: order_less_le)
    then show ?thesis using m w False by (simp add: scan_up_def)
  qed
qed

lemma skip_greater_ok:
  assumes ok: "laid_out mem longs high n a" and r: "1 \<le> r" "r \<le> n"
    and "r \<le> j" "j \<le> n"
  shows "\<exists>m. skip_greater mem a (hd (mem (sa_pointers a ! r))) j = Some m \<and> r \<le> m \<and> m \<le> j \<and>
    hd (mem (sa_pointers a ! m)) \<le> hd (mem (sa_pointers a ! r)) \<and>
    all_in (\<lambda>k. slot_value mem longs high a r \<le> slot_value mem longs high a k) (m + 1) (j + 1)"
  using assms(4,5)
proof (induction j)
  case (Suc j)
  let ?v = "slot_value mem longs high a" and ?key = "hd (mem (sa_pointers a ! r))"
  have w: "first_long mem a (Suc j) = Some (hd (mem (sa_pointers a ! Suc j)))"
    using first_long_ok [OF ok, of "Suc j"] Suc.prems r by simp
  show ?case
  proof (cases "?key < hd (mem (sa_pointers a ! Suc j))")
    case True
    then have "?v r < ?v (Suc j)" "r \<noteq> Suc j"
      using first_long_less [OF ok r(1) _ _ _ _ True] Suc.prems r by auto
    moreover from this Suc obtain m where "skip_greater mem a ?key j = Some m" "r \<le> m" "m \<le> j"
      "hd (mem (sa_pointers a ! m)) \<le> ?key" "all_in (\<lambda>k. ?v r \<le> ?v k) (m + 1) (j + 1)"
      by auto
    moreover have "skip_greater mem a ?key (Suc j) = skip_greater mem a ?key j"
      using w True by (subst skip_greater.simps) simp
    ultimately show ?thesis using all_in_last [of "\<lambda>k. ?v r \<le> ?v k" "j + 1" "m + 1"] by auto
  next
    case False
    then show ?thesis using w Suc.prems by (subst skip_greater.simps) auto
  qed
qed (use r in simp)

lemma skip_not_smaller_ok:
  assumes ok: "laid_out mem longs high n a" and r: "1 \<le> r" "r \<le> n"
    and "r \<le> j" "j \<le> n"
  shows "\<exists>m. skip_not_smaller mem longs a r j = Some m \<and> r \<le> m \<and> m \<le> j \<and>
    (m = r \<or> slot_value mem longs high a m < slot_value mem longs high a r) \<and>
    all_in (\<lambda>k. slot_value mem longs high a r \<le> slot_value mem longs high a k) (m + 1) (j + 1)"
  using assms(4,5)
proof (induction j)
  case (Suc j)
  let ?v = "slot_value mem longs high a"
  obtain d where d: "compare_slots mem longs a (Suc j) r = Some d" "orders d (?v (Suc j)) (?v r)"
    using compare_slots_ok [OF ok, of "Suc j" r] Suc.prems r by auto
  consider "Suc j = r" | "Suc j \<noteq> r" "?v (Suc j) < ?v r" | "Suc j \<noteq> r" "?v r \<le> ?v (Suc j)" by linarith
  then show ?case
  proof cases
    case 1
    then show ?thesis by (subst skip_not_smaller.simps) auto
  next
    case 2
    then obtain x y where "d = Some (x, y)" "x < y"
      using d(2) by (auto simp: orders_def split: option.splits)
    then show ?thesis using 2 d Suc.prems by (subst skip_not_smaller.simps) auto
  next
    case 3
    then have "skip_not_smaller mem longs a r (Suc j) = skip_not_smaller mem longs a r j"
      using d by (subst skip_not_smaller.simps) (auto simp: orders_def split: option.splits)
    moreover from 3 Suc obtain m where "skip_not_smaller mem longs a r j = Some m" "r \<le> m" "m \<le> j"
      "m = r \<or> ?v m < ?v r" "all_in (\<lambda>k. ?v r \<le> ?v k) (m + 1) (j + 1)"
      by auto
    ultimately show ?thesis using 3(2) all_in_last [of "\<lambda>k. ?v r \<le> ?v k" "j + 1" "m + 1"] by auto
  qed
qed (use r in simp)

lemma scan_down_ok:
  assumes ok: "laid_out mem longs high n a" and r: "1 \<le> r" "r \<le> n"
    and j: "r \<le> j" "j \<le> n"
  shows "\<exists>m. scan_down mem longs a r (hd (mem (sa_pointers a ! r))) j = Some m \<and> r \<le> m \<and> m \<le> j \<and>
    (m = r \<or> slot_value mem longs high a m < slot_value mem longs high a r) \<and>
    all_in (\<lambda>k. slot_value mem longs high a r \<le> slot_value mem longs high a k) (m + 1) (j + 1)"
proof -
  let ?v = "slot_value mem longs high a" and ?key = "hd (mem (sa_pointers a ! r))"
  obtain m where m: "skip_greater mem a ?key j = Some m" "r \<le> m" "m \<le> j"
    "hd (mem (sa_pointers a ! m)) \<le> ?key" "all_in (\<lambda>k. ?v r \<le> ?v k) (m + 1) (j + 1)"
    using skip_greater_ok [OF assms] by blast
  have w: "first_long mem a m = Some (hd (mem (sa_pointers a ! m)))"
    using first_long_ok [OF ok] m(2,3) j r by simp
  show ?thesis
  proof (cases "hd (mem (sa_pointers a ! m)) = ?key")
    case True
    obtain m' where m': "skip_not_smaller mem longs a r m = Some m'" "r \<le> m'" "m' \<le> m" "m' = r \<or> ?v m' < ?v r"
      "all_in (\<lambda>k. ?v r \<le> ?v k) (m' + 1) (m + 1)"
      using skip_not_smaller_ok [OF ok r m(2)] m(3) j by auto
    moreover have "scan_down mem longs a r ?key j = skip_not_smaller mem longs a r m"
      using m(1) w True by (simp add: scan_down_def)
    ultimately show ?thesis using m(3) all_in_join [OF m'(5) m(5)] by auto
  next
    case False
    then have "?v m < ?v r"
      using first_long_less [OF ok _ _ r(1)] m(2-4) r j by (simp add: order_less_le)
    then show ?thesis using m w False by (simp add: scan_down_def)
  qed
qed


lemma converge_ok:
  assumes "laid_out mem longs high n a" and r: "1 \<le> r" and u: "u \<le> n"
    and "key = hd (mem (sa_pointers a ! r))"
    and "r < i" "r \<le> j" "i \<le> j + 1" "j \<le> u"
    and "all_in (\<lambda>k. slot_value mem longs high a k \<le> slot_value mem longs high a r) (r + 1) i"
    and "all_in (\<lambda>k. slot_value mem longs high a r \<le> slot_value mem longs high a k) (j + 1) (u + 1)"
  shows "\<exists>b p. converge mem longs r key a i j = Some (b, p) \<and> laid_out mem longs high n b \<and>
    rearranged (r + 1) u a b \<and> r \<le> p \<and> p \<le> u \<and>
    all_in (\<lambda>k. slot_value mem longs high b k \<le> slot_value mem longs high b r) (r + 1) (p + 1) \<and>
    all_in (\<lambda>k. slot_value mem longs high b r \<le> slot_value mem longs high b k) (p + 1) (u + 1)"
  using assms(1,4-)
proof (induction "j + 1 - i" arbitrary: a i j rule: less_induct)
  case less
  let ?v = "slot_value mem longs high a"
  note ok = less.prems(1)
  have rn: "r \<le> n" using less.prems u by linarith
  have i: "1 \<le> i" "i \<le> n + 1" using less.prems u by linarith+
  have j: "j \<le> n" using less.prems u by linarith
  obtain i' where up: "scan_up mem longs a r key i = Some i'" "i \<le> i'" "i' \<le> n + 1" "?v r < ?v i'"
    "all_in (\<lambda>k. ?v k \<le> ?v r) i i'"
    using scan_up_ok [OF ok r rn i] less.prems(2) by blast
  obtain j' where down: "scan_down mem longs a r key j = Some j'" "r \<le> j'" "j' \<le> j" "j' = r \<or> ?v j' < ?v r"
    "all_in (\<lambda>k. ?v r \<le> ?v k) (j' + 1) (j + 1)"
    using scan_down_ok [OF ok r rn less.prems(4) j] less.prems(2) by blast
  have low: "all_in (\<lambda>k. ?v k \<le> ?v r) (r + 1) i'" by (rule all_in_join [OF less.prems(7) up(5)])
  have high: "all_in (\<lambda>k. ?v r \<le> ?v k) (j' + 1) (u + 1)" by (rule all_in_join [OF down(5) less.prems(8)])
  show ?case
  proof (cases "j' \<le> i'")
    case True
    have "j' \<noteq> i'" using down(4) up(2,4) less.prems(3) by auto
    then have "all_in (\<lambda>k. ?v k \<le> ?v r) (r + 1) (j' + 1)" using low True by (simp add: all_in_def)
    moreover have "converge mem longs r key a i j = Some (a, j')"
      using up(1) down(1) True by (subst converge.simps) simp
    ultimately show ?thesis using high ok down(2,3) less.prems(6) by auto
  next
    case False
    have ij: "1 \<le> i'" "i' \<le> n" "1 \<le> j'" "j' \<le> n" "r + 1 \<le> i'" "i' \<le> u" "r + 1 \<le> j'" "j' \<le> u"
      using False up(2) down(2,3) less.prems(3,6) i j by linarith+
    from exchange_ok [OF ok ij] obtain b where b: "exchange i' j' a = Some b" "laid_out mem longs high n b"
      "rearranged (r + 1) u a b"
      "\<And>k. slot_value mem longs high b k = ?v (if k = i' then j' else if k = j' then i' else k)"
      by blast
    have same: "sa_pointers b ! r = sa_pointers a ! r" using b(3) by (simp add: rearranged_def)
    have vr: "slot_value mem longs high b r = ?v r" by (simp add: slot_value_def same)
    have vj: "?v j' \<le> ?v r" using down(4) by auto
    have "all_in (\<lambda>k. slot_value mem longs high b k \<le> slot_value mem longs high b r) (r + 1) (i' + 1)"
      using low vj up(4) False unfolding vr by (auto simp: all_in_def b(4))
    moreover have "all_in (\<lambda>k. slot_value mem longs high b r \<le> slot_value mem longs high b k) (j' - 1 + 1) (u + 1)"
      using high vj up(4) False ij unfolding vr by (auto simp: all_in_def b(4))
    moreover have "j' - 1 + 1 - (i' + 1) < j + 1 - i" "key = hd (mem (sa_pointers b ! r))" "r < i' + 1"
      "r \<le> j' - 1" "i' + 1 \<le> j' - 1 + 1" "j' - 1 \<le> u"
      using False up(2) down(3) ij less.prems(2) same by (simp_all, linarith?)
    ultimately obtain c p where c: "converge mem longs r key b (i' + 1) (j' - 1) = Some (c, p)"
      "laid_out mem longs high n c" "rearranged (r + 1) u b c" "r \<le> p" "p \<le> u"
      "all_in (\<lambda>k. slot_value mem longs high c k \<le> slot_value mem longs high c r) (r + 1) (p + 1)"
      "all_in (\<lambda>k. slot_value mem longs high c r \<le> slot_value mem longs high c k) (p + 1) (u + 1)"
      using less.hyps [of "j' - 1" "i' + 1" b] b(2) by blast
    moreover have "converge mem longs r key a i j = converge mem longs r key b (i' + 1) (j' - 1)"
      using up(1) down(1) False b(1) by (subst converge.simps) simp
    ultimately show ?thesis using rearranged_trans [OF b(3)] by metis
  qed
qed

lemma split_interval_ok:
  assumes ok: "laid_out mem longs high n a" and r: "1 \<le> r" "r + 2 \<le> j" "j \<le> n"
  shows "\<exists>b p. split_interval mem longs r j a = Some (b, p) \<and> laid_out mem longs high n b \<and>
    rearranged r j a b \<and> r \<le> p \<and> p \<le> j \<and>
    all_in (\<lambda>k. slot_value mem longs high b k \<le> slot_value mem longs high b p) r p \<and>
    all_in (\<lambda>k. slot_value mem longs high b p \<le> slot_value mem longs high b k) (p + 1) (j + 1)"
proof -
  define m where "m = r + (j - r) div 2"
  have m: "1 \<le> m" "m \<le> n" "r \<le> m" "m \<le> j" using r by (simp_all add: m_def)
  have rn: "r \<le> n" "r \<le> j" using r by linarith+
  from exchange_ok [OF ok r(1) rn(1) m(1,2) order_refl rn(2) m(3,4)] obtain b where
    b: "exchange r m a = Some b" "laid_out mem longs high n b" "rearranged r j a b"
    by blast
  define key where "key = hd (mem (sa_pointers b ! r))"
  have key: "first_long mem b r = Some key"
    using first_long_ok [OF b(2) r(1)] rn r by (simp add: key_def)
  obtain c p where c: "converge mem longs r key b (r + 1) j = Some (c, p)" "laid_out mem longs high n c"
    "rearranged (r + 1) j b c" "r \<le> p" "p \<le> j"
    "all_in (\<lambda>k. slot_value mem longs high c k \<le> slot_value mem longs high c r) (r + 1) (p + 1)"
    "all_in (\<lambda>k. slot_value mem longs high c r \<le> slot_value mem longs high c k) (p + 1) (j + 1)"
    using converge_ok [OF b(2) r(1,3) key_def, of "r + 1" j] r by auto
  have p: "1 \<le> p" "p \<le> n" using c r by linarith+
  from exchange_ok [OF c(2) r(1) rn(1) p order_refl rn(2) c(4,5)] obtain d where
    d: "exchange r p c = Some d" "laid_out mem longs high n d" "rearranged r j c d"
    "\<And>k. slot_value mem longs high d k = slot_value mem longs high c (if k = r then p else if k = p then r else k)"
    by blast
  have dp: "slot_value mem longs high d p = slot_value mem longs high c r" by (simp add: d(4))
  have "all_in (\<lambda>k. slot_value mem longs high d k \<le> slot_value mem longs high d p) r p"
    unfolding all_in_def dp
  proof (intro allI impI)
    fix k assume k: "r \<le> k" "k < p"
    show "slot_value mem longs high d k \<le> slot_value mem longs high c r"
      using all_inD [OF c(6), of p] all_inD [OF c(6), of k] k unfolding d(4) by auto
  qed
  moreover have "all_in (\<lambda>k. slot_value mem longs high d p \<le> slot_value mem longs high d k) (p + 1) (j + 1)"
    using c(7) c(4) unfolding all_in_def dp by (auto simp: d(4))
  moreover have "rearranged r j a d"
    using b(3) rearranged_mono [OF c(3), of r j] d(3) rearranged_trans by (metis le_add1 order_refl)
  moreover have "split_interval mem longs r j a = Some (d, p)"
    using b(1) key c(1) d(1) by (simp add: split_interval_def m_def)
  ultimately show ?thesis using d(2) c(4,5) by blast
qed


section \<open>The stack\<close>

text \<open>
  The stacked intervals lie in the array and apart from each other. The \<open>k\<close>-th from the bottom has at most
  \<open>n / 2 ^ k\<close> records, because the smaller part of an interval is put on top.
\<close>

definition inside :: "nat \<Rightarrow> nat \<times> nat \<Rightarrow> bool" where
  "inside i iv \<longleftrightarrow> fst iv \<le> i \<and> i \<le> snd iv"

definition apart :: "nat \<times> nat \<Rightarrow> nat \<times> nat \<Rightarrow> bool" where
  "apart iv iw \<longleftrightarrow> snd iv < fst iw \<or> snd iw < fst iv"

fun stack_ok :: "nat \<Rightarrow> (nat \<times> nat) list \<Rightarrow> bool" where
  "stack_ok n [] \<longleftrightarrow> True"
| "stack_ok n ((l, u) # st) \<longleftrightarrow>
     1 \<le> l \<and> l \<le> u + 1 \<and> u \<le> n \<and> (u + 1 - l) * 2 ^ length st \<le> n \<and>
     (\<forall>iv \<in> set st. apart (l, u) iv) \<and> stack_ok n st"

text \<open>What is left to do: two slots out of order lie in one stacked interval, or next to each other outside all.\<close>

definition settled :: "(nat \<Rightarrow> nat) \<Rightarrow> (nat \<times> nat) list \<Rightarrow> nat \<Rightarrow> nat \<Rightarrow> bool" where
  "settled v st i k \<longleftrightarrow>
     v i \<le> v k \<or> (\<exists>iv \<in> set st. inside i iv \<and> inside k iv) \<or>
     (k = i + 1 \<and> (\<forall>iv \<in> set st. \<not> inside i iv \<and> \<not> inside k iv))"

definition ordered_but :: "(nat \<Rightarrow> nat) \<Rightarrow> nat \<Rightarrow> (nat \<times> nat) list \<Rightarrow> bool" where
  "ordered_but v n st \<longleftrightarrow> (\<forall>i k. 1 \<le> i \<longrightarrow> i < k \<longrightarrow> k \<le> n \<longrightarrow> settled v st i k)"

lemma settled_ConsE:
  assumes "settled v (tp # st) i k"
  obtains "v i \<le> v k" | "inside i tp" "inside k tp"
    | iv where "iv \<in> set st" "inside i iv" "inside k iv"
    | "k = i + 1" "\<not> inside i tp" "\<not> inside k tp" "\<forall>iv \<in> set st. \<not> inside i iv \<and> \<not> inside k iv"
proof -
  have "v i \<le> v k \<or> inside i tp \<and> inside k tp \<or> (\<exists>iv \<in> set st. inside i iv \<and> inside k iv) \<or>
      k = i + 1 \<and> \<not> inside i tp \<and> \<not> inside k tp \<and> (\<forall>iv \<in> set st. \<not> inside i iv \<and> \<not> inside k iv)"
    using assms by (simp add: settled_def)
  then show thesis using that by blast
qed

lemma apart_inside: "apart iv iw \<Longrightarrow> inside i iv \<Longrightarrow> \<not> inside i iw"
  by (auto simp: apart_def inside_def)

lemma stack_ok_top: "stack_ok n ((l, u) # st) \<Longrightarrow> inside m (l, u) \<Longrightarrow> iv \<in> set st \<Longrightarrow> \<not> inside m iv"
  using apart_inside [of "(l, u)" iv m] by simp

lemma stack_okD: "stack_ok n st \<Longrightarrow> (l, u) \<in> set st \<Longrightarrow> 1 \<le> l \<and> u \<le> n"
  by (induction n st rule: stack_ok.induct) auto

lemma ordered_but_pop:
  assumes "ordered_but v n ((l, u) # st)" "stack_ok n ((l, u) # st)" "u < l + 2"
  shows "ordered_but v n st"
  unfolding ordered_but_def
proof (intro allI impI)
  fix i k assume ik: "1 \<le> i" "i < k" "k \<le> n"
  then have "settled v ((l, u) # st) i k" using assms(1) by (simp add: ordered_but_def)
  then show "settled v st i k"
  proof (cases rule: settled_ConsE)
    case 2
    then have "k = i + 1" using ik assms(3) by (auto simp: inside_def)
    moreover have "\<forall>iv \<in> set st. \<not> inside i iv \<and> \<not> inside k iv"
      using stack_ok_top [OF assms(2) 2(1)] stack_ok_top [OF assms(2) 2(2)] by (intro ballI conjI)
    ultimately show ?thesis by (simp add: settled_def)
  qed (auto simp: settled_def)
qed

lemma ordered_but_outside:
  assumes "ordered_but v n ((l, u) # st)" "stack_ok n ((l, u) # st)"
    and "1 \<le> i" "i < k" "k \<le> n" "inside i (l, u) \<noteq> inside k (l, u)"
  shows "v i \<le> v k"
proof -
  have "settled v ((l, u) # st) i k" using assms by (simp add: ordered_but_def)
  then show ?thesis
  proof (cases rule: settled_ConsE)
    case (3 iv)
    then show ?thesis using stack_ok_top [OF assms(2)] assms(6) by blast
  qed (use assms(6) in simp_all)
qed

lemma ordered_but_split:
  assumes ord: "ordered_but v n ((l, u) # st)" and ok: "stack_ok n ((l, u) # st)"
    and out: "\<And>k. \<not> inside k (l, u) \<Longrightarrow> w k = v k"
    and ins: "\<And>k. inside k (l, u) \<Longrightarrow> \<exists>m. inside m (l, u) \<and> w k = v m"
    and p: "l \<le> p" "p \<le> u" and low: "all_in (\<lambda>k. w k \<le> w p) l p" and high: "all_in (\<lambda>k. w p \<le> w k) (p + 1) (u + 1)"
    and st': "set st' = {(l, p - 1), (p + 1, u)} \<union> set st"
  shows "ordered_but w n st'"
  unfolding ordered_but_def
proof (intro allI impI)
  fix i k assume ik: "1 \<le> i" "i < k" "k \<le> n"
  consider "inside i (l, u)" "inside k (l, u)" | "inside i (l, u)" "\<not> inside k (l, u)"
    | "\<not> inside i (l, u)" "inside k (l, u)" | "\<not> inside i (l, u)" "\<not> inside k (l, u)" by blast
  then show "settled w st' i k"
  proof cases
    case 1
    consider "k < p" | "p < i" | "i \<le> p" "p \<le> k" by linarith
    then show ?thesis
    proof cases
      case 1
      then have "inside i (l, p - 1)" "inside k (l, p - 1)"
        using \<open>inside i (l, u)\<close> \<open>inside k (l, u)\<close> ik by (auto simp: inside_def)
      then show ?thesis unfolding settled_def st' by blast
    next
      case 2
      then have "inside i (p + 1, u)" "inside k (p + 1, u)"
        using \<open>inside i (l, u)\<close> \<open>inside k (l, u)\<close> ik by (auto simp: inside_def)
      then show ?thesis unfolding settled_def st' by blast
    next
      case 3
      then have "w i \<le> w p" "w p \<le> w k"
        using 1 low high by (auto simp: all_in_def inside_def order.order_iff_strict [of i] order.order_iff_strict [of p])
      then show ?thesis by (simp add: settled_def)
    qed
  next
    case 2
    obtain m where m: "inside m (l, u)" "w i = v m" using ins [OF 2(1)] by blast
    then have "1 \<le> m" "m < k" using 2 ik stack_okD [OF ok, of l u] by (auto simp: inside_def)
    then have "v m \<le> v k" using ordered_but_outside [OF ord ok _ _ ik(3)] 2(2) m(1) by blast
    then show ?thesis using m out [OF 2(2)] by (simp add: settled_def)
  next
    case 3
    obtain m where m: "inside m (l, u)" "w k = v m" using ins [OF 3(2)] by blast
    then have "m \<le> n" "i < m" using 3 ik stack_okD [OF ok, of l u] by (auto simp: inside_def)
    then have "v i \<le> v m" using ordered_but_outside [OF ord ok ik(1)] 3(1) m(1) by blast
    then show ?thesis using m out [OF 3(1)] by (simp add: settled_def)
  next
    case 4
    have new: "\<not> inside x iv" if "\<not> inside x (l, u)" "iv \<in> {(l, p - 1), (p + 1, u)}" for x iv
      using that p by (auto simp: inside_def)
    have "settled v ((l, u) # st) i k" using ord ik by (simp add: ordered_but_def)
    then show ?thesis
    proof (cases rule: settled_ConsE)
      case (3 iv)
      then show ?thesis unfolding settled_def st' by blast
    next
      case 4
      have "\<not> inside i iv \<and> \<not> inside k iv" if "iv \<in> set st'" for iv
        using that 4(4) new [OF 4(2), of iv] new [OF 4(3), of iv] unfolding st' by blast
      then show ?thesis using 4(1) by (simp add: settled_def)
    qed (use 4 out in \<open>simp_all add: settled_def\<close>)
  qed
qed


lemma push_intervals_set: "set (push_intervals l p u st) = {(l, p - 1), (p + 1, u)} \<union> set st"
  by (auto simp: push_intervals_def)

lemma push_intervals_ok:
  assumes ok: "stack_ok n ((l, u) # st)" and p: "l \<le> p" "p \<le> u"
  shows "stack_ok n (push_intervals l p u st)"
proof -
  have b: "1 \<le> l" "u \<le> n" "(u + 1 - l) * 2 ^ length st \<le> n" "stack_ok n st" using ok by simp_all
  have room: "s * 2 ^ length st \<le> n" if "s \<le> u + 1 - l" for s
    by (rule le_trans [OF mult_le_mono1 [OF that] b(3)])
  have half: "s * 2 ^ Suc (length st) \<le> n" if "2 * s \<le> u + 1 - l" for s
    using room [OF that] by (simp add: mult.assoc mult.left_commute)
  have apart: "apart (l, p - 1) iv \<and> apart (p + 1, u) iv" if "iv \<in> set st" for iv
  proof -
    have "apart (l, u) iv" using ok that by simp
    then show ?thesis using p by (auto simp: apart_def)
  qed
  have "apart (l, p - 1) (p + 1, u)" "apart (p + 1, u) (l, p - 1)" by (auto simp: apart_def)
  moreover have "p - 1 + 1 - l = p - l" "u + 1 - (p + 1) = u - p" using b p by simp_all
  moreover have "2 * (u - p) \<le> u + 1 - l \<and> p - l \<le> u + 1 - l" if "int p - int l > int u - int p + 1"
    using that p by linarith
  moreover have "2 * (p - l) \<le> u + 1 - l \<and> u - p \<le> u + 1 - l" if "\<not> int p - int l > int u - int p + 1"
    using that p by linarith
  moreover have "p - 1 \<le> n" "l \<le> p - 1 + 1" "p + 1 \<le> u + 1" "1 \<le> p + 1" using b p by linarith+
  ultimately show ?thesis
    using b apart room half
    by (cases "int p - int l > int u - int p + 1") (auto simp: push_intervals_def simp del: power_Suc)
qed

lemma push_intervals_length:
  assumes "stack_ok n ((l, u) # st)" "l + 2 \<le> u" "n < 2 ^ 31"
  shows "length (push_intervals l p u st) \<le> QUICK_STACK"
proof -
  have "3 * 2 ^ length st \<le> (u + 1 - l) * (2 ^ length st :: nat)"
    by (rule mult_right_mono) (use assms(2) in simp_all)
  moreover have "(u + 1 - l) * 2 ^ length st \<le> n" using assms(1) by simp
  ultimately have "2 ^ length st < (2 :: nat) ^ 31" using assms(3) by linarith
  then have "length st < 31" by (rule power_less_imp_less_exp [rotated]) simp
  then show ?thesis by (simp add: push_intervals_def QUICK_STACK_def)
qed

definition stack_work :: "(nat \<times> nat) list \<Rightarrow> nat" where
  "stack_work st = (\<Sum>(l, u) \<leftarrow> st. 2 * (u + 1 - l) + 1)"

lemma stack_work_Cons [simp]: "stack_work ((l, u) # st) = 2 * (u + 1 - l) + 1 + stack_work st"
  by (simp add: stack_work_def)

lemma push_intervals_work:
  assumes "1 \<le> l" "l \<le> p" "p \<le> u"
  shows "stack_work (push_intervals l p u st) < stack_work ((l, u) # st)"
proof -
  have "p - 1 + 1 - l + (u + 1 - (p + 1)) < u + 1 - l" using assms by linarith
  then show ?thesis unfolding push_intervals_def by auto
qed

lemma quick_loop_ok:
  assumes "n < 2 ^ 31"
  shows "laid_out mem longs high n a \<Longrightarrow> stack_ok n st \<Longrightarrow> ordered_but (slot_value mem longs high a) n st \<Longrightarrow>
    \<exists>b. quick_loop mem longs st a = Some b \<and> laid_out mem longs high n b \<and> rearranged 1 n a b \<and>
      ordered_but (slot_value mem longs high b) n []"
proof (induction "stack_work st" arbitrary: st a rule: less_induct)
  case less
  show ?case
  proof (cases st)
    case Nil
    have "quick_loop mem longs [] a = Some a" by (subst quick_loop.simps) simp
    then show ?thesis using less.prems Nil by auto
  next
    case (Cons iv st')
    obtain l u where iv: "iv = (l, u)" by force
    note st = Cons [unfolded iv]
    have b: "1 \<le> l" "l \<le> u + 1" "u \<le> n" "stack_ok n st'" using less.prems(2) st by simp_all
    show ?thesis
    proof (cases "u < l + 2")
      case True
      have "ordered_but (slot_value mem longs high a) n st'"
        by (rule ordered_but_pop [OF less.prems(3,2) [unfolded st] True])
      moreover have "quick_loop mem longs st a = quick_loop mem longs st' a"
        unfolding st using True by (subst quick_loop.simps) simp
      moreover have "stack_work st' < stack_work st" unfolding st by simp
      ultimately show ?thesis using less.hyps [of st' a] less.prems(1) b(4) by simp
    next
      case False
      then have lu: "l + 2 \<le> u" by simp
      obtain c p where c: "split_interval mem longs l u a = Some (c, p)" "laid_out mem longs high n c"
        "rearranged l u a c" "l \<le> p" "p \<le> u"
        "all_in (\<lambda>k. slot_value mem longs high c k \<le> slot_value mem longs high c p) l p"
        "all_in (\<lambda>k. slot_value mem longs high c p \<le> slot_value mem longs high c k) (p + 1) (u + 1)"
        using split_interval_ok [OF less.prems(1) b(1) lu b(3)] by blast
      let ?st = "push_intervals l p u st'"
      note ok = less.prems(2) [unfolded st]
      have "ordered_but (slot_value mem longs high c) n ?st"
      proof (rule ordered_but_split [OF less.prems(3) [unfolded st] ok _ _ c(4-7) push_intervals_set])
        show "slot_value mem longs high c k = slot_value mem longs high a k" if "\<not> inside k (l, u)" for k
          using rearranged_value(1) [OF c(3)] that by (auto simp: inside_def)
        show "\<exists>m. inside m (l, u) \<and> slot_value mem longs high c k = slot_value mem longs high a m"
          if "inside k (l, u)" for k
          using rearranged_value(2) [OF c(3), of k] that by (auto simp: inside_def)
      qed
      moreover have "stack_work ?st < stack_work st"
        unfolding st by (rule push_intervals_work [OF b(1) c(4,5)])
      moreover have "stack_ok n ?st" by (rule push_intervals_ok [OF ok c(4,5)])
      ultimately obtain d where "quick_loop mem longs ?st c = Some d" "laid_out mem longs high n d"
        "rearranged 1 n c d" "ordered_but (slot_value mem longs high d) n []"
        using less.hyps [of ?st c] c(2) by blast
      moreover have "quick_loop mem longs st a = quick_loop mem longs ?st c"
        unfolding st using lu c(1) push_intervals_length [OF ok lu assms, of p]
        by (subst quick_loop.simps) simp
      moreover have "rearranged 1 n a c" by (rule rearranged_mono [OF c(3) b(1,3)])
      ultimately show ?thesis using rearranged_trans by metis
    qed
  qed
qed

lemma quick_ok:
  assumes ok: "laid_out mem longs high n a" and n: "n < 2 ^ 31"
  shows "\<exists>b. quick mem n 1 longs a = Some b \<and> laid_out mem longs high n b \<and> rearranged 1 n a b \<and>
    ordered_but (slot_value mem longs high b) n []"
proof -
  have "ordered_but (slot_value mem longs high a) n [(1, n)]"
    by (simp add: ordered_but_def settled_def inside_def)
  then show ?thesis using quick_loop_ok [OF n ok, of "[(1, n)]"] by (simp add: quick_def)
qed

section \<open>The last pass\<close>

lemma order_pairs_ok:
  assumes "laid_out mem longs high n a" "1 \<le> j" "j \<le> n + 1"
    and "\<And>i k. 1 \<le> i \<Longrightarrow> i < k \<Longrightarrow> k \<le> n \<Longrightarrow>
      slot_value mem longs high a i \<le> slot_value mem longs high a k \<or> j \<le> i \<and> k = i + 1"
  shows "\<exists>b. order_pairs mem longs (n + 1) j a = Some b \<and> laid_out mem longs high n b \<and> rearranged 1 n a b \<and>
    (\<forall>i k. 1 \<le> i \<longrightarrow> i < k \<longrightarrow> k \<le> n \<longrightarrow> slot_value mem longs high b i \<le> slot_value mem longs high b k)"
  using assms
proof (induction "n + 1 - j" arbitrary: a j rule: less_induct)
  case less
  let ?v = "slot_value mem longs high a"
  note ok = less.prems(1) and pairs = less.prems(4)
  show ?case
  proof (cases "j = n + 1")
    case True
    have "order_pairs mem longs (n + 1) j a = Some a" by (subst order_pairs.simps) (simp add: True)
    then show ?thesis using ok pairs True by fastforce
  next
    case False
    then have j: "1 \<le> j" "j \<le> n" "j + 1 \<le> n + 1" using less.prems by simp_all
    let ?w = "hd (mem (sa_pointers a ! j))" and ?x = "hd (mem (sa_pointers a ! (j + 1)))"
    have first: "first_long mem a j = Some ?w" "first_long mem a (j + 1) = Some ?x"
      using first_long_ok [OF ok] j by simp_all
    obtain d where d: "compare_slots mem longs a j (j + 1) = Some d" "orders d (?v j) (?v (j + 1))"
      using compare_slots_ok [OF ok, of j "j + 1"] j by auto
    have less': "n + 1 - (j + 1) < n + 1 - j" using j by simp
    show ?thesis
    proof (cases "?v (j + 1) < ?v j")
      case True
      then have "?x \<le> ?w" using first_long_less [OF ok j(1) _ _ j(3)] j by fastforce
      moreover obtain p q where "d = Some (p, q)" "q < p"
        using d(2) True by (auto simp: orders_def split: option.splits)
      moreover have jn: "j + 1 \<le> n" using True below_high [OF ok j(1,2)] j by (cases "j = n") auto
      have bounds: "1 \<le> j + 1" "1 \<le> j" "j \<le> n" "1 \<le> j + 1" "j + 1 \<le> n" using j jn by simp_all
      from exchange_ok [OF ok j(1,2) bounds(1) jn bounds(2-5)] obtain b where b: "exchange j (j + 1) a = Some b"
        "laid_out mem longs high n b" "rearranged 1 n a b"
        "\<And>k. slot_value mem longs high b k = ?v (if k = j then j + 1 else if k = j + 1 then j else k)"
        by blast
      ultimately have step: "order_pairs mem longs (n + 1) j a = order_pairs mem longs (n + 1) (j + 1) b"
        using first d(1) j by (subst order_pairs.simps) simp
      have "slot_value mem longs high b i \<le> slot_value mem longs high b k \<or> j + 1 \<le> i \<and> k = i + 1"
        if "1 \<le> i" "i < k" "k \<le> n" for i k
        using pairs [of i k] pairs [of i j] pairs [of i "j + 1"] pairs [of j k] pairs [of "j + 1" k]
          that True jn j unfolding b(4) by auto
      then obtain c where "order_pairs mem longs (n + 1) (j + 1) b = Some c" "laid_out mem longs high n c"
        "rearranged 1 n b c"
        "\<forall>i k. 1 \<le> i \<longrightarrow> i < k \<longrightarrow> k \<le> n \<longrightarrow> slot_value mem longs high c i \<le> slot_value mem longs high c k"
        using less.hyps [OF less' b(2)] j by auto
      then show ?thesis using step rearranged_trans [OF b(3)] by auto
    next
      case False
      then have step: "order_pairs mem longs (n + 1) j a = order_pairs mem longs (n + 1) (j + 1) a"
        using first d j by (subst order_pairs.simps) (auto simp: orders_def split: option.splits)
      have "?v i \<le> ?v k \<or> j + 1 \<le> i \<and> k = i + 1" if "1 \<le> i" "i < k" "k \<le> n" for i k
        using pairs [OF that] False by (cases "i = j") auto
      then show ?thesis using less.hyps [OF less' ok] j step by auto
    qed
  qed
qed


section \<open>The sort\<close>

text \<open>C12. The sort returns for every set of fewer than \<open>2 ^ 31\<close> records that compare below the guard: it
  reads and writes inside the records and the array and never stacks more than 50 intervals. The pointers
  are rearranged so that the records, compared as strings of longwords, ascend, and every record points
  back to its slot.\<close>

theorem sort_correct:
  assumes "a = \<lparr>sa_pointers = low # rs, sa_back = slots\<rparr>" and "length rs < 2 ^ 31"
    and "\<forall>p \<in> set rs. below_guard mem longs high p"
    and "\<forall>k < length rs. slots (rs ! k) = k + 1"
  shows "\<exists>ss slots'. sort_records mem longs high a =
      Some \<lparr>sa_pointers = low # ss @ [high], sa_back = slots'\<rparr> \<and>
    mset ss = mset rs \<and>
    sorted_wrt (\<lambda>p q. rval (longs - 1) (mem p) \<le> rval (longs - 1) (mem q)) ss \<and>
    (\<forall>k < length ss. slots' (ss ! k) = k + 1)"
proof -
  define n where "n = length rs"
  define a' where "a' = a\<lparr>sa_pointers := sa_pointers a @ [high]\<rparr>"
  have ptr: "sa_pointers a' = low # rs @ [high]" "sa_back a' = slots" by (simp_all add: a'_def assms(1))
  have rec: "sa_pointers a' ! i = rs ! (i - 1) \<and> i - 1 < length rs" if "1 \<le> i" "i \<le> n" for i
    using that by (cases i) (simp_all add: ptr nth_append n_def)
  have ok: "laid_out mem longs high n a'"
    unfolding laid_out_def
  proof (intro conjI allI impI)
    fix i assume i: "1 \<le> i" "i \<le> n"
    show "below_guard mem longs high (sa_pointers a' ! i)" using rec [OF i] assms(3) by simp
    show "sa_back a' (sa_pointers a' ! i) = i" using rec [OF i] assms(4) i by (simp add: ptr)
  qed (simp_all add: ptr n_def nth_append)
  obtain b where b: "quick mem n 1 longs a' = Some b" "laid_out mem longs high n b" "rearranged 1 n a' b"
    "ordered_but (slot_value mem longs high b) n []"
    using quick_ok [OF ok] assms(2) by (auto simp: n_def)
  obtain c where c: "order_pairs mem longs (n + 1) 1 b = Some c" "laid_out mem longs high n c" "rearranged 1 n b c"
    "\<forall>i k. 1 \<le> i \<longrightarrow> i < k \<longrightarrow> k \<le> n \<longrightarrow> slot_value mem longs high c i \<le> slot_value mem longs high c k"
    using order_pairs_ok [OF b(2), of 1] b(4) by (auto simp: ordered_but_def settled_def)
  have ac: "rearranged 1 n a' c" by (rule rearranged_trans [OF b(3) c(3)])
  define ss where "ss = butlast (tl (sa_pointers c))"
  have len: "length (sa_pointers c) = n + 2" using c(2) by (simp add: laid_out_def)
  have "sa_pointers c ! 0 = low" "sa_pointers c ! (n + 1) = high"
    using ac c(2) ptr by (simp_all add: rearranged_def laid_out_def)
  then have shape: "sa_pointers c = low # ss @ [high]"
    using len unfolding ss_def
    by (cases "sa_pointers c"; cases "tl (sa_pointers c)" rule: rev_cases) (auto simp: nth_append)
  have slen: "length ss = n" using len shape by simp
  have nth: "sa_pointers c ! (k + 1) = ss ! k" if "k < n" for k
    using that slen by (simp add: shape nth_append)
  have "mset (low # ss @ [high]) = mset (low # rs @ [high])"
    using ac unfolding rearranged_def shape ptr by simp
  then have perm: "mset ss = mset rs" by simp
  have val: "slot_value mem longs high c (k + 1) = rval (longs - 1) (mem (ss ! k))" if "k < n" for k
    using laid_out_neq(1) [OF c(2), of "k + 1"] that by (simp add: slot_value_def key_value_def nth [simplified])
  have "sorted_wrt (\<lambda>p q. rval (longs - 1) (mem p) \<le> rval (longs - 1) (mem q)) ss"
    unfolding sorted_wrt_iff_nth_less
  proof (intro allI impI)
    fix i k assume "i < k" "k < length ss"
    then show "rval (longs - 1) (mem (ss ! i)) \<le> rval (longs - 1) (mem (ss ! k))"
      using c(4) [rule_format, of "i + 1" "k + 1"] val [of i] val [of k] slen by simp
  qed
  moreover have "\<forall>k < length ss. sa_back c (ss ! k) = k + 1"
  proof (intro allI impI)
    fix k assume "k < length ss"
    then have k: "1 \<le> k + 1" "k + 1 \<le> n" "k < n" using slen by simp_all
    show "sa_back c (ss ! k) = k + 1"
      using c(2) k(1,2) unfolding laid_out_def nth [OF k(3), symmetric] by blast
  qed
  moreover have "sort_records mem longs high a = Some c"
    using b(1) c(1) unfolding sort_records_def a'_def by (simp add: Let_def assms(1) n_def)
  moreover have "c = \<lparr>sa_pointers = low # ss @ [high], sa_back = sa_back c\<rparr>" using shape by simp
  ultimately show ?thesis using perm by metis
qed

text \<open>Four records of three longwords with a guard that is shorter.\<close>

definition sort_example :: sort_mem where
  "sort_example p = (if p = 9 then [0xFFFFFFFF] else if p = 1 then [4, 1, 7] else if p = 2 then [3, 2, 7] else [3, 0, 9])"

theorem sort_correct_witness:
  "\<exists>ss slots'. sort_records sort_example 4 9 \<lparr>sa_pointers = [0, 1, 2, 3, 4], sa_back = \<lambda>p. p\<rparr> =
      Some \<lparr>sa_pointers = 0 # ss @ [9], sa_back = slots'\<rparr> \<and>
    mset ss = {#1, 2, 3, 4#} \<and>
    sorted_wrt (\<lambda>p q. rval 3 (sort_example p) \<le> rval 3 (sort_example q)) ss \<and>
    (\<forall>k < length ss. slots' (ss ! k) = k + 1)"
proof -
  have "\<forall>p \<in> set [1, 2, 3, 4]. below_guard sort_example 4 9 p"
    by (simp add: below_guard_def sort_example_def numeral_3_eq_3)
  moreover have "\<forall>k < length [1, 2, 3, 4 :: nat]. (\<lambda>p. p) ([1, 2, 3, 4] ! k) = k + 1"
    by (simp add: All_less_Suc)
  ultimately show ?thesis using sort_correct [OF refl, of "[1, 2, 3, 4]" sort_example 4 9 "\<lambda>p. p" 0] by simp
qed

end
