(* ===== verification/Xdr.thy ===== *)
theory Xdr
  imports Fb_Prelude "HOL-Library.Monad_Syntax"
begin

unbundle bit_operations_syntax

text \<open>
  \<open>remote/xdr.cpp\<close>, \<open>remote/xdr.h\<close>: the external data representation of the wire protocol. A routine encodes a
  value into a stream, decodes it from one or frees what it points to, as \<open>x_op\<close> says. It reaches the stream
  through the table of functions \<open>x_ops\<close>; the table of this file, \<open>mem_ops\<close>, is for streams in memory.

  A routine returns its C result (a Boolean), the stream and the value after it; \<open>None\<close> is an access outside a
  block of memory. A \<open>SLONG\<close> or \<open>ULONG\<close> is a word of 32 bits, a double or a 64-bit integer the word of its bits,
  its two halves as they lie on a little-endian processor. The contents of local buffers that the code sends
  without setting them are the parameter \<open>trash\<close>.
\<close>

section \<open>Streams\<close>

type_synonym u32 = "32 word"
type_synonym u64 = "64 word"

datatype xdr_op = XDR_ENCODE | XDR_DECODE | XDR_FREE

text \<open>
  The functions of a stream. \<open>x_getlong\<close> and \<open>x_getbytes\<close> give what they read, or \<open>None\<close> with the result
  FALSE; the argument of type \<open>nat\<close> is the size of the block that receives the bytes.
\<close>

record 's xdr_ops =
  x_getlong :: "'s \<Rightarrow> (u32 option \<times> 's) option"
  x_putlong :: "'s \<Rightarrow> u32 \<Rightarrow> (bool \<times> 's) option"
  x_getbytes :: "'s \<Rightarrow> nat \<Rightarrow> u32 \<Rightarrow> (u8 list option \<times> 's) option"
  x_putbytes :: "'s \<Rightarrow> u8 list \<Rightarrow> u32 \<Rightarrow> (bool \<times> 's) option"

type_synonym ('s, 'a) routine = "'s xdr_ops \<Rightarrow> xdr_op \<Rightarrow> 's \<Rightarrow> 'a \<Rightarrow> (bool \<times> 's \<times> 'a) option"

text \<open>Network order.\<close>

definition htonl_bytes :: "u32 \<Rightarrow> u8 list" where
  "htonl_bytes w = [ucast (drop_bit 24 w), ucast (drop_bit 16 w), ucast (drop_bit 8 w), ucast w]"

definition ntohl_bytes :: "u8 list \<Rightarrow> u32" where
  "ntohl_bytes b =
     (push_bit 24 (ucast (b ! 0)) OR push_bit 16 (ucast (b ! 1))) OR (push_bit 8 (ucast (b ! 2)) OR ucast (b ! 3))"

section \<open>Streams in memory\<close>

text \<open>
  \<open>x_base\<close> is the memory from the address \<open>x_base\<close> to the end of its block, \<open>x_private\<close> the offset of the next
  byte. \<open>x_handy\<close>, an \<open>int\<close>, counts the bytes left.
\<close>

record mem_stream =
  x_base :: "u8 list"
  x_private :: nat
  x_handy :: int

definition slong :: "int \<Rightarrow> int" where
  "slong i = (i + 2 ^ 31) mod 2 ^ 32 - 2 ^ 31"

definition xdrmem_create :: "u8 list \<Rightarrow> u32 \<Rightarrow> mem_stream" where
  "xdrmem_create addr len = \<lparr>x_base = addr, x_private = 0, x_handy = sint len\<rparr>"

text \<open>\<open>memcpy\<close> takes a negative count for a huge one.\<close>

definition mem_getbytes :: "mem_stream \<Rightarrow> nat \<Rightarrow> u32 \<Rightarrow> (u8 list option \<times> mem_stream) option" where
  "mem_getbytes xdrs buff count =
     (let bytecount = sint count;
          handy = slong (x_handy xdrs - bytecount)
      in if handy < 0 then Some (None, xdrs\<lparr>x_handy := slong (handy + bytecount)\<rparr>)
         else if bytecount \<noteq> 0
         then
           if bytecount < 0 \<or> length (x_base xdrs) < x_private xdrs + nat bytecount \<or> buff < nat bytecount
           then None
           else Some (Some (take (nat bytecount) (drop (x_private xdrs) (x_base xdrs))),
             xdrs\<lparr>x_handy := handy, x_private := x_private xdrs + nat bytecount\<rparr>)
         else Some (Some [], xdrs\<lparr>x_handy := handy\<rparr>))"

definition mem_putbytes :: "mem_stream \<Rightarrow> u8 list \<Rightarrow> u32 \<Rightarrow> (bool \<times> mem_stream) option" where
  "mem_putbytes xdrs buff count =
     (let bytecount = sint count;
          handy = slong (x_handy xdrs - bytecount)
      in if handy < 0 then Some (False, xdrs\<lparr>x_handy := slong (handy + bytecount)\<rparr>)
         else if bytecount \<noteq> 0
         then
           if bytecount < 0 \<or> length (x_base xdrs) < x_private xdrs + nat bytecount \<or> length buff < nat bytecount
           then None
           else Some (True,
             xdrs\<lparr>x_base := take (x_private xdrs) (x_base xdrs) @ take (nat bytecount) buff @
                 drop (x_private xdrs + nat bytecount) (x_base xdrs),
               x_handy := handy, x_private := x_private xdrs + nat bytecount\<rparr>)
         else Some (True, xdrs\<lparr>x_handy := handy\<rparr>))"

definition mem_getlong :: "mem_stream \<Rightarrow> (u32 option \<times> mem_stream) option" where
  "mem_getlong xdrs =
     (let handy = slong (x_handy xdrs - 4) in
      if handy < 0 then Some (None, xdrs\<lparr>x_handy := slong (handy + 4)\<rparr>)
      else if length (x_base xdrs) < x_private xdrs + 4 then None
      else Some (Some (ntohl_bytes (take 4 (drop (x_private xdrs) (x_base xdrs)))),
        xdrs\<lparr>x_handy := handy, x_private := x_private xdrs + 4\<rparr>))"

definition mem_putlong :: "mem_stream \<Rightarrow> u32 \<Rightarrow> (bool \<times> mem_stream) option" where
  "mem_putlong xdrs lp =
     (let handy = slong (x_handy xdrs - 4) in
      if handy < 0 then Some (False, xdrs\<lparr>x_handy := slong (handy + 4)\<rparr>)
      else if length (x_base xdrs) < x_private xdrs + 4 then None
      else Some (True,
        xdrs\<lparr>x_base := take (x_private xdrs) (x_base xdrs) @ htonl_bytes lp @ drop (x_private xdrs + 4) (x_base xdrs),
          x_handy := handy, x_private := x_private xdrs + 4\<rparr>))"

definition mem_ops :: "mem_stream xdr_ops" where
  "mem_ops = \<lparr>x_getlong = mem_getlong, x_putlong = mem_putlong, x_getbytes = mem_getbytes, x_putbytes = mem_putbytes\<rparr>"

definition mem_getpostn :: "mem_stream \<Rightarrow> u32" where
  "mem_getpostn xdrs = of_nat (x_private xdrs)"

definition mem_setpostn :: "mem_stream \<Rightarrow> u32 \<Rightarrow> bool \<times> mem_stream" where
  "mem_setpostn xdrs bytecount =
     (let len = word_of_int (int (x_private xdrs) + x_handy xdrs) in
      if len < bytecount then (False, xdrs)
      else (True, xdrs\<lparr>x_handy := sint (len - bytecount), x_private := unat bytecount\<rparr>))"

section \<open>Numbers\<close>

definition put_value :: "(bool \<times> 's) option \<Rightarrow> 'a \<Rightarrow> (bool \<times> 's \<times> 'a) option" where
  "put_value r v = map_option (\<lambda>(b, s). (b, s, v)) r"

definition get_value :: "(u32 option \<times> 's) option \<Rightarrow> (u32 \<Rightarrow> 'a) \<Rightarrow> 'a \<Rightarrow> (bool \<times> 's \<times> 'a) option" where
  "get_value r f old =
     map_option (\<lambda>(w, s). case w of Some x \<Rightarrow> (True, s, f x) | None \<Rightarrow> (False, s, old)) r"

definition xdr_long :: "('s, u32) routine" where
  "xdr_long x_ops x_op xdrs ip =
     (case x_op of
        XDR_ENCODE \<Rightarrow> put_value (x_putlong x_ops xdrs ip) ip
      | XDR_DECODE \<Rightarrow> get_value (x_getlong x_ops xdrs) (\<lambda>temp. temp) ip
      | XDR_FREE \<Rightarrow> Some (True, xdrs, ip))"

definition xdr_u_long :: "('s, u32) routine" where
  "xdr_u_long x_ops x_op xdrs ip =
     (case x_op of
        XDR_ENCODE \<Rightarrow> put_value (x_putlong x_ops xdrs ip) ip
      | XDR_DECODE \<Rightarrow> get_value (x_getlong x_ops xdrs) (\<lambda>temp. temp) ip
      | XDR_FREE \<Rightarrow> Some (True, xdrs, ip))"

definition xdr_int :: "('s, u32) routine" where
  "xdr_int x_ops x_op xdrs ip =
     (case x_op of
        XDR_ENCODE \<Rightarrow> put_value (x_putlong x_ops xdrs ip) ip
      | XDR_DECODE \<Rightarrow> get_value (x_getlong x_ops xdrs) (\<lambda>temp. temp) ip
      | XDR_FREE \<Rightarrow> Some (True, xdrs, ip))"

definition xdr_u_int :: "('s, u32) routine" where
  "xdr_u_int x_ops x_op xdrs ip =
     (case x_op of
        XDR_ENCODE \<Rightarrow> put_value (x_putlong x_ops xdrs ip) ip
      | XDR_DECODE \<Rightarrow> get_value (x_getlong x_ops xdrs) (\<lambda>temp. temp) ip
      | XDR_FREE \<Rightarrow> Some (True, xdrs, ip))"

definition xdr_enum :: "('s, u32) routine" where
  "xdr_enum x_ops x_op xdrs ip =
     (case x_op of
        XDR_ENCODE \<Rightarrow> put_value (x_putlong x_ops xdrs ip) ip
      | XDR_DECODE \<Rightarrow> get_value (x_getlong x_ops xdrs) (\<lambda>temp. temp) ip
      | XDR_FREE \<Rightarrow> Some (True, xdrs, ip))"

definition xdr_bool :: "('s, u32) routine" where
  "xdr_bool x_ops x_op xdrs bp =
     (case x_op of
        XDR_ENCODE \<Rightarrow> put_value (x_putlong x_ops xdrs bp) bp
      | XDR_DECODE \<Rightarrow> get_value (x_getlong x_ops xdrs) (\<lambda>temp. temp) bp
      | XDR_FREE \<Rightarrow> Some (True, xdrs, bp))"

definition xdr_float :: "('s, u32) routine" where
  "xdr_float x_ops x_op xdrs ip =
     (case x_op of
        XDR_ENCODE \<Rightarrow> put_value (x_putlong x_ops xdrs ip) ip
      | XDR_DECODE \<Rightarrow> get_value (x_getlong x_ops xdrs) (\<lambda>temp. temp) ip
      | XDR_FREE \<Rightarrow> Some (True, xdrs, ip))"

definition xdr_short :: "('s, u16) routine" where
  "xdr_short x_ops x_op xdrs ip =
     (case x_op of
        XDR_ENCODE \<Rightarrow> put_value (x_putlong x_ops xdrs (scast ip)) ip
      | XDR_DECODE \<Rightarrow> get_value (x_getlong x_ops xdrs) ucast ip
      | XDR_FREE \<Rightarrow> Some (True, xdrs, ip))"

definition xdr_u_short :: "('s, u16) routine" where
  "xdr_u_short x_ops x_op xdrs ip =
     (case x_op of
        XDR_ENCODE \<Rightarrow> put_value (x_putlong x_ops xdrs (ucast ip)) ip
      | XDR_DECODE \<Rightarrow> get_value (x_getlong x_ops xdrs) ucast ip
      | XDR_FREE \<Rightarrow> Some (True, xdrs, ip))"

text \<open>The routines of two longs put the high one first; \<open>&&\<close> and \<open>||\<close> stop at the first failure.\<close>

definition temp_long :: "u64 \<Rightarrow> nat \<Rightarrow> u32" where
  "temp_long v i = ucast (drop_bit (32 * i) v)"

definition temp_int64 :: "u32 \<Rightarrow> u32 \<Rightarrow> u64" where
  "temp_int64 high low = push_bit 32 (ucast high) OR ucast low"

definition xdr_hyper :: "('s, u64) routine" where
  "xdr_hyper x_ops x_op xdrs pi64 =
     (case x_op of
        XDR_ENCODE \<Rightarrow>
          do { (b, xdrs) \<leftarrow> x_putlong x_ops xdrs (temp_long pi64 1);
               if b then put_value (x_putlong x_ops xdrs (temp_long pi64 0)) pi64 else Some (False, xdrs, pi64) }
      | XDR_DECODE \<Rightarrow>
          do { (h, xdrs) \<leftarrow> x_getlong x_ops xdrs;
               case h of
                 None \<Rightarrow> Some (False, xdrs, pi64)
               | Some high \<Rightarrow> get_value (x_getlong x_ops xdrs) (temp_int64 high) pi64 }
      | XDR_FREE \<Rightarrow> Some (True, xdrs, pi64))"

definition xdr_double :: "('s, u64) routine" where
  "xdr_double x_ops x_op xdrs ip =
     (case x_op of
        XDR_ENCODE \<Rightarrow>
          do { (b, xdrs) \<leftarrow> x_putlong x_ops xdrs (temp_long ip 1);
               if b then put_value (x_putlong x_ops xdrs (temp_long ip 0)) ip else Some (False, xdrs, ip) }
      | XDR_DECODE \<Rightarrow>
          do { (h, xdrs) \<leftarrow> x_getlong x_ops xdrs;
               case h of
                 None \<Rightarrow> Some (False, xdrs, ip)
               | Some high \<Rightarrow> get_value (x_getlong x_ops xdrs) (temp_int64 high) ip }
      | XDR_FREE \<Rightarrow> Some (True, xdrs, ip))"


section \<open>Bytes and strings\<close>

definition pad :: "u32 \<Rightarrow> u32" where
  "pad len = (4 - len) AND 3"

text \<open>What a block holds after \<open>bytes\<close> have been copied to its start.\<close>

definition copied :: "u8 list \<Rightarrow> u8 list \<Rightarrow> u8 list" where
  "copied bytes block = bytes @ drop (length bytes) block"

definition block_of :: "u8 list option \<Rightarrow> u8 list" where
  "block_of p = (case p of None \<Rightarrow> [] | Some b \<Rightarrow> b)"

text \<open>The last step of the routines: bytes up to a multiple of four are written, or read and thrown away.\<close>

definition put_pad :: "'s xdr_ops \<Rightarrow> 's \<Rightarrow> u8 list \<Rightarrow> u32 \<Rightarrow> 'a \<Rightarrow> (bool \<times> 's \<times> 'a) option" where
  "put_pad x_ops xdrs filler len v =
     (if pad len \<noteq> 0 then put_value (x_putbytes x_ops xdrs filler (pad len)) v else Some (True, xdrs, v))"

definition get_pad :: "'s xdr_ops \<Rightarrow> 's \<Rightarrow> u32 \<Rightarrow> 'a \<Rightarrow> (bool \<times> 's \<times> 'a) option" where
  "get_pad x_ops xdrs len v =
     (if pad len \<noteq> 0
      then map_option (\<lambda>(b, xdrs). (b \<noteq> None, xdrs, v)) (x_getbytes x_ops xdrs 4 (pad len))
      else Some (True, xdrs, v))"

definition xdr_opaque :: "u8 list \<Rightarrow> u32 \<Rightarrow> ('s, u8 list) routine" where
  "xdr_opaque trash len x_ops x_op xdrs p =
     (case x_op of
        XDR_ENCODE \<Rightarrow>
          do { (b, xdrs) \<leftarrow> x_putbytes x_ops xdrs p len;
               if b then put_pad x_ops xdrs trash len p else Some (False, xdrs, p) }
      | XDR_DECODE \<Rightarrow>
          do { (b, xdrs) \<leftarrow> x_getbytes x_ops xdrs (length p) len;
               case b of
                 None \<Rightarrow> Some (False, xdrs, p)
               | Some bytes \<Rightarrow> get_pad x_ops xdrs len (copied bytes p) }
      | XDR_FREE \<Rightarrow> Some (True, xdrs, p))"

text \<open>
  \<open>*bpp\<close>, \<open>*lp\<close> and the static array \<open>zeros\<close>, which the routine pads with and reads the padding into. \<open>XDR_ALLOC\<close>
  does not fail and the block is taken to be zero.
\<close>

definition xdr_bytes :: "u32 \<Rightarrow> ('s, u8 list option \<times> u32 \<times> u8 list) routine" where
  "xdr_bytes maxlength x_ops x_op xdrs v =
     (case v of (bpp, lp, zeros) \<Rightarrow>
      case x_op of
        XDR_ENCODE \<Rightarrow>
          if sint maxlength < sint lp then Some (False, xdrs, v)
          else do { (b, xdrs) \<leftarrow> x_putlong x_ops xdrs lp;
                    if b
                    then do { (b, xdrs) \<leftarrow> x_putbytes x_ops xdrs (block_of bpp) lp;
                              if b then put_pad x_ops xdrs zeros lp v else Some (False, xdrs, v) }
                    else Some (False, xdrs, v) }
      | XDR_DECODE \<Rightarrow>
          let block = (case bpp of None \<Rightarrow> replicate (unat (maxlength + 1)) 0 | Some b \<Rightarrow> b);
              bpp = Some block
          in do { (l, xdrs) \<leftarrow> x_getlong x_ops xdrs;
                  case l of
                    None \<Rightarrow> Some (False, xdrs, (bpp, lp, zeros))
                  | Some len \<Rightarrow>
                      if sint maxlength < sint len then Some (False, xdrs, (bpp, lp, zeros))
                      else do { (b, xdrs) \<leftarrow> x_getbytes x_ops xdrs (length block) len;
                                case b of
                                  None \<Rightarrow> Some (False, xdrs, (bpp, lp, zeros))
                                | Some bytes \<Rightarrow>
                                    let bpp = Some (copied bytes block);
                                        len = pad len
                                    in if len \<noteq> 0
                                       then do { (b, xdrs) \<leftarrow> x_getbytes x_ops xdrs (length zeros) len;
                                                 case b of
                                                   None \<Rightarrow> Some (False, xdrs, (bpp, lp, zeros))
                                                 | Some bytes \<Rightarrow> Some (True, xdrs, (bpp, lp, copied bytes zeros)) }
                                       else Some (True, xdrs, (bpp, len, zeros)) } }
      | XDR_FREE \<Rightarrow> Some (True, xdrs, (None, lp, zeros)))"

definition strlen :: "u8 list \<Rightarrow> nat option" where
  "strlen s = (if 0 \<in> set s then Some (length (takeWhile (\<lambda>c. c \<noteq> 0) s)) else None)"

definition xdr_string :: "u8 list \<Rightarrow> u32 \<Rightarrow> ('s, u8 list option) routine" where
  "xdr_string trash maxlength x_ops x_op xdrs sp =
     (case x_op of
        XDR_ENCODE \<Rightarrow>
          do { n \<leftarrow> strlen (block_of sp);
               let len = of_nat n;
               if maxlength < len then Some (False, xdrs, sp)
               else do { (b, xdrs) \<leftarrow> x_putlong x_ops xdrs len;
                         if b
                         then do { (b, xdrs) \<leftarrow> x_putbytes x_ops xdrs (block_of sp) len;
                                   if b then put_pad x_ops xdrs trash len sp else Some (False, xdrs, sp) }
                         else Some (False, xdrs, sp) } }
      | XDR_DECODE \<Rightarrow>
          let block = (case sp of None \<Rightarrow> replicate (unat (maxlength + 1)) 0 | Some b \<Rightarrow> b) in
          do { (l, xdrs) \<leftarrow> x_getlong x_ops xdrs;
               case l of
                 None \<Rightarrow> Some (False, xdrs, Some block)
               | Some len \<Rightarrow>
                   if maxlength < len then Some (False, xdrs, Some block)
                   else do { (b, xdrs) \<leftarrow> x_getbytes x_ops xdrs (length block) len;
                             case b of
                               None \<Rightarrow> Some (False, xdrs, Some block)
                             | Some bytes \<Rightarrow>
                                 if unat len < length block
                                 then get_pad x_ops xdrs len (Some ((copied bytes block)[unat len := 0]))
                                 else None } }
      | XDR_FREE \<Rightarrow> Some (True, xdrs, None))"

definition MAXSTRING_FOR_WRAPSTRING :: u32 where "MAXSTRING_FOR_WRAPSTRING = 65535"

definition xdr_wrapstring :: "u8 list \<Rightarrow> ('s, u8 list option) routine" where
  "xdr_wrapstring trash = xdr_string trash MAXSTRING_FOR_WRAPSTRING"

text \<open>A discriminated union: the first choice with the value, or the default.\<close>

fun union_choice :: "u32 \<Rightarrow> (u32 \<times> ('s, 'a) routine) list \<Rightarrow> ('s, 'a) routine option \<Rightarrow> ('s, 'a) routine option" where
  "union_choice d [] dfault = dfault"
| "union_choice d ((v, proc) # choices) dfault = (if d = v then Some proc else union_choice d choices dfault)"

definition xdr_union ::
  "(u32 \<times> ('s, 'a) routine) list \<Rightarrow> ('s, 'a) routine option \<Rightarrow> ('s, u32 \<times> 'a) routine" where
  "xdr_union choices dfault x_ops x_op xdrs v =
     (case v of (dscmp, unp) \<Rightarrow>
      do { (b, xdrs, dscmp) \<leftarrow> xdr_int x_ops x_op xdrs dscmp;
           if b
           then case union_choice dscmp choices dfault of
               None \<Rightarrow> Some (False, xdrs, (dscmp, unp))
             | Some proc \<Rightarrow>
                 map_option (\<lambda>(b, xdrs, unp). (b, xdrs, (dscmp, unp))) (proc x_ops x_op xdrs unp)
           else Some (False, xdrs, (dscmp, unp)) })"

section \<open>What a stream promises\<close>

lemma htonl_length [simp]: "length (htonl_bytes w) = 4"
  by (simp add: htonl_bytes_def)

lemma ntohl_htonl [simp]: "ntohl_bytes (htonl_bytes w) = w"
proof (rule bit_word_eqI)
  fix n
  assume "n < LENGTH(32)"
  then consider "n < 8" | "8 \<le> n" "n < 16" | "16 \<le> n" "n < 24" | "24 \<le> n" "n < 32" by fastforce
  then show "bit (ntohl_bytes (htonl_bytes w)) n = bit w n"
    by cases (auto simp: ntohl_bytes_def htonl_bytes_def bit_simps)
qed

text \<open>
  The bytes already written or read, and those behind them, as many as the stream has room for; a routine
  that finds too little room returns FALSE and leaves the stream as it was.
\<close>

locale xdr_stream =
  fixes ops :: "'s xdr_ops" and wf :: "'s \<Rightarrow> bool" and passed :: "'s \<Rightarrow> u8 list" and rest :: "'s \<Rightarrow> u8 list"
  assumes getlong: "wf s \<Longrightarrow> \<exists>s'. wf s' \<and> x_getlong ops s =
      Some (if 4 \<le> length (rest s) then Some (ntohl_bytes (take 4 (rest s))) else None, s') \<and>
      (if 4 \<le> length (rest s) then passed s' = passed s @ take 4 (rest s) \<and> rest s' = drop 4 (rest s) else s' = s)"
    and putlong: "wf s \<Longrightarrow> \<exists>s'. wf s' \<and> x_putlong ops s w = Some (4 \<le> length (rest s), s') \<and>
      (if 4 \<le> length (rest s) then passed s' = passed s @ htonl_bytes w \<and> rest s' = drop 4 (rest s) else s' = s)"
    and getbytes: "wf s \<Longrightarrow> n < 2 ^ 31 \<Longrightarrow> n \<le> buff \<Longrightarrow> \<exists>s'. wf s' \<and> x_getbytes ops s buff (of_nat n) =
      Some (if n \<le> length (rest s) then Some (take n (rest s)) else None, s') \<and>
      (if n \<le> length (rest s) then passed s' = passed s @ take n (rest s) \<and> rest s' = drop n (rest s) else s' = s)"
    and putbytes: "wf s \<Longrightarrow> n < 2 ^ 31 \<Longrightarrow> n \<le> length b \<Longrightarrow>
      \<exists>s'. wf s' \<and> x_putbytes ops s b (of_nat n) = Some (n \<le> length (rest s), s') \<and>
      (if n \<le> length (rest s) then passed s' = passed s @ take n b \<and> rest s' = drop n (rest s) else s' = s)"

text \<open>Streams in memory keep the promise.\<close>

definition mem_wf :: "mem_stream \<Rightarrow> bool" where
  "mem_wf s \<longleftrightarrow> 0 \<le> x_handy s \<and> x_handy s < 2 ^ 31 \<and> x_private s + nat (x_handy s) \<le> length (x_base s)"

definition mem_passed :: "mem_stream \<Rightarrow> u8 list" where
  "mem_passed s = take (x_private s) (x_base s)"

definition mem_rest :: "mem_stream \<Rightarrow> u8 list" where
  "mem_rest s = take (nat (x_handy s)) (drop (x_private s) (x_base s))"

lemma slong_id: "- (2 ^ 31) \<le> i \<Longrightarrow> i < 2 ^ 31 \<Longrightarrow> slong i = i"
  unfolding slong_def by (simp add: mod_pos_pos_trivial)

lemma length_mem_rest: "mem_wf s \<Longrightarrow> length (mem_rest s) = nat (x_handy s)"
  by (auto simp: mem_wf_def mem_rest_def min_def)

lemma sint_of_nat: "n < 2 ^ 31 \<Longrightarrow> sint (of_nat n :: u32) = int n"
  by (simp add: sint_uint unsigned_of_nat signed_take_bit_int_eq_self take_bit_nat_eq_self)

interpretation mem: xdr_stream mem_ops mem_wf mem_passed mem_rest
proof
  fix s :: mem_stream and w :: u32 and n buff :: nat and b :: "u8 list"
  assume wf: "mem_wf s"
  obtain H where H: "x_handy s = int H" "H < 2 ^ 31" "x_private s + H \<le> length (x_base s)"
    using wf by (cases "x_handy s") (simp_all add: mem_wf_def)
  have priv: "min (length (x_base s)) (x_private s) = x_private s" using H by simp
  have len: "length (mem_rest s) = H" using length_mem_rest [OF wf] H by simp
  have take_rest: "take n (mem_rest s) = take n (drop (x_private s) (x_base s))" if "n \<le> H" for n
    using that H by (simp add: mem_rest_def min_def)
  have drop_rest: "drop n (mem_rest s) = take (H - n) (drop (x_private s + n) (x_base s))" for n
    using H by (simp add: mem_rest_def drop_take add.commute)
  have sb: "slong (int H - int n) = int H - int n" "slong (int H - int n + int n) = int H" if "n < 2 ^ 31" for n
    using H that by (simp_all add: slong_id)
  have s4: "slong (int H - 4) = int H - 4" "slong (int H - 4 + 4) = int H"
    using sb [of 4] by simp_all
  show "\<exists>s'. mem_wf s' \<and> x_getlong mem_ops s =
      Some (if 4 \<le> length (mem_rest s) then Some (ntohl_bytes (take 4 (mem_rest s))) else None, s') \<and>
      (if 4 \<le> length (mem_rest s)
       then mem_passed s' = mem_passed s @ take 4 (mem_rest s) \<and> mem_rest s' = drop 4 (mem_rest s) else s' = s)"
  proof (cases "4 \<le> H")
    case True
    let ?s = "s\<lparr>x_handy := int H - 4, x_private := x_private s + 4\<rparr>"
    have "mem_getlong s = Some (Some (ntohl_bytes (take 4 (mem_rest s))), ?s)"
      using True H s4 by (simp add: mem_getlong_def take_rest)
    moreover have "mem_wf ?s" using True H by (simp add: mem_wf_def)
    moreover have "mem_passed ?s = mem_passed s @ take 4 (mem_rest s)"
      using True by (simp add: mem_passed_def take_add take_rest)
    moreover have "mem_rest ?s = drop 4 (mem_rest s)"
      unfolding drop_rest using True by (simp add: mem_rest_def nat_diff_distrib)
    ultimately show ?thesis using True len by (intro exI [of _ ?s]) (simp add: mem_ops_def)
  next
    case False
    then show ?thesis using wf H s4 len by (intro exI [of _ s]) (simp add: mem_ops_def mem_getlong_def)
  qed
  show "\<exists>s'. mem_wf s' \<and> x_putlong mem_ops s w = Some (4 \<le> length (mem_rest s), s') \<and>
      (if 4 \<le> length (mem_rest s)
       then mem_passed s' = mem_passed s @ htonl_bytes w \<and> mem_rest s' = drop 4 (mem_rest s) else s' = s)"
  proof (cases "4 \<le> H")
    case True
    let ?s = "s\<lparr>x_base := take (x_private s) (x_base s) @ htonl_bytes w @ drop (x_private s + 4) (x_base s),
      x_handy := int H - 4, x_private := x_private s + 4\<rparr>"
    have "mem_putlong s w = Some (True, ?s)"
      using True H s4 by (simp add: mem_putlong_def)
    moreover have "mem_wf ?s" using True H by (simp add: mem_wf_def)
    moreover have "mem_passed ?s = mem_passed s @ htonl_bytes w"
      using H(3) True by (simp add: mem_passed_def min_def)
    moreover have "mem_rest ?s = drop 4 (mem_rest s)"
      unfolding drop_rest using True H by (simp add: mem_rest_def nat_diff_distrib min_def)
    ultimately show ?thesis using True len by (intro exI [of _ ?s]) (simp add: mem_ops_def)
  next
    case False
    then show ?thesis using wf H s4 len by (intro exI [of _ s]) (simp add: mem_ops_def mem_putlong_def)
  qed
  assume n: "n < 2 ^ 31"
  note sn = sint_of_nat [OF n] and sb = sb [OF n]
  { assume buff: "n \<le> buff"
    show "\<exists>s'. mem_wf s' \<and> x_getbytes mem_ops s buff (of_nat n) =
        Some (if n \<le> length (mem_rest s) then Some (take n (mem_rest s)) else None, s') \<and>
        (if n \<le> length (mem_rest s)
         then mem_passed s' = mem_passed s @ take n (mem_rest s) \<and> mem_rest s' = drop n (mem_rest s) else s' = s)"
    proof (cases "n \<le> H")
      case True
      let ?s = "s\<lparr>x_handy := int H - int n, x_private := x_private s + n\<rparr>"
      have "mem_getbytes s buff (of_nat n) = Some (Some (take n (mem_rest s)), ?s)"
        using True H sb sn buff by (auto simp: mem_getbytes_def Let_def take_rest)
      moreover have "mem_wf ?s" using True H by (simp add: mem_wf_def)
      moreover have "mem_passed ?s = mem_passed s @ take n (mem_rest s)"
        using True by (simp add: mem_passed_def take_add take_rest)
      moreover have "mem_rest ?s = drop n (mem_rest s)"
        unfolding drop_rest using True by (simp add: mem_rest_def nat_diff_distrib)
      ultimately show ?thesis using True len by (intro exI [of _ ?s]) (simp add: mem_ops_def)
    next
      case False
      then show ?thesis using wf H sb sn len by (intro exI [of _ s]) (auto simp: mem_ops_def mem_getbytes_def Let_def)
    qed }
  { assume buff: "n \<le> length b"
    show "\<exists>s'. mem_wf s' \<and> x_putbytes mem_ops s b (of_nat n) = Some (n \<le> length (mem_rest s), s') \<and>
        (if n \<le> length (mem_rest s)
         then mem_passed s' = mem_passed s @ take n b \<and> mem_rest s' = drop n (mem_rest s) else s' = s)"
    proof (cases "n \<le> H")
      case True
      let ?s = "s\<lparr>x_base := take (x_private s) (x_base s) @ take n b @ drop (x_private s + n) (x_base s),
        x_handy := int H - int n, x_private := x_private s + n\<rparr>"
      have "mem_putbytes s b (of_nat n) = Some (True, ?s)"
        using True H sb sn buff by (auto simp: mem_putbytes_def Let_def)
      moreover have "mem_wf ?s" using True H buff by (simp add: mem_wf_def)
      moreover have "mem_passed ?s = mem_passed s @ take n b"
        using priv buff by (simp add: mem_passed_def)
      moreover have "mem_rest ?s = drop n (mem_rest s)"
        unfolding drop_rest using True H buff by (simp add: mem_rest_def nat_diff_distrib min_def)
      ultimately show ?thesis using True len by (intro exI [of _ ?s]) (simp add: mem_ops_def)
    next
      case False
      then show ?thesis using wf H sb sn len by (intro exI [of _ s]) (auto simp: mem_ops_def mem_putbytes_def Let_def)
    qed }
qed

end
