(* ===== verification/Xdr_Codec.thy ===== *)
theory Xdr_Codec
  imports Xdr
begin

text \<open>
  What it means that a routine transmits a list of fields: it encodes them into a stream that has room, it
  decodes what it has encoded, and whatever it decodes it stays inside its memory. The laws are proved once for
  every stream that keeps the promise of \<open>xdr_stream\<close>; routines are put together with \<open>xdr_seq\<close> and \<open>xdr_map\<close>,
  which is the way the macro \<open>MAP\<close> of \<open>remote/protocol.cpp\<close> strings them together.
\<close>

section \<open>Fields\<close>

datatype field =
    Long u32
  | Short u16
  | U_short u16
  | Hyper u64
  | Opaque "u8 list"
  | Counted "u8 list"
  | Text "u8 list"

definition padding :: "nat \<Rightarrow> nat" where
  "padding n = (4 - n mod 4) mod 4"

fun field_wire :: "u8 list \<Rightarrow> field \<Rightarrow> u8 list" where
  "field_wire trash (Long w) = htonl_bytes w"
| "field_wire trash (Short w) = htonl_bytes (scast w)"
| "field_wire trash (U_short w) = htonl_bytes (ucast w)"
| "field_wire trash (Hyper v) = htonl_bytes (temp_long v 1) @ htonl_bytes (temp_long v 0)"
| "field_wire trash (Opaque b) = b @ take (padding (length b)) trash"
| "field_wire trash (Counted b) =
     htonl_bytes (scast (of_nat (length b) :: u16)) @ b @ replicate (padding (length b)) 0"
| "field_wire trash (Text b) = htonl_bytes (of_nat (length b)) @ b @ take (padding (length b)) trash"

definition wire :: "u8 list \<Rightarrow> field list \<Rightarrow> u8 list" where
  "wire trash fs = concat (map (field_wire trash) fs)"

lemma wire_simps [simp]:
  "wire trash [] = []" "wire trash (f # fs) = field_wire trash f @ wire trash fs"
  "wire trash (fs @ gs) = wire trash fs @ wire trash gs"
  by (simp_all add: wire_def)

text \<open>Every field fills longwords.\<close>

lemma padding_less: "padding n < 4"
  by (simp add: padding_def)

lemma mod4_cases:
  fixes n :: nat
  obtains "n mod 4 = 0" | "n mod 4 = 1" | "n mod 4 = 2" | "n mod 4 = 3"
proof -
  have "n mod 4 < 4" by simp
  then have "n mod 4 = 0 \<or> n mod 4 = 1 \<or> n mod 4 = 2 \<or> n mod 4 = 3" by linarith
  then show thesis by (elim disjE) (fact that)+
qed

lemma padding_dvd: "4 dvd n + padding n"
proof -
  have "(n mod 4 + padding n) mod 4 = 0"
    unfolding padding_def by (cases rule: mod4_cases [of n]) simp_all
  then show ?thesis by (simp add: dvd_eq_mod_eq_0 mod_add_left_eq)
qed

lemma wire_aligned: "length trash = 4 \<Longrightarrow> 4 dvd length (wire trash fs)"
proof (induction fs)
  case (Cons f fs)
  have "4 dvd length (field_wire trash f)"
    using padding_dvd padding_less Cons.prems
    by (cases f) (simp_all add: min_absorb2 less_imp_le add.assoc dvd_add)
  then show ?case using Cons by simp
qed simp

lemma pad_of_nat: "n < 2 ^ 32 \<Longrightarrow> pad (of_nat n) = of_nat (padding n)"
proof -
  assume n: "n < 2 ^ 32"
  have "pad (of_nat n) = take_bit 2 (4 - of_nat n)"
    by (simp add: pad_def take_bit_eq_mask mask_numeral)
  then have "uint (pad (of_nat n)) = take_bit 2 (uint (4 - of_nat n :: u32))"
    by (simp add: unsigned_take_bit_eq)
  also have "\<dots> = (4 - int n) mod 4"
    using n by (simp add: take_bit_eq_mod uint_word_ariths unsigned_of_nat take_bit_nat_eq_self mod_mod_cancel)
  also have "\<dots> = (4 - int (n mod 4)) mod 4"
    unfolding zmod_int by (simp only: mod_diff_right_eq of_nat_numeral)
  also have "\<dots> = int (padding n)"
    unfolding padding_def by (cases rule: mod4_cases [of n]) simp_all
  finally show ?thesis
    by (metis word_of_int_uint of_int_of_nat_eq)
qed

lemma scast_inverse [simp]: "ucast (scast (w :: u16) :: u32) = w"
  by (rule bit_word_eqI) (auto simp: bit_simps)

lemma ucast_inverse [simp]: "ucast (ucast (w :: u16) :: u32) = w"
  by (rule bit_word_eqI) (auto simp: bit_simps)

lemma temp_int64_temp_long [simp]: "temp_int64 (temp_long v 1) (temp_long v 0) = v"
  by (rule bit_word_eqI) (auto simp: temp_int64_def temp_long_def bit_simps)

section \<open>Combinators\<close>

definition xdr_map :: "('s, 'b) routine \<Rightarrow> ('a \<Rightarrow> 'b) \<Rightarrow> (('b \<Rightarrow> 'b) \<Rightarrow> 'a \<Rightarrow> 'a) \<Rightarrow> ('s, 'a) routine" where
  "xdr_map proc get upd x_ops x_op xdrs v =
     map_option (\<lambda>(b, xdrs, w). (b, xdrs, upd (\<lambda>_. w) v)) (proc x_ops x_op xdrs (get v))"

definition xdr_seq :: "('s, 'a) routine \<Rightarrow> ('s, 'a) routine \<Rightarrow> ('s, 'a) routine" where
  "xdr_seq r1 r2 x_ops x_op xdrs v =
     do { (b, xdrs, v) \<leftarrow> r1 x_ops x_op xdrs v;
          if b then r2 x_ops x_op xdrs v else Some (False, xdrs, v) }"

definition xdr_skip :: "('s, 'a) routine" where
  "xdr_skip x_ops x_op xdrs v = Some (True, xdrs, v)"

definition xdr_all :: "('s, 'a) routine list \<Rightarrow> ('s, 'a) routine" where
  "xdr_all rs = foldr xdr_seq rs xdr_skip"

lemma xdr_all_simps: "xdr_all [] = xdr_skip" "xdr_all (r # rs) = xdr_seq r (xdr_all rs)"
  by (simp_all add: xdr_all_def)

section \<open>Transmission\<close>

context xdr_stream
begin

definition encodes :: "u8 list \<Rightarrow> ('s, 'a) routine \<Rightarrow> ('a \<Rightarrow> field list) \<Rightarrow> ('a \<Rightarrow> bool) \<Rightarrow> bool" where
  "encodes trash r F ok \<longleftrightarrow>
     (\<forall>s v. wf s \<longrightarrow> ok v \<longrightarrow>
       (\<exists>s'. wf s' \<and>
         r ops XDR_ENCODE s v = Some (length (wire trash (F v)) \<le> length (rest s), s', v) \<and>
         (length (wire trash (F v)) \<le> length (rest s) \<longrightarrow>
           passed s' = passed s @ wire trash (F v) \<and> rest s' = drop (length (wire trash (F v))) (rest s)) \<and>
         length (rest s') \<le> length (rest s)))"

text \<open>
  \<open>E\<close> are the fields that were transmitted before and must not change; \<open>ready\<close> holds of a value that may be
  decoded into.
\<close>

definition decodes ::
  "u8 list \<Rightarrow> ('a \<Rightarrow> 'k) \<Rightarrow> ('s, 'a) routine \<Rightarrow> ('a \<Rightarrow> field list) \<Rightarrow> ('a \<Rightarrow> bool) \<Rightarrow> ('a \<Rightarrow> bool) \<Rightarrow> bool" where
  "decodes trash E r F ok ready \<longleftrightarrow>
     (\<forall>s v u t. wf s \<longrightarrow> ok v \<longrightarrow> ready u \<longrightarrow> E u = E v \<longrightarrow> rest s = wire trash (F v) @ t \<longrightarrow>
       (\<exists>s' u'. wf s' \<and> r ops XDR_DECODE s u = Some (True, s', u') \<and> rest s' = t \<and>
         ready u' \<and> E u' = E v \<and> F u' = F v))"

definition safe :: "('s, 'a) routine \<Rightarrow> ('a \<Rightarrow> bool) \<Rightarrow> bool" where
  "safe r ready \<longleftrightarrow>
     (\<forall>s u. wf s \<longrightarrow> ready u \<longrightarrow>
       (\<exists>b s' u'. wf s' \<and> r ops XDR_DECODE s u = Some (b, s', u') \<and> ready u'))"

definition carries ::
  "u8 list \<Rightarrow> ('a \<Rightarrow> 'k) \<Rightarrow> ('s, 'a) routine \<Rightarrow> ('a \<Rightarrow> field list) \<Rightarrow> ('a \<Rightarrow> bool) \<Rightarrow> ('a \<Rightarrow> bool) \<Rightarrow> bool" where
  "carries trash E r F ok ready \<longleftrightarrow> encodes trash r F ok \<and> decodes trash E r F ok ready"

lemma encodes_seq:
  assumes "encodes trash r1 F ok" "encodes trash r2 G ok"
  shows "encodes trash (xdr_seq r1 r2) (\<lambda>v. F v @ G v) ok"
  unfolding encodes_def
proof (intro allI impI)
  fix s :: 's and v :: 'a
  assume s: "wf s" and v: "ok v"
  let ?n = "length (wire trash (F v))" and ?m = "length (wire trash (G v))"
  obtain s1 where s1: "wf s1" "r1 ops XDR_ENCODE s v = Some (?n \<le> length (rest s), s1, v)"
    "?n \<le> length (rest s) \<Longrightarrow> passed s1 = passed s @ wire trash (F v) \<and> rest s1 = drop ?n (rest s)"
    "length (rest s1) \<le> length (rest s)"
    using assms(1) s v unfolding encodes_def by blast
  show "\<exists>s'. wf s' \<and>
      xdr_seq r1 r2 ops XDR_ENCODE s v = Some (length (wire trash (F v @ G v)) \<le> length (rest s), s', v) \<and>
      (length (wire trash (F v @ G v)) \<le> length (rest s) \<longrightarrow>
        passed s' = passed s @ wire trash (F v @ G v) \<and>
        rest s' = drop (length (wire trash (F v @ G v))) (rest s)) \<and>
      length (rest s') \<le> length (rest s)"
  proof (cases "?n \<le> length (rest s)")
    case True
    obtain s2 where s2: "wf s2" "r2 ops XDR_ENCODE s1 v = Some (?m \<le> length (rest s1), s2, v)"
      "?m \<le> length (rest s1) \<Longrightarrow> passed s2 = passed s1 @ wire trash (G v) \<and> rest s2 = drop ?m (rest s1)"
      "length (rest s2) \<le> length (rest s1)"
      using assms(2) s1(1) v unfolding encodes_def by blast
    have room: "?m \<le> length (rest s1) \<longleftrightarrow> ?n + ?m \<le> length (rest s)" using s1(3) [OF True] True by auto
    have "xdr_seq r1 r2 ops XDR_ENCODE s v = Some (?n + ?m \<le> length (rest s), s2, v)"
      using s1(2) s2(2) True room by (simp add: xdr_seq_def)
    moreover have "passed s2 = passed s @ wire trash (F v @ G v) \<and> rest s2 = drop (?n + ?m) (rest s)"
      if "?n + ?m \<le> length (rest s)"
      using s1(3) [OF True] s2(3) that room by (simp add: add.commute)
    moreover have "length (rest s2) \<le> length (rest s)" using s1(4) s2(4) by simp
    ultimately show ?thesis using s2(1) by (intro exI [of _ s2]) simp
  next
    case False
    then show ?thesis using s1 by (intro exI [of _ s1]) (simp add: xdr_seq_def)
  qed
qed

lemma decodes_seq:
  assumes "decodes trash E r1 F ok ready" "decodes trash (\<lambda>v. (E v, F v)) r2 G ok ready"
  shows "decodes trash E (xdr_seq r1 r2) (\<lambda>v. F v @ G v) ok ready"
  unfolding decodes_def
proof (intro allI impI)
  fix s v u t
  assume a: "wf s" "ok v" "ready u" "E u = E v" "rest s = wire trash (F v @ G v) @ t"
  then have "rest s = wire trash (F v) @ (wire trash (G v) @ t)" by simp
  then obtain s1 u1 where 1: "wf s1" "r1 ops XDR_DECODE s u = Some (True, s1, u1)" "rest s1 = wire trash (G v) @ t"
    "ready u1" "E u1 = E v" "F u1 = F v"
    using assms(1) a unfolding decodes_def by blast
  then have "(E u1, F u1) = (E v, F v)" by simp
  then obtain s2 u2 where 2: "wf s2" "r2 ops XDR_DECODE s1 u1 = Some (True, s2, u2)" "rest s2 = t"
    "ready u2" "(E u2, F u2) = (E v, F v)" "G u2 = G v"
    using assms(2) a(2) 1 unfolding decodes_def by blast
  then show "\<exists>s' u'. wf s' \<and> xdr_seq r1 r2 ops XDR_DECODE s u = Some (True, s', u') \<and> rest s' = t \<and>
      ready u' \<and> E u' = E v \<and> F u' @ G u' = F v @ G v"
    using 1(2) by (intro exI [of _ s2] exI [of _ u2]) (simp add: xdr_seq_def)
qed

lemma safeE:
  assumes "safe r ready" "wf s" "ready u"
  obtains b s' u' where "wf s'" "r ops XDR_DECODE s u = Some (b, s', u')" "ready u'"
  using assms unfolding safe_def by blast

lemma safe_seq:
  assumes "safe r1 ready" "safe r2 ready"
  shows "safe (xdr_seq r1 r2) ready"
  unfolding safe_def
proof (intro allI impI)
  fix s u assume "wf s" "ready u"
  then obtain b s1 u1 where 1: "wf s1" "r1 ops XDR_DECODE s u = Some (b, s1, u1)" "ready u1"
    using assms(1) by (elim safeE)
  obtain b2 s2 u2 where 2: "wf s2" "r2 ops XDR_DECODE s1 u1 = Some (b2, s2, u2)" "ready u2"
    using assms(2) 1 by (elim safeE)
  show "\<exists>b s' u'. wf s' \<and> xdr_seq r1 r2 ops XDR_DECODE s u = Some (b, s', u') \<and> ready u'"
    using 1 2 by (cases b) (auto simp: xdr_seq_def)
qed

lemma carries_seq:
  "carries trash E r1 F ok ready \<Longrightarrow> carries trash (\<lambda>v. (E v, F v)) r2 G ok ready \<Longrightarrow>
   carries trash E (xdr_seq r1 r2) (\<lambda>v. F v @ G v) ok ready"
  unfolding carries_def by (intro conjI encodes_seq decodes_seq) simp_all

lemma carries_skip: "carries trash E xdr_skip (\<lambda>_. []) ok ready"
  unfolding carries_def encodes_def decodes_def xdr_skip_def by auto

lemma safe_skip: "safe xdr_skip ready"
  unfolding safe_def xdr_skip_def by auto

lemma carries_all:
  "carries trash E (xdr_all []) (\<lambda>_. []) ok ready"
  "carries trash E r F ok ready \<Longrightarrow> carries trash (\<lambda>v. (E v, F v)) (xdr_all rs) G ok ready \<Longrightarrow>
   carries trash E (xdr_all (r # rs)) (\<lambda>v. F v @ G v) ok ready"
  unfolding xdr_all_simps by (rule carries_skip, rule carries_seq)

lemma safe_all: "safe (xdr_all []) ready" "safe r ready \<Longrightarrow> safe (xdr_all rs) ready \<Longrightarrow> safe (xdr_all (r # rs)) ready"
  unfolding xdr_all_simps by (rule safe_skip, rule safe_seq)

lemma carries_cong: "carries trash E r F ok ready \<Longrightarrow> (\<And>v. F v = G v) \<Longrightarrow> carries trash E r G ok ready"
  by (simp add: ext [of F G])

text \<open>A routine that depends on what was carried before.\<close>

lemma carries_dep:
  assumes k: "\<And>u v. E u = E v \<Longrightarrow> k u = k v"
    and r: "\<And>n. carries trash E (r n) (F n) (\<lambda>v. ok v \<and> k v = n) ready"
  shows "carries trash E (\<lambda>ops op s v. r (k v) ops op s v) (\<lambda>v. F (k v) v) ok ready"
  unfolding carries_def
proof (intro conjI)
  show "encodes trash (\<lambda>ops op s v. r (k v) ops op s v) (\<lambda>v. F (k v) v) ok"
    unfolding encodes_def
  proof (intro allI impI)
    fix s v assume "wf s" "ok v"
    moreover have "encodes trash (r (k v)) (F (k v)) (\<lambda>u. ok u \<and> k u = k v)" using r by (simp add: carries_def)
    ultimately show "\<exists>s'. wf s' \<and>
        r (k v) ops XDR_ENCODE s v = Some (length (wire trash (F (k v) v)) \<le> length (rest s), s', v) \<and>
        (length (wire trash (F (k v) v)) \<le> length (rest s) \<longrightarrow>
          passed s' = passed s @ wire trash (F (k v) v) \<and> rest s' = drop (length (wire trash (F (k v) v))) (rest s)) \<and>
        length (rest s') \<le> length (rest s)"
      unfolding encodes_def by blast
  qed
  show "decodes trash E (\<lambda>ops op s v. r (k v) ops op s v) (\<lambda>v. F (k v) v) ok ready"
    unfolding decodes_def
  proof (intro allI impI)
    fix s v u t assume a: "wf s" "ok v" "ready u" "E u = E v" "rest s = wire trash (F (k v) v) @ t"
    have "decodes trash E (r (k v)) (F (k v)) (\<lambda>u. ok u \<and> k u = k v) ready" using r by (simp add: carries_def)
    then obtain s' u' where d: "wf s'" "r (k v) ops XDR_DECODE s u = Some (True, s', u')" "rest s' = t" "ready u'"
      "E u' = E v" "F (k v) u' = F (k v) v"
      using a unfolding decodes_def by blast
    then show "\<exists>s' u'. wf s' \<and> r (k u) ops XDR_DECODE s u = Some (True, s', u') \<and> rest s' = t \<and> ready u' \<and>
        E u' = E v \<and> F (k u') u' = F (k v) v"
      using k [OF a(4)] k [OF d(5)] by (intro exI [of _ s'] exI [of _ u']) simp
  qed
qed

lemma safe_dep: "(\<And>n. safe (r n) ready) \<Longrightarrow> safe (\<lambda>ops op s v. r (k v) ops op s v) ready"
  unfolding safe_def by blast

lemma carries_weaken:
  "carries trash E r F ok ready \<Longrightarrow> (\<And>v. ok' v \<Longrightarrow> ok v) \<Longrightarrow> carries trash E r F ok' ready"
  unfolding carries_def encodes_def decodes_def by (intro conjI) (elim conjE, blast)+

text \<open>A routine on a component of a record.\<close>

lemma carries_map:
  assumes r: "carries trash (\<lambda>_. ()) r F ok ready"
    and lens: "\<And>p w. ready' p \<Longrightarrow> get (upd (\<lambda>_. w) p) = w" "\<And>p. upd (\<lambda>_. get p) p = p"
      "\<And>p w. E (upd (\<lambda>_. w) p) = E p"
    and ok: "\<And>p. ok' p \<Longrightarrow> ok (get p)"
    and ready: "\<And>p. ready' p \<Longrightarrow> ready (get p)" "\<And>p w. ready' p \<Longrightarrow> ready w \<Longrightarrow> ready' (upd (\<lambda>_. w) p)"
  shows "carries trash E (xdr_map r get upd) (\<lambda>p. F (get p)) ok' ready'"
  unfolding carries_def
proof (intro conjI)
  show "encodes trash (xdr_map r get upd) (\<lambda>p. F (get p)) ok'"
    unfolding encodes_def
  proof (intro allI impI)
    fix s p assume "wf s" "ok' p"
    moreover have "encodes trash r F ok" using r by (simp add: carries_def)
    ultimately obtain s' where "wf s'"
      "r ops XDR_ENCODE s (get p) = Some (length (wire trash (F (get p))) \<le> length (rest s), s', get p)"
      "length (wire trash (F (get p))) \<le> length (rest s) \<longrightarrow>
        passed s' = passed s @ wire trash (F (get p)) \<and> rest s' = drop (length (wire trash (F (get p)))) (rest s)"
      "length (rest s') \<le> length (rest s)"
      using ok unfolding encodes_def by blast
    then show "\<exists>s'. wf s' \<and> xdr_map r get upd ops XDR_ENCODE s p =
          Some (length (wire trash (F (get p))) \<le> length (rest s), s', p) \<and>
        (length (wire trash (F (get p))) \<le> length (rest s) \<longrightarrow>
          passed s' = passed s @ wire trash (F (get p)) \<and> rest s' = drop (length (wire trash (F (get p)))) (rest s)) \<and>
        length (rest s') \<le> length (rest s)"
      by (intro exI [of _ s']) (simp add: xdr_map_def lens(2))
  qed
  show "decodes trash E (xdr_map r get upd) (\<lambda>p. F (get p)) ok' ready'"
    unfolding decodes_def
  proof (intro allI impI)
    fix s p u t assume a: "wf s" "ok' p" "ready' u" "E u = E p" "rest s = wire trash (F (get p)) @ t"
    have "decodes trash (\<lambda>_. ()) r F ok ready" using r by (simp add: carries_def)
    then obtain s' w where "wf s'" "r ops XDR_DECODE s (get u) = Some (True, s', w)" "rest s' = t" "ready w"
      "F w = F (get p)"
      using a ok ready unfolding decodes_def by blast
    then show "\<exists>s' u'. wf s' \<and> xdr_map r get upd ops XDR_DECODE s u = Some (True, s', u') \<and> rest s' = t \<and>
        ready' u' \<and> E u' = E p \<and> F (get u') = F (get p)"
      using a ready by (intro exI [of _ s'] exI [of _ "upd (\<lambda>_. w) u"]) (simp add: xdr_map_def lens)
  qed
qed

lemma safe_map:
  assumes r: "safe r ready"
    and ready: "\<And>p. ready' p \<Longrightarrow> ready (get p)" "\<And>p w. ready' p \<Longrightarrow> ready w \<Longrightarrow> ready' (upd (\<lambda>_. w) p)"
  shows "safe (xdr_map r get upd) ready'"
  unfolding safe_def
proof (intro allI impI)
  fix s u assume a: "wf s" "ready' u"
  then obtain b s' w where "wf s'" "r ops XDR_DECODE s (get u) = Some (b, s', w)" "ready w"
    using r ready by (elim safeE) blast+
  then show "\<exists>b s' u'. wf s' \<and> xdr_map r get upd ops XDR_DECODE s u = Some (b, s', u') \<and> ready' u'"
    using a ready by (simp add: xdr_map_def)
qed

section \<open>The routines for numbers\<close>

lemma getlong_wire:
  assumes "wf s" "rest s = htonl_bytes w @ t"
  obtains s' where "wf s'" "x_getlong ops s = Some (Some w, s')" "rest s' = t"
  using getlong [OF assms(1)] assms(2) by auto

lemma getlong_any:
  assumes "wf s"
  obtains w s' where "wf s'" "x_getlong ops s = Some (w, s')"
  using getlong [OF assms] by blast

lemma carries_number:
  assumes enc: "\<And>s v. r ops XDR_ENCODE s v = put_value (x_putlong ops s (f v)) v"
    and dec: "\<And>s v. r ops XDR_DECODE s v = get_value (x_getlong ops s) g v"
    and inv: "\<And>v. g (f v) = v" and wire: "\<And>v. wire trash (F v) = htonl_bytes (f v)"
  shows "carries trash (\<lambda>_. ()) r F (\<lambda>_. True) (\<lambda>_. True)"
  unfolding carries_def
proof (intro conjI)
  show "encodes trash r F (\<lambda>_. True)"
    unfolding encodes_def
  proof (intro allI impI)
    fix s v assume "wf s"
    from putlong [OF this, of "f v"] obtain s' where "wf s'" "x_putlong ops s (f v) = Some (4 \<le> length (rest s), s')"
      "if 4 \<le> length (rest s) then passed s' = passed s @ htonl_bytes (f v) \<and> rest s' = drop 4 (rest s) else s' = s"
      by blast
    then show "\<exists>s'. wf s' \<and> r ops XDR_ENCODE s v = Some (length (wire trash (F v)) \<le> length (rest s), s', v) \<and>
        (length (wire trash (F v)) \<le> length (rest s) \<longrightarrow>
          passed s' = passed s @ wire trash (F v) \<and> rest s' = drop (length (wire trash (F v))) (rest s)) \<and>
        length (rest s') \<le> length (rest s)"
      by (intro exI [of _ s']) (auto simp: enc wire put_value_def split: if_splits)
  qed
  show "decodes trash (\<lambda>_. ()) r F (\<lambda>_. True) (\<lambda>_. True)"
    unfolding decodes_def
  proof (intro allI impI)
    fix s v u t assume "wf s" "rest s = wire trash (F v) @ t"
    then obtain s' where "wf s'" "x_getlong ops s = Some (Some (f v), s')" "rest s' = t"
      using getlong_wire wire by metis
    then show "\<exists>s' u'. wf s' \<and> r ops XDR_DECODE s u = Some (True, s', u') \<and> rest s' = t \<and> True \<and> () = () \<and> F u' = F v"
      by (simp add: dec get_value_def inv)
  qed
qed

lemma safe_number:
  assumes dec: "\<And>s v. r ops XDR_DECODE s v = get_value (x_getlong ops s) g v"
  shows "safe r (\<lambda>_. True)"
  unfolding safe_def
proof (intro allI impI)
  fix s u assume "wf s"
  then obtain w s' where "wf s'" "x_getlong ops s = Some (w, s')" by (rule getlong_any)
  then show "\<exists>b s' u'. wf s' \<and> r ops XDR_DECODE s u = Some (b, s', u') \<and> True"
    by (cases w) (auto simp: dec get_value_def)
qed

lemma safe_numbers:
  "safe xdr_long (\<lambda>_. True)" "safe xdr_enum (\<lambda>_. True)" "safe xdr_short (\<lambda>_. True)" "safe xdr_u_short (\<lambda>_. True)"
  by (rule safe_number [of _ "\<lambda>w. w"] safe_number [of _ ucast];
      simp add: xdr_long_def xdr_enum_def xdr_short_def xdr_u_short_def)+

lemma carries_long: "carries trash (\<lambda>_. ()) xdr_long (\<lambda>w. [Long w]) (\<lambda>_. True) (\<lambda>_. True)"
  by (rule carries_number [of _ "\<lambda>w. w" "\<lambda>w. w"]) (simp_all add: xdr_long_def)

lemma carries_enum: "carries trash (\<lambda>_. ()) xdr_enum (\<lambda>w. [Long w]) (\<lambda>_. True) (\<lambda>_. True)"
  by (rule carries_number [of _ "\<lambda>w. w" "\<lambda>w. w"]) (simp_all add: xdr_enum_def)

lemma carries_short: "carries trash (\<lambda>_. ()) xdr_short (\<lambda>w. [Short w]) (\<lambda>_. True) (\<lambda>_. True)"
  by (rule carries_number [of _ scast ucast]) (simp_all add: xdr_short_def)

lemma carries_u_short: "carries trash (\<lambda>_. ()) xdr_u_short (\<lambda>w. [U_short w]) (\<lambda>_. True) (\<lambda>_. True)"
  by (rule carries_number [of _ ucast ucast]) (simp_all add: xdr_u_short_def)

lemma carries_numbers:
  "carries trash (\<lambda>_. ()) xdr_u_long (\<lambda>w. [Long w]) (\<lambda>_. True) (\<lambda>_. True)"
  "carries trash (\<lambda>_. ()) xdr_int (\<lambda>w. [Long w]) (\<lambda>_. True) (\<lambda>_. True)"
  "carries trash (\<lambda>_. ()) xdr_u_int (\<lambda>w. [Long w]) (\<lambda>_. True) (\<lambda>_. True)"
  "carries trash (\<lambda>_. ()) xdr_bool (\<lambda>w. [Long w]) (\<lambda>_. True) (\<lambda>_. True)"
  "carries trash (\<lambda>_. ()) xdr_float (\<lambda>w. [Long w]) (\<lambda>_. True) (\<lambda>_. True)"
  by (rule carries_number [of _ "\<lambda>w. w" "\<lambda>w. w"];
      simp add: xdr_u_long_def xdr_int_def xdr_u_int_def xdr_bool_def xdr_float_def)+

end

end
