(* ===== verification/Protocol.thy ===== *)
theory Protocol
  imports Xdr_Codec
begin

text \<open>
  \<open>remote/protocol.cpp\<close>, \<open>remote/protocol.h\<close>: the packets of the wire protocol between client and server.
  \<open>xdr_protocol\<close> encodes, decodes or frees a packet: its operation, then what the operation carries. A packet is
  the record of the subpackets that \<open>protocol.h\<close> declares, reduced to those that the modelled operations use. The
  macro \<open>MAP\<close> is \<open>xdr_map\<close>, and a sequence of them \<open>xdr_all\<close>.

  The operations that carry messages in the formats of requests and statements, array slices, or the BLR of a
  statement look those up in the objects of the port, which are not modelled; for them the model says \<open>None\<close>.
\<close>

section \<open>Counted strings\<close>

text \<open>\<open>cstr_address\<close> is the block at the address; \<open>ALLR_alloc\<close> does not fail and the block is taken to be zero.\<close>

record cstring =
  cstr_length :: u16
  cstr_allocated :: u16
  cstr_address :: "u8 list option"

definition free_cstring :: "cstring \<Rightarrow> cstring" where
  "free_cstring c = c\<lparr>cstr_address := None, cstr_allocated := 0\<rparr>"

definition alloc_cstring :: "cstring \<Rightarrow> cstring" where
  "alloc_cstring c =
     (if cstr_length c = 0 then c
      else
        let c = (if cstr_allocated c < cstr_length c \<and> cstr_allocated c \<noteq> 0 then free_cstring c else c) in
        case cstr_address c of
          None \<Rightarrow> c\<lparr>cstr_address := Some (replicate (unat (cstr_length c)) 0), cstr_allocated := cstr_length c\<rparr>
        | Some _ \<Rightarrow> c)"

definition xdr_cstring :: "('s, cstring) routine" where
  "xdr_cstring x_ops x_op xdrs cstring =
     do { (b, xdrs, len) \<leftarrow> xdr_short x_ops x_op xdrs (cstr_length cstring);
          let c = cstring\<lparr>cstr_length := len\<rparr>;
          if b
          then case x_op of
              XDR_ENCODE \<Rightarrow>
                do { (b, xdrs) \<leftarrow> (if cstr_length c \<noteq> 0
                       then x_putbytes x_ops xdrs (block_of (cstr_address c)) (ucast (cstr_length c))
                       else Some (True, xdrs));
                     if b then put_pad x_ops xdrs [0, 0, 0, 0] (ucast (cstr_length c)) c else Some (False, xdrs, c) }
            | XDR_DECODE \<Rightarrow>
                let c = alloc_cstring c in
                do { (b, xdrs) \<leftarrow> x_getbytes x_ops xdrs (length (block_of (cstr_address c))) (ucast (cstr_length c));
                     case b of
                       None \<Rightarrow> Some (False, xdrs, c)
                     | Some bytes \<Rightarrow>
                         get_pad x_ops xdrs (ucast (cstr_length c))
                           (c\<lparr>cstr_address := map_option (copied bytes) (cstr_address c)\<rparr>) }
            | XDR_FREE \<Rightarrow> Some (True, xdrs, free_cstring c)
          else Some (False, xdrs, c) }"

section \<open>Blob ids\<close>

record bid =
  bid_relation_id :: u32
  bid_number :: u32

definition xdr_quad :: "('s, bid) routine" where
  "xdr_quad x_ops x_op xdrs ip =
     (case x_op of
        XDR_ENCODE \<Rightarrow>
          do { (b, xdrs) \<leftarrow> x_putlong x_ops xdrs (bid_relation_id ip);
               if b then put_value (x_putlong x_ops xdrs (bid_number ip)) ip else Some (False, xdrs, ip) }
      | XDR_DECODE \<Rightarrow>
          do { (h, xdrs) \<leftarrow> x_getlong x_ops xdrs;
               case h of
                 None \<Rightarrow> Some (False, xdrs, ip)
               | Some relation \<Rightarrow>
                   let ip = ip\<lparr>bid_relation_id := relation\<rparr> in
                   get_value (x_getlong x_ops xdrs) (\<lambda>n. ip\<lparr>bid_number := n\<rparr>) ip }
      | XDR_FREE \<Rightarrow> Some (True, xdrs, ip))"

section \<open>Status vectors\<close>

text \<open>A slot of a status vector is a number or the address of a string.\<close>

datatype status_slot = Status u32 | String "u8 list"

definition gds_arg_end :: u16 where "gds_arg_end = 0"
definition gds_arg_string :: u16 where "gds_arg_string = 2"
definition gds_arg_interpreted :: u16 where "gds_arg_interpreted = 5"

text \<open>
  The loop of \<open>xdr_status_vector\<close>, once for each direction. Encoding reads the slots one after the other;
  decoding writes them from slot \<open>i\<close> on, and the strings from \<open>strings\<close> on, the \<open>k\<close>-th of the packet.
\<close>

fun status_encode :: "u8 list \<Rightarrow> 's xdr_ops \<Rightarrow> 's \<Rightarrow> status_slot list \<Rightarrow> (bool \<times> 's) option" where
  "status_encode trash x_ops xdrs (Status vec # vector) =
     do { (b, xdrs, _) \<leftarrow> xdr_long x_ops XDR_ENCODE xdrs vec;
          if \<not> b then Some (False, xdrs)
          else if (ucast vec :: u16) = gds_arg_end then Some (True, xdrs)
          else if (ucast vec :: u16) = gds_arg_interpreted \<or> (ucast vec :: u16) = gds_arg_string
          then
            case vector of
              String s # vector \<Rightarrow>
                do { (b, xdrs, _) \<leftarrow> xdr_wrapstring trash x_ops XDR_ENCODE xdrs (Some s);
                     if b then status_encode trash x_ops xdrs vector else Some (False, xdrs) }
            | _ \<Rightarrow> None
          else
            case vector of
              Status n # vector \<Rightarrow>
                do { (b, xdrs, _) \<leftarrow> xdr_long x_ops XDR_ENCODE xdrs n;
                     if b then status_encode trash x_ops xdrs vector else Some (False, xdrs) }
            | _ \<Rightarrow> None }"
| "status_encode trash x_ops xdrs _ = None"

function status_decode ::
  "u8 list \<Rightarrow> 's xdr_ops \<Rightarrow> 's \<Rightarrow> status_slot list \<Rightarrow> nat \<Rightarrow> u8 list option list \<Rightarrow> nat \<Rightarrow>
   (bool \<times> 's \<times> status_slot list \<times> u8 list option list) option" where
  "status_decode trash x_ops xdrs vector i strings k =
     do { (b, xdrs, vec) \<leftarrow> xdr_long x_ops XDR_DECODE xdrs 0;
          if \<not> b then Some (False, xdrs, vector, strings)
          else if length vector \<le> i then None
          else
            let vector = vector[i := Status vec] in
            if (ucast vec :: u16) = gds_arg_end then Some (True, xdrs, vector, strings)
            else if (ucast vec :: u16) = gds_arg_interpreted \<or> (ucast vec :: u16) = gds_arg_string
            then
              if length strings \<le> k then None
              else do { (b, xdrs, sp) \<leftarrow> xdr_wrapstring trash x_ops XDR_DECODE xdrs None;
                        let strings = strings[k := sp];
                        if \<not> b then Some (False, xdrs, vector, strings)
                        else if length vector \<le> i + 1 then None
                        else status_decode trash x_ops xdrs (vector[i + 1 := String (block_of sp)]) (i + 2) strings (k + 1) }
            else do { (b, xdrs, n) \<leftarrow> xdr_long x_ops XDR_DECODE xdrs vec;
                      if \<not> b then Some (False, xdrs, vector, strings)
                      else if length vector \<le> i + 1 then None
                      else status_decode trash x_ops xdrs (vector[i + 1 := Status n]) (i + 2) strings k } }"
  by pat_completeness auto
termination
  by (relation "measure (\<lambda>(_, _, _, vector, i, _, _). length vector - i)") auto

declare status_decode.simps [simp del]

definition xdr_status_vector :: "u8 list \<Rightarrow> ('s, status_slot list \<times> u8 list option list) routine" where
  "xdr_status_vector trash x_ops x_op xdrs v =
     (case v of (vector, strings) \<Rightarrow>
      case x_op of
        XDR_FREE \<Rightarrow> Some (True, xdrs, (vector, map (\<lambda>_. None) strings))
      | XDR_ENCODE \<Rightarrow> map_option (\<lambda>(b, xdrs). (b, xdrs, v)) (status_encode trash x_ops xdrs vector)
      | XDR_DECODE \<Rightarrow> status_decode trash x_ops xdrs vector 0 strings 0)"

section \<open>Subpackets\<close>

record p_acpt =
  p_acpt_version :: u16
  p_acpt_architecture :: u32
  p_acpt_type :: u16

definition xdr_p_acpt :: "('s, p_acpt) routine" where
  "xdr_p_acpt = xdr_all
     [xdr_map xdr_short p_acpt_version p_acpt_version_update,
      xdr_map xdr_enum p_acpt_architecture p_acpt_architecture_update,
      xdr_map xdr_u_short p_acpt_type p_acpt_type_update]"

record p_req =
  p_req_type :: u16
  p_req_object :: u16
  p_req_partner :: u32

definition xdr_p_req :: "('s, p_req) routine" where
  "xdr_p_req = xdr_all
     [xdr_map xdr_short p_req_type p_req_type_update,
      xdr_map xdr_short p_req_object p_req_object_update,
      xdr_map xdr_long p_req_partner p_req_partner_update]"

record p_atch =
  p_atch_database :: u16
  p_atch_file :: cstring
  p_atch_dpb :: cstring

definition xdr_p_atch :: "('s, p_atch) routine" where
  "xdr_p_atch = xdr_all
     [xdr_map xdr_short p_atch_database p_atch_database_update,
      xdr_map xdr_cstring p_atch_file p_atch_file_update,
      xdr_map xdr_cstring p_atch_dpb p_atch_dpb_update]"

record p_cmpl =
  p_cmpl_database :: u16
  p_cmpl_blr :: cstring

definition xdr_p_cmpl :: "('s, p_cmpl) routine" where
  "xdr_p_cmpl = xdr_all
     [xdr_map xdr_short p_cmpl_database p_cmpl_database_update,
      xdr_map xdr_cstring p_cmpl_blr p_cmpl_blr_update]"

record p_sttr =
  p_sttr_database :: u16
  p_sttr_tpb :: cstring

definition xdr_p_sttr :: "('s, p_sttr) routine" where
  "xdr_p_sttr = xdr_all
     [xdr_map xdr_short p_sttr_database p_sttr_database_update,
      xdr_map xdr_cstring p_sttr_tpb p_sttr_tpb_update]"

record p_rlse =
  p_rlse_object :: u16

definition xdr_p_rlse :: "('s, p_rlse) routine" where
  "xdr_p_rlse = xdr_all
     [xdr_map xdr_short p_rlse_object p_rlse_object_update]"

record p_data =
  p_data_request :: u16
  p_data_incarnation :: u16
  p_data_transaction :: u16
  p_data_message_number :: u16
  p_data_messages :: u16

definition xdr_p_data :: "('s, p_data) routine" where
  "xdr_p_data = xdr_all
     [xdr_map xdr_short p_data_request p_data_request_update,
      xdr_map xdr_short p_data_incarnation p_data_incarnation_update,
      xdr_map xdr_short p_data_transaction p_data_transaction_update,
      xdr_map xdr_short p_data_message_number p_data_message_number_update,
      xdr_map xdr_short p_data_messages p_data_messages_update]"

record p_sgmt =
  p_sgmt_blob :: u16
  p_sgmt_length :: u16
  p_sgmt_segment :: cstring

definition xdr_p_sgmt :: "('s, p_sgmt) routine" where
  "xdr_p_sgmt = xdr_all
     [xdr_map xdr_short p_sgmt_blob p_sgmt_blob_update,
      xdr_map xdr_short p_sgmt_length p_sgmt_length_update,
      xdr_map xdr_cstring p_sgmt_segment p_sgmt_segment_update]"

record p_seek =
  p_seek_blob :: u16
  p_seek_mode :: u16
  p_seek_offset :: u32

definition xdr_p_seek :: "('s, p_seek) routine" where
  "xdr_p_seek = xdr_all
     [xdr_map xdr_short p_seek_blob p_seek_blob_update,
      xdr_map xdr_short p_seek_mode p_seek_mode_update,
      xdr_map xdr_long p_seek_offset p_seek_offset_update]"

record p_prep =
  p_prep_transaction :: u16
  p_prep_data :: cstring

definition xdr_p_prep :: "('s, p_prep) routine" where
  "xdr_p_prep = xdr_all
     [xdr_map xdr_short p_prep_transaction p_prep_transaction_update,
      xdr_map xdr_cstring p_prep_data p_prep_data_update]"

record p_ddl =
  p_ddl_database :: u16
  p_ddl_transaction :: u16
  p_ddl_blr :: cstring

definition xdr_p_ddl :: "('s, p_ddl) routine" where
  "xdr_p_ddl = xdr_all
     [xdr_map xdr_short p_ddl_database p_ddl_database_update,
      xdr_map xdr_short p_ddl_transaction p_ddl_transaction_update,
      xdr_map xdr_cstring p_ddl_blr p_ddl_blr_update]"

record p_sqlfree =
  p_sqlfree_statement :: u16
  p_sqlfree_option :: u16

definition xdr_p_sqlfree :: "('s, p_sqlfree) routine" where
  "xdr_p_sqlfree = xdr_all
     [xdr_map xdr_short p_sqlfree_statement p_sqlfree_statement_update,
      xdr_map xdr_short p_sqlfree_option p_sqlfree_option_update]"

record p_sqlcur =
  p_sqlcur_statement :: u16
  p_sqlcur_cursor_name :: cstring
  p_sqlcur_type :: u16

definition xdr_p_sqlcur :: "('s, p_sqlcur) routine" where
  "xdr_p_sqlcur = xdr_all
     [xdr_map xdr_short p_sqlcur_statement p_sqlcur_statement_update,
      xdr_map xdr_cstring p_sqlcur_cursor_name p_sqlcur_cursor_name_update,
      xdr_map xdr_short p_sqlcur_type p_sqlcur_type_update]"

record p_sqlst =
  p_sqlst_transaction :: u16
  p_sqlst_statement :: u16
  p_sqlst_SQL_dialect :: u16
  p_sqlst_SQL_str :: cstring
  p_sqlst_items :: cstring
  p_sqlst_buffer_length :: u16

definition xdr_p_sqlst :: "('s, p_sqlst) routine" where
  "xdr_p_sqlst = xdr_all
     [xdr_map xdr_short p_sqlst_transaction p_sqlst_transaction_update,
      xdr_map xdr_short p_sqlst_statement p_sqlst_statement_update,
      xdr_map xdr_short p_sqlst_SQL_dialect p_sqlst_SQL_dialect_update,
      xdr_map xdr_cstring p_sqlst_SQL_str p_sqlst_SQL_str_update,
      xdr_map xdr_cstring p_sqlst_items p_sqlst_items_update,
      xdr_map xdr_short p_sqlst_buffer_length p_sqlst_buffer_length_update]"

record p_blob =
  p_blob_transaction :: u16
  p_blob_id :: bid
  p_blob_bpb :: cstring

definition xdr_p_blob :: "('s, p_blob) routine" where
  "xdr_p_blob = xdr_all
     [xdr_map xdr_short p_blob_transaction p_blob_transaction_update, xdr_map xdr_quad p_blob_id p_blob_id_update]"

text \<open>The operations with a blob parameter block fall through to those without.\<close>

definition xdr_p_blob2 :: "('s, p_blob) routine" where
  "xdr_p_blob2 = xdr_seq (xdr_map xdr_cstring p_blob_bpb p_blob_bpb_update) xdr_p_blob"

record p_info =
  p_info_object :: u16
  p_info_incarnation :: u16
  p_info_items :: cstring
  p_info_recv_items :: cstring
  p_info_buffer_length :: u16

definition xdr_p_info :: "bool \<Rightarrow> ('s, p_info) routine" where
  "xdr_p_info op_service = xdr_all
     [xdr_map xdr_short p_info_object p_info_object_update,
      xdr_map xdr_short p_info_incarnation p_info_incarnation_update,
      xdr_map xdr_cstring p_info_items p_info_items_update,
      if op_service then xdr_map xdr_cstring p_info_recv_items p_info_recv_items_update else xdr_skip,
      xdr_map xdr_short p_info_buffer_length p_info_buffer_length_update]"

definition xdr_p_info_start :: "('s, p_info) routine" where
  "xdr_p_info_start = xdr_all
     [xdr_map xdr_short p_info_object p_info_object_update,
      xdr_map xdr_short p_info_incarnation p_info_incarnation_update,
      xdr_map xdr_cstring p_info_items p_info_items_update]"

record p_event =
  p_event_database :: u16
  p_event_items :: cstring
  p_event_ast :: u32
  p_event_arg :: u32
  p_event_rid :: u32

definition xdr_p_event :: "('s, p_event) routine" where
  "xdr_p_event = xdr_all
     [xdr_map xdr_short p_event_database p_event_database_update,
      xdr_map xdr_cstring p_event_items p_event_items_update,
      xdr_map xdr_long p_event_ast p_event_ast_update,
      xdr_map xdr_long p_event_arg p_event_arg_update,
      xdr_map xdr_long p_event_rid p_event_rid_update]"

definition xdr_p_event_cancel :: "('s, p_event) routine" where
  "xdr_p_event_cancel = xdr_all
     [xdr_map xdr_short p_event_database p_event_database_update, xdr_map xdr_long p_event_rid p_event_rid_update]"

record p_cnct_repeat =
  p_cnct_version :: u16
  p_cnct_architecture :: u32
  p_cnct_min_type :: u16
  p_cnct_max_type :: u16
  p_cnct_weight :: u16

definition xdr_p_cnct_repeat :: "('s, p_cnct_repeat) routine" where
  "xdr_p_cnct_repeat = xdr_all
     [xdr_map xdr_short p_cnct_version p_cnct_version_update,
      xdr_map xdr_enum p_cnct_architecture p_cnct_architecture_update,
      xdr_map xdr_u_short p_cnct_min_type p_cnct_min_type_update,
      xdr_map xdr_u_short p_cnct_max_type p_cnct_max_type_update,
      xdr_map xdr_short p_cnct_weight p_cnct_weight_update]"

record p_cnct =
  p_cnct_operation :: u32
  p_cnct_cversion :: u16
  p_cnct_client :: u32
  p_cnct_file :: cstring
  p_cnct_count :: u16
  p_cnct_user_id :: cstring
  p_cnct_versions :: "p_cnct_repeat list"

definition CNCT_VERSIONS :: nat where "CNCT_VERSIONS = 10"

text \<open>Version \<open>i\<close> of the packet, or the local variable \<open>dummy\<close> for those that the packet has no room for.\<close>

definition xdr_version :: "p_cnct_repeat \<Rightarrow> nat \<Rightarrow> ('s, p_cnct) routine" where
  "xdr_version dummy i =
     (if CNCT_VERSIONS \<le> i
      then xdr_map xdr_p_cnct_repeat (\<lambda>_. dummy) (\<lambda>_ p. p)
      else xdr_map xdr_p_cnct_repeat (\<lambda>p. p_cnct_versions p ! i)
        (\<lambda>f. p_cnct_versions_update (\<lambda>vs. vs[i := f (vs ! i)])))"

definition xdr_versions :: "p_cnct_repeat \<Rightarrow> u16 \<Rightarrow> ('s, p_cnct) routine" where
  "xdr_versions dummy n = xdr_all (map (xdr_version dummy) [0..<unat n])"

definition xdr_p_cnct :: "p_cnct_repeat \<Rightarrow> ('s, p_cnct) routine" where
  "xdr_p_cnct dummy = xdr_all
     [xdr_map xdr_enum p_cnct_operation p_cnct_operation_update,
      xdr_map xdr_short p_cnct_cversion p_cnct_cversion_update,
      xdr_map xdr_enum p_cnct_client p_cnct_client_update,
      xdr_map xdr_cstring p_cnct_file p_cnct_file_update,
      xdr_map xdr_short p_cnct_count p_cnct_count_update,
      xdr_map xdr_cstring p_cnct_user_id p_cnct_user_id_update,
      (\<lambda>x_ops x_op xdrs p. xdr_versions dummy (p_cnct_count p) x_ops x_op xdrs p)]"

record p_resp =
  p_resp_object :: u16
  p_resp_blob_id :: bid
  p_resp_data :: cstring
  p_resp_status_vector :: "status_slot list"
  p_resp_strings :: "u8 list option list"

definition xdr_p_resp :: "u8 list \<Rightarrow> ('s, p_resp) routine" where
  "xdr_p_resp trash = xdr_all
     [xdr_map xdr_short p_resp_object p_resp_object_update,
      xdr_map xdr_quad p_resp_blob_id p_resp_blob_id_update,
      xdr_map xdr_cstring p_resp_data p_resp_data_update,
      xdr_map (xdr_status_vector trash) (\<lambda>r. (p_resp_status_vector r, p_resp_strings r))
        (\<lambda>f r. let (v, s) = f (p_resp_status_vector r, p_resp_strings r)
               in r\<lparr>p_resp_status_vector := v, p_resp_strings := s\<rparr>)]"

section \<open>Packets\<close>

record packet =
  p_operation :: u32
  pk_cnct :: p_cnct
  pk_acpt :: p_acpt
  pk_resp :: p_resp
  pk_atch :: p_atch
  pk_rlse :: p_rlse
  pk_data :: p_data
  pk_cmpl :: p_cmpl
  pk_sttr :: p_sttr
  pk_blob :: p_blob
  pk_sgmt :: p_sgmt
  pk_info :: p_info
  pk_event :: p_event
  pk_prep :: p_prep
  pk_req :: p_req
  pk_ddl :: p_ddl
  pk_seek :: p_seek
  pk_sqlst :: p_sqlst
  pk_sqlcur :: p_sqlcur
  pk_sqlfree :: p_sqlfree

abbreviation op_reject :: u32 where "op_reject \<equiv> 4"
abbreviation op_disconnect :: u32 where "op_disconnect \<equiv> 6"
abbreviation op_dummy :: u32 where "op_dummy \<equiv> 71"
abbreviation op_connect :: u32 where "op_connect \<equiv> 1"
abbreviation op_accept :: u32 where "op_accept \<equiv> 3"
abbreviation op_connect_request :: u32 where "op_connect_request \<equiv> 53"
abbreviation op_aux_connect :: u32 where "op_aux_connect \<equiv> 54"
abbreviation op_attach :: u32 where "op_attach \<equiv> 19"
abbreviation op_create :: u32 where "op_create \<equiv> 20"
abbreviation op_service_attach :: u32 where "op_service_attach \<equiv> 82"
abbreviation op_compile :: u32 where "op_compile \<equiv> 22"
abbreviation op_receive :: u32 where "op_receive \<equiv> 26"
abbreviation op_start :: u32 where "op_start \<equiv> 23"
abbreviation op_start_and_receive :: u32 where "op_start_and_receive \<equiv> 73"
abbreviation op_response :: u32 where "op_response \<equiv> 9"
abbreviation op_response_piggyback :: u32 where "op_response_piggyback \<equiv> 72"
abbreviation op_open_blob2 :: u32 where "op_open_blob2 \<equiv> 56"
abbreviation op_create_blob2 :: u32 where "op_create_blob2 \<equiv> 57"
abbreviation op_open_blob :: u32 where "op_open_blob \<equiv> 35"
abbreviation op_create_blob :: u32 where "op_create_blob \<equiv> 34"
abbreviation op_get_segment :: u32 where "op_get_segment \<equiv> 36"
abbreviation op_put_segment :: u32 where "op_put_segment \<equiv> 37"
abbreviation op_batch_segments :: u32 where "op_batch_segments \<equiv> 44"
abbreviation op_seek_blob :: u32 where "op_seek_blob \<equiv> 61"
abbreviation op_reconnect :: u32 where "op_reconnect \<equiv> 33"
abbreviation op_transaction :: u32 where "op_transaction \<equiv> 29"
abbreviation op_info_blob :: u32 where "op_info_blob \<equiv> 43"
abbreviation op_info_database :: u32 where "op_info_database \<equiv> 40"
abbreviation op_info_request :: u32 where "op_info_request \<equiv> 41"
abbreviation op_info_transaction :: u32 where "op_info_transaction \<equiv> 42"
abbreviation op_service_info :: u32 where "op_service_info \<equiv> 84"
abbreviation op_info_sql :: u32 where "op_info_sql \<equiv> 70"
abbreviation op_service_start :: u32 where "op_service_start \<equiv> 85"
abbreviation op_commit :: u32 where "op_commit \<equiv> 30"
abbreviation op_prepare :: u32 where "op_prepare \<equiv> 32"
abbreviation op_rollback :: u32 where "op_rollback \<equiv> 31"
abbreviation op_unwind :: u32 where "op_unwind \<equiv> 27"
abbreviation op_release :: u32 where "op_release \<equiv> 28"
abbreviation op_close_blob :: u32 where "op_close_blob \<equiv> 39"
abbreviation op_cancel_blob :: u32 where "op_cancel_blob \<equiv> 38"
abbreviation op_detach :: u32 where "op_detach \<equiv> 21"
abbreviation op_drop_database :: u32 where "op_drop_database \<equiv> 81"
abbreviation op_service_detach :: u32 where "op_service_detach \<equiv> 83"
abbreviation op_commit_retaining :: u32 where "op_commit_retaining \<equiv> 50"
abbreviation op_rollback_retaining :: u32 where "op_rollback_retaining \<equiv> 86"
abbreviation op_allocate_statement :: u32 where "op_allocate_statement \<equiv> 62"
abbreviation op_prepare2 :: u32 where "op_prepare2 \<equiv> 51"
abbreviation op_que_events :: u32 where "op_que_events \<equiv> 48"
abbreviation op_event :: u32 where "op_event \<equiv> 52"
abbreviation op_cancel_events :: u32 where "op_cancel_events \<equiv> 49"
abbreviation op_ddl :: u32 where "op_ddl \<equiv> 55"
abbreviation op_exec_immediate :: u32 where "op_exec_immediate \<equiv> 64"
abbreviation op_prepare_statement :: u32 where "op_prepare_statement \<equiv> 68"
abbreviation op_free_statement :: u32 where "op_free_statement \<equiv> 67"
abbreviation op_set_cursor :: u32 where "op_set_cursor \<equiv> 69"
abbreviation op_send :: u32 where "op_send \<equiv> 25"
abbreviation op_start_and_send :: u32 where "op_start_and_send \<equiv> 24"
abbreviation op_start_send_and_receive :: u32 where "op_start_send_and_receive \<equiv> 74"
abbreviation op_transact :: u32 where "op_transact \<equiv> 79"
abbreviation op_transact_response :: u32 where "op_transact_response \<equiv> 80"
abbreviation op_get_slice :: u32 where "op_get_slice \<equiv> 58"
abbreviation op_put_slice :: u32 where "op_put_slice \<equiv> 59"
abbreviation op_slice :: u32 where "op_slice \<equiv> 60"
abbreviation op_execute :: u32 where "op_execute \<equiv> 63"
abbreviation op_execute2 :: u32 where "op_execute2 \<equiv> 76"
abbreviation op_exec_immediate2 :: u32 where "op_exec_immediate2 \<equiv> 75"
abbreviation op_fetch :: u32 where "op_fetch \<equiv> 65"
abbreviation op_fetch_response :: u32 where "op_fetch_response \<equiv> 66"
abbreviation op_insert :: u32 where "op_insert \<equiv> 77"
abbreviation op_sql_response :: u32 where "op_sql_response \<equiv> 78"

text \<open>The operations that are not modelled.\<close>

definition carries_message :: "u32 \<Rightarrow> bool" where
  "carries_message op \<longleftrightarrow> op \<in>
     {op_send, op_start_and_send, op_start_send_and_receive, op_transact, op_transact_response,
      op_get_slice, op_put_slice, op_slice, op_execute, op_execute2, op_exec_immediate2, op_fetch,
      op_fetch_response, op_insert, op_sql_response}"

text \<open>
  What follows the operation; \<open>None\<close> for an operation of the default case, which returns FALSE. \<open>dummy\<close> is the
  local variable of that name.
\<close>

definition packet_body :: "u8 list \<Rightarrow> p_cnct_repeat \<Rightarrow> u32 \<Rightarrow> ('s, packet) routine option" where
  "packet_body trash dummy op =
     (if op \<in> {op_reject, op_disconnect, op_dummy}
      then Some xdr_skip
      else if op = op_connect
      then Some (xdr_map (xdr_p_cnct dummy) pk_cnct pk_cnct_update)
      else if op = op_accept
      then Some (xdr_map xdr_p_acpt pk_acpt pk_acpt_update)
      else if op \<in> {op_connect_request, op_aux_connect}
      then Some (xdr_map xdr_p_req pk_req pk_req_update)
      else if op \<in> {op_attach, op_create, op_service_attach}
      then Some (xdr_map xdr_p_atch pk_atch pk_atch_update)
      else if op = op_compile
      then Some (xdr_map xdr_p_cmpl pk_cmpl pk_cmpl_update)
      else if op \<in> {op_receive, op_start, op_start_and_receive}
      then Some (xdr_map xdr_p_data pk_data pk_data_update)
      else if op \<in> {op_response, op_response_piggyback}
      then Some (xdr_map (xdr_p_resp trash) pk_resp pk_resp_update)
      else if op \<in> {op_open_blob2, op_create_blob2}
      then Some (xdr_map xdr_p_blob2 pk_blob pk_blob_update)
      else if op \<in> {op_open_blob, op_create_blob}
      then Some (xdr_map xdr_p_blob pk_blob pk_blob_update)
      else if op \<in> {op_get_segment, op_put_segment, op_batch_segments}
      then Some (xdr_map xdr_p_sgmt pk_sgmt pk_sgmt_update)
      else if op = op_seek_blob
      then Some (xdr_map xdr_p_seek pk_seek pk_seek_update)
      else if op \<in> {op_reconnect, op_transaction}
      then Some (xdr_map xdr_p_sttr pk_sttr pk_sttr_update)
      else if op \<in> {op_info_blob, op_info_database, op_info_request, op_info_transaction, op_service_info, op_info_sql}
      then Some (xdr_map (xdr_p_info (op = op_service_info)) pk_info pk_info_update)
      else if op = op_service_start
      then Some (xdr_map xdr_p_info_start pk_info pk_info_update)
      else if op \<in> {op_commit, op_prepare, op_rollback, op_unwind, op_release, op_close_blob, op_cancel_blob, op_detach,
      op_drop_database, op_service_detach, op_commit_retaining, op_rollback_retaining,
      op_allocate_statement}
      then Some (xdr_map xdr_p_rlse pk_rlse pk_rlse_update)
      else if op = op_prepare2
      then Some (xdr_map xdr_p_prep pk_prep pk_prep_update)
      else if op \<in> {op_que_events, op_event}
      then Some (xdr_map xdr_p_event pk_event pk_event_update)
      else if op = op_cancel_events
      then Some (xdr_map xdr_p_event_cancel pk_event pk_event_update)
      else if op = op_ddl
      then Some (xdr_map xdr_p_ddl pk_ddl pk_ddl_update)
      else if op \<in> {op_exec_immediate, op_prepare_statement}
      then Some (xdr_map xdr_p_sqlst pk_sqlst pk_sqlst_update)
      else if op = op_free_statement
      then Some (xdr_map xdr_p_sqlfree pk_sqlfree pk_sqlfree_update)
      else if op = op_set_cursor
      then Some (xdr_map xdr_p_sqlcur pk_sqlcur pk_sqlcur_update)
      else None)"

definition xdr_protocol :: "u8 list \<Rightarrow> p_cnct_repeat \<Rightarrow> ('s, packet) routine" where
  "xdr_protocol trash dummy x_ops x_op xdrs p =
     do { (b, xdrs, p) \<leftarrow> xdr_map xdr_enum p_operation p_operation_update x_ops x_op xdrs p;
          if \<not> b then Some (False, xdrs, p)
          else if carries_message (p_operation p) then None
          else case packet_body trash dummy (p_operation p) of
              None \<Rightarrow> Some (False, xdrs, p)
            | Some body \<Rightarrow> body x_ops x_op xdrs p }"

section \<open>Overhead\<close>

text \<open>The size of a packet without the data it carries; zero for an operation the routine does not support.\<close>

definition xdr_protocol_overhead :: "u32 \<Rightarrow> nat" where
  "xdr_protocol_overhead op =
     (if op = op_fetch_response then 4 + (4 + 4)
      else if op \<in> {op_send, op_start_and_send, op_start_send_and_receive} then 4 + (4 + 4 + 4 + 4 + 4)
      else if op \<in> {op_response, op_response_piggyback} then 4 + (4 + 8 + 4 + 3 * 4)
      else 0)"

end
