(* ===== verification/Message.thy ===== *)
theory Message
  imports Protocol
begin

text \<open>
  \<open>remote/parser.cpp\<close> and the message routines of \<open>remote/protocol.cpp\<close>: the data of requests and rows. The BLR of a
  request declares messages; \<open>PARSE_messages\<close> makes a format of each declaration, which places the fields in a
  message buffer, and \<open>xdr_message\<close> encodes or decodes a buffer field by field with \<open>xdr_datum\<close>.

  A buffer is the list of its bytes; numbers lie in it with their low byte first. \<open>None\<close> is an access outside the
  buffer, or outside the BLR: \<open>PARSE_messages\<close> is given the length of the BLR but does not look at it.
\<close>

section \<open>Descriptors\<close>

record dsc =
  dsc_dtype :: u8
  dsc_scale :: u8
  dsc_length :: u16
  dsc_address :: nat

abbreviation dtype_text :: u8 where "dtype_text \<equiv> 1"
abbreviation dtype_cstring :: u8 where "dtype_cstring \<equiv> 2"
abbreviation dtype_varying :: u8 where "dtype_varying \<equiv> 3"
abbreviation dtype_short :: u8 where "dtype_short \<equiv> 8"
abbreviation dtype_long :: u8 where "dtype_long \<equiv> 9"
abbreviation dtype_quad :: u8 where "dtype_quad \<equiv> 10"
abbreviation dtype_real :: u8 where "dtype_real \<equiv> 11"
abbreviation dtype_double :: u8 where "dtype_double \<equiv> 12"
abbreviation dtype_sql_date :: u8 where "dtype_sql_date \<equiv> 14"
abbreviation dtype_sql_time :: u8 where "dtype_sql_time \<equiv> 15"
abbreviation dtype_timestamp :: u8 where "dtype_timestamp \<equiv> 16"
abbreviation dtype_blob :: u8 where "dtype_blob \<equiv> 17"
abbreviation dtype_array :: u8 where "dtype_array \<equiv> 18"
abbreviation dtype_int64 :: u8 where "dtype_int64 \<equiv> 19"

text \<open>\<open>DOUBLE_ALIGN\<close> is 8, as the configuration files have it.\<close>

definition type_alignments :: "nat list" where
  "type_alignments = [0, 0, 0, 2, 0, 0, 1, 1, 2, 4, 4, 4, 8, 8, 4, 4, 4, 4, 4, 8]"

definition FB_ALIGN :: "u32 \<Rightarrow> u32 \<Rightarrow> u32" where
  "FB_ALIGN n b = (n + b - 1) AND NOT (b - 1)"

section \<open>Formats\<close>

record fmt =
  fmt_length :: u16
  fmt_net_length :: u16
  fmt_count :: u16
  fmt_desc :: "dsc list"

record rem_msg =
  msg_number :: u16
  msg_address :: fmt

abbreviation blr_version4 :: u8 where "blr_version4 \<equiv> 4"
abbreviation blr_version5 :: u8 where "blr_version5 \<equiv> 5"
abbreviation blr_begin :: u8 where "blr_begin \<equiv> 2"
abbreviation blr_message :: u8 where "blr_message \<equiv> 4"
abbreviation blr_text :: u8 where "blr_text \<equiv> 14"
abbreviation blr_text2 :: u8 where "blr_text2 \<equiv> 15"
abbreviation blr_short :: u8 where "blr_short \<equiv> 7"
abbreviation blr_long :: u8 where "blr_long \<equiv> 8"
abbreviation blr_quad :: u8 where "blr_quad \<equiv> 9"
abbreviation blr_float :: u8 where "blr_float \<equiv> 10"
abbreviation blr_double :: u8 where "blr_double \<equiv> 27"
abbreviation blr_d_float :: u8 where "blr_d_float \<equiv> 11"
abbreviation blr_timestamp :: u8 where "blr_timestamp \<equiv> 35"
abbreviation blr_varying :: u8 where "blr_varying \<equiv> 37"
abbreviation blr_varying2 :: u8 where "blr_varying2 \<equiv> 38"
abbreviation blr_cstring :: u8 where "blr_cstring \<equiv> 40"
abbreviation blr_cstring2 :: u8 where "blr_cstring2 \<equiv> 41"
abbreviation blr_sql_date :: u8 where "blr_sql_date \<equiv> 12"
abbreviation blr_sql_time :: u8 where "blr_sql_time \<equiv> 13"
abbreviation blr_int64 :: u8 where "blr_int64 \<equiv> 16"

fun next_byte :: "u8 list \<Rightarrow> (u8 \<times> u8 list) option" where
  "next_byte [] = None"
| "next_byte (b # blr) = Some (b, blr)"

definition next_short :: "u16 \<Rightarrow> u8 list \<Rightarrow> (u16 \<times> u8 list) option" where
  "next_short n blr =
     do { (lo, blr) \<leftarrow> next_byte blr;
          (hi, blr) \<leftarrow> next_byte blr;
          Some (ucast lo + n + push_bit 8 (ucast hi), blr) }"

definition next_scale :: "u8 list \<Rightarrow> (u8 \<times> u8 list) option" where
  "next_scale blr =
     do { (scale, blr) \<leftarrow> next_byte blr;
          (hi, blr) \<leftarrow> next_byte blr;
          Some (scale + ucast (push_bit 8 (ucast hi :: u32)), blr) }"

text \<open>
  The declaration of a field: its descriptor, not yet placed, with the alignment; the inner \<open>None\<close> is a type that
  the parser does not know.
\<close>

definition field_of :: "u8 \<Rightarrow> u8 \<Rightarrow> u16 \<Rightarrow> u8 list \<Rightarrow> (dsc option \<times> u8 list) option" where
  "field_of dtype scale len blr =
     Some (Some \<lparr>dsc_dtype = dtype, dsc_scale = scale, dsc_length = len, dsc_address = 0\<rparr>, blr)"

definition parse_field :: "u8 list \<Rightarrow> (dsc option \<times> u8 list) option" where
  "parse_field blr =
     do { (b, blr) \<leftarrow> next_byte blr;
          if b = blr_text then do { (n, blr) \<leftarrow> next_short 0 blr; field_of dtype_text 0 n blr }
          else if b = blr_varying then do { (n, blr) \<leftarrow> next_short 2 blr; field_of dtype_varying 0 n blr }
          else if b = blr_cstring then do { (n, blr) \<leftarrow> next_short 0 blr; field_of dtype_cstring 0 n blr }
          else if b = blr_text2
          then do { (s, blr) \<leftarrow> next_scale blr; (n, blr) \<leftarrow> next_short 0 blr; field_of dtype_text s n blr }
          else if b = blr_varying2
          then do { (s, blr) \<leftarrow> next_scale blr; (n, blr) \<leftarrow> next_short 2 blr; field_of dtype_varying s n blr }
          else if b = blr_cstring2
          then do { (s, blr) \<leftarrow> next_scale blr; (n, blr) \<leftarrow> next_short 0 blr; field_of dtype_cstring s n blr }
          else if b = blr_short then do { (s, blr) \<leftarrow> next_byte blr; field_of dtype_short s 2 blr }
          else if b = blr_long then do { (s, blr) \<leftarrow> next_byte blr; field_of dtype_long s 4 blr }
          else if b = blr_int64 then do { (s, blr) \<leftarrow> next_byte blr; field_of dtype_int64 s 8 blr }
          else if b = blr_quad then do { (s, blr) \<leftarrow> next_byte blr; field_of dtype_quad s 8 blr }
          else if b = blr_float then field_of dtype_real 0 4 blr
          else if b = blr_double \<or> b = blr_d_float then field_of dtype_double 0 8 blr
          else if b = blr_timestamp then field_of dtype_timestamp 0 8 blr
          else if b = blr_sql_date then field_of dtype_sql_date 0 4 blr
          else if b = blr_sql_time then field_of dtype_sql_time 0 4 blr
          else Some (None, blr) }"

text \<open>\<open>offset\<close> and \<open>net_length\<close> are of 16 bits; what is added to them is computed with \<open>int\<close>.\<close>

definition align_offset :: "u16 \<Rightarrow> u8 \<Rightarrow> u16" where
  "align_offset offset dtype =
     (let align = type_alignments ! unat dtype in
      if 1 < align then ucast (FB_ALIGN (ucast offset) (of_nat align)) else offset)"

definition net_size :: "dsc \<Rightarrow> u32" where
  "net_size desc =
     (if dsc_dtype desc = dtype_varying
      then 4 + ((ucast (dsc_length desc) - 2 + 3) AND NOT 3)
      else (ucast (dsc_length desc) + 3) AND NOT 3)"

fun parse_fields :: "nat \<Rightarrow> u8 list \<Rightarrow> u16 \<Rightarrow> u16 \<Rightarrow> ((dsc list \<times> u16 \<times> u16) option \<times> u8 list) option" where
  "parse_fields 0 blr offset net_length = Some (Some ([], offset, net_length), blr)"
| "parse_fields (Suc count) blr offset net_length =
     do { (d, blr) \<leftarrow> parse_field blr;
          case d of
            None \<Rightarrow> Some (None, blr)
          | Some desc \<Rightarrow>
              let net_length = net_length + ucast (net_size desc);
                  offset = align_offset offset (dsc_dtype desc);
                  desc = desc\<lparr>dsc_address := unat offset\<rparr>
              in map_option (\<lambda>(r, blr). (map_option (\<lambda>(ds, off, n). (desc # ds, off, n)) r, blr))
                   (parse_fields count blr (offset + dsc_length desc) net_length) }"

lemma next_byte_shorter: "next_byte blr = Some (b, blr') \<Longrightarrow> length blr' < length blr"
  by (cases blr) auto

lemma next_short_shorter: "next_short n blr = Some (w, blr') \<Longrightarrow> length blr' < length blr"
  by (auto simp: next_short_def bind_eq_Some_conv dest!: next_byte_shorter)

lemma next_scale_shorter: "next_scale blr = Some (w, blr') \<Longrightarrow> length blr' < length blr"
  by (auto simp: next_scale_def bind_eq_Some_conv dest!: next_byte_shorter)

lemma parse_field_shorter: "parse_field blr = Some (d, blr') \<Longrightarrow> length blr' < length blr"
  by (auto simp: parse_field_def field_of_def bind_eq_Some_conv split: if_splits
      dest!: next_byte_shorter next_short_shorter next_scale_shorter)

lemma parse_fields_shorter: "parse_fields count blr offset net = Some (r, blr') \<Longrightarrow> length blr' \<le> length blr"
proof (induction count arbitrary: blr offset net r)
  case (Suc count)
  then obtain d blr1 where 1: "parse_field blr = Some (d, blr1)" by (auto simp: bind_eq_Some_conv)
  show ?case
    using Suc.prems Suc.IH [of blr1] parse_field_shorter [OF 1] 1
    by (fastforce simp: Let_def split: option.splits)
qed simp

text \<open>The messages, the last one first.\<close>

function parse_loop :: "u8 list \<Rightarrow> u16 \<Rightarrow> rem_msg list \<Rightarrow> rem_msg list option option" where
  "parse_loop blr net_length message =
     do { (b, blr) \<leftarrow> next_byte blr;
          if b \<noteq> blr_message then Some (Some message)
          else do { (msg, blr) \<leftarrow> next_byte blr;
                    (count, blr) \<leftarrow> next_short 0 blr;
                    (r, blr) \<leftarrow> parse_fields (unat count) blr 0 net_length;
                    case r of
                      None \<Rightarrow> Some None
                    | Some (descs, offset, net_length) \<Rightarrow>
                        parse_loop blr net_length
                          (\<lparr>msg_number = ucast msg,
                            msg_address = \<lparr>fmt_length = offset, fmt_net_length = net_length, fmt_count = count,
                              fmt_desc = descs\<rparr>\<rparr> # message) } }"
  by pat_completeness auto
termination
  by (relation "measure (\<lambda>(blr, _, _). length blr)")
    (auto dest!: next_byte_shorter next_short_shorter parse_fields_shorter)

declare parse_loop.simps [simp del]

text \<open>The inner \<open>None\<close> is the result -1.\<close>

definition PARSE_messages :: "u8 list \<Rightarrow> rem_msg list option option" where
  "PARSE_messages blr =
     do { (version, blr) \<leftarrow> next_byte blr;
          if version \<noteq> blr_version4 \<and> version \<noteq> blr_version5 then Some None
          else do { (b, blr') \<leftarrow> next_byte blr;
                    if b \<noteq> blr_begin then Some (Some []) else parse_loop blr' 0 [] } }"

text \<open>
  \<open>PARSE_prepare_messages\<close> replaces \<open>blr_d_float\<close> by \<open>blr_double\<close> in the messages, in a copy of the BLR: the bytes of a
  field as they are afterwards, with those that follow; the inner \<open>None\<close> is an unexpected type, at which it stops.
\<close>

definition prepare_field :: "u8 list \<Rightarrow> (u8 list \<times> u8 list) option option" where
  "prepare_field blr =
     do { (b, blr) \<leftarrow> next_byte blr;
          if b \<in> {blr_text2, blr_varying2, blr_cstring2} then Some (Some (b # take 4 blr, drop 4 blr))
          else if b \<in> {blr_text, blr_varying, blr_cstring} then Some (Some (b # take 2 blr, drop 2 blr))
          else if b \<in> {blr_short, blr_long, blr_int64, blr_quad} then Some (Some (b # take 1 blr, drop 1 blr))
          else if b \<in> {blr_float, blr_double, blr_timestamp, blr_sql_date, blr_sql_time} then Some (Some ([b], blr))
          else if b = blr_d_float then Some (Some ([blr_double], blr))
          else Some None }"

fun prepare_fields :: "nat \<Rightarrow> u8 list \<Rightarrow> (u8 list \<times> u8 list \<times> bool) option" where
  "prepare_fields 0 blr = Some ([], blr, True)"
| "prepare_fields (Suc count) blr =
     do { r \<leftarrow> prepare_field blr;
          case r of
            None \<Rightarrow> Some ([], blr, False)
          | Some (out, blr) \<Rightarrow>
              map_option (\<lambda>(outs, blr, b). (out @ outs, blr, b)) (prepare_fields count blr) }"

lemma prepare_field_shorter: "prepare_field blr = Some (Some (out, blr')) \<Longrightarrow> length blr' < length blr"
  by (cases blr) (auto simp: prepare_field_def split: if_splits)

lemma prepare_fields_shorter: "prepare_fields count blr = Some (out, blr', b) \<Longrightarrow> length blr' \<le> length blr"
proof (induction count arbitrary: blr out)
  case (Suc count)
  then obtain r where r: "prepare_field blr = Some r" by (auto simp: bind_eq_Some_conv)
  show ?case
  proof (cases r)
    case (Some f)
    obtain out1 blr1 where f: "f = (out1, blr1)" by (cases f)
    have "length blr1 < length blr" using prepare_field_shorter r Some f by blast
    then show ?thesis using Suc.prems Suc.IH [of blr1] r Some f by fastforce
  qed (use Suc.prems r in auto)
qed simp

function prepare_loop :: "u8 list \<Rightarrow> u8 list option" where
  "prepare_loop blr =
     do { (b, blr1) \<leftarrow> next_byte blr;
          if b \<noteq> blr_message then Some blr
          else do { (msg, blr2) \<leftarrow> next_byte blr1;
                    (count, blr3) \<leftarrow> next_short 0 blr2;
                    (out, blr4, known) \<leftarrow> prepare_fields (unat count) blr3;
                    if known then map_option (\<lambda>rest. take 4 blr @ out @ rest) (prepare_loop blr4)
                    else Some (take 4 blr @ out @ blr4) } }"
  by pat_completeness auto
termination
  by (relation "measure length") (auto dest!: next_byte_shorter next_short_shorter prepare_fields_shorter)

declare prepare_loop.simps [simp del]

definition PARSE_prepare_messages :: "u8 list \<Rightarrow> u8 list option" where
  "PARSE_prepare_messages blr =
     do { (version, blr1) \<leftarrow> next_byte blr;
          if version \<noteq> blr_version4 \<and> version \<noteq> blr_version5 then Some blr
          else do { (b, blr2) \<leftarrow> next_byte blr1;
                    if b \<noteq> blr_begin then Some blr else map_option (\<lambda>rest. take 2 blr @ rest) (prepare_loop blr2) } }"

section \<open>Numbers in a buffer\<close>

fun load :: "u8 list \<Rightarrow> 'a::len word" where
  "load [] = 0"
| "load (b # bs) = ucast b OR push_bit 8 (load bs)"

fun store :: "nat \<Rightarrow> 'a::len word \<Rightarrow> u8 list" where
  "store 0 w = []"
| "store (Suc n) w = ucast w # store n (drop_bit 8 w)"

text \<open>A routine on the value of \<open>n\<close> bytes at the address \<open>p\<close>, and one on the memory from \<open>p\<close> on.\<close>

definition xdr_at ::
  "nat \<Rightarrow> nat \<Rightarrow> (u8 list \<Rightarrow> 'v) \<Rightarrow> ('v \<Rightarrow> u8 list) \<Rightarrow> ('s, 'v) routine \<Rightarrow> ('s, u8 list) routine" where
  "xdr_at n p get put proc x_ops x_op xdrs buffer =
     (if length buffer < p + n then None
      else map_option (\<lambda>(b, xdrs, v). (b, xdrs, take p buffer @ put v @ drop (p + n) buffer))
        (proc x_ops x_op xdrs (get (take n (drop p buffer)))))"

definition xdr_from :: "nat \<Rightarrow> ('s, u8 list) routine \<Rightarrow> ('s, u8 list) routine" where
  "xdr_from p proc x_ops x_op xdrs buffer =
     map_option (\<lambda>(b, xdrs, bytes). (b, xdrs, take p buffer @ bytes)) (proc x_ops x_op xdrs (drop p buffer))"

definition load_bid :: "u8 list \<Rightarrow> bid" where
  "load_bid bs = \<lparr>bid_relation_id = load (take 4 bs), bid_number = load (drop 4 bs)\<rparr>"

definition store_bid :: "bid \<Rightarrow> u8 list" where
  "store_bid v = store 4 (bid_relation_id v) @ store 4 (bid_number v)"

section \<open>Fields and messages\<close>

definition xdr_varying :: "u8 list \<Rightarrow> dsc \<Rightarrow> ('s, u8 list) routine" where
  "xdr_varying trash desc x_ops x_op xdrs buffer =
     do { (b, xdrs, buffer) \<leftarrow> xdr_at 2 (dsc_address desc) load (store 2) xdr_short x_ops x_op xdrs buffer;
          let vary_length = load (take 2 (drop (dsc_address desc) buffer));
          if b
          then xdr_from (dsc_address desc + 2) (xdr_opaque trash (ucast (min (dsc_length desc - 2) (vary_length :: u16))))
            x_ops x_op xdrs buffer
          else Some (False, xdrs, buffer) }"

text \<open>\<open>n\<close> is set before \<open>xdr_short\<close> only to be encoded.\<close>

definition xdr_c_string :: "u8 list \<Rightarrow> dsc \<Rightarrow> ('s, u8 list) routine" where
  "xdr_c_string trash desc x_ops x_op xdrs buffer =
     (let p = dsc_address desc in
      do { n \<leftarrow> (if x_op = XDR_ENCODE
             then map_option (\<lambda>k. of_nat (min k (unat (ucast (dsc_length desc) - 1 :: u32)))) (strlen (drop p buffer))
             else Some 0);
           (b, xdrs, n) \<leftarrow> xdr_short x_ops x_op xdrs n;
           if \<not> b then Some (False, xdrs, buffer)
           else do { (b, xdrs, buffer) \<leftarrow> xdr_from p (xdr_opaque trash (scast n)) x_ops x_op xdrs buffer;
                     if \<not> b then Some (False, xdrs, buffer)
                     else if x_op = XDR_DECODE
                     then if sint n < 0 \<or> length buffer \<le> p + unat n then None
                       else Some (True, xdrs, buffer[p + unat n := 0])
                     else Some (True, xdrs, buffer) } })"

definition xdr_datum :: "u8 list \<Rightarrow> dsc \<Rightarrow> ('s, u8 list) routine" where
  "xdr_datum trash desc =
     (let p = dsc_address desc; dtype = dsc_dtype desc in
      if dtype = dtype_text then xdr_from p (xdr_opaque trash (ucast (dsc_length desc)))
      else if dtype = dtype_varying then xdr_varying trash desc
      else if dtype = dtype_cstring then xdr_c_string trash desc
      else if dtype = dtype_short then xdr_at 2 p load (store 2) xdr_short
      else if dtype \<in> {dtype_sql_time, dtype_sql_date, dtype_long} then xdr_at 4 p load (store 4) xdr_long
      else if dtype = dtype_real then xdr_at 4 p load (store 4) xdr_float
      else if dtype = dtype_double then xdr_at 8 p load (store 8) xdr_double
      else if dtype = dtype_timestamp
      then xdr_seq (xdr_at 4 p load (store 4) xdr_long) (xdr_at 4 (p + 4) load (store 4) xdr_long)
      else if dtype = dtype_int64 then xdr_at 8 p load (store 8) xdr_hyper
      else if dtype \<in> {dtype_array, dtype_quad, dtype_blob} then xdr_at 8 p load_bid store_bid xdr_quad
      else (\<lambda>x_ops x_op xdrs buffer. Some (False, xdrs, buffer)))"

text \<open>
  Between processors of the same architecture (\<open>PORT_symmetric\<close>) the buffer is sent as it is.
\<close>

definition xdr_message :: "u8 list \<Rightarrow> bool \<Rightarrow> fmt \<Rightarrow> ('s, u8 list) routine" where
  "xdr_message trash symmetric format x_ops x_op xdrs buffer =
     (if x_op = XDR_FREE then Some (True, xdrs, buffer)
      else if symmetric then xdr_opaque trash (ucast (fmt_length format)) x_ops x_op xdrs buffer
      else xdr_all (map (xdr_datum trash) (fmt_desc format)) x_ops x_op xdrs buffer)"

section \<open>Batches of rows\<close>

definition ROUNDUP :: "u32 \<Rightarrow> u32 \<Rightarrow> u32" where
  "ROUNDUP n b = (n + b - 1) AND NOT (b - 1)"

abbreviation MAX_PACKETS_PER_BATCH :: u32 where "MAX_PACKETS_PER_BATCH \<equiv> 4"
abbreviation MIN_PACKETS_PER_BATCH :: u16 where "MIN_PACKETS_PER_BATCH \<equiv> 2"
abbreviation DESIRED_ROWS_PER_BATCH :: u32 where "DESIRED_ROWS_PER_BATCH \<equiv> 20"
abbreviation MIN_ROWS_PER_BATCH :: u32 where "MIN_ROWS_PER_BATCH \<equiv> 10"

text \<open>The unsigned arithmetic of the routine is that of 32 bits; \<open>None\<close> is a division by zero.\<close>

definition packets_for :: "u32 \<Rightarrow> u32 \<Rightarrow> u16 \<Rightarrow> u16 \<Rightarrow> u16" where
  "packets_for rows row_size buffer_used buff_size =
     ucast ((rows * row_size + ucast buffer_used + (ucast buff_size - 1)) div ucast buff_size)"

definition batch_row_size :: "bool \<Rightarrow> u32 \<Rightarrow> fmt \<Rightarrow> u32" where
  "batch_row_size symmetric op_code format =
     (let op_overhead = of_nat (xdr_protocol_overhead op_code) :: u16 in
      (if symmetric then ROUNDUP (ucast (fmt_length format)) 4 else ROUNDUP (ucast (fmt_net_length format)) 4) + ucast op_overhead)"

definition batch_packets :: "u32 \<Rightarrow> u16 \<Rightarrow> u16 \<Rightarrow> u16" where
  "batch_packets row_size buffer_used buff_size =
     (let num_packets = packets_for DESIRED_ROWS_PER_BATCH row_size buffer_used buff_size;
          num_packets = (if MAX_PACKETS_PER_BATCH < ucast num_packets
            then packets_for MIN_ROWS_PER_BATCH row_size buffer_used buff_size else num_packets)
      in max num_packets MIN_PACKETS_PER_BATCH)"

definition REMOTE_compute_batch_size :: "bool \<Rightarrow> u16 \<Rightarrow> u16 \<Rightarrow> u32 \<Rightarrow> fmt \<Rightarrow> u32 option" where
  "REMOTE_compute_batch_size symmetric port_buff_size buffer_used op_code format =
     (let row_size = batch_row_size symmetric op_code format;
          num_packets = batch_packets row_size buffer_used port_buff_size
      in if port_buff_size = 0 \<or> row_size = 0 then None
         else Some (max ((ucast num_packets * ucast port_buff_size - ucast buffer_used) div row_size) MIN_ROWS_PER_BATCH))"

end
