(* ===== verification/Protocol_Codec.thy ===== *)
theory Protocol_Codec
  imports Protocol
begin

text \<open>
  Every modelled packet is carried by \<open>xdr_protocol\<close>, and decoding a packet from arbitrary bytes stays inside
  memory for every operation but the responses, whose status vector has no bounds.
\<close>

context xdr_stream
begin

section \<open>Writing and reading pieces\<close>

definition puts :: "'s \<Rightarrow> u8 list \<Rightarrow> 's \<Rightarrow> bool \<Rightarrow> bool" where
  "puts s bs s' b \<longleftrightarrow>
     wf s' \<and> b = (length bs \<le> length (rest s)) \<and> length (rest s') \<le> length (rest s) \<and>
     (b \<longrightarrow> passed s' = passed s @ bs \<and> rest s' = drop (length bs) (rest s))"

lemma puts_wf: "puts s bs s' b \<Longrightarrow> wf s'"
  by (simp add: puts_def)

lemma puts_append: "puts s xs s1 True \<Longrightarrow> puts s1 ys s2 b \<Longrightarrow> puts s (xs @ ys) s2 b"
  by (auto simp: puts_def add.commute)

lemma puts_stop: "puts s xs s1 False \<Longrightarrow> puts s (xs @ ys) s1 False"
  by (auto simp: puts_def)

lemma puts_none: "wf s \<Longrightarrow> puts s [] s True"
  by (simp add: puts_def)

lemma encodesI:
  "(\<And>s v. wf s \<Longrightarrow> ok v \<Longrightarrow> \<exists>b s'. r ops XDR_ENCODE s v = Some (b, s', v) \<and> puts s (wire trash (F v)) s' b) \<Longrightarrow>
   encodes trash r F ok"
  unfolding encodes_def puts_def by metis

lemma puts_long: "wf s \<Longrightarrow> \<exists>b s'. x_putlong ops s w = Some (b, s') \<and> puts s (htonl_bytes w) s' b"
  using putlong [of s w] by (auto simp: puts_def split: if_splits)

lemma puts_bytes:
  "wf s \<Longrightarrow> n < 2 ^ 31 \<Longrightarrow> n \<le> length blk \<Longrightarrow>
   \<exists>b s'. x_putbytes ops s blk (of_nat n) = Some (b, s') \<and> puts s (take n blk) s' b"
  using putbytes [of s n blk] by (auto simp: puts_def split: if_splits)

lemma padding_zero: "n < 2 ^ 32 \<Longrightarrow> pad (of_nat n) = 0 \<longleftrightarrow> padding n = 0"
  using padding_less [of n] by (simp add: pad_of_nat word_of_nat_eq_0_iff) (auto dest: dvd_imp_le)

lemma puts_pad:
  assumes "wf s" "n < 2 ^ 31" "length filler = 4"
  shows "\<exists>b s'. put_pad ops s filler (of_nat n) v = Some (b, s', v) \<and> puts s (take (padding n) filler) s' b"
proof (cases "padding n = 0")
  case True
  then show ?thesis
    using assms puts_none padding_zero [of n] by (auto simp: put_pad_def)
next
  case False
  have "padding n \<le> length filler" "padding n < 2 ^ 31" using padding_less [of n] assms(3) by simp_all
  from puts_bytes [OF assms(1) this(2,1)] show ?thesis
    using False assms padding_zero [of n] by (auto simp: put_pad_def pad_of_nat put_value_def)
qed

lemma gets_bytes:
  assumes "wf s" "rest s = bs @ t" "length bs < 2 ^ 31" "length bs \<le> buff"
  shows "\<exists>s'. wf s' \<and> x_getbytes ops s buff (of_nat (length bs)) = Some (Some bs, s') \<and> rest s' = t"
  using getbytes [OF assms(1,3,4)] assms(2) by auto

lemma gets_pad:
  assumes "wf s" "rest s = p @ t" "length p = padding n" "n < 2 ^ 31"
  shows "\<exists>s'. wf s' \<and> get_pad ops s (of_nat n) v = Some (True, s', v) \<and> rest s' = t"
proof (cases "padding n = 0")
  case True
  then show ?thesis using assms padding_zero [of n] by (auto simp: get_pad_def)
next
  case False
  have "length p < 2 ^ 31" "length p \<le> 4" using padding_less [of n] assms(3) by simp_all
  from gets_bytes [OF assms(1,2) this] show ?thesis
    using False assms padding_zero [of n] by (auto simp: get_pad_def pad_of_nat)
qed

lemma any_bytes:
  assumes "wf s" "n < 2 ^ 31" "n \<le> buff"
  shows "\<exists>bs s'. wf s' \<and> x_getbytes ops s buff (of_nat n) = Some (bs, s') \<and> (\<forall>b. bs = Some b \<longrightarrow> length b = n)"
  using getbytes [OF assms] by fastforce

lemma any_pad:
  assumes "wf s" "n < 2 ^ 31"
  shows "\<exists>b s'. wf s' \<and> get_pad ops s (of_nat n) v = Some (b, s', v)"
proof (cases "padding n = 0")
  case True
  then show ?thesis using assms padding_zero [of n] by (auto simp: get_pad_def)
next
  case False
  have "padding n < 2 ^ 31" "padding n \<le> 4" using padding_less [of n] by simp_all
  from any_bytes [OF assms(1) this] show ?thesis
    using False assms padding_zero [of n] by (auto simp: get_pad_def pad_of_nat)
qed

end

section \<open>Counted strings\<close>

definition contents :: "cstring \<Rightarrow> u8 list" where
  "contents c = take (unat (cstr_length c)) (block_of (cstr_address c))"

definition cstring_ok :: "cstring \<Rightarrow> bool" where
  "cstring_ok c \<longleftrightarrow> unat (cstr_length c) \<le> length (block_of (cstr_address c))"

text \<open>What the decoder may find: no block, or one of the size in \<open>cstr_allocated\<close>.\<close>

definition cstring_ready :: "cstring \<Rightarrow> bool" where
  "cstring_ready c \<longleftrightarrow> length (block_of (cstr_address c)) = unat (cstr_allocated c) \<and>
     (cstr_address c = None \<longleftrightarrow> cstr_allocated c = 0)"

lemma contents_address: "contents (c\<lparr>cstr_address := x\<rparr>) = take (unat (cstr_length c)) (block_of x)"
  by (simp add: contents_def)

lemma length_contents: "cstring_ok c \<Longrightarrow> length (contents c) = unat (cstr_length c)"
  by (simp add: contents_def cstring_ok_def)

lemma alloc_cstring_ready:
  assumes "cstring_ready c"
  shows "cstring_ready (alloc_cstring (c\<lparr>cstr_length := n\<rparr>)) \<and>
    cstr_length (alloc_cstring (c\<lparr>cstr_length := n\<rparr>)) = n \<and> cstring_ok (alloc_cstring (c\<lparr>cstr_length := n\<rparr>))"
  using assms
  by (auto simp: alloc_cstring_def free_cstring_def cstring_ready_def cstring_ok_def block_of_def Let_def
      word_less_nat_alt unat_eq_0 split: option.splits)

lemma u16_small [simp]: "unat (w :: u16) < 2147483648"
  by (rule less_trans [OF u16_lt]) simp

lemma take_zeros: "k < 4 \<Longrightarrow> take k [0, 0, 0, 0 :: u8] = replicate k 0"
  by (auto simp: numeral_eq_Suc less_Suc_eq)

lemma unat_u16: "of_nat (unat (w :: u16)) = w" "of_nat (unat w) = (ucast w :: u32)"
  by (simp_all add: unsigned_ucast_eq)

context xdr_stream
begin

lemma carries_cstring: "carries trash (\<lambda>_. ()) xdr_cstring (\<lambda>c. [Counted (contents c)]) cstring_ok cstring_ready"
  unfolding carries_def
proof (intro conjI)
  show "encodes trash xdr_cstring (\<lambda>c. [Counted (contents c)]) cstring_ok"
  proof (rule encodesI)
    fix s c assume s: "wf s" and ok: "cstring_ok c"
    define n where "n = unat (cstr_length c)"
    have n: "n < 2 ^ 31" "n \<le> length (block_of (cstr_address c))" "length (contents c) = n" "ucast (cstr_length c) = (of_nat n :: u32)"
      using ok unat_u16(2) [of "cstr_length c"]
      by (simp_all add: n_def cstring_ok_def length_contents)
    have w: "wire trash [Counted (contents c)] =
        htonl_bytes (scast (cstr_length c)) @ take n (block_of (cstr_address c)) @ take (padding n) [0, 0, 0, 0]"
      unfolding take_zeros [OF padding_less]
      using n(3) unat_u16(1) [of "cstr_length c"] by (simp add: n_def contents_def)
    obtain b1 s1 where 1: "x_putlong ops s (scast (cstr_length c)) = Some (b1, s1)"
      "puts s (htonl_bytes (scast (cstr_length c))) s1 b1"
      using puts_long [OF s] by blast
    show "\<exists>b s'. xdr_cstring ops XDR_ENCODE s c = Some (b, s', c) \<and> puts s (wire trash [Counted (contents c)]) s' b"
    proof (cases b1)
      case False
      then show ?thesis
        using 1 puts_stop by (auto simp: xdr_cstring_def xdr_short_def put_value_def w simp del: wire_simps)
    next
      case True
      have p1: "puts s (htonl_bytes (scast (cstr_length c))) s1 True" using 1(2) True by simp
      have len: "cstr_length c = 0 \<longleftrightarrow> n = 0" by (simp add: n_def unat_eq_0)
      obtain b2 s2 where 2: "(if cstr_length c = 0 then Some (True, s1)
          else x_putbytes ops s1 (block_of (cstr_address c)) (ucast (cstr_length c))) = Some (b2, s2)"
        "puts s1 (take n (block_of (cstr_address c))) s2 b2"
        using puts_bytes [OF puts_wf [OF 1(2)] n(1,2)] puts_none [OF puts_wf [OF 1(2)]] n(4) len by (cases "n = 0") auto
      obtain b3 s3 where 3: "put_pad ops s2 [0, 0, 0, 0] (ucast (cstr_length c)) c = Some (b3, s3, c)"
        "puts s2 (take (padding n) [0, 0, 0, 0]) s3 b3"
        using puts_pad [OF puts_wf [OF 2(2)] n(1), of "[0, 0, 0, 0]" c] n(4) by auto
      have step: "xdr_cstring ops XDR_ENCODE s c =
          (case (if cstr_length c = 0 then Some (True, s1)
              else x_putbytes ops s1 (block_of (cstr_address c)) (ucast (cstr_length c))) of
             None \<Rightarrow> None
           | Some (b, s) \<Rightarrow> if b then put_pad ops s [0, 0, 0, 0] (ucast (cstr_length c)) c else Some (False, s, c))"
        using 1(1) \<open>b1\<close> by (auto simp: xdr_cstring_def xdr_short_def put_value_def split: option.split)
      show ?thesis
      proof (cases b2)
        case True
        then have "xdr_cstring ops XDR_ENCODE s c = Some (b3, s3, c)"
          using 3(1) by (simp add: step 2(1) del: if_split)
        then show ?thesis
          using puts_append [OF p1 puts_append [OF _ 3(2)]] 2(2) True unfolding w by auto
      next
        case False
        then have "xdr_cstring ops XDR_ENCODE s c = Some (False, s2, c)"
          by (simp add: step 2(1) del: if_split)
        then show ?thesis
          using puts_append [OF p1 puts_stop] 2(2) False unfolding w by auto
      qed
    qed
  qed
  show "decodes trash (\<lambda>_. ()) xdr_cstring (\<lambda>c. [Counted (contents c)]) cstring_ok cstring_ready"
    unfolding decodes_def
  proof (intro allI impI)
    fix s c u t
    assume s: "wf s" and ok: "cstring_ok c" and u: "cstring_ready u" and r: "rest s = wire trash [Counted (contents c)] @ t"
    define n where "n = length (contents c)"
    have n: "n < 2 ^ 31" "n = unat (cstr_length c)" "of_nat n = cstr_length c" "ucast (cstr_length c) = (of_nat n :: u32)"
      using length_contents [OF ok] unat_u16 [of "cstr_length c"] by (simp_all add: n_def)
    have r': "rest s = htonl_bytes (scast (cstr_length c)) @ contents c @ replicate (padding n) 0 @ t"
      using r n(3) by (simp add: n_def)
    obtain s1 where 1: "wf s1" "x_getlong ops s = Some (Some (scast (cstr_length c)), s1)"
      "rest s1 = contents c @ replicate (padding n) 0 @ t"
      using getlong_wire [OF s r'] by blast
    define a where "a = alloc_cstring (u\<lparr>cstr_length := cstr_length c\<rparr>)"
    have a: "cstring_ready a" "cstr_length a = cstr_length c" "cstring_ok a"
      using alloc_cstring_ready [OF u] by (simp_all add: a_def)
    have room: "length (contents c) \<le> length (block_of (cstr_address a))"
      using a(2,3) n(2) by (simp add: cstring_ok_def n_def)
    obtain s2 where 2: "wf s2" "x_getbytes ops s1 (length (block_of (cstr_address a))) (of_nat n) = Some (Some (contents c), s2)"
      "rest s2 = replicate (padding n) 0 @ t"
      using gets_bytes [OF 1(1,3)] n(1) room by (auto simp: n_def)
    define d where "d = a\<lparr>cstr_address := map_option (copied (contents c)) (cstr_address a)\<rparr>"
    obtain s3 where 3: "wf s3" "get_pad ops s2 (of_nat n) d = Some (True, s3, d)" "rest s3 = t"
      using gets_pad [OF 2(1,3) _ n(1), of d] by auto
    have "xdr_cstring ops XDR_DECODE s u = Some (True, s3, d)"
      using 1(2) 2(2) 3(2) a(2) n(4)
      by (simp add: xdr_cstring_def xdr_short_def get_value_def a_def [symmetric] d_def Let_def)
    moreover have "cstring_ready d"
      using a(1) room by (auto simp: d_def cstring_ready_def block_of_def copied_def split: option.splits)
    moreover have "contents d = contents c"
      using room n(2) a(2)
      by (auto simp: contents_address d_def block_of_def copied_def n_def split: option.splits)
    ultimately show "\<exists>s' u'. wf s' \<and> xdr_cstring ops XDR_DECODE s u = Some (True, s', u') \<and> rest s' = t \<and>
        cstring_ready u' \<and> () = () \<and> [Counted (contents u')] = [Counted (contents c)]"
      using 3 by auto
  qed
qed

lemma safe_cstring: "safe xdr_cstring cstring_ready"
  unfolding safe_def
proof (intro allI impI)
  fix s u assume s: "wf s" and u: "cstring_ready u"
  obtain w s1 where 1: "wf s1" "x_getlong ops s = Some (w, s1)" using getlong_any [OF s] .
  show "\<exists>b s' u'. wf s' \<and> xdr_cstring ops XDR_DECODE s u = Some (b, s', u') \<and> cstring_ready u'"
  proof (cases w)
    case None
    then show ?thesis
      using 1 u by (auto simp: xdr_cstring_def xdr_short_def get_value_def cstring_ready_def)
  next
    case (Some l)
    define m :: u16 where "m = ucast l"
    define a where "a = alloc_cstring (u\<lparr>cstr_length := m\<rparr>)"
    have a: "cstring_ready a" "cstr_length a = m" "cstring_ok a"
      using alloc_cstring_ready [OF u] by (simp_all add: a_def)
    have sh: "xdr_short ops XDR_DECODE s (cstr_length u) = Some (True, s1, m)"
      using 1(2) Some by (simp add: xdr_short_def get_value_def m_def)
    define n where "n = unat m"
    have n: "n < 2 ^ 31" "ucast m = (of_nat n :: u32)" "n \<le> length (block_of (cstr_address a))"
      using unat_u16(2) [of m] a(2,3) by (simp_all add: n_def cstring_ok_def)
    obtain bs s2 where 2: "wf s2" "x_getbytes ops s1 (length (block_of (cstr_address a))) (of_nat n) = Some (bs, s2)"
      "\<And>b. bs = Some b \<Longrightarrow> length b = n"
      using any_bytes [OF 1(1) n(1,3)] by blast
    show ?thesis
    proof (cases bs)
      case None
      then have "xdr_cstring ops XDR_DECODE s u = Some (False, s2, a)"
        using 2(2) a(2) n(2) by (simp add: xdr_cstring_def sh a_def [symmetric])
      then show ?thesis using 2(1) a(1) by blast
    next
      case (Some b)
      define d where "d = a\<lparr>cstr_address := map_option (copied b) (cstr_address a)\<rparr>"
      obtain b3 s3 where 3: "wf s3" "get_pad ops s2 (of_nat n) d = Some (b3, s3, d)"
        using any_pad [OF 2(1) n(1), of d] by blast
      have "xdr_cstring ops XDR_DECODE s u = Some (b3, s3, d)"
        using 2(2) 3(2) a(2) n(2) Some by (simp add: xdr_cstring_def sh a_def [symmetric] d_def [symmetric])
      moreover have "cstring_ready d"
        using a(1) n(3) 2(3) [OF Some] by (auto simp: d_def cstring_ready_def block_of_def copied_def split: option.splits)
      ultimately show ?thesis using 3(1) by blast
    qed
  qed
qed

end


section \<open>Blob ids and strings\<close>

definition cstr :: "u8 list \<Rightarrow> u8 list" where
  "cstr b = takeWhile (\<lambda>c. c \<noteq> 0) b"

lemma strlen_cstr: "0 \<in> set b \<Longrightarrow> strlen b = Some (length (cstr b))"
  by (simp add: strlen_def cstr_def)

lemma cstr_prefix: "take (length (cstr b)) b = cstr b" "length (cstr b) \<le> length b" "0 \<notin> set (cstr b)"
  using takeWhile_eq_take [of "\<lambda>c. c \<noteq> 0" b]
  by (simp_all only: cstr_def length_takeWhile_le) (auto dest: set_takeWhileD)

context xdr_stream
begin

lemma puts_then:
  assumes "puts s xs s1 b1" "puts s1 ys s2 b2"
  shows "puts s (xs @ ys) (if b1 then s2 else s1) (b1 \<and> b2)"
  using assms puts_append [of s xs s1 ys s2 b2] puts_stop [of s xs s1 ys] by (cases b1) simp_all

lemma puts_two:
  assumes "wf s"
  shows "\<exists>b s'. (do { (b, s1) \<leftarrow> x_putlong ops s x; if b then put_value (x_putlong ops s1 y) v else Some (False, s1, v) }) =
      Some (b, s', v) \<and> puts s (htonl_bytes x @ htonl_bytes y) s' b"
proof -
  obtain b1 s1 where 1: "x_putlong ops s x = Some (b1, s1)" "puts s (htonl_bytes x) s1 b1"
    using puts_long [OF assms] by blast
  obtain b2 s2 where 2: "x_putlong ops s1 y = Some (b2, s2)" "puts s1 (htonl_bytes y) s2 b2"
    using puts_long [OF puts_wf [OF 1(2)]] by blast
  show ?thesis
    using 1(1) 2(1) puts_then [OF 1(2) 2(2)] by (cases b1) (auto simp: put_value_def)
qed

lemma carries_quad:
  "carries trash (\<lambda>_. ()) xdr_quad (\<lambda>q. [Long (bid_relation_id q), Long (bid_number q)]) (\<lambda>_. True) (\<lambda>_. True)"
  unfolding carries_def
proof (intro conjI)
  show "encodes trash xdr_quad (\<lambda>q. [Long (bid_relation_id q), Long (bid_number q)]) (\<lambda>_. True)"
  proof (rule encodesI)
    fix s and q :: bid assume "wf s"
    from puts_two [OF this, of "bid_relation_id q" "bid_number q" q]
    show "\<exists>b s'. xdr_quad ops XDR_ENCODE s q = Some (b, s', q) \<and>
        puts s (wire trash [Long (bid_relation_id q), Long (bid_number q)]) s' b"
      by (simp add: xdr_quad_def)
  qed
  show "decodes trash (\<lambda>_. ()) xdr_quad (\<lambda>q. [Long (bid_relation_id q), Long (bid_number q)]) (\<lambda>_. True) (\<lambda>_. True)"
    unfolding decodes_def
  proof (intro allI impI)
    fix s t and q u :: bid
    assume s: "wf s" and r: "rest s = wire trash [Long (bid_relation_id q), Long (bid_number q)] @ t"
    have r': "rest s = htonl_bytes (bid_relation_id q) @ htonl_bytes (bid_number q) @ t" using r by simp
    obtain s1 where 1: "wf s1" "x_getlong ops s = Some (Some (bid_relation_id q), s1)" "rest s1 = htonl_bytes (bid_number q) @ t"
      using getlong_wire [OF s r'] .
    obtain s2 where 2: "wf s2" "x_getlong ops s1 = Some (Some (bid_number q), s2)" "rest s2 = t"
      using getlong_wire [OF 1(1,3)] .
    show "\<exists>s' u'. wf s' \<and> xdr_quad ops XDR_DECODE s u = Some (True, s', u') \<and> rest s' = t \<and> True \<and> () = () \<and>
        [Long (bid_relation_id u'), Long (bid_number u')] = [Long (bid_relation_id q), Long (bid_number q)]"
      using 1(2) 2 by (simp add: xdr_quad_def get_value_def Let_def)
  qed
qed

lemma safe_quad: "safe xdr_quad (\<lambda>_. True)"
  unfolding safe_def
proof (intro allI impI)
  fix s u assume s: "wf s"
  obtain w s1 where 1: "wf s1" "x_getlong ops s = Some (w, s1)" using getlong_any [OF s] .
  obtain x s2 where 2: "wf s2" "x_getlong ops s1 = Some (x, s2)" using getlong_any [OF 1(1)] .
  show "\<exists>b s' u'. wf s' \<and> xdr_quad ops XDR_DECODE s u = Some (b, s', u') \<and> True"
    using 1 2 by (cases w; cases x) (auto simp: xdr_quad_def get_value_def Let_def)
qed

lemma string_encode:
  assumes s: "wf s" and b: "0 \<in> set b" "length (cstr b) \<le> 65535" and trash: "length trash = 4"
  shows "\<exists>c s'. xdr_wrapstring trash ops XDR_ENCODE s (Some b) = Some (c, s', Some b) \<and>
    puts s (field_wire trash (Text (cstr b))) s' c"
proof -
  define n where "n = length (cstr b)"
  have n: "n < 2 ^ 31" "n \<le> length b" "\<not> (MAXSTRING_FOR_WRAPSTRING < (of_nat n :: u32))"
    using b(2) cstr_prefix(2) [of b]
    by (simp_all add: n_def MAXSTRING_FOR_WRAPSTRING_def word_less_nat_alt unsigned_of_nat take_bit_nat_eq_self)
  obtain b1 s1 where 1: "x_putlong ops s (of_nat n) = Some (b1, s1)" "puts s (htonl_bytes (of_nat n)) s1 b1"
    using puts_long [OF s] by blast
  obtain b2 s2 where 2: "x_putbytes ops s1 b (of_nat n) = Some (b2, s2)" "puts s1 (cstr b) s2 b2"
    using puts_bytes [OF puts_wf [OF 1(2)] n(1,2)] cstr_prefix(1) [of b] by (auto simp: n_def)
  obtain b3 s3 where 3: "put_pad ops s2 trash (of_nat n) (Some b) = Some (b3, s3, Some b)"
    "puts s2 (take (padding n) trash) s3 b3"
    using puts_pad [OF puts_wf [OF 2(2)] n(1) trash, of "Some b"] by blast
  have step: "xdr_wrapstring trash ops XDR_ENCODE s (Some b) =
      (if b1 then if b2 then Some (b3, s3, Some b) else Some (False, s2, Some b) else Some (False, s1, Some b))"
    using 1(1) 2(1) 3(1) n(3) strlen_cstr [OF b(1)]
    by (simp add: xdr_wrapstring_def xdr_string_def block_of_def n_def [symmetric] Let_def)
  have w: "field_wire trash (Text (cstr b)) = htonl_bytes (of_nat n) @ cstr b @ take (padding n) trash"
    by (simp add: n_def)
  show ?thesis
    using puts_then [OF 1(2) puts_then [OF 2(2) 3(2)]] unfolding step w by (cases b1; cases b2) auto
qed

lemma string_decode:
  assumes s: "wf s" and r: "rest s = field_wire trash (Text x) @ t" and x: "0 \<notin> set x" "length x \<le> 65535"
    and trash: "length trash = 4"
  shows "\<exists>s' b. wf s' \<and> xdr_wrapstring trash ops XDR_DECODE s None = Some (True, s', Some b) \<and> rest s' = t \<and>
    0 \<in> set b \<and> cstr b = x"
proof -
  define n where "n = length x"
  define block :: "u8 list" where "block = replicate 65536 0"
  have n: "n < 2 ^ 31" "\<not> (MAXSTRING_FOR_WRAPSTRING < (of_nat n :: u32))" "unat (of_nat n :: u32) = n" "n < 65536"
    using x(2) by (simp_all add: n_def MAXSTRING_FOR_WRAPSTRING_def word_less_nat_alt unsigned_of_nat take_bit_nat_eq_self)
  have r': "rest s = htonl_bytes (of_nat n) @ x @ take (padding n) trash @ t" using r by (simp add: n_def)
  obtain s1 where 1: "wf s1" "x_getlong ops s = Some (Some (of_nat n), s1)" "rest s1 = x @ take (padding n) trash @ t"
    using getlong_wire [OF s r'] .
  have len: "length block = 65536" by (simp add: block_def)
  obtain s2 where 2: "wf s2" "x_getbytes ops s1 (length block) (of_nat n) = Some (Some x, s2)" "rest s2 = take (padding n) trash @ t"
    using gets_bytes [OF 1(1,3), of 65536] n(1,4) len by (auto simp: n_def)
  define b where "b = (copied x block)[n := 0]"
  have "length (take (padding n) trash) = padding n" using padding_less [of n] trash by simp
  from gets_pad [OF 2(1,3) this n(1), of "Some b"] obtain s3 where
    3: "wf s3" "get_pad ops s2 (of_nat n) (Some b) = Some (True, s3, Some b)" "rest s3 = t" by blast
  have "unat (MAXSTRING_FOR_WRAPSTRING + 1) = 65536" by (simp add: MAXSTRING_FOR_WRAPSTRING_def)
  then have "xdr_wrapstring trash ops XDR_DECODE s None = Some (True, s3, Some b)"
    using 1(2) 2(2) 3(2) n len by (simp add: xdr_wrapstring_def xdr_string_def block_def [symmetric] b_def [symmetric] Let_def)
  moreover have "b = x @ 0 # drop (n + 1) block"
    using n(4) len by (simp add: b_def copied_def n_def list_update_append upd_conv_take_nth_drop)
  then have "0 \<in> set b" "cstr b = x" using x(1) by (auto simp: cstr_def takeWhile_append)
  ultimately show ?thesis using 3 by blast
qed

end

context xdr_stream
begin

section \<open>Long numbers and opaque bytes\<close>

lemma carries_two:
  assumes enc: "\<And>s v. r ops XDR_ENCODE s v =
      do { (b, s1) \<leftarrow> x_putlong ops s (temp_long v 1); if b then put_value (x_putlong ops s1 (temp_long v 0)) v else Some (False, s1, v) }"
    and dec: "\<And>s v. r ops XDR_DECODE s v =
      do { (h, s1) \<leftarrow> x_getlong ops s;
           case h of None \<Rightarrow> Some (False, s1, v) | Some high \<Rightarrow> get_value (x_getlong ops s1) (temp_int64 high) v }"
  shows "carries trash (\<lambda>_. ()) r (\<lambda>v. [Hyper v]) (\<lambda>_. True) (\<lambda>_. True)"
  unfolding carries_def
proof (intro conjI)
  show "encodes trash r (\<lambda>v. [Hyper v]) (\<lambda>_. True)"
  proof (rule encodesI)
    fix s and v :: u64 assume "wf s"
    from puts_two [OF this, of "temp_long v 1" "temp_long v 0" v]
    show "\<exists>b s'. r ops XDR_ENCODE s v = Some (b, s', v) \<and> puts s (wire trash [Hyper v]) s' b"
      by (simp add: enc)
  qed
  show "decodes trash (\<lambda>_. ()) r (\<lambda>v. [Hyper v]) (\<lambda>_. True) (\<lambda>_. True)"
    unfolding decodes_def
  proof (intro allI impI)
    fix s t and v u :: u64
    assume s: "wf s" and r: "rest s = wire trash [Hyper v] @ t"
    have r': "rest s = htonl_bytes (temp_long v 1) @ htonl_bytes (temp_long v 0) @ t" using r by simp
    obtain s1 where 1: "wf s1" "x_getlong ops s = Some (Some (temp_long v 1), s1)" "rest s1 = htonl_bytes (temp_long v 0) @ t"
      using getlong_wire [OF s r'] .
    obtain s2 where 2: "wf s2" "x_getlong ops s1 = Some (Some (temp_long v 0), s2)" "rest s2 = t"
      using getlong_wire [OF 1(1,3)] .
    show "\<exists>s' u'. wf s' \<and> r ops XDR_DECODE s u = Some (True, s', u') \<and> rest s' = t \<and> True \<and> () = () \<and> [Hyper u'] = [Hyper v]"
      using 1(2) 2 temp_int64_temp_long [of v] by (simp add: dec get_value_def del: temp_int64_temp_long)
  qed
qed

lemma carries_hyper: "carries trash (\<lambda>_. ()) xdr_hyper (\<lambda>v. [Hyper v]) (\<lambda>_. True) (\<lambda>_. True)"
  by (rule carries_two) (simp_all add: xdr_hyper_def)

lemma carries_double: "carries trash (\<lambda>_. ()) xdr_double (\<lambda>v. [Hyper v]) (\<lambda>_. True) (\<lambda>_. True)"
  by (rule carries_two) (simp_all add: xdr_double_def)

lemma safe_two:
  assumes dec: "\<And>s v. r ops XDR_DECODE s v =
      do { (h, s1) \<leftarrow> x_getlong ops s;
           case h of None \<Rightarrow> Some (False, s1, v) | Some high \<Rightarrow> get_value (x_getlong ops s1) (temp_int64 high) v }"
  shows "safe r (\<lambda>_. True)"
  unfolding safe_def
proof (intro allI impI)
  fix s u assume s: "wf s"
  obtain h s1 where 1: "wf s1" "x_getlong ops s = Some (h, s1)" using getlong_any [OF s] .
  obtain l s2 where 2: "wf s2" "x_getlong ops s1 = Some (l, s2)" using getlong_any [OF 1(1)] .
  show "\<exists>b s' u'. wf s' \<and> r ops XDR_DECODE s u = Some (b, s', u') \<and> True"
    using 1 2 by (cases h; cases l) (auto simp: dec get_value_def)
qed

lemma carries_opaque:
  assumes "n < 2 ^ 31" "length trash = 4"
  shows "carries trash (\<lambda>_. ()) (xdr_opaque trash (of_nat n)) (\<lambda>p. [Opaque (take n p)]) (\<lambda>p. n \<le> length p) (\<lambda>p. n \<le> length p)"
  unfolding carries_def
proof (intro conjI)
  show "encodes trash (xdr_opaque trash (of_nat n)) (\<lambda>p. [Opaque (take n p)]) (\<lambda>p. n \<le> length p)"
  proof (rule encodesI)
    fix s and p :: "u8 list" assume s: "wf s" and n: "n \<le> length p"
    obtain b1 s1 where 1: "x_putbytes ops s p (of_nat n) = Some (b1, s1)" "puts s (take n p) s1 b1"
      using puts_bytes [OF s assms(1) n] by blast
    obtain b2 s2 where 2: "put_pad ops s1 trash (of_nat n) p = Some (b2, s2, p)" "puts s1 (take (padding n) trash) s2 b2"
      using puts_pad [OF puts_wf [OF 1(2)] assms, where v = p] by blast
    show "\<exists>b s'. xdr_opaque trash (of_nat n) ops XDR_ENCODE s p = Some (b, s', p) \<and>
        puts s (wire trash [Opaque (take n p)]) s' b"
      using 1(1) 2(1) puts_then [OF 1(2) 2(2)] n by (cases b1) (auto simp: xdr_opaque_def min_absorb2)
  qed
  show "decodes trash (\<lambda>_. ()) (xdr_opaque trash (of_nat n)) (\<lambda>p. [Opaque (take n p)]) (\<lambda>p. n \<le> length p) (\<lambda>p. n \<le> length p)"
    unfolding decodes_def
  proof (intro allI impI)
    fix s t and p u :: "u8 list"
    assume s: "wf s" and p: "n \<le> length p" and u: "n \<le> length u" and r: "rest s = wire trash [Opaque (take n p)] @ t"
    have r': "rest s = take n p @ take (padding n) trash @ t" using r p by (simp add: min_absorb2)
    have l: "length (take n p) = n" "length (take (padding n) trash) = padding n"
      using p assms(2) padding_less [of n] by simp_all
    obtain s1 where 1: "wf s1" "x_getbytes ops s (length u) (of_nat n) = Some (Some (take n p), s1)"
      "rest s1 = take (padding n) trash @ t"
      using gets_bytes [OF s r'] l(1) assms(1) u by auto
    obtain s2 where 2: "wf s2" "get_pad ops s1 (of_nat n) (copied (take n p) u) = Some (True, s2, copied (take n p) u)" "rest s2 = t"
      using gets_pad [OF 1(1,3) l(2) assms(1), where v = "copied (take n p) u"] by blast
    show "\<exists>s' u'. wf s' \<and> xdr_opaque trash (of_nat n) ops XDR_DECODE s u = Some (True, s', u') \<and> rest s' = t \<and>
        n \<le> length u' \<and> () = () \<and> [Opaque (take n u')] = [Opaque (take n p)]"
      using 1(2) 2 p u by (simp add: xdr_opaque_def copied_def min_absorb2)
  qed
qed

end

section \<open>Status vectors\<close>

text \<open>
  What a status vector says: numbers and strings up to the end, the slots it takes and the strings among them.
  \<open>status_ok\<close> holds of a vector that ends, with arguments of the kinds that their types announce.
\<close>

fun status_ok :: "status_slot list \<Rightarrow> bool" where
  "status_ok (Status v # vector) =
     (if (ucast v :: u16) = gds_arg_end then True
      else if (ucast v :: u16) = gds_arg_interpreted \<or> (ucast v :: u16) = gds_arg_string
      then case vector of String s # vector \<Rightarrow> 0 \<in> set s \<and> length (cstr s) \<le> 65535 \<and> status_ok vector | _ \<Rightarrow> False
      else case vector of Status n # vector \<Rightarrow> status_ok vector | _ \<Rightarrow> False)"
| "status_ok _ = False"

fun status_fields :: "status_slot list \<Rightarrow> field list" where
  "status_fields (Status v # vector) =
     Long v #
     (if (ucast v :: u16) = gds_arg_end then []
      else case vector of
          String s # vector \<Rightarrow> Text (cstr s) # status_fields vector
        | Status n # vector \<Rightarrow> Long n # status_fields vector
        | [] \<Rightarrow> [])"
| "status_fields _ = []"

fun status_slots :: "status_slot list \<Rightarrow> nat" where
  "status_slots (Status v # vector) =
     (if (ucast v :: u16) = gds_arg_end then 1
      else case vector of _ # vector \<Rightarrow> 2 + status_slots vector | [] \<Rightarrow> 1)"
| "status_slots _ = 0"

fun status_strings :: "status_slot list \<Rightarrow> nat" where
  "status_strings (Status v # vector) =
     (if (ucast v :: u16) = gds_arg_end then 0
      else case vector of
          String s # vector \<Rightarrow> 1 + status_strings vector
        | Status n # vector \<Rightarrow> status_strings vector
        | [] \<Rightarrow> 0)"
| "status_strings _ = 0"

text \<open>The shapes of a vector: its end, a string or a number.\<close>

lemma status_induct [consumes 1, case_names finish string number]:
  assumes "status_ok vector"
    and "\<And>v vector. (ucast v :: u16) = gds_arg_end \<Longrightarrow> P (Status v # vector)"
    and "\<And>v s vector. (ucast v :: u16) = gds_arg_interpreted \<or> (ucast v :: u16) = gds_arg_string \<Longrightarrow>
      0 \<in> set s \<Longrightarrow> length (cstr s) \<le> 65535 \<Longrightarrow> status_ok vector \<Longrightarrow> P vector \<Longrightarrow> P (Status v # String s # vector)"
    and "\<And>v n vector. (ucast v :: u16) \<noteq> gds_arg_end \<Longrightarrow> (ucast v :: u16) \<noteq> gds_arg_interpreted \<Longrightarrow>
      (ucast v :: u16) \<noteq> gds_arg_string \<Longrightarrow> status_ok vector \<Longrightarrow> P vector \<Longrightarrow> P (Status v # Status n # vector)"
  shows "P vector"
  using assms(1)
proof (induction vector rule: status_ok.induct)
  case (1 v vector)
  show ?case
  proof (cases "(ucast v :: u16) = gds_arg_end")
    case True
    then show ?thesis by (rule assms(2))
  next
    case False
    then show ?thesis
      using 1 assms(3) [of v] assms(4) [of v]
      by (cases "(ucast v :: u16) = gds_arg_interpreted \<or> (ucast v :: u16) = gds_arg_string")
        (auto split: list.splits status_slot.splits)
  qed
qed simp_all

lemma status_args [simp]:
  "gds_arg_end \<noteq> gds_arg_interpreted" "gds_arg_end \<noteq> gds_arg_string" "gds_arg_interpreted \<noteq> gds_arg_end"
  "gds_arg_string \<noteq> gds_arg_end"
  by (simp_all add: gds_arg_end_def gds_arg_interpreted_def gds_arg_string_def)

lemma two_slots:
  assumes "take (i + 2) xs = take (i + 2) (ys[i := a, i + 1 := b])" "i + 2 \<le> length ys" "length xs = length ys"
  shows "drop i xs = a # b # drop (i + 2) xs" "take i xs = take i ys"
proof -
  have nth: "xs ! j = ys[i := a, i + 1 := b] ! j" if "j < i + 2" for j
    using assms(1) that by (metis nth_take)
  have "xs ! i = a" "xs ! (i + 1) = b" using nth [of i] nth [of "i + 1"] assms(2) by simp_all
  then show "drop i xs = a # b # drop (i + 2) xs"
    using assms(2,3) by (simp add: Cons_nth_drop_Suc [symmetric] numeral_2_eq_2)
  show "take i xs = take i ys"
    using assms(2,3) nth by (auto intro!: nth_equalityI)
qed

context xdr_stream
begin

lemma xdr_long_encode: "wf s \<Longrightarrow> \<exists>b s'. xdr_long ops XDR_ENCODE s w = Some (b, s', w) \<and> puts s (htonl_bytes w) s' b"
  using puts_long [of s w] by (auto simp: xdr_long_def put_value_def)

lemma xdr_long_decode:
  assumes "wf s" "rest s = htonl_bytes w @ t"
  shows "\<exists>s'. wf s' \<and> xdr_long ops XDR_DECODE s v = Some (True, s', w) \<and> rest s' = t"
  using getlong_wire [OF assms] by (metis (no_types, lifting) get_value_def option.simps(5,9) prod.case xdr_long_def xdr_op.simps(8))

lemma status_encodes:
  assumes "status_ok vector" "wf s" "length trash = 4"
  shows "\<exists>b s'. status_encode trash ops s vector = Some (b, s') \<and> puts s (wire trash (status_fields vector)) s' b"
  using assms
proof (induction vector arbitrary: s rule: status_induct)
  case (finish v vector)
  then show ?case using xdr_long_encode [of s v] by auto
next
  case (string v x vector)
  obtain b1 s1 where 1: "xdr_long ops XDR_ENCODE s v = Some (b1, s1, v)" "puts s (htonl_bytes v) s1 b1"
    using xdr_long_encode string.prems by blast
  obtain b2 s2 where 2: "xdr_wrapstring trash ops XDR_ENCODE s1 (Some x) = Some (b2, s2, Some x)"
    "puts s1 (field_wire trash (Text (cstr x))) s2 b2"
    using string_encode [OF puts_wf [OF 1(2)] string.hyps(2,3) string.prems(2)] by blast
  obtain b3 s3 where 3: "status_encode trash ops s2 vector = Some (b3, s3)" "puts s2 (wire trash (status_fields vector)) s3 b3"
    using string.IH [OF puts_wf [OF 2(2)]] string.prems by blast
  have "(ucast v :: u16) \<noteq> gds_arg_end" using string.hyps(1) by auto
  then show ?case
    using string.hyps(1) 1(1) 2(1) 3(1) puts_then [OF 1(2) puts_then [OF 2(2) 3(2)]]
    by (cases b1; cases b2) (auto simp del: field_wire.simps(7))
next
  case (number v n vector)
  obtain b1 s1 where 1: "xdr_long ops XDR_ENCODE s v = Some (b1, s1, v)" "puts s (htonl_bytes v) s1 b1"
    using xdr_long_encode number.prems by blast
  obtain b2 s2 where 2: "xdr_long ops XDR_ENCODE s1 n = Some (b2, s2, n)" "puts s1 (htonl_bytes n) s2 b2"
    using xdr_long_encode [OF puts_wf [OF 1(2)]] by blast
  obtain b3 s3 where 3: "status_encode trash ops s2 vector = Some (b3, s3)" "puts s2 (wire trash (status_fields vector)) s3 b3"
    using number.IH [OF puts_wf [OF 2(2)]] number.prems by blast
  show ?case
    using number.hyps 1(1) 2(1) 3(1) puts_then [OF 1(2) puts_then [OF 2(2) 3(2)]] by (cases b1; cases b2) auto
qed

text \<open>
  Decoding writes the slots from \<open>i\<close> on and leaves those before; the vector and the packet must have room
  for the slots and the strings that are still to come.
\<close>

lemma status_decodes:
  assumes "status_ok x" "wf s" "length trash = 4" "rest s = wire trash (status_fields x) @ t"
    and "i + status_slots x \<le> length vector" "k + status_strings x \<le> length strings"
  shows "\<exists>s' vector' strings'. wf s' \<and>
    status_decode trash ops s vector i strings k = Some (True, s', vector', strings') \<and> rest s' = t \<and>
    length vector' = length vector \<and> length strings' = length strings \<and> take i vector' = take i vector \<and>
    status_ok (drop i vector') \<and> status_fields (drop i vector') = status_fields x"
  using assms
proof (induction x arbitrary: s i vector k strings rule: status_induct)
  case (finish v x)
  have i: "i < length vector" using finish by simp
  obtain s1 where 1: "wf s1" "xdr_long ops XDR_DECODE s 0 = Some (True, s1, v)" "rest s1 = t"
    using xdr_long_decode [of s v t 0] finish by auto
  have "drop i (vector[i := Status v]) = Status v # drop (i + 1) vector"
    using i by (simp add: upd_conv_take_nth_drop)
  then show ?case
    using finish.hyps 1 i by (simp add: status_decode.simps [of _ _ s])
next
  case (string v x xs)
  have more: "(ucast v :: u16) \<noteq> gds_arg_end" using string.hyps(1) by auto
  have room: "i + 2 + status_slots xs \<le> length vector" "k + 1 + status_strings xs \<le> length strings"
    using string.prems(4,5) more by simp_all
  have r: "rest s = htonl_bytes v @ field_wire trash (Text (cstr x)) @ wire trash (status_fields xs) @ t"
    using string.prems(3) more by simp
  obtain s1 where 1: "wf s1" "xdr_long ops XDR_DECODE s 0 = Some (True, s1, v)"
    "rest s1 = field_wire trash (Text (cstr x)) @ wire trash (status_fields xs) @ t"
    using xdr_long_decode [OF string.prems(1) r, of 0] by blast
  obtain s2 b where 2: "wf s2" "xdr_wrapstring trash ops XDR_DECODE s1 None = Some (True, s2, Some b)"
    "rest s2 = wire trash (status_fields xs) @ t" "0 \<in> set b" "cstr b = cstr x"
    using string_decode [OF 1(1,3) cstr_prefix(3) string.hyps(3) string.prems(2)] by blast
  let ?v = "vector[i := Status v, i + 1 := String b]" and ?s = "strings[k := Some b]"
  obtain s3 vector' strings' where 3: "wf s3"
    "status_decode trash ops s2 ?v (i + 2) ?s (k + 1) = Some (True, s3, vector', strings')" "rest s3 = t"
    "length vector' = length vector" "length strings' = length strings" "take (i + 2) vector' = take (i + 2) ?v"
    "status_ok (drop (i + 2) vector')" "status_fields (drop (i + 2) vector') = status_fields xs"
    using string.IH [OF 2(1) string.prems(2) 2(3), of "i + 2" ?v "k + 1" ?s] room by auto
  have d: "drop i vector' = Status v # String b # drop (i + 2) vector'" "take i vector' = take i vector"
    using two_slots [OF 3(6)] room 3(4) by simp_all
  have "status_decode trash ops s vector i strings k = Some (True, s3, vector', strings')"
    using 1(2) 2(2) 3(2) room more string.hyps(1) by (simp add: status_decode.simps [of _ _ s] block_of_def Let_def)
  moreover have "status_ok (drop i vector')" "status_fields (drop i vector') = status_fields (Status v # String x # xs)"
    using d(1) 2(4,5) 3(7,8) string.hyps more by simp_all
  ultimately show ?case using 3 d(2) by blast
next
  case (number v n xs)
  have room: "i + 2 + status_slots xs \<le> length vector" "k + status_strings xs \<le> length strings"
    using number.prems(4,5) number.hyps by simp_all
  have r: "rest s = htonl_bytes v @ htonl_bytes n @ wire trash (status_fields xs) @ t"
    using number.prems(3) number.hyps by simp
  obtain s1 where 1: "wf s1" "xdr_long ops XDR_DECODE s 0 = Some (True, s1, v)"
    "rest s1 = htonl_bytes n @ wire trash (status_fields xs) @ t"
    using xdr_long_decode [OF number.prems(1) r, of 0] by blast
  obtain s2 where 2: "wf s2" "xdr_long ops XDR_DECODE s1 v = Some (True, s2, n)"
    "rest s2 = wire trash (status_fields xs) @ t"
    using xdr_long_decode [OF 1(1,3)] by blast
  let ?v = "vector[i := Status v, i + 1 := Status n]"
  obtain s3 vector' strings' where 3: "wf s3"
    "status_decode trash ops s2 ?v (i + 2) strings k = Some (True, s3, vector', strings')" "rest s3 = t"
    "length vector' = length vector" "length strings' = length strings" "take (i + 2) vector' = take (i + 2) ?v"
    "status_ok (drop (i + 2) vector')" "status_fields (drop (i + 2) vector') = status_fields xs"
    using number.IH [OF 2(1) number.prems(2) 2(3), of "i + 2" ?v k strings] room by auto
  have d: "drop i vector' = Status v # Status n # drop (i + 2) vector'" "take i vector' = take i vector"
    using two_slots [OF 3(6)] room 3(4) by simp_all
  have "status_decode trash ops s vector i strings k = Some (True, s3, vector', strings')"
    using 1(2) 2(2) 3(2) room number.hyps by (simp add: status_decode.simps [of _ _ s] Let_def)
  moreover have "status_ok (drop i vector')" "status_fields (drop i vector') = status_fields (Status v # Status n # xs)"
    using d(1) 3(7,8) number.hyps by simp_all
  ultimately show ?case using 3 d(2) by blast
qed

end

end
