(* ===== verification/Message_Codec.thy ===== *)
theory Message_Codec
  imports Message Protocol_Codec
begin

text \<open>
  Messages arrive as they were sent: every kind of field is carried in its own bytes of the buffer, and the fields of a
  well-formed format lie one after the other. Decoding arbitrary bytes stays inside the buffer when no field is a
  C string.
\<close>

section \<open>Numbers in a buffer\<close>

lemma length_store [simp]: "length (store n w) = n"
  by (induction n arbitrary: w) auto

lemma bit_u8: "bit (b :: u8) i \<Longrightarrow> i < 8"
  by (drule bit_imp_le_length) simp

lemma bit_load: "bit (load bs :: 'a::len word) i \<Longrightarrow> i < 8 * length bs"
proof (induction bs arbitrary: i)
  case (Cons b bs)
  then have "i < 8 \<or> (8 \<le> i \<and> bit (load bs :: 'a word) (i - 8))" by (auto simp: bit_simps dest: bit_u8)
  then show ?case using Cons.IH [of "i - 8"] by auto
qed simp

lemma load_store: "load (store n w) = take_bit (8 * n) w"
proof (induction n arbitrary: w)
  case (Suc n)
  show ?case
    by (rule bit_word_eqI) (auto simp: Suc.IH bit_simps)
qed simp

lemma store_load: "8 * length bs \<le> LENGTH('a) \<Longrightarrow> store (length bs) (load bs :: 'a::len word) = bs"
proof (induction bs)
  case (Cons b bs)
  have "ucast (ucast b OR push_bit 8 (load bs :: 'a word)) = b"
    by (rule bit_word_eqI) (use Cons.prems in \<open>auto simp: bit_simps\<close>)
  moreover have "drop_bit 8 (ucast b OR push_bit 8 (load bs :: 'a word)) = load bs"
  proof (rule bit_word_eqI)
    fix i
    assume "i < LENGTH('a)"
    then show "bit (drop_bit 8 (ucast b OR push_bit 8 (load bs :: 'a word))) i = bit (load bs :: 'a word) i"
      using Cons.prems bit_load [of bs i, where 'a = 'a] by (auto simp: bit_simps dest: bit_u8)
  qed
  ultimately show ?case using Cons by simp
qed simp

lemma load_store_full [simp]:
  "load (store 2 (w :: u16)) = w" "load (store 4 (x :: u32)) = x" "load (store 8 (y :: u64)) = y"
  by (simp_all add: load_store take_bit_word_eq_self)

lemma store_load_full:
  "length bs = 2 \<Longrightarrow> store 2 (load bs :: u16) = bs" "length bs = 4 \<Longrightarrow> store 4 (load bs :: u32) = bs"
  "length bs = 8 \<Longrightarrow> store 8 (load bs :: u64) = bs"
  using store_load [of bs, where 'a = 16] store_load [of bs, where 'a = 32] store_load [of bs, where 'a = 64] by simp_all

lemma load_store_bid [simp]: "load_bid (store_bid v) = v" "length (store_bid v) = 8"
  by (simp_all add: load_bid_def store_bid_def)

lemma store_load_bid: "length bs = 8 \<Longrightarrow> store_bid (load_bid bs) = bs"
  using store_load_full(2) [of "take 4 bs"] store_load_full(2) [of "drop 4 bs"] by (simp add: load_bid_def store_bid_def)

section \<open>Routines on a part of the buffer\<close>

text \<open>The \<open>n\<close> bytes at the address \<open>a\<close>.\<close>

definition part :: "nat \<Rightarrow> nat \<Rightarrow> u8 list \<Rightarrow> u8 list" where
  "part a n b = take n (drop a b)"

definition replaced :: "nat \<Rightarrow> nat \<Rightarrow> u8 list \<Rightarrow> u8 list \<Rightarrow> u8 list" where
  "replaced a n w b = take a b @ w @ drop (a + n) b"

lemma length_part: "a + n \<le> length b \<Longrightarrow> length (part a n b) = n"
  by (simp add: part_def)

lemma take_part: "take a b @ take n (drop a b) @ drop (a + n) b = b"
  by (metis append_take_drop_id drop_drop add.commute)

lemma drop_split: "k \<le> n \<Longrightarrow> drop (a + k) u = take (n - k) (drop (a + k) u) @ drop (a + n) u"
  using append_take_drop_id [of "n - k" "drop (a + k) u"] by (simp add: drop_drop add.commute)

lemma replaced_simps:
  assumes "a + n \<le> length b" "length w = n"
  shows "length (replaced a n w b) = length b" "part a n (replaced a n w b) = w"
    "m \<le> a \<Longrightarrow> take m (replaced a n w b) = take m b" "part a n b = w \<Longrightarrow> replaced a n w b = b"
  using assms take_part [of a b n] by (auto simp: replaced_def part_def min_def)

context xdr_stream
begin

definition encodes_at ::
  "u8 list \<Rightarrow> ('s, u8 list) routine \<Rightarrow> nat \<Rightarrow> nat \<Rightarrow> (u8 list \<Rightarrow> field list) \<Rightarrow> (u8 list \<Rightarrow> bool) \<Rightarrow> bool" where
  "encodes_at trash r a n F ok \<longleftrightarrow>
     (\<forall>s b. wf s \<longrightarrow> a + n \<le> length b \<longrightarrow> ok (part a n b) \<longrightarrow>
       (\<exists>c s'. r ops XDR_ENCODE s b = Some (c, s', b) \<and> puts s (wire trash (F (part a n b))) s' c))"

definition decodes_at ::
  "u8 list \<Rightarrow> ('s, u8 list) routine \<Rightarrow> nat \<Rightarrow> nat \<Rightarrow> (u8 list \<Rightarrow> field list) \<Rightarrow> (u8 list \<Rightarrow> bool) \<Rightarrow> bool" where
  "decodes_at trash r a n F ok \<longleftrightarrow>
     (\<forall>s u v t. wf s \<longrightarrow> a + n \<le> length u \<longrightarrow> length v = n \<longrightarrow> ok v \<longrightarrow> rest s = wire trash (F v) @ t \<longrightarrow>
       (\<exists>s' w. wf s' \<and> r ops XDR_DECODE s u = Some (True, s', replaced a n w u) \<and> length w = n \<and> F w = F v \<and>
         rest s' = t))"

definition carries_at ::
  "u8 list \<Rightarrow> ('s, u8 list) routine \<Rightarrow> nat \<Rightarrow> nat \<Rightarrow> (u8 list \<Rightarrow> field list) \<Rightarrow> (u8 list \<Rightarrow> bool) \<Rightarrow> bool" where
  "carries_at trash r a n F ok \<longleftrightarrow> encodes_at trash r a n F ok \<and> decodes_at trash r a n F ok"

definition safe_at :: "('s, u8 list) routine \<Rightarrow> nat \<Rightarrow> nat \<Rightarrow> bool" where
  "safe_at r a n \<longleftrightarrow>
     (\<forall>s u. wf s \<longrightarrow> a + n \<le> length u \<longrightarrow>
       (\<exists>c s' w. wf s' \<and> r ops XDR_DECODE s u = Some (c, s', replaced a n w u) \<and> length w = n))"

lemma encodesD:
  assumes "encodes trash r F ok" "wf s" "ok v"
  shows "\<exists>b s'. r ops XDR_ENCODE s v = Some (b, s', v) \<and> puts s (wire trash (F v)) s' b"
  using assms unfolding encodes_def puts_def by blast

lemma carries_xdr_at:
  assumes r: "carries trash (\<lambda>_. ()) r F (\<lambda>_. True) (\<lambda>_. True)" and k: "k \<le> n"
    and laws: "\<And>v. get (put v) = v" "\<And>v. length (put v) = k" "\<And>bs. length bs = k \<Longrightarrow> put (get bs) = bs"
  shows "carries_at trash (xdr_at k a get put r) a n (\<lambda>bs. F (get (take k bs))) (\<lambda>_. True)"
  unfolding carries_at_def
proof (intro conjI)
  show "encodes_at trash (xdr_at k a get put r) a n (\<lambda>bs. F (get (take k bs))) (\<lambda>_. True)"
    unfolding encodes_at_def
  proof (intro allI impI)
    fix s and b :: "u8 list" assume s: "wf s" and b: "a + n \<le> length b"
    have "encodes trash r F (\<lambda>_. True)" using r by (simp add: carries_def)
    from encodesD [OF this s TrueI, of "get (take k (drop a b))"]
    obtain c s' where 1: "r ops XDR_ENCODE s (get (take k (drop a b))) = Some (c, s', get (take k (drop a b)))"
      "puts s (wire trash (F (get (take k (drop a b))))) s' c" by blast
    have "put (get (take k (drop a b))) = take k (drop a b)" using b k by (intro laws(3)) simp
    moreover note take_part [of a b k]
    moreover have "take k (part a n b) = take k (drop a b)" using k by (simp add: part_def min_absorb1)
    ultimately show "\<exists>c s'. xdr_at k a get put r ops XDR_ENCODE s b = Some (c, s', b) \<and>
        puts s (wire trash (F (get (take k (part a n b))))) s' c"
      using 1 b k by (simp add: xdr_at_def)
  qed
  show "decodes_at trash (xdr_at k a get put r) a n (\<lambda>bs. F (get (take k bs))) (\<lambda>_. True)"
    unfolding decodes_at_def
  proof (intro allI impI)
    fix s t and u v :: "u8 list" assume s: "wf s" and u: "a + n \<le> length u" "length v = n" and rest: "rest s = wire trash (F (get (take k v))) @ t"
    have "decodes trash (\<lambda>_. ()) r F (\<lambda>_. True) (\<lambda>_. True)" using r by (simp add: carries_def)
    then obtain s' x where 1: "wf s'" "r ops XDR_DECODE s (get (take k (drop a u))) = Some (True, s', x)" "rest s' = t"
      "F x = F (get (take k v))"
      using s rest unfolding decodes_def by blast
    define w where "w = put x @ take (n - k) (drop (a + k) u)"
    have w: "length w = n" "take k w = put x" using k u laws(2) by (simp_all add: w_def)
    have "drop (a + k) u = take (n - k) (drop (a + k) u) @ drop (a + n) u"
      using drop_split [OF k] .
    then have "xdr_at k a get put r ops XDR_DECODE s u = Some (True, s', replaced a n w u)"
      using 1(2) u k by (simp add: xdr_at_def replaced_def w_def)
    moreover have "F (get (take k w)) = F (get (take k v))" using w(2) laws(1) 1(4) by simp
    ultimately show "\<exists>s' w. wf s' \<and> xdr_at k a get put r ops XDR_DECODE s u = Some (True, s', replaced a n w u) \<and>
        length w = n \<and> F (get (take k w)) = F (get (take k v)) \<and> rest s' = t"
      using 1(1,3) w(1) by blast
  qed
qed

lemma safe_xdr_at:
  assumes r: "safe r (\<lambda>_. True)" and k: "k \<le> n" and put: "\<And>v. length (put v) = k"
  shows "safe_at (xdr_at k a get put r) a n"
  unfolding safe_at_def
proof (intro allI impI)
  fix s and u :: "u8 list" assume s: "wf s" and u: "a + n \<le> length u"
  obtain c s' x where 1: "wf s'" "r ops XDR_DECODE s (get (take k (drop a u))) = Some (c, s', x)"
    using safeE [OF r s TrueI] by blast
  define w where "w = put x @ take (n - k) (drop (a + k) u)"
  have "drop (a + k) u = take (n - k) (drop (a + k) u) @ drop (a + n) u"
    using drop_split [OF k] .
  then have "xdr_at k a get put r ops XDR_DECODE s u = Some (c, s', replaced a n w u)" "length w = n"
    using 1(2) u k put by (simp_all add: xdr_at_def replaced_def w_def)
  then show "\<exists>c s' w. wf s' \<and> xdr_at k a get put r ops XDR_DECODE s u = Some (c, s', replaced a n w u) \<and> length w = n"
    using 1(1) by blast
qed

end

section \<open>Bytes in a buffer\<close>

context xdr_stream
begin

lemma opaque_puts:
  assumes "wf s" "n < 2 ^ 31" "n \<le> length p" "length trash = 4"
  shows "\<exists>c s'. xdr_opaque trash (of_nat n) ops XDR_ENCODE s p = Some (c, s', p) \<and>
    puts s (field_wire trash (Opaque (take n p))) s' c"
proof -
  have "encodes trash (xdr_opaque trash (of_nat n)) (\<lambda>p. [Opaque (take n p)]) (\<lambda>p. n \<le> length p)"
    using carries_opaque [OF assms(2,4)] by (simp add: carries_def)
  from encodesD [OF this assms(1,3)] show ?thesis by simp
qed

lemma opaque_gets:
  assumes "wf s" "rest s = field_wire trash (Opaque x) @ t" "length x < 2 ^ 31" "length x \<le> length p" "length trash = 4"
  shows "\<exists>s'. wf s' \<and> xdr_opaque trash (of_nat (length x)) ops XDR_DECODE s p = Some (True, s', x @ drop (length x) p) \<and>
    rest s' = t"
proof -
  have r: "rest s = x @ take (padding (length x)) trash @ t" using assms(2) by simp
  have l: "length (take (padding (length x)) trash) = padding (length x)" using assms(5) padding_less [of "length x"] by simp
  obtain s1 where 1: "wf s1" "x_getbytes ops s (length p) (of_nat (length x)) = Some (Some x, s1)"
    "rest s1 = take (padding (length x)) trash @ t"
    using gets_bytes [OF assms(1) r assms(3,4)] by blast
  obtain s2 where "wf s2" "get_pad ops s1 (of_nat (length x)) (copied x p) = Some (True, s2, copied x p)" "rest s2 = t"
    using gets_pad [OF 1(1,3) l assms(3), where v = "copied x p"] by blast
  then show ?thesis using 1(2) by (simp add: xdr_opaque_def copied_def)
qed

lemma opaque_any:
  assumes "wf s" "n < 2 ^ 31" "n \<le> length p"
  shows "\<exists>c s' x. wf s' \<and> xdr_opaque trash (of_nat n) ops XDR_DECODE s p = Some (c, s', x @ drop n p) \<and> length x = n"
proof -
  obtain bs s1 where 1: "wf s1" "x_getbytes ops s (length p) (of_nat n) = Some (bs, s1)" "\<And>b. bs = Some b \<Longrightarrow> length b = n"
    using any_bytes [OF assms] by blast
  show ?thesis
  proof (cases bs)
    case None
    then have "xdr_opaque trash (of_nat n) ops XDR_DECODE s p = Some (False, s1, take n p @ drop n p)"
      using 1(2) by (simp add: xdr_opaque_def)
    moreover have "length (take n p) = n" using assms(3) by simp
    ultimately show ?thesis using 1(1) by blast
  next
    case (Some x)
    then have x: "length x = n" using 1(3) by simp
    obtain c s2 where "wf s2" "get_pad ops s1 (of_nat n) (copied x p) = Some (c, s2, copied x p)"
      using any_pad [OF 1(1) assms(2), where v = "copied x p"] by blast
    then show ?thesis using 1(2) Some x by (auto simp: xdr_opaque_def copied_def)
  qed
qed

text \<open>The same from an address on.\<close>

lemma from_puts:
  assumes "wf s" "n < 2 ^ 31" "a + n \<le> length b" "length trash = 4"
  shows "\<exists>c s'. xdr_from a (xdr_opaque trash (of_nat n)) ops XDR_ENCODE s b = Some (c, s', b) \<and>
    puts s (field_wire trash (Opaque (part a n b))) s' c"
proof -
  have n: "n \<le> length (drop a b)" using assms(3) by simp
  obtain c s' where "xdr_opaque trash (of_nat n) ops XDR_ENCODE s (drop a b) = Some (c, s', drop a b)"
    "puts s (field_wire trash (Opaque (take n (drop a b)))) s' c"
    using opaque_puts [OF assms(1,2) n assms(4)] by blast
  then show ?thesis by (simp add: xdr_from_def part_def del: field_wire.simps)
qed

lemma from_gets:
  assumes "wf s" "rest s = field_wire trash (Opaque x) @ t" "length x < 2 ^ 31" "a + length x \<le> length b" "length trash = 4"
  shows "\<exists>s'. wf s' \<and> xdr_from a (xdr_opaque trash (of_nat (length x))) ops XDR_DECODE s b =
    Some (True, s', replaced a (length x) x b) \<and> rest s' = t"
proof -
  have "length x \<le> length (drop a b)" using assms(4) by simp
  from opaque_gets [OF assms(1-3) this assms(5)] show ?thesis
    by (auto simp: xdr_from_def replaced_def add.commute)
qed

lemma from_any:
  assumes "wf s" "n < 2 ^ 31" "a + n \<le> length b"
  shows "\<exists>c s' x. wf s' \<and> xdr_from a (xdr_opaque trash (of_nat n)) ops XDR_DECODE s b = Some (c, s', replaced a n x b) \<and>
    length x = n"
proof -
  have "n \<le> length (drop a b)" using assms(3) by simp
  from opaque_any [OF assms(1,2) this, of trash] show ?thesis
    by (fastforce simp: xdr_from_def replaced_def add.commute)
qed

section \<open>Text\<close>

lemma carries_text:
  assumes "n < 2 ^ 31" "length trash = 4"
  shows "carries_at trash (xdr_from a (xdr_opaque trash (of_nat n))) a n (\<lambda>bs. [Opaque bs]) (\<lambda>_. True)"
  unfolding carries_at_def
proof (intro conjI)
  show "encodes_at trash (xdr_from a (xdr_opaque trash (of_nat n))) a n (\<lambda>bs. [Opaque bs]) (\<lambda>_. True)"
    unfolding encodes_at_def using from_puts [OF _ assms(1) _ assms(2)] by simp
  show "decodes_at trash (xdr_from a (xdr_opaque trash (of_nat n))) a n (\<lambda>bs. [Opaque bs]) (\<lambda>_. True)"
    unfolding decodes_at_def
  proof (intro allI impI)
    fix s t and u v :: "u8 list"
    assume s: "wf s" and u: "a + n \<le> length u" "length v = n" and rest: "rest s = wire trash [Opaque v] @ t"
    have "rest s = field_wire trash (Opaque v) @ t" using rest by simp
    from from_gets [OF s this, of a u] assms u show "\<exists>s' w. wf s' \<and>
        xdr_from a (xdr_opaque trash (of_nat n)) ops XDR_DECODE s u = Some (True, s', replaced a n w u) \<and>
        length w = n \<and> [Opaque w] = [Opaque v] \<and> rest s' = t"
      by auto
  qed
qed

lemma safe_text: "n < 2 ^ 31 \<Longrightarrow> safe_at (xdr_from a (xdr_opaque trash (of_nat n))) a n"
  unfolding safe_at_def using from_any by blast

section \<open>Two numbers one after the other\<close>

lemma carries_at_seq:
  assumes r1: "carries_at trash r1 a n F (\<lambda>_. True)" and r2: "carries_at trash r2 (a + n) m G (\<lambda>_. True)"
  shows "carries_at trash (xdr_seq r1 r2) a (n + m) (\<lambda>bs. F (take n bs) @ G (drop n bs)) (\<lambda>_. True)"
  unfolding carries_at_def
proof (intro conjI)
  show "encodes_at trash (xdr_seq r1 r2) a (n + m) (\<lambda>bs. F (take n bs) @ G (drop n bs)) (\<lambda>_. True)"
    unfolding encodes_at_def
  proof (intro allI impI)
    fix s and b :: "u8 list" assume s: "wf s" and b: "a + (n + m) \<le> length b"
    have b': "a + n \<le> length b" "a + n + m \<le> length b" using b by simp_all
    obtain c1 s1 where 1: "r1 ops XDR_ENCODE s b = Some (c1, s1, b)" "puts s (wire trash (F (part a n b))) s1 c1"
      using r1 s b' unfolding carries_at_def encodes_at_def by blast
    obtain c2 s2 where 2: "r2 ops XDR_ENCODE s1 b = Some (c2, s2, b)" "puts s1 (wire trash (G (part (a + n) m b))) s2 c2"
      using r2 puts_wf [OF 1(2)] b'(2) unfolding carries_at_def encodes_at_def by blast
    have "take n (part a (n + m) b) = part a n b" "drop n (part a (n + m) b) = part (a + n) m b"
      by (simp_all add: part_def min_def drop_take add.commute)
    then show "\<exists>c s'. xdr_seq r1 r2 ops XDR_ENCODE s b = Some (c, s', b) \<and>
        puts s (wire trash (F (take n (part a (n + m) b)) @ G (drop n (part a (n + m) b)))) s' c"
      using 1(1) 2(1) puts_then [OF 1(2) 2(2)] by (cases c1) (auto simp: xdr_seq_def)
  qed
  show "decodes_at trash (xdr_seq r1 r2) a (n + m) (\<lambda>bs. F (take n bs) @ G (drop n bs)) (\<lambda>_. True)"
    unfolding decodes_at_def
  proof (intro allI impI)
    fix s t and u v :: "u8 list"
    assume s: "wf s" and u: "a + (n + m) \<le> length u" "length v = n + m"
      and rest: "rest s = wire trash (F (take n v) @ G (drop n v)) @ t"
    have r': "rest s = wire trash (F (take n v)) @ (wire trash (G (drop n v)) @ t)" using rest by simp
    have v: "length (take n v) = n" "length (drop n v) = m" "a + n \<le> length u" using u by simp_all
    obtain s1 w1 where 1: "wf s1" "r1 ops XDR_DECODE s u = Some (True, s1, replaced a n w1 u)" "length w1 = n"
      "F w1 = F (take n v)" "rest s1 = wire trash (G (drop n v)) @ t"
      using r1 s v(1,3) r' unfolding carries_at_def decodes_at_def by blast
    have l: "a + n + m \<le> length (replaced a n w1 u)" using replaced_simps(1) [OF v(3) 1(3)] u by simp
    obtain s2 w2 where 2: "wf s2" "r2 ops XDR_DECODE s1 (replaced a n w1 u) = Some (True, s2, replaced (a + n) m w2 (replaced a n w1 u))"
      "length w2 = m" "G w2 = G (drop n v)" "rest s2 = t"
      using r2 1(1,5) l v(2) unfolding carries_at_def decodes_at_def by blast
    have "replaced (a + n) m w2 (replaced a n w1 u) = replaced a (n + m) (w1 @ w2) u"
      using v(3) 1(3) by (simp add: replaced_def min_def ac_simps)
    then show "\<exists>s' w. wf s' \<and> xdr_seq r1 r2 ops XDR_DECODE s u = Some (True, s', replaced a (n + m) w u) \<and>
        length w = n + m \<and> F (take n w) @ G (drop n w) = F (take n v) @ G (drop n v) \<and> rest s' = t"
      using 1 2 by (intro exI [of _ s2] exI [of _ "w1 @ w2"]) (simp add: xdr_seq_def)
  qed
qed

lemma safe_at_seq:
  assumes r1: "safe_at r1 a n" and r2: "safe_at r2 (a + n) m"
  shows "safe_at (xdr_seq r1 r2) a (n + m)"
  unfolding safe_at_def
proof (intro allI impI)
  fix s and u :: "u8 list" assume s: "wf s" and u: "a + (n + m) \<le> length u"
  have v: "a + n \<le> length u" using u by simp
  obtain c1 s1 w1 where 1: "wf s1" "r1 ops XDR_DECODE s u = Some (c1, s1, replaced a n w1 u)" "length w1 = n"
    using r1 s v unfolding safe_at_def by blast
  have l: "a + n + m \<le> length (replaced a n w1 u)" using replaced_simps(1) [OF v 1(3)] u by simp
  obtain c2 s2 w2 where 2: "wf s2" "r2 ops XDR_DECODE s1 (replaced a n w1 u) = Some (c2, s2, replaced (a + n) m w2 (replaced a n w1 u))"
    "length w2 = m"
    using r2 1(1) l unfolding safe_at_def by blast
  have eq: "replaced (a + n) m w2 (replaced a n w1 u) = replaced a (n + m) (w1 @ w2) u"
    "replaced a n w1 u = replaced a (n + m) (w1 @ take m (drop (a + n) u)) u"
    using v 1(3) append_take_drop_id [of m "drop (a + n) u"] by (simp_all add: replaced_def min_def ac_simps)
  have l': "length (take m (drop (a + n) u)) = m" using u by simp
  show "\<exists>c s' w. wf s' \<and> xdr_seq r1 r2 ops XDR_DECODE s u = Some (c, s', replaced a (n + m) w u) \<and> length w = n + m"
  proof (cases c1)
    case True
    then show ?thesis using 1(2,3) 2 eq(1) by (intro exI [of _ c2] exI [of _ s2] exI [of _ "w1 @ w2"]) (simp add: xdr_seq_def)
  next
    case False
    then have "xdr_seq r1 r2 ops XDR_DECODE s u = Some (False, s1, replaced a n w1 u)" using 1(2) by (simp add: xdr_seq_def)
    then show ?thesis using 1(1,3) l' unfolding eq(2)
      by (intro exI [of _ False] exI [of _ s1] exI [of _ "w1 @ take m (drop (a + n) u)"]) simp
  qed
qed

end

section \<open>Varying and C strings\<close>

text \<open>\<open>u'\<close> is \<open>u\<close> outside the \<open>n\<close> bytes at \<open>a\<close>.\<close>

definition agree :: "nat \<Rightarrow> nat \<Rightarrow> u8 list \<Rightarrow> u8 list \<Rightarrow> bool" where
  "agree a n u u' \<longleftrightarrow> length u' = length u \<and> take a u' = take a u \<and> drop (a + n) u' = drop (a + n) u"

lemma agree_part: "agree a n u u' \<Longrightarrow> a + n \<le> length u \<Longrightarrow> u' = replaced a n (part a n u') u \<and> length (part a n u') = n"
  using take_part [of a u' n] by (simp add: agree_def replaced_def part_def)

lemma agree_trans: "agree a n u v \<Longrightarrow> agree a n v w \<Longrightarrow> agree a n u w"
  by (simp add: agree_def)

lemma agree_replaced:
  assumes "a \<le> a'" "a' + k \<le> a + n" "a + n \<le> length u" "length x = k"
  shows "agree a n u (replaced a' k x u)"
proof -
  have "x = []" if "length u \<le> a'"
    using that assms length_0_conv [of x] by linarith
  then have "drop (a + n) (replaced a' k x u) = drop (a + n) u"
    using assms by (auto simp: replaced_def min_def)
  moreover have "take a (replaced a' k x u) = take a u"
    using assms replaced_simps(3) [of a' k u x a] by simp
  ultimately show ?thesis
    using assms replaced_simps(1) [of a' k u x] by (simp add: agree_def)
qed

lemma part_replaced:
  assumes "a' + k \<le> length u" "length x = k"
  shows "a + m \<le> a' \<Longrightarrow> part a m (replaced a' k x u) = part a m u" "part a' k (replaced a' k x u) = x"
proof -
  show "part a' k (replaced a' k x u) = x" using replaced_simps(2) [OF assms] .
  assume "a + m \<le> a'"
  then show "part a m (replaced a' k x u) = part a m u"
    using replaced_simps(3) [OF assms, of "a + m"] drop_take [of a "a + m"] by (metis add_diff_cancel_left' part_def)
qed

lemma part_part: "i + k \<le> n \<Longrightarrow> take k (drop i (part a n b)) = part (a + i) k b"
  by (simp add: part_def drop_take min_def add.commute)

definition varying_fields :: "u16 \<Rightarrow> u8 list \<Rightarrow> field list" where
  "varying_fields len bs =
     (let n = load (take 2 bs) in [Short n, Opaque (take (unat (min (len - 2) n)) (drop 2 bs))])"

definition c_string_fields :: "u8 list \<Rightarrow> field list" where
  "c_string_fields bs = [Short (of_nat (length (cstr bs))), Opaque (cstr bs)]"

context xdr_stream
begin

lemma short_puts:
  assumes "wf s"
  shows "\<exists>c s'. xdr_short ops XDR_ENCODE s w = Some (c, s', w) \<and> puts s (htonl_bytes (scast w)) s' c"
  using puts_long [OF assms, of "scast w"] by (auto simp: xdr_short_def put_value_def)

lemma short_gets:
  assumes "wf s" "rest s = htonl_bytes (scast w) @ t"
  shows "\<exists>s'. wf s' \<and> xdr_short ops XDR_DECODE s v = Some (True, s', w) \<and> rest s' = t"
proof -
  obtain s' where "wf s'" "x_getlong ops s = Some (Some (scast w), s')" "rest s' = t"
    using getlong_wire [OF assms] .
  then show ?thesis by (simp add: xdr_short_def get_value_def)
qed

lemma carries_short_at: "carries_at trash (xdr_at 2 a load (store 2) xdr_short) a 2 (\<lambda>bs. [Short (load (take 2 bs))]) (\<lambda>_. True)"
  by (rule carries_xdr_at [OF carries_short]) (simp_all add: store_load_full)

lemma safe_short_at: "safe_at (xdr_at 2 a load (store 2) xdr_short) a 2"
  by (rule safe_xdr_at [OF safe_numbers(3)]) simp_all

lemma varying_length:
  assumes "2 \<le> unat (len :: u16)"
  shows "2 + unat (min (len - 2) n) \<le> unat len" "ucast (min (len - 2) n) = (of_nat (unat (min (len - 2) n)) :: u32)"
proof -
  have "unat (len - 2) = unat len - 2" using assms by (simp add: unat_sub word_le_nat_alt)
  then show "2 + unat (min (len - 2) n) \<le> unat len" using assms by (auto simp: min_def word_le_nat_alt)
  show "ucast (min (len - 2) n) = (of_nat (unat (min (len - 2) n)) :: u32)" by (simp add: unat_u16)
qed

lemma carries_varying:
  assumes trash: "length trash = 4" and len: "2 \<le> unat (dsc_length d)"
  shows "carries_at trash (xdr_varying trash d) (dsc_address d) (unat (dsc_length d)) (varying_fields (dsc_length d)) (\<lambda>_. True)"
proof -
  define a n where "a = dsc_address d" and "n = unat (dsc_length d)"
  define K where "K x = unat (min (dsc_length d - 2) x)" for x
  have K: "2 + K x \<le> n" "ucast (min (dsc_length d - 2) x) = (of_nat (K x) :: u32)" "K x < 2 ^ 31" for x
    using varying_length [OF len, of x] u16_small [of "min (dsc_length d - 2) x"] by (simp_all add: K_def n_def)
  have F: "varying_fields (dsc_length d) bs = [Short (load (take 2 bs)), Opaque (take (K (load (take 2 bs))) (drop 2 bs))]" for bs
    by (simp add: varying_fields_def K_def Let_def)
  have "carries_at trash (xdr_varying trash d) a n (varying_fields (dsc_length d)) (\<lambda>_. True)"
    unfolding carries_at_def
  proof (intro conjI)
    show "encodes_at trash (xdr_varying trash d) a n (varying_fields (dsc_length d)) (\<lambda>_. True)"
      unfolding encodes_at_def
    proof (intro allI impI)
      fix s and b :: "u8 list" assume s: "wf s" and b: "a + n \<le> length b"
      define l where "l = (load (part a 2 b) :: u16)"
      have p: "take 2 (part a n b) = part a 2 b" "take (K l) (drop 2 (part a n b)) = part (a + 2) (K l) b"
        "a + 2 \<le> length b" "a + 2 + K l \<le> length b" "take 2 (part a 2 b) = part a 2 b"
        using part_part [of 0 2 n a b] part_part [of 2 "K l" n a b] K(1) [of l] b by (simp_all add: part_def)
      obtain c1 s1 where 1: "xdr_at 2 a load (store 2) xdr_short ops XDR_ENCODE s b = Some (c1, s1, b)"
        "puts s (wire trash [Short l]) s1 c1"
        using carries_short_at [of trash a] s p(3,5) unfolding carries_at_def encodes_at_def l_def by metis
      obtain c2 s2 where 2: "xdr_from (a + 2) (xdr_opaque trash (of_nat (K l))) ops XDR_ENCODE s1 b = Some (c2, s2, b)"
        "puts s1 (field_wire trash (Opaque (part (a + 2) (K l) b))) s2 c2"
        using from_puts [OF puts_wf [OF 1(2)] K(3) p(4) trash] by blast
      have "xdr_varying trash d ops XDR_ENCODE s b = (if c1 then Some (c2, s2, b) else Some (False, s1, b))"
        using 1(1) 2(1) K(2) [of l] by (simp add: xdr_varying_def a_def [symmetric] l_def part_def Let_def)
      moreover have "wire trash (varying_fields (dsc_length d) (part a n b)) =
          wire trash [Short l] @ field_wire trash (Opaque (part (a + 2) (K l) b))"
        unfolding F p(1) l_def [symmetric] p(2) by simp
      ultimately show "\<exists>c s'. xdr_varying trash d ops XDR_ENCODE s b = Some (c, s', b) \<and>
          puts s (wire trash (varying_fields (dsc_length d) (part a n b))) s' c"
        using puts_then [OF 1(2) 2(2)] by (cases c1) auto
    qed
    show "decodes_at trash (xdr_varying trash d) a n (varying_fields (dsc_length d)) (\<lambda>_. True)"
      unfolding decodes_at_def
    proof (intro allI impI)
      fix s t and u v :: "u8 list"
      assume s: "wf s" and u: "a + n \<le> length u" "length v = n" and rest: "rest s = wire trash (varying_fields (dsc_length d) v) @ t"
      define l where "l = (load (take 2 v) :: u16)"
      define x where "x = take (K l) (drop 2 v)"
      have x: "length x = K l" using K(1) [of l] u(2) by (simp add: x_def)
      have r: "rest s = wire trash [Short (load (take 2 (take 2 v)))] @ field_wire trash (Opaque x) @ t"
        using rest by (simp add: F l_def x_def)
      have l: "length (take 2 v) = 2" "a + 2 \<le> length u" using u len by (simp_all add: n_def)
      obtain s1 w where 1: "wf s1" "xdr_at 2 a load (store 2) xdr_short ops XDR_DECODE s u = Some (True, s1, replaced a 2 w u)"
        "length w = 2" "[Short (load (take 2 w))] = [Short (load (take 2 (take 2 v)))]" "rest s1 = field_wire trash (Opaque x) @ t"
        using carries_short_at [of trash a] s l r unfolding carries_at_def decodes_at_def by blast
      have w: "load w = l" using 1(3,4) by (simp add: l_def)
      let ?u1 = "replaced a 2 w u" and ?u2 = "replaced (a + 2) (K l) x (replaced a 2 w u)"
      have len1: "length ?u1 = length u" "part a 2 ?u1 = w" using replaced_simps [OF l(2) 1(3)] by simp_all
      have x': "length x < 2 ^ 31" "a + 2 + length x \<le> length ?u1" using x K [of l] u(1) len1 by simp_all
      obtain s2 where 2: "wf s2" "xdr_from (a + 2) (xdr_opaque trash (of_nat (K l))) ops XDR_DECODE s1 ?u1 = Some (True, s2, ?u2)"
        "rest s2 = t"
        using from_gets [OF 1(1,5) x' trash] x by auto
      have "xdr_varying trash d ops XDR_DECODE s u = Some (True, s2, ?u2)"
        using 1(2) 2(2) K(2) [of l] w len1(2) by (simp add: xdr_varying_def a_def [symmetric] part_def Let_def)
      moreover have ag: "agree a n u ?u2"
        using agree_trans [OF agree_replaced agree_replaced, of a a 2 n u w "a + 2" "K l" x] K(1) [of l] u(1) 1(3) x len1(1) len
        by (simp add: n_def)
      have parts: "part a 2 ?u2 = w" "part (a + 2) (K l) ?u2 = x"
        using part_replaced [of "a + 2" "K l" ?u1 x] x x'(2) len1(2) by simp_all
      have "varying_fields (dsc_length d) (part a n ?u2) = varying_fields (dsc_length d) v"
        using part_part [of 0 2 n a ?u2] part_part [of 2 "K l" n a ?u2] K(1) [of l] parts w
        by (simp add: F l_def [symmetric] x_def [symmetric])
      ultimately show "\<exists>s' w. wf s' \<and> xdr_varying trash d ops XDR_DECODE s u = Some (True, s', replaced a n w u) \<and>
          length w = n \<and> varying_fields (dsc_length d) w = varying_fields (dsc_length d) v \<and> rest s' = t"
        using 2(1,3) agree_part [OF ag u(1)] by metis
    qed
  qed
  then show ?thesis by (simp add: a_def n_def)
qed

lemma safe_varying:
  assumes len: "2 \<le> unat (dsc_length d)"
  shows "safe_at (xdr_varying trash d) (dsc_address d) (unat (dsc_length d))"
proof -
  define a n where "a = dsc_address d" and "n = unat (dsc_length d)"
  define K where "K x = unat (min (dsc_length d - 2) x)" for x
  have K: "2 + K x \<le> n" "ucast (min (dsc_length d - 2) x) = (of_nat (K x) :: u32)" "K x < 2 ^ 31" for x
    using varying_length [OF len, of x] u16_small [of "min (dsc_length d - 2) x"] by (simp_all add: K_def n_def)
  have "safe_at (xdr_varying trash d) a n"
    unfolding safe_at_def
  proof (intro allI impI)
    fix s and u :: "u8 list" assume s: "wf s" and u: "a + n \<le> length u"
    have u2: "a + 2 \<le> length u" "2 \<le> n" using u len by (simp_all add: n_def)
    obtain c1 s1 w where 1: "wf s1" "xdr_at 2 a load (store 2) xdr_short ops XDR_DECODE s u = Some (c1, s1, replaced a 2 w u)" "length w = 2"
      using safe_short_at [of a] s u2(1) unfolding safe_at_def by blast
    let ?u1 = "replaced a 2 w u"
    define l where "l = (load w :: u16)"
    have ag1: "agree a n u ?u1" using agree_replaced [of a a 2 n u w] u u2 1(3) by simp
    have len1: "length ?u1 = length u" "part a 2 ?u1 = w" using replaced_simps [OF u2(1) 1(3)] by simp_all
    have fit: "a + 2 + K l \<le> length ?u1" using K(1) [of l] u len1 by simp
    obtain c2 s2 x where 2: "wf s2" "xdr_from (a + 2) (xdr_opaque trash (of_nat (K l))) ops XDR_DECODE s1 ?u1 =
        Some (c2, s2, replaced (a + 2) (K l) x ?u1)" "length x = K l"
      using from_any [OF 1(1) K(3) fit] by blast
    have ag2: "agree a n u (replaced (a + 2) (K l) x ?u1)"
      using agree_trans [OF ag1 agree_replaced, of "a + 2" "K l" x] K(1) [of l] u len1(1) 2(3) by simp
    have "xdr_varying trash d ops XDR_DECODE s u =
        (if c1 then Some (c2, s2, replaced (a + 2) (K l) x ?u1) else Some (False, s1, ?u1))"
      using 1(2) 2(2) K(2) [of l] len1(2) by (simp add: xdr_varying_def a_def [symmetric] part_def l_def Let_def)
    then show "\<exists>c s' w. wf s' \<and> xdr_varying trash d ops XDR_DECODE s u = Some (c, s', replaced a n w u) \<and> length w = n"
      using 1(1) 2(1) agree_part [OF ag1 u] agree_part [OF ag2 u] by (cases c1) metis+
  qed
  then show ?thesis by (simp add: a_def n_def)
qed

end

lemma cstr_append: "0 \<in> set bs \<Longrightarrow> cstr (bs @ t) = cstr bs"
  by (simp add: cstr_def takeWhile_append1)

lemma cstr_shorter: "0 \<in> set bs \<Longrightarrow> length (cstr bs) < length bs"
  using cstr_prefix [of bs] by (metis le_neq_implies_less order_refl take_all)

lemma unat_ucast32: "unat (ucast (w :: u16) :: u32) = unat w"
  unfolding unsigned_ucast_eq by (rule take_bit_nat_eq_self, rule less_trans [OF u16_small]) simp

lemma cstr_zero: "0 \<notin> set x \<Longrightarrow> cstr (x @ 0 # t) = x"
  by (simp add: cstr_def takeWhile_append)

lemma unsigned_small: "m < 32768 \<Longrightarrow> unat (of_nat m :: u16) = m \<and> sint (of_nat m :: u16) = int m \<and>
    (scast (of_nat m :: u16) :: u32) = of_nat m"
proof -
  assume m: "m < 32768"
  have "sint (of_nat m :: u16) = int m"
    using m by (simp add: sint_uint unsigned_of_nat signed_take_bit_int_eq_self take_bit_nat_eq_self)
  moreover from this have "(scast (of_nat m :: u16) :: u32) = of_nat m" by (simp add: scast_eq)
  ultimately show ?thesis using m by (simp add: unsigned_of_nat take_bit_nat_eq_self)
qed

context xdr_stream
begin

lemma c_string_step:
  "xdr_c_string trash d ops XDR_DECODE s u =
     do { (b, s, n) \<leftarrow> xdr_short ops XDR_DECODE s 0;
          if \<not> b then Some (False, s, u)
          else do { (b, s, u) \<leftarrow> xdr_from (dsc_address d) (xdr_opaque trash (scast n)) ops XDR_DECODE s u;
                    if \<not> b then Some (False, s, u)
                    else if sint n < 0 \<or> length u \<le> dsc_address d + unat n then None
                    else Some (True, s, u[dsc_address d + unat n := 0]) } }"
  by (simp add: xdr_c_string_def Let_def cong: if_cong)

lemma carries_c_string:
  assumes trash: "length trash = 4" and len: "1 \<le> unat (dsc_length d)" "unat (dsc_length d) \<le> 32768"
  shows "carries_at trash (xdr_c_string trash d) (dsc_address d) (unat (dsc_length d)) c_string_fields (\<lambda>bs. 0 \<in> set bs)"
proof -
  define a n where "a = dsc_address d" and "n = unat (dsc_length d)"
  have n: "unat (ucast (dsc_length d) - 1 :: u32) = n - 1"
  proof -
    have "(1 :: u32) \<le> ucast (dsc_length d)" using len by (simp add: word_le_nat_alt unat_ucast32)
    then show ?thesis by (simp add: n_def unat_sub unat_ucast32)
  qed
  have "carries_at trash (xdr_c_string trash d) a n c_string_fields (\<lambda>bs. 0 \<in> set bs)"
    unfolding carries_at_def
  proof (intro conjI)
    show "encodes_at trash (xdr_c_string trash d) a n c_string_fields (\<lambda>bs. 0 \<in> set bs)"
      unfolding encodes_at_def
    proof (intro allI impI)
      fix s and b :: "u8 list" assume s: "wf s" and b: "a + n \<le> length b" and z: "0 \<in> set (part a n b)"
      define x where "x = cstr (part a n b)"
      define m where "m = length x"
      have m: "m < n" using cstr_shorter [OF z] length_part [OF b] by (simp add: m_def x_def)
      then have m': "m < 32768" using len by (simp add: n_def)
      have db: "drop a b = part a n b @ drop (a + n) b" using append_take_drop_id [of n "drop a b"] by (simp add: part_def add.commute)
      have z': "0 \<in> set (drop a b)" using z db by simp
      have "strlen (drop a b) = Some m" using strlen_cstr [OF z'] cstr_append [OF z] db by (simp add: m_def x_def)
      moreover have "min m (n - 1) = m" using m by simp
      moreover have p: "part a m b = x"
        using cstr_prefix(1) [of "part a n b"] part_part [of 0 m n a b] m by (simp add: m_def x_def)
      obtain c1 s1 where 1: "xdr_short ops XDR_ENCODE s (of_nat m) = Some (c1, s1, of_nat m)"
        "puts s (htonl_bytes (scast (of_nat m :: u16))) s1 c1"
        using short_puts [OF s] by blast
      have "m < 2 ^ 31" "a + m \<le> length b" using m m' b by simp_all
      from from_puts [OF puts_wf [OF 1(2)] this trash]
      obtain c2 s2 where 2: "xdr_from a (xdr_opaque trash (of_nat m)) ops XDR_ENCODE s1 b = Some (c2, s2, b)"
        "puts s1 (field_wire trash (Opaque x)) s2 c2"
        unfolding p by blast
      ultimately have "xdr_c_string trash d ops XDR_ENCODE s b = (if c1 then Some (c2, s2, b) else Some (False, s1, b))"
        using 1(1) unsigned_small [OF m'] n by (simp add: xdr_c_string_def a_def [symmetric] Let_def)
      moreover have "wire trash (c_string_fields (part a n b)) = htonl_bytes (scast (of_nat m :: u16)) @ field_wire trash (Opaque x)"
        by (simp add: c_string_fields_def x_def m_def)
      ultimately show "\<exists>c s'. xdr_c_string trash d ops XDR_ENCODE s b = Some (c, s', b) \<and>
          puts s (wire trash (c_string_fields (part a n b))) s' c"
        using puts_then [OF 1(2) 2(2)] by (cases c1) auto
    qed
    show "decodes_at trash (xdr_c_string trash d) a n c_string_fields (\<lambda>bs. 0 \<in> set bs)"
      unfolding decodes_at_def
    proof (intro allI impI)
      fix s t and u v :: "u8 list"
      assume s: "wf s" and u: "a + n \<le> length u" "length v = n" and z: "0 \<in> set v"
        and rest: "rest s = wire trash (c_string_fields v) @ t"
      define x where "x = cstr v"
      define m where "m = length x"
      have m: "m < n" using cstr_shorter [OF z] u(2) by (simp add: m_def x_def)
      then have m': "m < 32768" using len by (simp add: n_def)
      have r: "rest s = htonl_bytes (scast (of_nat m :: u16)) @ field_wire trash (Opaque x) @ t"
        using rest by (simp add: c_string_fields_def m_def x_def)
      obtain s1 where 1: "wf s1" "xdr_short ops XDR_DECODE s 0 = Some (True, s1, of_nat m)"
        "rest s1 = field_wire trash (Opaque x) @ t"
        using short_gets [OF s r] by blast
      have x: "length x < 2 ^ 31" "a + length x \<le> length u" using m m' u by (simp_all add: m_def)
      obtain s2 where 2: "wf s2" "xdr_from a (xdr_opaque trash (of_nat m)) ops XDR_DECODE s1 u = Some (True, s2, replaced a m x u)"
        "rest s2 = t"
        using from_gets [OF 1(1,3) x trash] unfolding m_def by blast
      let ?u1 = "replaced a m x u" and ?u2 = "replaced (a + m) 1 [0] (replaced a m x u)"
      have lm: "a + m \<le> length u" "length x = m" using x(2) m_def by simp_all
      have len1: "length ?u1 = length u" using replaced_simps(1) [OF lm] .
      have up: "?u1[a + m := 0] = ?u2"
        using len1 m u by (simp add: replaced_def upd_conv_take_nth_drop)
      have "xdr_c_string trash d ops XDR_DECODE s u = Some (True, s2, ?u2)"
        using 1(2) 2(2) unsigned_small [OF m'] len1 m u
        by (simp add: c_string_step a_def [symmetric] up)
      moreover have ag: "agree a n u ?u2"
      proof (rule agree_trans)
        show "agree a n u ?u1" using m u(1) lm by (intro agree_replaced) simp_all
        show "agree a n ?u1 ?u2" using m u(1) len1 by (intro agree_replaced) simp_all
      qed
      have "part a (Suc m) ?u2 = x @ [0]"
        using m u lm by (simp add: part_def replaced_def)
      then have "take (Suc m) (part a n ?u2) = x @ [0]" using part_part [of 0 "Suc m" n a ?u2] m by simp
      then have "part a n ?u2 = x @ 0 # drop (Suc m) (part a n ?u2)"
        by (metis append_Cons append_assoc append_take_drop_id append_Nil)
      then have "cstr (part a n ?u2) = x" using cstr_zero [OF cstr_prefix(3) [of v]] by (metis x_def)
      then have "c_string_fields (part a n ?u2) = c_string_fields v" by (simp add: c_string_fields_def x_def)
      ultimately show "\<exists>s' w. wf s' \<and> xdr_c_string trash d ops XDR_DECODE s u = Some (True, s', replaced a n w u) \<and>
          length w = n \<and> c_string_fields w = c_string_fields v \<and> rest s' = t"
        using 2(1,3) agree_part [OF ag u(1)] by metis
    qed
  qed
  then show ?thesis by (simp add: a_def n_def)
qed

end

section \<open>Fields\<close>

text \<open>A descriptor as the parser makes it: a type that the protocol knows, with its size.\<close>

definition dsc_ok :: "dsc \<Rightarrow> bool" where
  "dsc_ok d \<longleftrightarrow>
     (let t = dsc_dtype d; n = dsc_length d in
      t = dtype_text \<or> (t = dtype_varying \<and> 2 \<le> n) \<or> (t = dtype_cstring \<and> 1 \<le> n \<and> n \<le> 32768) \<or>
      (t = dtype_short \<and> n = 2) \<or> (t \<in> {dtype_sql_time, dtype_sql_date, dtype_long, dtype_real} \<and> n = 4) \<or>
      (t \<in> {dtype_double, dtype_timestamp, dtype_int64, dtype_array, dtype_quad, dtype_blob} \<and> n = 8))"

definition datum_fields :: "dsc \<Rightarrow> u8 list \<Rightarrow> field list" where
  "datum_fields d bs =
     (let t = dsc_dtype d in
      if t = dtype_text then [Opaque bs]
      else if t = dtype_varying then varying_fields (dsc_length d) bs
      else if t = dtype_cstring then c_string_fields bs
      else if t = dtype_short then [Short (load bs)]
      else if t \<in> {dtype_sql_time, dtype_sql_date, dtype_long, dtype_real} then [Long (load bs)]
      else if t = dtype_timestamp then [Long (load (take 4 bs)), Long (load (drop 4 bs))]
      else if t \<in> {dtype_double, dtype_int64} then [Hyper (load bs)]
      else [Long (bid_relation_id (load_bid bs)), Long (bid_number (load_bid bs))])"

definition datum_ok :: "dsc \<Rightarrow> u8 list \<Rightarrow> bool" where
  "datum_ok d bs \<longleftrightarrow> (dsc_dtype d = dtype_cstring \<longrightarrow> 0 \<in> set bs)"

text \<open>The bytes of a field in its buffer, and a layout of fields one after the other, from \<open>k\<close> to \<open>e\<close>.\<close>

definition datum :: "dsc \<Rightarrow> u8 list \<Rightarrow> u8 list" where
  "datum d b = part (dsc_address d) (unat (dsc_length d)) b"

fun laid_out :: "nat \<Rightarrow> dsc list \<Rightarrow> nat \<Rightarrow> bool" where
  "laid_out k [] e \<longleftrightarrow> k \<le> e"
| "laid_out k (d # ds) e \<longleftrightarrow> k \<le> dsc_address d \<and> laid_out (dsc_address d + unat (dsc_length d)) ds e"

lemma laid_out_end: "laid_out k ds e \<Longrightarrow> k \<le> e"
  by (induction ds arbitrary: k) (auto, fastforce)

lemma unat_eq_num: "(n :: u16) = 2 \<Longrightarrow> unat n = 2" "n = 4 \<Longrightarrow> unat n = 4" "n = 8 \<Longrightarrow> unat n = 8"
  by simp_all

context xdr_stream
begin

lemma carries_at_cong:
  assumes "carries_at trash r a n F ok" "\<And>bs. length bs = n \<Longrightarrow> F bs = G bs" "\<And>bs. ok' bs \<Longrightarrow> ok bs"
  shows "carries_at trash r a n G ok'"
proof -
  have "encodes_at trash r a n G ok'"
    unfolding encodes_at_def
  proof (intro allI impI)
    fix s and b :: "u8 list" assume a: "wf s" "a + n \<le> length b" "ok' (part a n b)"
    from assms(2) [OF length_part [OF a(2)]] show "\<exists>c s'. r ops XDR_ENCODE s b = Some (c, s', b) \<and>
        puts s (wire trash (G (part a n b))) s' c"
      using assms(1,3) a unfolding carries_at_def encodes_at_def by metis
  qed
  moreover have "decodes_at trash r a n G ok'"
    unfolding decodes_at_def
  proof (intro allI impI)
    fix s t and u v :: "u8 list"
    assume a: "wf s" "a + n \<le> length u" "length v = n" "ok' v" "rest s = wire trash (G v) @ t"
    have "rest s = wire trash (F v) @ t" using a(5) assms(2) [OF a(3)] by simp
    then obtain s' w where "wf s'" "r ops XDR_DECODE s u = Some (True, s', replaced a n w u)" "length w = n" "F w = F v" "rest s' = t"
      using assms(1,3) a unfolding carries_at_def decodes_at_def by blast
    then show "\<exists>s' w. wf s' \<and> r ops XDR_DECODE s u = Some (True, s', replaced a n w u) \<and> length w = n \<and> G w = G v \<and> rest s' = t"
      using assms(2) [of w] assms(2) [OF a(3)] by metis
  qed
  ultimately show ?thesis by (simp add: carries_at_def)
qed

lemmas number_at =
  carries_xdr_at [OF carries_short, of 2 2 load "store 2"] carries_xdr_at [OF carries_long, of 4 4 load "store 4"]
  carries_xdr_at [OF carries_numbers(5), of 4 4 load "store 4"] carries_xdr_at [OF carries_double, of 8 8 load "store 8"]
  carries_xdr_at [OF carries_hyper, of 8 8 load "store 8"] carries_xdr_at [OF carries_quad, of 8 8 load_bid store_bid]

lemma carries_datum:
  assumes trash: "length trash = 4" and d: "dsc_ok d"
  shows "carries_at trash (xdr_datum trash d) (dsc_address d) (unat (dsc_length d)) (datum_fields d) (datum_ok d)"
proof -
  define t a n where "t = dsc_dtype d" and "a = dsc_address d" and "n = unat (dsc_length d)"
  from d consider (chars) "t = dtype_text" | (varying) "t = dtype_varying" "2 \<le> n"
    | (c_string) "t = dtype_cstring" "1 \<le> n" "n \<le> 32768" | (short) "t = dtype_short" "n = 2"
    | (long) "t \<in> {dtype_sql_time, dtype_sql_date, dtype_long}" "n = 4" | (real) "t = dtype_real" "n = 4"
    | (double) "t = dtype_double" "n = 8" | (timestamp) "t = dtype_timestamp" "n = 8" | (int64) "t = dtype_int64" "n = 8"
    | (bid) "t \<in> {dtype_array, dtype_quad, dtype_blob}" "n = 8"
    unfolding dsc_ok_def Let_def t_def n_def by (auto simp: word_le_nat_alt)
  then have "carries_at trash (xdr_datum trash d) a n (datum_fields d) (datum_ok d)"
  proof cases
    case chars
    have eq: "xdr_datum trash d = xdr_from a (xdr_opaque trash (of_nat n))"
      using chars unat_u16(2) [of "dsc_length d"] by (simp add: xdr_datum_def t_def a_def n_def)
    have "n < 2 ^ 31" by (simp add: n_def)
    then show ?thesis
      unfolding eq by (rule carries_at_cong [OF carries_text [OF _ trash]]) (use chars in \<open>simp_all add: datum_fields_def t_def\<close>)
  next
    case varying
    have eq: "xdr_datum trash d = xdr_varying trash d" using varying by (simp add: xdr_datum_def t_def)
    show ?thesis
      unfolding eq a_def n_def using varying
      by (intro carries_at_cong [OF carries_varying [OF trash]]) (simp_all add: datum_fields_def t_def n_def)
  next
    case c_string
    have eq: "xdr_datum trash d = xdr_c_string trash d" using c_string by (simp add: xdr_datum_def t_def)
    show ?thesis
      unfolding eq a_def n_def using c_string
      by (intro carries_at_cong [OF carries_c_string [OF trash]]) (simp_all add: datum_fields_def datum_ok_def t_def n_def)
  next
    case short
    have eq: "xdr_datum trash d = xdr_at 2 a load (store 2) xdr_short" using short(1) by (auto simp: xdr_datum_def t_def a_def)
    show ?thesis
      unfolding eq short(2) by (rule carries_at_cong [OF number_at(1)])
        (use short(1) in \<open>auto simp: datum_fields_def store_load_full t_def\<close>)
  next
    case long
    have eq: "xdr_datum trash d = xdr_at 4 a load (store 4) xdr_long" using long(1) by (auto simp: xdr_datum_def t_def a_def)
    show ?thesis
      unfolding eq long(2) by (rule carries_at_cong [OF number_at(2)])
        (use long(1) in \<open>auto simp: datum_fields_def store_load_full t_def\<close>)
  next
    case real
    have eq: "xdr_datum trash d = xdr_at 4 a load (store 4) xdr_float" using real(1) by (auto simp: xdr_datum_def t_def a_def)
    show ?thesis
      unfolding eq real(2) by (rule carries_at_cong [OF number_at(3)])
        (use real(1) in \<open>auto simp: datum_fields_def store_load_full t_def\<close>)
  next
    case double
    have eq: "xdr_datum trash d = xdr_at 8 a load (store 8) xdr_double" using double(1) by (auto simp: xdr_datum_def t_def a_def)
    show ?thesis
      unfolding eq double(2) by (rule carries_at_cong [OF number_at(4)])
        (use double(1) in \<open>auto simp: datum_fields_def store_load_full t_def\<close>)
  next
    case timestamp
    have eq: "xdr_datum trash d = xdr_seq (xdr_at 4 a load (store 4) xdr_long) (xdr_at 4 (a + 4) load (store 4) xdr_long)"
      using timestamp(1) by (simp add: xdr_datum_def t_def a_def Let_def)
    have "carries_at trash (xdr_datum trash d) a (4 + 4)
        (\<lambda>bs. [Long (load (take 4 (take 4 bs)))] @ [Long (load (take 4 (drop 4 bs)))]) (\<lambda>_. True)"
      unfolding eq by (rule carries_at_seq [OF number_at(2) number_at(2)]) (simp_all add: store_load_full)
    then have both: "carries_at trash (xdr_datum trash d) a 8 (\<lambda>bs. [Long (load (take 4 bs)), Long (load (take 4 (drop 4 bs)))]) (\<lambda>_. True)"
      by simp
    show ?thesis
      unfolding timestamp(2) by (rule carries_at_cong [OF both]) (use timestamp(1) in \<open>auto simp: datum_fields_def t_def\<close>)
  next
    case int64
    have eq: "xdr_datum trash d = xdr_at 8 a load (store 8) xdr_hyper" using int64(1) by (auto simp: xdr_datum_def t_def a_def)
    show ?thesis
      unfolding eq int64(2) by (rule carries_at_cong [OF number_at(5)])
        (use int64(1) in \<open>auto simp: datum_fields_def store_load_full t_def\<close>)
  next
    case bid
    have eq: "xdr_datum trash d = xdr_at 8 a load_bid store_bid xdr_quad" using bid(1) by (auto simp: xdr_datum_def t_def a_def)
    show ?thesis
      unfolding eq bid(2) by (rule carries_at_cong [OF number_at(6)])
        (use bid(1) in \<open>auto simp: datum_fields_def store_load_bid t_def\<close>)
  qed
  then show ?thesis by (simp add: a_def n_def)
qed

text \<open>C strings are excepted: the length that is received is not compared with that of the field.\<close>

lemma safe_datum:
  assumes d: "dsc_ok d" "dsc_dtype d \<noteq> dtype_cstring"
  shows "safe_at (xdr_datum trash d) (dsc_address d) (unat (dsc_length d))"
proof -
  define t a n where "t = dsc_dtype d" and "a = dsc_address d" and "n = unat (dsc_length d)"
  from d consider (chars) "t = dtype_text" | (varying) "t = dtype_varying" "2 \<le> n"
    | (short) "t = dtype_short" "n = 2"
    | (long) "t \<in> {dtype_sql_time, dtype_sql_date, dtype_long}" "n = 4" | (real) "t = dtype_real" "n = 4"
    | (double) "t = dtype_double" "n = 8" | (timestamp) "t = dtype_timestamp" "n = 8" | (int64) "t = dtype_int64" "n = 8"
    | (bid) "t \<in> {dtype_array, dtype_quad, dtype_blob}" "n = 8"
    unfolding dsc_ok_def Let_def t_def n_def by (auto simp: word_le_nat_alt)
  then have "safe_at (xdr_datum trash d) a n"
  proof cases
    case chars
    have eq: "xdr_datum trash d = xdr_from a (xdr_opaque trash (of_nat n))"
      using chars unat_u16(2) [of "dsc_length d"] by (simp add: xdr_datum_def t_def a_def n_def)
    show ?thesis unfolding eq by (rule safe_text) (simp add: n_def)
  next
    case varying
    then show ?thesis using safe_varying [of d trash] by (simp add: xdr_datum_def t_def a_def n_def)
  next
    case short
    have eq: "xdr_datum trash d = xdr_at 2 a load (store 2) xdr_short" using short(1) by (simp add: xdr_datum_def t_def a_def)
    show ?thesis unfolding eq short(2) by (rule safe_short_at)
  next
    case long
    have eq: "xdr_datum trash d = xdr_at 4 a load (store 4) xdr_long" using long(1) by (auto simp: xdr_datum_def t_def a_def)
    show ?thesis unfolding eq long(2) by (rule safe_xdr_at [OF safe_numbers(1)]) simp_all
  next
    case real
    have eq: "xdr_datum trash d = xdr_at 4 a load (store 4) xdr_float" using real(1) by (auto simp: xdr_datum_def t_def a_def)
    show ?thesis unfolding eq real(2)
      by (rule safe_xdr_at [OF safe_number [where g = "\<lambda>w. w"]]) (simp_all add: xdr_float_def)
  next
    case double
    have eq: "xdr_datum trash d = xdr_at 8 a load (store 8) xdr_double" using double(1) by (auto simp: xdr_datum_def t_def a_def)
    show ?thesis unfolding eq double(2) by (rule safe_xdr_at [OF safe_two]) (simp_all add: xdr_double_def)
  next
    case timestamp
    have eq: "xdr_datum trash d = xdr_seq (xdr_at 4 a load (store 4) xdr_long) (xdr_at 4 (a + 4) load (store 4) xdr_long)"
      using timestamp(1) by (simp add: xdr_datum_def t_def a_def Let_def)
    have "safe_at (xdr_datum trash d) a (4 + 4)"
      unfolding eq by (intro safe_at_seq safe_xdr_at [OF safe_numbers(1)]) simp_all
    then show ?thesis unfolding timestamp(2) by simp
  next
    case int64
    have eq: "xdr_datum trash d = xdr_at 8 a load (store 8) xdr_hyper" using int64(1) by (auto simp: xdr_datum_def t_def a_def)
    show ?thesis unfolding eq int64(2) by (rule safe_xdr_at [OF safe_two]) (simp_all add: xdr_hyper_def)
  next
    case bid
    have eq: "xdr_datum trash d = xdr_at 8 a load_bid store_bid xdr_quad" using bid(1) by (auto simp: xdr_datum_def t_def a_def)
    show ?thesis unfolding eq bid(2) by (rule safe_xdr_at [OF safe_quad]) simp_all
  qed
  then show ?thesis by (simp add: a_def n_def)
qed

section \<open>Messages\<close>

lemma datums_encode:
  assumes "laid_out k ds (length b)" "list_all dsc_ok ds" "list_all (\<lambda>d. datum_ok d (datum d b)) ds" "wf s" "length trash = 4"
  shows "\<exists>c s'. xdr_all (map (xdr_datum trash) ds) ops XDR_ENCODE s b = Some (c, s', b) \<and>
    puts s (wire trash (concat (map (\<lambda>d. datum_fields d (datum d b)) ds))) s' c"
  using assms
proof (induction ds arbitrary: k s)
  case Nil
  then show ?case by (intro exI [of _ True] exI [of _ s]) (simp add: xdr_all_simps xdr_skip_def puts_none)
next
  case (Cons d ds)
  define a n where "a = dsc_address d" and "n = unat (dsc_length d)"
  have fit: "a + n \<le> length b" using Cons.prems(1) laid_out_end [of _ ds] by (simp add: a_def n_def)
  have "datum_ok d (part a n b)" using Cons.prems(3) by (simp add: datum_def a_def n_def)
  moreover have "encodes_at trash (xdr_datum trash d) a n (datum_fields d) (datum_ok d)"
    using carries_datum [OF Cons.prems(5), of d] Cons.prems(2) by (simp add: carries_at_def a_def n_def)
  ultimately obtain c1 s1 where 1: "xdr_datum trash d ops XDR_ENCODE s b = Some (c1, s1, b)"
    "puts s (wire trash (datum_fields d (datum d b))) s1 c1"
    using Cons.prems(4) fit unfolding encodes_at_def datum_def a_def n_def by blast
  obtain c2 s2 where 2: "xdr_all (map (xdr_datum trash) ds) ops XDR_ENCODE s1 b = Some (c2, s2, b)"
    "puts s1 (wire trash (concat (map (\<lambda>d. datum_fields d (datum d b)) ds))) s2 c2"
    using Cons.IH [of "a + n" s1] Cons.prems puts_wf [OF 1(2)] by (auto simp: a_def n_def)
  show ?case
    using 1(1) 2(1) puts_then [OF 1(2) 2(2)] by (cases c1) (auto simp: xdr_all_simps xdr_seq_def)
qed

lemma datums_decode:
  assumes "laid_out k ds (length u)" "length v = length u" "list_all dsc_ok ds" "list_all (\<lambda>d. datum_ok d (datum d v)) ds"
    and "wf s" "length trash = 4" "rest s = wire trash (concat (map (\<lambda>d. datum_fields d (datum d v)) ds)) @ t"
  shows "\<exists>s' u'. wf s' \<and> xdr_all (map (xdr_datum trash) ds) ops XDR_DECODE s u = Some (True, s', u') \<and> rest s' = t \<and>
    length u' = length u \<and> take k u' = take k u \<and>
    map (\<lambda>d. datum_fields d (datum d u')) ds = map (\<lambda>d. datum_fields d (datum d v)) ds"
  using assms
proof (induction ds arbitrary: k s u)
  case Nil
  then show ?case by (simp add: xdr_all_simps xdr_skip_def)
next
  case (Cons d ds)
  define a n where "a = dsc_address d" and "n = unat (dsc_length d)"
  have lay: "k \<le> a" "laid_out (a + n) ds (length u)" using Cons.prems(1) by (simp_all add: a_def n_def)
  have fit: "a + n \<le> length u" using laid_out_end [OF lay(2)] .
  have v: "length (part a n v) = n" "datum_ok d (part a n v)"
    using Cons.prems(2,4) fit length_part [of a n v] by (simp_all add: datum_def a_def n_def)
  have r: "rest s = wire trash (datum_fields d (part a n v)) @ wire trash (concat (map (\<lambda>d. datum_fields d (datum d v)) ds)) @ t"
    using Cons.prems(7) by (simp add: datum_def a_def n_def)
  have "decodes_at trash (xdr_datum trash d) a n (datum_fields d) (datum_ok d)"
    using carries_datum [OF Cons.prems(6), of d] Cons.prems(3) by (simp add: carries_at_def a_def n_def)
  then obtain s1 w where 1: "wf s1" "xdr_datum trash d ops XDR_DECODE s u = Some (True, s1, replaced a n w u)" "length w = n"
    "datum_fields d w = datum_fields d (part a n v)" "rest s1 = wire trash (concat (map (\<lambda>d. datum_fields d (datum d v)) ds)) @ t"
    using Cons.prems(5) fit v r unfolding decodes_at_def by blast
  let ?u = "replaced a n w u"
  have u1: "length ?u = length u" "part a n ?u = w" using replaced_simps [OF fit 1(3)] by simp_all
  obtain s2 u' where 2: "wf s2" "xdr_all (map (xdr_datum trash) ds) ops XDR_DECODE s1 ?u = Some (True, s2, u')" "rest s2 = t"
    "length u' = length ?u" "take (a + n) u' = take (a + n) ?u"
    "map (\<lambda>d. datum_fields d (datum d u')) ds = map (\<lambda>d. datum_fields d (datum d v)) ds"
    using Cons.IH [of "a + n" ?u s1] Cons.prems lay(2) 1(1,5) u1(1) by (auto simp del: wire_simps)
  have "part a n u' = w" using 2(5) u1(2) by (simp add: part_def) (metis drop_take add_diff_cancel_left')
  moreover have "take k u' = take k u"
    using 2(5) lay(1) replaced_simps(3) [OF fit 1(3) lay(1)] by (metis min.absorb1 take_take trans_le_add1)
  moreover have "xdr_all (map (xdr_datum trash) (d # ds)) ops XDR_DECODE s u = Some (True, s2, u')"
    using 1(2) 2(2) by (simp add: xdr_all_simps xdr_seq_def)
  ultimately show ?case
    using 2(1,3,4,6) 1(4) u1(1) by (intro exI [of _ s2] exI [of _ u']) (simp add: datum_def a_def n_def)
qed

lemma datums_safe:
  assumes "laid_out k ds (length u)" "list_all dsc_ok ds" "list_all (\<lambda>d. dsc_dtype d \<noteq> dtype_cstring) ds" "wf s"
  shows "\<exists>c s' u'. wf s' \<and> xdr_all (map (xdr_datum trash) ds) ops XDR_DECODE s u = Some (c, s', u') \<and> length u' = length u"
  using assms
proof (induction ds arbitrary: k s u)
  case Nil
  then show ?case by (intro exI [of _ True] exI [of _ s]) (simp add: xdr_all_simps xdr_skip_def)
next
  case (Cons d ds)
  define a n where "a = dsc_address d" and "n = unat (dsc_length d)"
  have lay: "laid_out (a + n) ds (length u)" using Cons.prems(1) by (simp add: a_def n_def)
  have fit: "a + n \<le> length u" using laid_out_end [OF lay] .
  have "safe_at (xdr_datum trash d) a n" using safe_datum [of d trash] Cons.prems(2,3) by (simp add: a_def n_def)
  then obtain c1 s1 w where 1: "wf s1" "xdr_datum trash d ops XDR_DECODE s u = Some (c1, s1, replaced a n w u)" "length w = n"
    using Cons.prems(4) fit unfolding safe_at_def by blast
  let ?u = "replaced a n w u"
  have u1: "length ?u = length u" using replaced_simps(1) [OF fit 1(3)] .
  obtain c2 s2 u' where 2: "wf s2" "xdr_all (map (xdr_datum trash) ds) ops XDR_DECODE s1 ?u = Some (c2, s2, u')" "length u' = length ?u"
    using Cons.IH [of "a + n" ?u s1] Cons.prems lay 1(1) u1 by auto
  show ?case using 1 2 u1 by (cases c1) (auto simp: xdr_all_simps xdr_seq_def)
qed

end

end
