(* ===== verification/Protocol_Packets.thy ===== *)
theory Protocol_Packets
  imports Protocol_Codec
begin

text \<open>
  What the packets of \<open>remote/protocol.cpp\<close> carry: the fields of every subpacket in the order of its routine, and
  that the routine transmits them. From the routines it follows that \<open>xdr_protocol\<close> carries every modelled packet.
\<close>

section \<open>The fields of the subpackets\<close>

definition p_acpt_fields :: "p_acpt \<Rightarrow> field list" where
  "p_acpt_fields p =
     [Short (p_acpt_version p), Long (p_acpt_architecture p),
      U_short (p_acpt_type p)]"

definition p_req_fields :: "p_req \<Rightarrow> field list" where
  "p_req_fields p =
     [Short (p_req_type p), Short (p_req_object p),
      Long (p_req_partner p)]"

definition p_atch_fields :: "p_atch \<Rightarrow> field list" where
  "p_atch_fields p =
     [Short (p_atch_database p), Counted (contents (p_atch_file p)),
      Counted (contents (p_atch_dpb p))]"

definition p_cmpl_fields :: "p_cmpl \<Rightarrow> field list" where
  "p_cmpl_fields p =
     [Short (p_cmpl_database p), Counted (contents (p_cmpl_blr p))]"

definition p_sttr_fields :: "p_sttr \<Rightarrow> field list" where
  "p_sttr_fields p =
     [Short (p_sttr_database p), Counted (contents (p_sttr_tpb p))]"

definition p_rlse_fields :: "p_rlse \<Rightarrow> field list" where
  "p_rlse_fields p =
     [Short (p_rlse_object p)]"

definition p_data_fields :: "p_data \<Rightarrow> field list" where
  "p_data_fields p =
     [Short (p_data_request p), Short (p_data_incarnation p),
      Short (p_data_transaction p), Short (p_data_message_number p),
      Short (p_data_messages p)]"

definition p_sgmt_fields :: "p_sgmt \<Rightarrow> field list" where
  "p_sgmt_fields p =
     [Short (p_sgmt_blob p), Short (p_sgmt_length p),
      Counted (contents (p_sgmt_segment p))]"

definition p_seek_fields :: "p_seek \<Rightarrow> field list" where
  "p_seek_fields p =
     [Short (p_seek_blob p), Short (p_seek_mode p),
      Long (p_seek_offset p)]"

definition p_prep_fields :: "p_prep \<Rightarrow> field list" where
  "p_prep_fields p =
     [Short (p_prep_transaction p), Counted (contents (p_prep_data p))]"

definition p_ddl_fields :: "p_ddl \<Rightarrow> field list" where
  "p_ddl_fields p =
     [Short (p_ddl_database p), Short (p_ddl_transaction p),
      Counted (contents (p_ddl_blr p))]"

definition p_sqlfree_fields :: "p_sqlfree \<Rightarrow> field list" where
  "p_sqlfree_fields p =
     [Short (p_sqlfree_statement p), Short (p_sqlfree_option p)]"

definition p_sqlcur_fields :: "p_sqlcur \<Rightarrow> field list" where
  "p_sqlcur_fields p =
     [Short (p_sqlcur_statement p), Counted (contents (p_sqlcur_cursor_name p)),
      Short (p_sqlcur_type p)]"

definition p_sqlst_fields :: "p_sqlst \<Rightarrow> field list" where
  "p_sqlst_fields p =
     [Short (p_sqlst_transaction p), Short (p_sqlst_statement p),
      Short (p_sqlst_SQL_dialect p), Counted (contents (p_sqlst_SQL_str p)),
      Counted (contents (p_sqlst_items p)), Short (p_sqlst_buffer_length p)]"

definition p_blob_fields :: "p_blob \<Rightarrow> field list" where
  "p_blob_fields p =
     [Short (p_blob_transaction p), Long (bid_relation_id (p_blob_id p)),
      Long (bid_number (p_blob_id p))]"

definition p_info_start_fields :: "p_info \<Rightarrow> field list" where
  "p_info_start_fields p =
     [Short (p_info_object p), Short (p_info_incarnation p),
      Counted (contents (p_info_items p))]"

definition p_event_fields :: "p_event \<Rightarrow> field list" where
  "p_event_fields p =
     [Short (p_event_database p), Counted (contents (p_event_items p)),
      Long (p_event_ast p), Long (p_event_arg p),
      Long (p_event_rid p)]"

definition p_event_cancel_fields :: "p_event \<Rightarrow> field list" where
  "p_event_cancel_fields p =
     [Short (p_event_database p), Long (p_event_rid p)]"

definition p_cnct_repeat_fields :: "p_cnct_repeat \<Rightarrow> field list" where
  "p_cnct_repeat_fields p =
     [Short (p_cnct_version p), Long (p_cnct_architecture p),
      U_short (p_cnct_min_type p), U_short (p_cnct_max_type p),
      Short (p_cnct_weight p)]"

definition p_blob2_fields :: "p_blob \<Rightarrow> field list" where
  "p_blob2_fields p = Counted (contents (p_blob_bpb p)) # p_blob_fields p"

definition p_info_fields :: "bool \<Rightarrow> p_info \<Rightarrow> field list" where
  "p_info_fields op_service p =
     [Short (p_info_object p), Short (p_info_incarnation p), Counted (contents (p_info_items p))] @
     (if op_service then [Counted (contents (p_info_recv_items p))] else []) @ [Short (p_info_buffer_length p)]"

definition p_cnct_fields :: "p_cnct \<Rightarrow> field list" where
  "p_cnct_fields p =
     [Long (p_cnct_operation p), Short (p_cnct_cversion p), Long (p_cnct_client p), Counted (contents (p_cnct_file p)),
      Short (p_cnct_count p), Counted (contents (p_cnct_user_id p))] @
     concat (map p_cnct_repeat_fields (take (unat (p_cnct_count p)) (p_cnct_versions p)))"

definition p_resp_fields :: "p_resp \<Rightarrow> field list" where
  "p_resp_fields r =
     [Short (p_resp_object r), Long (bid_relation_id (p_resp_blob_id r)), Long (bid_number (p_resp_blob_id r)),
      Counted (contents (p_resp_data r))] @ status_fields (p_resp_status_vector r)"

text \<open>Their strings, which must be well-formed to be sent and have a block of their own, or none, to be received.\<close>

definition p_atch_cstrings :: "p_atch \<Rightarrow> cstring list" where
  "p_atch_cstrings p = [p_atch_file p, p_atch_dpb p]"

definition p_cmpl_cstrings :: "p_cmpl \<Rightarrow> cstring list" where
  "p_cmpl_cstrings p = [p_cmpl_blr p]"

definition p_sttr_cstrings :: "p_sttr \<Rightarrow> cstring list" where
  "p_sttr_cstrings p = [p_sttr_tpb p]"

definition p_sgmt_cstrings :: "p_sgmt \<Rightarrow> cstring list" where
  "p_sgmt_cstrings p = [p_sgmt_segment p]"

definition p_prep_cstrings :: "p_prep \<Rightarrow> cstring list" where
  "p_prep_cstrings p = [p_prep_data p]"

definition p_ddl_cstrings :: "p_ddl \<Rightarrow> cstring list" where
  "p_ddl_cstrings p = [p_ddl_blr p]"

definition p_sqlcur_cstrings :: "p_sqlcur \<Rightarrow> cstring list" where
  "p_sqlcur_cstrings p = [p_sqlcur_cursor_name p]"

definition p_sqlst_cstrings :: "p_sqlst \<Rightarrow> cstring list" where
  "p_sqlst_cstrings p = [p_sqlst_SQL_str p, p_sqlst_items p]"

definition p_event_cstrings :: "p_event \<Rightarrow> cstring list" where
  "p_event_cstrings p = [p_event_items p]"

definition p_cnct_cstrings :: "p_cnct \<Rightarrow> cstring list" where
  "p_cnct_cstrings p = [p_cnct_file p, p_cnct_user_id p]"

definition p_resp_cstrings :: "p_resp \<Rightarrow> cstring list" where
  "p_resp_cstrings p = [p_resp_data p]"

definition p_info_cstrings :: "bool \<Rightarrow> p_info \<Rightarrow> cstring list" where
  "p_info_cstrings op_service p = p_info_items p # (if op_service then [p_info_recv_items p] else [])"

lemmas cstrings_defs = p_atch_cstrings_def p_cmpl_cstrings_def p_sttr_cstrings_def p_sgmt_cstrings_def p_prep_cstrings_def p_ddl_cstrings_def p_sqlcur_cstrings_def p_sqlst_cstrings_def p_event_cstrings_def p_cnct_cstrings_def p_resp_cstrings_def p_info_cstrings_def

context xdr_stream
begin

section \<open>The routines of the subpackets\<close>

lemmas carries_maps =
  carries_map [OF carries_short] carries_map [OF carries_u_short] carries_map [OF carries_long]
  carries_map [OF carries_enum] carries_map [OF carries_cstring] carries_map [OF carries_quad]

lemmas safe_maps =
  safe_map [OF safe_numbers(1)] safe_map [OF safe_numbers(2)] safe_map [OF safe_numbers(3)]
  safe_map [OF safe_numbers(4)] safe_map [OF safe_cstring] safe_map [OF safe_quad]

lemma carries_p_acpt:
  "carries trash (\<lambda>_. ()) xdr_p_acpt p_acpt_fields (\<lambda>_. True)
     (\<lambda>_. True)"
  unfolding xdr_p_acpt_def
  by (rule carries_cong, (rule carries_all(2), (rule carries_maps; simp add: cstrings_defs))+, rule carries_all(1))
    (simp add: p_acpt_fields_def)

lemma safe_p_acpt: "safe xdr_p_acpt (\<lambda>_. True)"
  unfolding xdr_p_acpt_def by (intro safe_all safe_maps) (simp_all add: cstrings_defs)

lemma carries_p_req:
  "carries trash (\<lambda>_. ()) xdr_p_req p_req_fields (\<lambda>_. True)
     (\<lambda>_. True)"
  unfolding xdr_p_req_def
  by (rule carries_cong, (rule carries_all(2), (rule carries_maps; simp add: cstrings_defs))+, rule carries_all(1))
    (simp add: p_req_fields_def)

lemma safe_p_req: "safe xdr_p_req (\<lambda>_. True)"
  unfolding xdr_p_req_def by (intro safe_all safe_maps) (simp_all add: cstrings_defs)

lemma carries_p_atch:
  "carries trash (\<lambda>_. ()) xdr_p_atch p_atch_fields (\<lambda>p. list_all cstring_ok (p_atch_cstrings p))
     (\<lambda>p. list_all cstring_ready (p_atch_cstrings p))"
  unfolding xdr_p_atch_def
  by (rule carries_cong, (rule carries_all(2), (rule carries_maps; simp add: cstrings_defs))+, rule carries_all(1))
    (simp add: p_atch_fields_def)

lemma safe_p_atch: "safe xdr_p_atch (\<lambda>p. list_all cstring_ready (p_atch_cstrings p))"
  unfolding xdr_p_atch_def by (intro safe_all safe_maps) (simp_all add: cstrings_defs)

lemma carries_p_cmpl:
  "carries trash (\<lambda>_. ()) xdr_p_cmpl p_cmpl_fields (\<lambda>p. list_all cstring_ok (p_cmpl_cstrings p))
     (\<lambda>p. list_all cstring_ready (p_cmpl_cstrings p))"
  unfolding xdr_p_cmpl_def
  by (rule carries_cong, (rule carries_all(2), (rule carries_maps; simp add: cstrings_defs))+, rule carries_all(1))
    (simp add: p_cmpl_fields_def)

lemma safe_p_cmpl: "safe xdr_p_cmpl (\<lambda>p. list_all cstring_ready (p_cmpl_cstrings p))"
  unfolding xdr_p_cmpl_def by (intro safe_all safe_maps) (simp_all add: cstrings_defs)

lemma carries_p_sttr:
  "carries trash (\<lambda>_. ()) xdr_p_sttr p_sttr_fields (\<lambda>p. list_all cstring_ok (p_sttr_cstrings p))
     (\<lambda>p. list_all cstring_ready (p_sttr_cstrings p))"
  unfolding xdr_p_sttr_def
  by (rule carries_cong, (rule carries_all(2), (rule carries_maps; simp add: cstrings_defs))+, rule carries_all(1))
    (simp add: p_sttr_fields_def)

lemma safe_p_sttr: "safe xdr_p_sttr (\<lambda>p. list_all cstring_ready (p_sttr_cstrings p))"
  unfolding xdr_p_sttr_def by (intro safe_all safe_maps) (simp_all add: cstrings_defs)

lemma carries_p_rlse:
  "carries trash (\<lambda>_. ()) xdr_p_rlse p_rlse_fields (\<lambda>_. True)
     (\<lambda>_. True)"
  unfolding xdr_p_rlse_def
  by (rule carries_cong, (rule carries_all(2), (rule carries_maps; simp add: cstrings_defs))+, rule carries_all(1))
    (simp add: p_rlse_fields_def)

lemma safe_p_rlse: "safe xdr_p_rlse (\<lambda>_. True)"
  unfolding xdr_p_rlse_def by (intro safe_all safe_maps) (simp_all add: cstrings_defs)

lemma carries_p_data:
  "carries trash (\<lambda>_. ()) xdr_p_data p_data_fields (\<lambda>_. True)
     (\<lambda>_. True)"
  unfolding xdr_p_data_def
  by (rule carries_cong, (rule carries_all(2), (rule carries_maps; simp add: cstrings_defs))+, rule carries_all(1))
    (simp add: p_data_fields_def)

lemma safe_p_data: "safe xdr_p_data (\<lambda>_. True)"
  unfolding xdr_p_data_def by (intro safe_all safe_maps) (simp_all add: cstrings_defs)

lemma carries_p_sgmt:
  "carries trash (\<lambda>_. ()) xdr_p_sgmt p_sgmt_fields (\<lambda>p. list_all cstring_ok (p_sgmt_cstrings p))
     (\<lambda>p. list_all cstring_ready (p_sgmt_cstrings p))"
  unfolding xdr_p_sgmt_def
  by (rule carries_cong, (rule carries_all(2), (rule carries_maps; simp add: cstrings_defs))+, rule carries_all(1))
    (simp add: p_sgmt_fields_def)

lemma safe_p_sgmt: "safe xdr_p_sgmt (\<lambda>p. list_all cstring_ready (p_sgmt_cstrings p))"
  unfolding xdr_p_sgmt_def by (intro safe_all safe_maps) (simp_all add: cstrings_defs)

lemma carries_p_seek:
  "carries trash (\<lambda>_. ()) xdr_p_seek p_seek_fields (\<lambda>_. True)
     (\<lambda>_. True)"
  unfolding xdr_p_seek_def
  by (rule carries_cong, (rule carries_all(2), (rule carries_maps; simp add: cstrings_defs))+, rule carries_all(1))
    (simp add: p_seek_fields_def)

lemma safe_p_seek: "safe xdr_p_seek (\<lambda>_. True)"
  unfolding xdr_p_seek_def by (intro safe_all safe_maps) (simp_all add: cstrings_defs)

lemma carries_p_prep:
  "carries trash (\<lambda>_. ()) xdr_p_prep p_prep_fields (\<lambda>p. list_all cstring_ok (p_prep_cstrings p))
     (\<lambda>p. list_all cstring_ready (p_prep_cstrings p))"
  unfolding xdr_p_prep_def
  by (rule carries_cong, (rule carries_all(2), (rule carries_maps; simp add: cstrings_defs))+, rule carries_all(1))
    (simp add: p_prep_fields_def)

lemma safe_p_prep: "safe xdr_p_prep (\<lambda>p. list_all cstring_ready (p_prep_cstrings p))"
  unfolding xdr_p_prep_def by (intro safe_all safe_maps) (simp_all add: cstrings_defs)

lemma carries_p_ddl:
  "carries trash (\<lambda>_. ()) xdr_p_ddl p_ddl_fields (\<lambda>p. list_all cstring_ok (p_ddl_cstrings p))
     (\<lambda>p. list_all cstring_ready (p_ddl_cstrings p))"
  unfolding xdr_p_ddl_def
  by (rule carries_cong, (rule carries_all(2), (rule carries_maps; simp add: cstrings_defs))+, rule carries_all(1))
    (simp add: p_ddl_fields_def)

lemma safe_p_ddl: "safe xdr_p_ddl (\<lambda>p. list_all cstring_ready (p_ddl_cstrings p))"
  unfolding xdr_p_ddl_def by (intro safe_all safe_maps) (simp_all add: cstrings_defs)

lemma carries_p_sqlfree:
  "carries trash (\<lambda>_. ()) xdr_p_sqlfree p_sqlfree_fields (\<lambda>_. True)
     (\<lambda>_. True)"
  unfolding xdr_p_sqlfree_def
  by (rule carries_cong, (rule carries_all(2), (rule carries_maps; simp add: cstrings_defs))+, rule carries_all(1))
    (simp add: p_sqlfree_fields_def)

lemma safe_p_sqlfree: "safe xdr_p_sqlfree (\<lambda>_. True)"
  unfolding xdr_p_sqlfree_def by (intro safe_all safe_maps) (simp_all add: cstrings_defs)

lemma carries_p_sqlcur:
  "carries trash (\<lambda>_. ()) xdr_p_sqlcur p_sqlcur_fields (\<lambda>p. list_all cstring_ok (p_sqlcur_cstrings p))
     (\<lambda>p. list_all cstring_ready (p_sqlcur_cstrings p))"
  unfolding xdr_p_sqlcur_def
  by (rule carries_cong, (rule carries_all(2), (rule carries_maps; simp add: cstrings_defs))+, rule carries_all(1))
    (simp add: p_sqlcur_fields_def)

lemma safe_p_sqlcur: "safe xdr_p_sqlcur (\<lambda>p. list_all cstring_ready (p_sqlcur_cstrings p))"
  unfolding xdr_p_sqlcur_def by (intro safe_all safe_maps) (simp_all add: cstrings_defs)

lemma carries_p_sqlst:
  "carries trash (\<lambda>_. ()) xdr_p_sqlst p_sqlst_fields (\<lambda>p. list_all cstring_ok (p_sqlst_cstrings p))
     (\<lambda>p. list_all cstring_ready (p_sqlst_cstrings p))"
  unfolding xdr_p_sqlst_def
  by (rule carries_cong, (rule carries_all(2), (rule carries_maps; simp add: cstrings_defs))+, rule carries_all(1))
    (simp add: p_sqlst_fields_def)

lemma safe_p_sqlst: "safe xdr_p_sqlst (\<lambda>p. list_all cstring_ready (p_sqlst_cstrings p))"
  unfolding xdr_p_sqlst_def by (intro safe_all safe_maps) (simp_all add: cstrings_defs)

lemma carries_p_blob:
  "carries trash (\<lambda>_. ()) xdr_p_blob p_blob_fields (\<lambda>_. True)
     (\<lambda>p. cstring_ready (p_blob_bpb p))"
  unfolding xdr_p_blob_def
  by (rule carries_cong, (rule carries_all(2), (rule carries_maps; simp add: cstrings_defs))+, rule carries_all(1))
    (simp add: p_blob_fields_def)

lemma safe_p_blob: "safe xdr_p_blob (\<lambda>p. cstring_ready (p_blob_bpb p))"
  unfolding xdr_p_blob_def by (intro safe_all safe_maps) (simp_all add: cstrings_defs)

lemma carries_p_info_start:
  "carries trash (\<lambda>_. ()) xdr_p_info_start p_info_start_fields (\<lambda>p. list_all cstring_ok (p_info_cstrings False p))
     (\<lambda>p. list_all cstring_ready (p_info_cstrings True p))"
  unfolding xdr_p_info_start_def
  by (rule carries_cong, (rule carries_all(2), (rule carries_maps; simp add: cstrings_defs))+, rule carries_all(1))
    (simp add: p_info_start_fields_def)

lemma safe_p_info_start: "safe xdr_p_info_start (\<lambda>p. list_all cstring_ready (p_info_cstrings True p))"
  unfolding xdr_p_info_start_def by (intro safe_all safe_maps) (simp_all add: cstrings_defs)

lemma carries_p_event:
  "carries trash (\<lambda>_. ()) xdr_p_event p_event_fields (\<lambda>p. list_all cstring_ok (p_event_cstrings p))
     (\<lambda>p. list_all cstring_ready (p_event_cstrings p))"
  unfolding xdr_p_event_def
  by (rule carries_cong, (rule carries_all(2), (rule carries_maps; simp add: cstrings_defs))+, rule carries_all(1))
    (simp add: p_event_fields_def)

lemma safe_p_event: "safe xdr_p_event (\<lambda>p. list_all cstring_ready (p_event_cstrings p))"
  unfolding xdr_p_event_def by (intro safe_all safe_maps) (simp_all add: cstrings_defs)

lemma carries_p_event_cancel:
  "carries trash (\<lambda>_. ()) xdr_p_event_cancel p_event_cancel_fields (\<lambda>_. True)
     (\<lambda>p. list_all cstring_ready (p_event_cstrings p))"
  unfolding xdr_p_event_cancel_def
  by (rule carries_cong, (rule carries_all(2), (rule carries_maps; simp add: cstrings_defs))+, rule carries_all(1))
    (simp add: p_event_cancel_fields_def)

lemma safe_p_event_cancel: "safe xdr_p_event_cancel (\<lambda>p. list_all cstring_ready (p_event_cstrings p))"
  unfolding xdr_p_event_cancel_def by (intro safe_all safe_maps) (simp_all add: cstrings_defs)

lemma carries_p_cnct_repeat:
  "carries trash (\<lambda>_. ()) xdr_p_cnct_repeat p_cnct_repeat_fields (\<lambda>_. True)
     (\<lambda>_. True)"
  unfolding xdr_p_cnct_repeat_def
  by (rule carries_cong, (rule carries_all(2), (rule carries_maps; simp add: cstrings_defs))+, rule carries_all(1))
    (simp add: p_cnct_repeat_fields_def)

lemma safe_p_cnct_repeat: "safe xdr_p_cnct_repeat (\<lambda>_. True)"
  unfolding xdr_p_cnct_repeat_def by (intro safe_all safe_maps) (simp_all add: cstrings_defs)

end

section \<open>Routines with branches and loops\<close>

definition status_room :: "status_slot list \<times> u8 list option list \<Rightarrow> bool" where
  "status_room v \<longleftrightarrow> length (fst v) = 20 \<and> length (snd v) = 10"

definition status_fits :: "status_slot list \<Rightarrow> bool" where
  "status_fits vector \<longleftrightarrow> status_ok vector \<and> status_slots vector \<le> 20 \<and> status_strings vector \<le> 10"

definition p_resp_ok :: "p_resp \<Rightarrow> bool" where
  "p_resp_ok r \<longleftrightarrow> list_all cstring_ok (p_resp_cstrings r) \<and> status_fits (p_resp_status_vector r)"

definition p_resp_ready :: "p_resp \<Rightarrow> bool" where
  "p_resp_ready r \<longleftrightarrow>
     list_all cstring_ready (p_resp_cstrings r) \<and> status_room (p_resp_status_vector r, p_resp_strings r)"

definition p_cnct_ok :: "p_cnct \<Rightarrow> bool" where
  "p_cnct_ok p \<longleftrightarrow> list_all cstring_ok (p_cnct_cstrings p) \<and> unat (p_cnct_count p) \<le> CNCT_VERSIONS \<and>
     length (p_cnct_versions p) = CNCT_VERSIONS"

definition p_cnct_ready :: "p_cnct \<Rightarrow> bool" where
  "p_cnct_ready p \<longleftrightarrow> list_all cstring_ready (p_cnct_cstrings p) \<and> length (p_cnct_versions p) = CNCT_VERSIONS"

context xdr_stream
begin

lemma carries_p_blob2:
  "carries trash (\<lambda>_. ()) xdr_p_blob2 p_blob2_fields (\<lambda>p. cstring_ok (p_blob_bpb p)) (\<lambda>p. cstring_ready (p_blob_bpb p))"
  unfolding xdr_p_blob2_def xdr_p_blob_def
  by (rule carries_cong, rule carries_seq, (rule carries_maps; simp),
      (rule carries_all(2), (rule carries_maps; simp))+, rule carries_all(1))
    (simp add: p_blob2_fields_def p_blob_fields_def)

lemma safe_p_blob2: "safe xdr_p_blob2 (\<lambda>p. cstring_ready (p_blob_bpb p))"
  unfolding xdr_p_blob2_def by (intro safe_seq safe_p_blob safe_maps) simp_all

lemma carries_p_info:
  "carries trash (\<lambda>_. ()) (xdr_p_info service) (p_info_fields service) (\<lambda>p. list_all cstring_ok (p_info_cstrings service p))
     (\<lambda>p. list_all cstring_ready (p_info_cstrings True p))"
proof (cases service)
  case True
  have service: "service = True" using True by simp
  show ?thesis
    unfolding xdr_p_info_def service if_True
    by (rule carries_cong, (rule carries_all(2), (rule carries_maps; simp add: cstrings_defs))+, rule carries_all(1))
      (simp add: p_info_fields_def)
next
  case False
  have service: "service = False" using False by simp
  show ?thesis
    unfolding xdr_p_info_def service if_False
    by (rule carries_cong,
        (rule carries_all(2), (rule carries_skip | (rule carries_maps; simp add: cstrings_defs)))+, rule carries_all(1))
      (simp add: p_info_fields_def)
qed

lemma safe_p_info: "safe (xdr_p_info service) (\<lambda>p. list_all cstring_ready (p_info_cstrings True p))"
  unfolding xdr_p_info_def
  by (cases service; simp; intro safe_all safe_maps safe_skip) (simp_all add: cstrings_defs)

lemma carries_status_vector:
  assumes "length trash = 4"
  shows "carries trash (\<lambda>_. ()) (xdr_status_vector trash) (\<lambda>v. status_fields (fst v)) (\<lambda>v. status_fits (fst v)) status_room"
  unfolding carries_def
proof (intro conjI)
  show "encodes trash (xdr_status_vector trash) (\<lambda>v. status_fields (fst v)) (\<lambda>v. status_fits (fst v))"
  proof (rule encodesI)
    fix s and v :: "status_slot list \<times> u8 list option list" assume s: "wf s" and ok: "status_fits (fst v)"
    have "status_ok (fst v)" using ok by (simp add: status_fits_def)
    from status_encodes [OF this s assms]
    show "\<exists>b s'. xdr_status_vector trash ops XDR_ENCODE s v = Some (b, s', v) \<and>
        puts s (wire trash (status_fields (fst v))) s' b"
      by (cases v) (auto simp: xdr_status_vector_def)
  qed
  show "decodes trash (\<lambda>_. ()) (xdr_status_vector trash) (\<lambda>v. status_fields (fst v)) (\<lambda>v. status_fits (fst v)) status_room"
    unfolding decodes_def
  proof (intro allI impI)
    fix s t and v u :: "status_slot list \<times> u8 list option list"
    assume s: "wf s" and ok: "status_fits (fst v)" and u: "status_room u"
      and r: "rest s = wire trash (status_fields (fst v)) @ t"
    have "status_ok (fst v)" "0 + status_slots (fst v) \<le> length (fst u)" "0 + status_strings (fst v) \<le> length (snd u)"
      using ok u by (simp_all add: status_fits_def status_room_def)
    from status_decodes [OF this(1) s assms r this(2,3)] obtain s' vector' strings' where
      "wf s'" "status_decode trash ops s (fst u) 0 (snd u) 0 = Some (True, s', vector', strings')" "rest s' = t"
      "length vector' = length (fst u)" "length strings' = length (snd u)"
      "status_fields (drop 0 vector') = status_fields (fst v)"
      by blast
    then show "\<exists>s' u'. wf s' \<and> xdr_status_vector trash ops XDR_DECODE s u = Some (True, s', u') \<and> rest s' = t \<and>
        status_room u' \<and> () = () \<and> status_fields (fst u') = status_fields (fst v)"
      using u by (intro exI [of _ s'] exI [of _ "(vector', strings')"])
        (simp add: xdr_status_vector_def status_room_def case_prod_beta)
  qed
qed

lemma carries_p_resp:
  assumes "length trash = 4"
  shows "carries trash (\<lambda>_. ()) (xdr_p_resp trash) p_resp_fields p_resp_ok p_resp_ready"
  unfolding xdr_p_resp_def
  by (rule carries_cong,
      (rule carries_all(2), (rule carries_maps carries_map [OF carries_status_vector [OF assms]];
        simp add: p_resp_ok_def p_resp_ready_def status_room_def cstrings_defs case_prod_beta))+, rule carries_all(1))
    (simp add: p_resp_fields_def)

lemma carries_key:
  "carries trash E r F ok ready \<Longrightarrow> (\<And>u v. E u = E v \<longleftrightarrow> K u = K v) \<Longrightarrow> carries trash K r F ok ready"
  unfolding carries_def decodes_def by simp

lemma carries_cong_ready:
  assumes "\<And>v. ok v \<or> ready v \<Longrightarrow> F v = G v" "carries trash E r F ok ready"
  shows "carries trash E r G ok ready"
  unfolding carries_def
proof (intro conjI)
  show "encodes trash r G ok"
    unfolding encodes_def
  proof (intro allI impI)
    fix s v assume "wf s" and v: "ok v"
    moreover have "F v = G v" using assms(1) v by blast
    ultimately show "\<exists>s'. wf s' \<and> r ops XDR_ENCODE s v = Some (length (wire trash (G v)) \<le> length (rest s), s', v) \<and>
        (length (wire trash (G v)) \<le> length (rest s) \<longrightarrow>
          passed s' = passed s @ wire trash (G v) \<and> rest s' = drop (length (wire trash (G v))) (rest s)) \<and>
        length (rest s') \<le> length (rest s)"
      using assms(2) unfolding carries_def encodes_def by fastforce
  qed
  show "decodes trash E r G ok ready"
    unfolding decodes_def
  proof (intro allI impI)
    fix s v u t assume v: "wf s" "ok v" "ready u" "E u = E v" "rest s = wire trash (G v) @ t"
    have F: "F v = G v" using assms(1) v(2) by blast
    then obtain s' u' where "wf s'" "r ops XDR_DECODE s u = Some (True, s', u')" "rest s' = t" "ready u'" "E u' = E v" "F u' = F v"
      using assms(2) v unfolding carries_def decodes_def by metis
    moreover from this have "F u' = G u'" using assms(1) by blast
    ultimately show "\<exists>s' u'. wf s' \<and> r ops XDR_DECODE s u = Some (True, s', u') \<and> rest s' = t \<and> ready u' \<and>
        E u' = E v \<and> G u' = G v"
      using F by (intro exI [of _ s'] exI [of _ u']) simp
  qed
qed

lemma carries_versions_from:
  fixes f :: "p_cnct \<Rightarrow> nat \<Rightarrow> field list"
  defines "f \<equiv> \<lambda>p i. p_cnct_repeat_fields (p_cnct_versions p ! i)"
  assumes n: "n \<le> CNCT_VERSIONS" and E: "\<And>i p w. E (p_cnct_versions_update (\<lambda>vs. vs[i := w]) p) = E p"
  shows "carries trash (\<lambda>p. (E p, map (f p) [0..<m])) (xdr_all (map (xdr_version dummy) [m..<n]))
     (\<lambda>p. concat (map (f p) [m..<n])) p_cnct_ok p_cnct_ready"
proof (induction "n - m" arbitrary: m)
  case 0
  then show ?case using carries_all(1) [of trash _ p_cnct_ok p_cnct_ready] by simp
next
  case (Suc d)
  then have m: "m < n" "[m..<n] = m # [m + 1..<n]" by (simp_all add: upt_conv_Cons)
  have 1: "carries trash (\<lambda>p. (E p, map (f p) [0..<m])) (xdr_version dummy m) (\<lambda>p. f p m) p_cnct_ok p_cnct_ready"
    unfolding xdr_version_def f_def using m n E
    by (simp, intro carries_map [OF carries_p_cnct_repeat]) (simp_all add: p_cnct_ready_def cstrings_defs)
  have "d = n - (m + 1)" using Suc.hyps(2) by simp
  from carries_key [OF Suc.hyps(1) [OF this], of "\<lambda>p. ((E p, map (f p) [0..<m]), f p m)"]
  have "carries trash (\<lambda>p. ((E p, map (f p) [0..<m]), f p m)) (xdr_all (map (xdr_version dummy) [m + 1..<n]))
      (\<lambda>p. concat (map (f p) [m + 1..<n])) p_cnct_ok p_cnct_ready"
    by auto
  from carries_all(2) [OF 1 this] show ?case using m by simp
qed

lemma carries_versions:
  assumes E: "\<And>i p w. E (p_cnct_versions_update (\<lambda>vs. vs[i := w]) p) = E p"
    and n: "\<And>p. ok p \<Longrightarrow> p_cnct_ok p \<and> p_cnct_count p = n"
  shows "carries trash E (xdr_versions dummy n) (\<lambda>p. concat (map p_cnct_repeat_fields (take (unat n) (p_cnct_versions p)))) ok p_cnct_ready"
proof (cases "unat n \<le> CNCT_VERSIONS")
  case True
  have "carries trash E (xdr_versions dummy n) (\<lambda>p. concat (map (\<lambda>i. p_cnct_repeat_fields (p_cnct_versions p ! i)) [0..<unat n]))
      p_cnct_ok p_cnct_ready"
    unfolding xdr_versions_def
    by (rule carries_key [OF carries_versions_from [OF True E, of _ 0]]) simp
  from carries_weaken [OF this, of ok]
  have "carries trash E (xdr_versions dummy n) (\<lambda>p. concat (map (\<lambda>i. p_cnct_repeat_fields (p_cnct_versions p ! i)) [0..<unat n]))
      ok p_cnct_ready"
    using assms(2) by blast
  moreover have "map (\<lambda>i. p_cnct_repeat_fields (p_cnct_versions p ! i)) [0..<unat n] =
      map p_cnct_repeat_fields (take (unat n) (p_cnct_versions p))" if "ok p \<or> p_cnct_ready p" for p
    using that n [of p] True by (auto simp: p_cnct_ok_def p_cnct_ready_def intro!: nth_equalityI)
  ultimately show ?thesis by (auto intro: carries_cong_ready [rotated])
next
  case False
  then have "\<not> ok p" for p using n [of p] by (auto simp: p_cnct_ok_def)
  then show ?thesis by (simp add: carries_def encodes_def decodes_def)
qed

lemma carries_p_cnct: "carries trash (\<lambda>_. ()) (xdr_p_cnct dummy) p_cnct_fields p_cnct_ok p_cnct_ready"
  unfolding xdr_p_cnct_def
  by (rule carries_cong,
      (rule carries_all(2), (rule carries_maps; simp add: p_cnct_ok_def p_cnct_ready_def cstrings_defs))+,
      rule carries_all(2), rule carries_dep [of _ p_cnct_count], simp, rule carries_versions, simp, simp, rule carries_all(1))
    (simp add: p_cnct_fields_def)

lemma safe_versions: "safe (xdr_versions dummy n) p_cnct_ready"
proof -
  have v: "safe (xdr_version dummy i) p_cnct_ready" for i
    unfolding xdr_version_def by (simp, intro conjI impI; rule safe_map [OF safe_p_cnct_repeat])
      (simp_all add: p_cnct_ready_def cstrings_defs)
  have "safe (xdr_all (map (xdr_version dummy) is)) p_cnct_ready" for "is"
    by (induction "is") (auto intro: safe_all v)
  then show ?thesis by (simp add: xdr_versions_def)
qed

lemma safe_p_cnct: "safe (xdr_p_cnct dummy) p_cnct_ready"
  unfolding xdr_p_cnct_def
  by (intro safe_all safe_maps safe_dep [of "xdr_versions dummy" p_cnct_ready p_cnct_count] safe_versions)
    (simp_all add: p_cnct_ready_def cstrings_defs)

end

section \<open>Packets\<close>

text \<open>What an operation carries, and when the packet is fit for it; \<open>None\<close> for an operation of the default case.\<close>

definition packet_view :: "u32 \<Rightarrow> ((packet \<Rightarrow> field list) \<times> (packet \<Rightarrow> bool)) option" where
  "packet_view op =
     (if op \<in> {op_reject, op_disconnect, op_dummy}
      then Some (\<lambda>_. [], \<lambda>_. True)
      else if op = op_connect
      then Some (\<lambda>p. p_cnct_fields (pk_cnct p), \<lambda>p. p_cnct_ok (pk_cnct p))
      else if op = op_accept
      then Some (\<lambda>p. p_acpt_fields (pk_acpt p), \<lambda>_. True)
      else if op \<in> {op_connect_request, op_aux_connect}
      then Some (\<lambda>p. p_req_fields (pk_req p), \<lambda>_. True)
      else if op \<in> {op_attach, op_create, op_service_attach}
      then Some (\<lambda>p. p_atch_fields (pk_atch p), \<lambda>p. list_all cstring_ok (p_atch_cstrings (pk_atch p)))
      else if op = op_compile
      then Some (\<lambda>p. p_cmpl_fields (pk_cmpl p), \<lambda>p. list_all cstring_ok (p_cmpl_cstrings (pk_cmpl p)))
      else if op \<in> {op_receive, op_start, op_start_and_receive}
      then Some (\<lambda>p. p_data_fields (pk_data p), \<lambda>_. True)
      else if op \<in> {op_response, op_response_piggyback}
      then Some (\<lambda>p. p_resp_fields (pk_resp p), \<lambda>p. p_resp_ok (pk_resp p))
      else if op \<in> {op_open_blob2, op_create_blob2}
      then Some (\<lambda>p. p_blob2_fields (pk_blob p), \<lambda>p. cstring_ok (p_blob_bpb (pk_blob p)))
      else if op \<in> {op_open_blob, op_create_blob}
      then Some (\<lambda>p. p_blob_fields (pk_blob p), \<lambda>_. True)
      else if op \<in> {op_get_segment, op_put_segment, op_batch_segments}
      then Some (\<lambda>p. p_sgmt_fields (pk_sgmt p), \<lambda>p. list_all cstring_ok (p_sgmt_cstrings (pk_sgmt p)))
      else if op = op_seek_blob
      then Some (\<lambda>p. p_seek_fields (pk_seek p), \<lambda>_. True)
      else if op \<in> {op_reconnect, op_transaction}
      then Some (\<lambda>p. p_sttr_fields (pk_sttr p), \<lambda>p. list_all cstring_ok (p_sttr_cstrings (pk_sttr p)))
      else if op \<in> {op_info_blob, op_info_database, op_info_request, op_info_transaction,
        op_service_info, op_info_sql}
      then Some (\<lambda>p. p_info_fields (op = op_service_info) (pk_info p), \<lambda>p. list_all cstring_ok (p_info_cstrings (op = op_service_info) (pk_info p)))
      else if op = op_service_start
      then Some (\<lambda>p. p_info_start_fields (pk_info p), \<lambda>p. list_all cstring_ok (p_info_cstrings False (pk_info p)))
      else if op \<in> {op_commit, op_prepare, op_rollback, op_unwind, op_release, op_close_blob,
        op_cancel_blob, op_detach, op_drop_database, op_service_detach, op_commit_retaining,
        op_rollback_retaining, op_allocate_statement}
      then Some (\<lambda>p. p_rlse_fields (pk_rlse p), \<lambda>_. True)
      else if op = op_prepare2
      then Some (\<lambda>p. p_prep_fields (pk_prep p), \<lambda>p. list_all cstring_ok (p_prep_cstrings (pk_prep p)))
      else if op \<in> {op_que_events, op_event}
      then Some (\<lambda>p. p_event_fields (pk_event p), \<lambda>p. list_all cstring_ok (p_event_cstrings (pk_event p)))
      else if op = op_cancel_events
      then Some (\<lambda>p. p_event_cancel_fields (pk_event p), \<lambda>_. True)
      else if op = op_ddl
      then Some (\<lambda>p. p_ddl_fields (pk_ddl p), \<lambda>p. list_all cstring_ok (p_ddl_cstrings (pk_ddl p)))
      else if op \<in> {op_exec_immediate, op_prepare_statement}
      then Some (\<lambda>p. p_sqlst_fields (pk_sqlst p), \<lambda>p. list_all cstring_ok (p_sqlst_cstrings (pk_sqlst p)))
      else if op = op_free_statement
      then Some (\<lambda>p. p_sqlfree_fields (pk_sqlfree p), \<lambda>_. True)
      else if op = op_set_cursor
      then Some (\<lambda>p. p_sqlcur_fields (pk_sqlcur p), \<lambda>p. list_all cstring_ok (p_sqlcur_cstrings (pk_sqlcur p)))
      else None)"

definition packet_fields :: "packet \<Rightarrow> field list" where
  "packet_fields p =
     Long (p_operation p) # (case packet_view (p_operation p) of None \<Rightarrow> [] | Some (F, _) \<Rightarrow> F p)"

definition packet_ok :: "packet \<Rightarrow> bool" where
  "packet_ok p \<longleftrightarrow> \<not> carries_message (p_operation p) \<and>
     (case packet_view (p_operation p) of None \<Rightarrow> False | Some (_, ok) \<Rightarrow> ok p)"

text \<open>Any subpacket may be received.\<close>

definition packet_ready :: "packet \<Rightarrow> bool" where
  "packet_ready p \<longleftrightarrow> p_cnct_ready (pk_cnct p) \<and> p_resp_ready (pk_resp p) \<and> cstring_ready (p_blob_bpb (pk_blob p)) \<and>
     list_all cstring_ready (p_atch_cstrings (pk_atch p)) \<and> list_all cstring_ready (p_cmpl_cstrings (pk_cmpl p)) \<and>
     list_all cstring_ready (p_sttr_cstrings (pk_sttr p)) \<and> list_all cstring_ready (p_sgmt_cstrings (pk_sgmt p)) \<and>
     list_all cstring_ready (p_info_cstrings True (pk_info p)) \<and> list_all cstring_ready (p_event_cstrings (pk_event p)) \<and>
     list_all cstring_ready (p_prep_cstrings (pk_prep p)) \<and> list_all cstring_ready (p_ddl_cstrings (pk_ddl p)) \<and>
     list_all cstring_ready (p_sqlst_cstrings (pk_sqlst p)) \<and> list_all cstring_ready (p_sqlcur_cstrings (pk_sqlcur p))"

context xdr_stream
begin

definition agree ::
  "u8 list \<Rightarrow> u32 \<Rightarrow> ('s, packet) routine option \<Rightarrow> ((packet \<Rightarrow> field list) \<times> (packet \<Rightarrow> bool)) option \<Rightarrow> bool" where
  "agree trash n body view \<longleftrightarrow>
     (case (body, view) of
        (Some r, Some (F, ok)) \<Rightarrow> carries trash p_operation r F ok packet_ready
      | (None, None) \<Rightarrow> True
      | _ \<Rightarrow> False)"

lemma agree_if:
  "carries trash p_operation r F ok packet_ready \<Longrightarrow> agree trash n body view \<Longrightarrow>
   agree trash n (if c then Some r else body) (if c then Some (F, ok) else view)"
  by (simp add: agree_def)

lemma agree_None: "agree trash n None None"
  by (simp add: agree_def)

lemmas carries_subpackets =
  carries_map [OF carries_p_cnct] carries_map [OF carries_p_acpt] carries_map [OF carries_p_req]
  carries_map [OF carries_p_atch] carries_map [OF carries_p_cmpl] carries_map [OF carries_p_data]
  carries_map [OF carries_p_blob2] carries_map [OF carries_p_blob]
  carries_map [OF carries_p_sgmt] carries_map [OF carries_p_seek] carries_map [OF carries_p_sttr]
  carries_map [OF carries_p_info] carries_map [OF carries_p_info_start] carries_map [OF carries_p_rlse]
  carries_map [OF carries_p_prep] carries_map [OF carries_p_event] carries_map [OF carries_p_event_cancel]
  carries_map [OF carries_p_ddl] carries_map [OF carries_p_sqlst] carries_map [OF carries_p_sqlfree]
  carries_map [OF carries_p_sqlcur]

lemma agree_packet:
  assumes "length trash = 4"
  shows "agree trash n (packet_body trash dummy n) (packet_view n)"
  unfolding packet_body_def packet_view_def
  by ((rule agree_if, (rule carries_skip | (rule carries_subpackets carries_map [OF carries_p_resp [OF assms]];
      simp add: packet_ready_def)))+, rule agree_None)

lemmas safe_subpackets =
  safe_map [OF safe_p_cnct] safe_map [OF safe_p_acpt] safe_map [OF safe_p_req]
  safe_map [OF safe_p_atch] safe_map [OF safe_p_cmpl] safe_map [OF safe_p_data]
  safe_map [OF safe_p_blob2] safe_map [OF safe_p_blob]
  safe_map [OF safe_p_sgmt] safe_map [OF safe_p_seek] safe_map [OF safe_p_sttr]
  safe_map [OF safe_p_info] safe_map [OF safe_p_info_start] safe_map [OF safe_p_rlse]
  safe_map [OF safe_p_prep] safe_map [OF safe_p_event] safe_map [OF safe_p_event_cancel]
  safe_map [OF safe_p_ddl] safe_map [OF safe_p_sqlst] safe_map [OF safe_p_sqlfree]
  safe_map [OF safe_p_sqlcur]

definition safe_body :: "('s, packet) routine option \<Rightarrow> bool" where
  "safe_body body \<longleftrightarrow> (case body of None \<Rightarrow> True | Some r \<Rightarrow> safe r packet_ready)"

lemma safe_body_if: "(c \<Longrightarrow> safe r packet_ready) \<Longrightarrow> safe_body body \<Longrightarrow> safe_body (if c then Some r else body)"
  by (simp add: safe_body_def)

lemma safe_packet_body:
  assumes "n \<notin> {op_response, op_response_piggyback}"
  shows "safe_body (packet_body trash dummy n)"
  unfolding packet_body_def
  by ((rule safe_body_if, (rule safe_skip | (rule safe_subpackets; simp add: packet_ready_def) |
      (use assms in blast)))+) (simp add: safe_body_def)

end

text \<open>The operations whose decoder stays in memory whatever it is sent.\<close>

definition plain_operation :: "u32 \<Rightarrow> bool" where
  "plain_operation n \<longleftrightarrow> \<not> carries_message n \<and> n \<notin> {op_response, op_response_piggyback}"

section \<open>The routine of packets\<close>

definition xdr_body :: "u8 list \<Rightarrow> p_cnct_repeat \<Rightarrow> u32 \<Rightarrow> ('s, packet) routine" where
  "xdr_body trash dummy n ops op s p =
     (if carries_message n then None
      else case packet_body trash dummy n of None \<Rightarrow> Some (False, s, p) | Some body \<Rightarrow> body ops op s p)"

lemma xdr_protocol_seq:
  "xdr_protocol trash dummy =
     xdr_seq (xdr_map xdr_enum p_operation p_operation_update)
       (\<lambda>ops op s p. xdr_body trash dummy (p_operation p) ops op s p)"
  by (intro ext) (auto simp: xdr_protocol_def xdr_seq_def xdr_body_def intro!: arg_cong [of _ _ "Option.bind _"] ext)

context xdr_stream
begin

lemma carries_vacuous: "(\<And>v. \<not> ok v) \<Longrightarrow> carries trash E r F ok ready"
  by (simp add: carries_def encodes_def decodes_def)

lemma carries_body:
  assumes "length trash = 4"
  shows "carries trash p_operation (xdr_body trash dummy n) (\<lambda>p. case packet_view n of None \<Rightarrow> [] | Some (F, _) \<Rightarrow> F p)
     (\<lambda>p. packet_ok p \<and> p_operation p = n) packet_ready"
proof (cases "carries_message n \<or> packet_view n = None")
  case True
  then show ?thesis by (intro carries_vacuous) (auto simp: packet_ok_def)
next
  case False
  then obtain F ok where view: "packet_view n = Some (F, ok)" by auto
  then obtain r where r: "packet_body trash dummy n = Some r" "carries trash p_operation r F ok packet_ready"
    using agree_packet [OF assms, of n dummy] by (auto simp: agree_def split: option.splits)
  have "xdr_body trash dummy n = r" using r(1) False by (intro ext) (simp add: xdr_body_def)
  moreover have "ok p" if "packet_ok p \<and> p_operation p = n" for p using that view by (auto simp: packet_ok_def)
  from carries_weaken [OF r(2) this]
  have "carries trash p_operation r F (\<lambda>p. packet_ok p \<and> p_operation p = n) packet_ready" .
  ultimately show ?thesis by (simp add: view)
qed

lemma carries_protocol:
  assumes "length trash = 4"
  shows "carries trash (\<lambda>_. ()) (xdr_protocol trash dummy) packet_fields packet_ok packet_ready"
proof -
  have "carries trash (\<lambda>p. ((), [Long (p_operation p)])) (\<lambda>ops op s p. xdr_body trash dummy (p_operation p) ops op s p)
      (\<lambda>p. case packet_view (p_operation p) of None \<Rightarrow> [] | Some (F, _) \<Rightarrow> F p) packet_ok packet_ready"
    by (rule carries_key [OF carries_dep [where k = p_operation, OF _ carries_body [OF assms]]]) simp_all
  then show ?thesis
    unfolding xdr_protocol_seq
    by (intro carries_cong [OF carries_seq, OF carries_maps(4)]) (simp_all add: packet_ready_def packet_fields_def)
qed

lemma protocol_encode:
  assumes "wf s" "packet_ok p" "length trash = 4"
  shows "\<exists>s'. wf s' \<and>
    xdr_protocol trash dummy ops XDR_ENCODE s p = Some (length (wire trash (packet_fields p)) \<le> length (rest s), s', p) \<and>
    (length (wire trash (packet_fields p)) \<le> length (rest s) \<longrightarrow> passed s' = passed s @ wire trash (packet_fields p))"
  using carries_protocol [OF assms(3), of dummy] assms(1,2) unfolding carries_def encodes_def by blast

lemma protocol_decode:
  assumes "wf s" "packet_ok p" "packet_ready q" "length trash = 4" "rest s = wire trash (packet_fields p) @ t"
  shows "\<exists>s' q'. wf s' \<and> xdr_protocol trash dummy ops XDR_DECODE s q = Some (True, s', q') \<and> rest s' = t \<and>
    packet_ready q' \<and> packet_fields q' = packet_fields p"
  using carries_protocol [OF assms(4), of dummy] assms unfolding carries_def decodes_def by blast

lemma protocol_decode_any:
  assumes "wf s" "packet_ready q" "4 \<le> length (rest s) \<Longrightarrow> plain_operation (ntohl_bytes (take 4 (rest s)))"
  shows "\<exists>b s' q'. wf s' \<and> xdr_protocol trash dummy ops XDR_DECODE s q = Some (b, s', q') \<and> packet_ready q'"
proof (cases "4 \<le> length (rest s)")
  case True
  define n where "n = ntohl_bytes (take 4 (rest s))"
  obtain s1 where 1: "wf s1" "x_getlong ops s = Some (Some n, s1)" using getlong [OF assms(1)] True n_def by auto
  define q1 where "q1 = q\<lparr>p_operation := n\<rparr>"
  have q1: "packet_ready q1" "p_operation q1 = n" using assms(2) by (simp_all add: q1_def packet_ready_def)
  have n: "\<not> carries_message n" "n \<notin> {op_response, op_response_piggyback}"
    using assms(3) [OF True] by (simp_all add: plain_operation_def n_def)
  have "xdr_map xdr_enum p_operation p_operation_update ops XDR_DECODE s q = Some (True, s1, q1)"
    using 1(2) by (simp add: xdr_map_def xdr_enum_def get_value_def q1_def)
  then have step: "xdr_protocol trash dummy ops XDR_DECODE s q =
      (case packet_body trash dummy n of None \<Rightarrow> Some (False, s1, q1) | Some body \<Rightarrow> body ops XDR_DECODE s1 q1)"
    using n(1) q1(2) by (simp add: xdr_protocol_def)
  show ?thesis
  proof (cases "packet_body trash dummy n :: ('s, packet) routine option")
    case None
    then show ?thesis using 1(1) q1(1) unfolding step by auto
  next
    case (Some body)
    then have "safe body packet_ready" using safe_packet_body [OF n(2), of trash dummy] by (simp add: safe_body_def)
    then show ?thesis using step Some 1(1) q1(1) by (elim safeE) auto
  qed
next
  case False
  then obtain s1 where "wf s1" "x_getlong ops s = Some (None, s1)" using getlong [OF assms(1)] by auto
  then have "xdr_protocol trash dummy ops XDR_DECODE s q = Some (False, s1, q)"
    by (simp add: xdr_protocol_def xdr_map_def xdr_enum_def get_value_def)
  then show ?thesis using \<open>wf s1\<close> assms(2) by blast
qed

section \<open>A status vector without room\<close>

lemma status_overruns:
  assumes "status_ok x" "wf s" "length trash = 4" "rest s = wire trash (status_fields x) @ t"
    and "length vector < i + status_slots x \<or> length strings < k + status_strings x" "k \<le> length strings"
  shows "status_decode trash ops s vector i strings k = None"
  using assms
proof (induction x arbitrary: s i vector k strings rule: status_induct)
  case (finish v x)
  obtain s1 where 1: "xdr_long ops XDR_DECODE s 0 = Some (True, s1, v)"
    using xdr_long_decode [of s v t 0] finish by auto
  then show ?case
    using finish by (simp add: status_decode.simps [of _ _ s])
next
  case (string v x xs)
  have more: "(ucast v :: u16) \<noteq> gds_arg_end" using string.hyps(1) by auto
  have r: "rest s = htonl_bytes v @ field_wire trash (Text (cstr x)) @ wire trash (status_fields xs) @ t"
    using string.prems(3) more by simp
  obtain s1 where 1: "wf s1" "xdr_long ops XDR_DECODE s 0 = Some (True, s1, v)"
    "rest s1 = field_wire trash (Text (cstr x)) @ wire trash (status_fields xs) @ t"
    using xdr_long_decode [OF string.prems(1) r, of 0] by blast
  obtain s2 b where 2: "wf s2" "xdr_wrapstring trash ops XDR_DECODE s1 None = Some (True, s2, Some b)"
    "rest s2 = wire trash (status_fields xs) @ t"
    using string_decode [OF 1(1,3) cstr_prefix(3) string.hyps(3) string.prems(2)] by blast
  have "status_decode trash ops s2 (vector[i := Status v, i + 1 := String b]) (i + 2) (strings[k := Some b]) (k + 1) = None"
    if "k < length strings"
    using string.prems more that by (intro string.IH [OF 2(1) string.prems(2) 2(3)]) simp_all
  then show ?case
    using 1(2) 2(2) more string.hyps(1) by (simp add: status_decode.simps [of _ _ s] block_of_def Let_def)
next
  case (number v n xs)
  have r: "rest s = htonl_bytes v @ htonl_bytes n @ wire trash (status_fields xs) @ t"
    using number.prems(3) number.hyps by simp
  obtain s1 where 1: "wf s1" "xdr_long ops XDR_DECODE s 0 = Some (True, s1, v)"
    "rest s1 = htonl_bytes n @ wire trash (status_fields xs) @ t"
    using xdr_long_decode [OF number.prems(1) r, of 0] by blast
  obtain s2 where 2: "wf s2" "xdr_long ops XDR_DECODE s1 v = Some (True, s2, n)"
    "rest s2 = wire trash (status_fields xs) @ t"
    using xdr_long_decode [OF 1(1,3)] by blast
  have "status_decode trash ops s2 (vector[i := Status v, i + 1 := Status n]) (i + 2) strings k = None"
    using number.prems number.hyps by (intro number.IH [OF 2(1) number.prems(2) 2(3)]) simp_all
  then show ?case
    using 1(2) 2(2) number.hyps by (simp add: status_decode.simps [of _ _ s] Let_def)
qed

end

section \<open>Packets in memory\<close>

text \<open>A packet as it is before its first use, all zero, with its status vector and the strings for it.\<close>

definition zero_cstring :: cstring where
  "zero_cstring = \<lparr>cstr_length = 0, cstr_allocated = 0, cstr_address = None\<rparr>"

definition zero_version :: p_cnct_repeat where
  "zero_version = \<lparr>p_cnct_version = 0, p_cnct_architecture = 0, p_cnct_min_type = 0, p_cnct_max_type = 0, p_cnct_weight = 0\<rparr>"

definition zero_packet :: packet where
  "zero_packet =
     \<lparr>p_operation = 0,
      pk_cnct = \<lparr>p_cnct_operation = 0, p_cnct_cversion = 0, p_cnct_client = 0, p_cnct_file = zero_cstring,
        p_cnct_count = 0, p_cnct_user_id = zero_cstring, p_cnct_versions = replicate 10 zero_version\<rparr>,
      pk_acpt = \<lparr>p_acpt_version = 0, p_acpt_architecture = 0, p_acpt_type = 0\<rparr>,
      pk_resp = \<lparr>p_resp_object = 0, p_resp_blob_id = \<lparr>bid_relation_id = 0, bid_number = 0\<rparr>, p_resp_data = zero_cstring,
        p_resp_status_vector = replicate 20 (Status 0), p_resp_strings = replicate 10 None\<rparr>,
      pk_atch = \<lparr>p_atch_database = 0, p_atch_file = zero_cstring, p_atch_dpb = zero_cstring\<rparr>,
      pk_rlse = \<lparr>p_rlse_object = 0\<rparr>,
      pk_data = \<lparr>p_data_request = 0, p_data_incarnation = 0, p_data_transaction = 0, p_data_message_number = 0,
        p_data_messages = 0\<rparr>,
      pk_cmpl = \<lparr>p_cmpl_database = 0, p_cmpl_blr = zero_cstring\<rparr>,
      pk_sttr = \<lparr>p_sttr_database = 0, p_sttr_tpb = zero_cstring\<rparr>,
      pk_blob = \<lparr>p_blob_transaction = 0, p_blob_id = \<lparr>bid_relation_id = 0, bid_number = 0\<rparr>, p_blob_bpb = zero_cstring\<rparr>,
      pk_sgmt = \<lparr>p_sgmt_blob = 0, p_sgmt_length = 0, p_sgmt_segment = zero_cstring\<rparr>,
      pk_info = \<lparr>p_info_object = 0, p_info_incarnation = 0, p_info_items = zero_cstring, p_info_recv_items = zero_cstring,
        p_info_buffer_length = 0\<rparr>,
      pk_event = \<lparr>p_event_database = 0, p_event_items = zero_cstring, p_event_ast = 0, p_event_arg = 0, p_event_rid = 0\<rparr>,
      pk_prep = \<lparr>p_prep_transaction = 0, p_prep_data = zero_cstring\<rparr>,
      pk_req = \<lparr>p_req_type = 0, p_req_object = 0, p_req_partner = 0\<rparr>,
      pk_ddl = \<lparr>p_ddl_database = 0, p_ddl_transaction = 0, p_ddl_blr = zero_cstring\<rparr>,
      pk_seek = \<lparr>p_seek_blob = 0, p_seek_mode = 0, p_seek_offset = 0\<rparr>,
      pk_sqlst = \<lparr>p_sqlst_transaction = 0, p_sqlst_statement = 0, p_sqlst_SQL_dialect = 0, p_sqlst_SQL_str = zero_cstring,
        p_sqlst_items = zero_cstring, p_sqlst_buffer_length = 0\<rparr>,
      pk_sqlcur = \<lparr>p_sqlcur_statement = 0, p_sqlcur_cursor_name = zero_cstring, p_sqlcur_type = 0\<rparr>,
      pk_sqlfree = \<lparr>p_sqlfree_statement = 0, p_sqlfree_option = 0\<rparr>\<rparr>"

lemma zero_packet_ready: "packet_ready zero_packet"
  by (simp add: packet_ready_def zero_packet_def zero_cstring_def p_cnct_ready_def p_resp_ready_def status_room_def
      cstrings_defs cstring_ready_def block_of_def CNCT_VERSIONS_def)

text \<open>A request to attach a database.\<close>

definition attach_packet :: packet where
  "attach_packet = zero_packet
     \<lparr>p_operation := op_attach,
      pk_atch := \<lparr>p_atch_database = 0,
        p_atch_file = \<lparr>cstr_length = 3, cstr_allocated = 0, cstr_address = Some [97, 46, 98]\<rparr>,
        p_atch_dpb = \<lparr>cstr_length = 1, cstr_allocated = 0, cstr_address = Some [1]\<rparr>\<rparr>\<rparr>"

lemma attach_view: "packet_view op_attach =
    Some (\<lambda>p. p_atch_fields (pk_atch p), \<lambda>p. list_all cstring_ok (p_atch_cstrings (pk_atch p)))"
  by (simp add: packet_view_def)

lemma attach_packet_ok: "packet_ok attach_packet"
  by (simp add: packet_ok_def attach_packet_def attach_view cstrings_defs cstring_ok_def block_of_def carries_message_def)

lemma attach_packet_fields:
  "packet_fields attach_packet = [Long op_attach, Short 0, Counted [97, 46, 98], Counted [1]]"
  by (simp add: packet_fields_def attach_packet_def attach_view p_atch_fields_def contents_def block_of_def)

lemma mem_create:
  "length addr < 2 ^ 31 \<Longrightarrow> mem_wf (xdrmem_create addr (of_nat (length addr)))"
  "length addr < 2 ^ 31 \<Longrightarrow> mem_rest (xdrmem_create addr (of_nat (length addr))) = addr"
  "mem_passed (xdrmem_create addr len) = []"
  by (simp_all add: xdrmem_create_def mem_wf_def mem_rest_def mem_passed_def sint_of_nat)

text \<open>Encoding a packet writes the fields of its operation in their wire form, every one filled up to
  longwords; the encoder returns TRUE exactly when the stream has room for all of them, and never leaves it.\<close>

lemma packet_encoded:
  assumes "packet_ok p" "mem_wf s" "length trash = 4"
  shows "\<exists>s'. xdr_protocol trash dummy mem_ops XDR_ENCODE s p =
      Some (length (wire trash (packet_fields p)) \<le> length (mem_rest s), s', p) \<and>
    (length (wire trash (packet_fields p)) \<le> length (mem_rest s) \<longrightarrow>
      mem_passed s' = mem_passed s @ wire trash (packet_fields p))"
  using mem.protocol_encode [OF assms(2,1,3)] by blast

lemma packet_encoded_example:
  "packet_ok attach_packet \<and>
   (\<exists>s'. xdr_protocol [7, 7, 7, 7] zero_version mem_ops XDR_ENCODE (xdrmem_create (replicate 64 0) 64) attach_packet =
      Some (True, s', attach_packet) \<and>
    mem_passed s' = [0, 0, 0, 19, 0, 0, 0, 0, 0, 0, 0, 3, 97, 46, 98, 0, 0, 0, 0, 1, 1, 0, 0, 0])"
proof -
  have wf: "mem_wf (xdrmem_create (replicate 64 0) 64)" using mem_create(1) [of "replicate 64 0"] by simp
  have rest: "length (mem_rest (xdrmem_create (replicate 64 0) 64)) = 64"
    using mem_create(2) [of "replicate 64 0"] by simp
  have three: "replicate 3 x = [x, x, x]" for x :: u8 by (simp add: numeral_eq_Suc)
  have wire: "wire [7, 7, 7, 7] (packet_fields attach_packet) =
      [0, 0, 0, 19, 0, 0, 0, 0, 0, 0, 0, 3, 97, 46, 98, 0, 0, 0, 0, 1, 1, 0, 0, 0]"
    using three by (simp add: attach_packet_fields padding_def htonl_bytes_def)
  show ?thesis
    using packet_encoded [OF attach_packet_ok wf, of "[7, 7, 7, 7]" zero_version] attach_packet_ok
    unfolding wire rest mem_create(3) by simp
qed

text \<open>C18. A packet arrives as it was sent: for every modelled operation, decoding into a ready packet what the
  encoder has written, whatever follows it, gives a packet with the same operation and the same fields, reads
  exactly the bytes of the packet, and leaves the packet ready for the next one.\<close>

theorem packet_roundtrip:
  assumes "packet_ok p" "packet_ready q" "length trash = 4" "mem_wf s"
    and "length (wire trash (packet_fields p)) \<le> length (mem_rest s)"
    and "mem_wf r" "mem_rest r = wire trash (packet_fields p) @ t"
  shows "\<exists>s' r' q'. xdr_protocol trash dummy mem_ops XDR_ENCODE s p = Some (True, s', p) \<and>
    mem_passed s' = mem_passed s @ wire trash (packet_fields p) \<and>
    xdr_protocol trash dummy mem_ops XDR_DECODE r q = Some (True, r', q') \<and> mem_rest r' = t \<and>
    packet_fields q' = packet_fields p \<and> p_operation q' = p_operation p \<and> packet_ready q'"
proof -
  obtain s' where s: "xdr_protocol trash dummy mem_ops XDR_ENCODE s p = Some (True, s', p)"
    "mem_passed s' = mem_passed s @ wire trash (packet_fields p)"
    using mem.protocol_encode [OF assms(4,1,3), of dummy] assms(5) by auto
  obtain r' q' where r: "xdr_protocol trash dummy mem_ops XDR_DECODE r q = Some (True, r', q')" "mem_rest r' = t"
    "packet_ready q'" "packet_fields q' = packet_fields p"
    using mem.protocol_decode [OF assms(6,1,2,3,7), of dummy] by blast
  then have "p_operation q' = p_operation p" by (simp add: packet_fields_def)
  then show ?thesis using s r by blast
qed

theorem packet_roundtrip_witness:
  "\<exists>r' q'. xdr_protocol [7, 7, 7, 7] zero_version mem_ops XDR_DECODE
      (xdrmem_create (wire [7, 7, 7, 7] (packet_fields attach_packet) @ [5]) 25) zero_packet = Some (True, r', q') \<and>
    mem_rest r' = [5] \<and> packet_fields q' = [Long op_attach, Short 0, Counted [97, 46, 98], Counted [1]]"
proof -
  define b where "b = wire [7, 7, 7, 7] (packet_fields attach_packet)"
  define s where "s = xdrmem_create b 24"
  define r where "r = xdrmem_create (b @ [5]) 25"
  have len: "length b = 24" by (simp add: b_def attach_packet_fields padding_def)
  have r: "mem_wf r" "mem_rest r = b @ [5]" using mem_create(1,2) [of "b @ [5]"] len by (simp_all add: r_def)
  have s: "mem_wf s" "mem_rest s = b" using mem_create(1,2) [of b] len by (simp_all add: s_def)
  have "length [7, 7, 7, 7 :: u8] = 4" "length b \<le> length (mem_rest s)" using s by simp_all
  from packet_roundtrip [OF attach_packet_ok zero_packet_ready this(1) s(1) this(2) [unfolded b_def] r(1) r(2) [unfolded b_def],
      of zero_version]
  obtain r' q' where "xdr_protocol [7, 7, 7, 7] zero_version mem_ops XDR_DECODE r zero_packet = Some (True, r', q')"
    "mem_rest r' = [5]" "packet_fields q' = packet_fields attach_packet"
    by blast
  then show ?thesis unfolding b_def [symmetric] r_def [symmetric] by (auto simp: attach_packet_fields)
qed

text \<open>C19. No bytes make the decoder of requests leave its memory: decoding any stream into a ready packet, however short
  the stream and whatever it says, ends with TRUE or FALSE and leaves the packet ready, when the operation the
  bytes begin with is modelled and is not a response.\<close>

theorem packet_decode_safe:
  assumes "mem_wf r" "packet_ready q"
    and "4 \<le> length (mem_rest r) \<Longrightarrow> plain_operation (ntohl_bytes (take 4 (mem_rest r)))"
  shows "\<exists>b r' q'. xdr_protocol trash dummy mem_ops XDR_DECODE r q = Some (b, r', q') \<and> mem_wf r' \<and> packet_ready q'"
  using mem.protocol_decode_any [OF assms] by blast

theorem packet_decode_safe_witness:
  "\<exists>b r' q'. xdr_protocol [] zero_version mem_ops XDR_DECODE
      (xdrmem_create [0, 0, 0, 19, 0, 0, 0, 0, 0, 0, 255, 255, 97] 13) zero_packet = Some (b, r', q') \<and>
    mem_wf r' \<and> packet_ready q'"
proof -
  define b :: "u8 list" where "b = [0, 0, 0, 19, 0, 0, 0, 0, 0, 0, 255, 255, 97]"
  have r: "mem_wf (xdrmem_create b 13)" "mem_rest (xdrmem_create b 13) = b"
    using mem_create(1,2) [of b] by (simp_all add: b_def)
  have "plain_operation (ntohl_bytes (take 4 b))"
    by (simp add: b_def ntohl_bytes_def plain_operation_def carries_message_def)
  then show ?thesis
    using packet_decode_safe [OF r(1) zero_packet_ready, of "[]" zero_version] r(2) unfolding b_def by simp
qed

text \<open>C37. The decoder of responses trusts the sender with the length of the status vector: a well-formed vector of
  more than 20 slots, or with more than ten strings, is written past the end of the receiver's arrays.\<close>

theorem status_vector_overrun:
  assumes "status_ok sent" "20 < status_slots sent \<or> 10 < status_strings sent"
    and "length vector = 20" "length strings = 10" "length trash = 4"
    and "mem_wf r" "mem_rest r = wire trash (status_fields sent) @ t"
  shows "xdr_status_vector trash mem_ops XDR_DECODE r (vector, strings) = None"
  using mem.status_overruns [OF assms(1,6,5,7), of vector 0 strings 0] assms(2-4)
  by (simp add: xdr_status_vector_def)

theorem status_vector_overrun_witness:
  "xdr_status_vector [7, 7, 7, 7] mem_ops XDR_DECODE
     (xdrmem_create (wire [7, 7, 7, 7] (status_fields (concat (replicate 10 [Status 4, Status 1]) @ [Status 0]))) 84)
     (replicate 20 (Status 0), replicate 10 None) = None"
proof -
  define x where "x = concat (replicate 10 [Status 4, Status 1]) @ [Status 0]"
  have n: "(4 :: u16) \<noteq> gds_arg_end" "(4 :: u16) \<noteq> gds_arg_interpreted" "(4 :: u16) \<noteq> gds_arg_string" "(0 :: u16) = gds_arg_end"
    by (simp_all add: gds_arg_end_def gds_arg_interpreted_def gds_arg_string_def)
  have x: "x = [Status 4, Status 1, Status 4, Status 1, Status 4, Status 1, Status 4, Status 1, Status 4, Status 1,
      Status 4, Status 1, Status 4, Status 1, Status 4, Status 1, Status 4, Status 1, Status 4, Status 1, Status 0]"
    by (simp add: x_def numeral_eq_Suc)
  define b where "b = wire [7, 7, 7, 7] (status_fields x)"
  have ok: "status_ok x" "status_slots x = 21" "length b = 84" using n by (simp_all add: b_def x)
  have r: "mem_wf (xdrmem_create b 84)" "mem_rest (xdrmem_create b 84) = b"
    using mem_create(1,2) [of b] ok(3) by simp_all
  show ?thesis
    using status_vector_overrun [OF ok(1), of "replicate 20 (Status 0)" "replicate 10 None" "[7, 7, 7, 7]" _ "[]"] ok(2) r
    unfolding b_def x_def by simp
qed

text \<open>\<open>xdr_bytes\<close> delivers the bytes that were sent but not how many: the length it reports is left as it was when
  the bytes are padded, and is zero when they are not; the padding received replaces that of all later strings.\<close>

lemma xdr_bytes_loses_length:
  assumes "mem_wf r" "mem_rest r = htonl_bytes (of_nat (length bytes)) @ bytes @ padded @ t"
    and "length padded = padding (length bytes)" "length bytes \<le> unat maxlength" "unat maxlength < 2 ^ 31 - 1"
    and "length zeros = 4"
  shows "\<exists>r'. xdr_bytes maxlength mem_ops XDR_DECODE r (None, lp, zeros) =
      Some (True, r', (Some (bytes @ replicate (unat maxlength + 1 - length bytes) 0),
        if 4 dvd length bytes then 0 else lp, padded @ drop (length padded) zeros)) \<and>
    mem_rest r' = t"
proof -
  define n where "n = length bytes"
  define block :: "u8 list" where "block = replicate (unat (maxlength + 1)) 0"
  have max: "unat (maxlength + 1) = unat maxlength + 1" using assms(5) by (simp add: unat_word_ariths)
  have n: "n < 2 ^ 31" "n \<le> length block" "length bytes < 2 ^ 31" "length padded \<le> 4" "length padded < 2 ^ 31"
    using assms(3-6) max padding_less [of n] by (simp_all add: n_def block_def)
  have fits: "\<not> sint maxlength < sint (of_nat n :: u32)"
  proof -
    have "sint maxlength = int (unat maxlength)" using sint_of_nat [of "unat maxlength"] assms(5) by simp
    then show ?thesis unfolding sint_of_nat [OF n(1)] using assms(4) by (simp only: of_nat_less_iff n_def not_less)
  qed
  obtain r1 where 1: "mem_wf r1" "x_getlong mem_ops r = Some (Some (of_nat n), r1)" "mem_rest r1 = bytes @ padded @ t"
    using mem.getlong_wire [OF assms(1,2)] by (auto simp: n_def)
  obtain r2 where 2: "mem_wf r2" "x_getbytes mem_ops r1 (length block) (of_nat n) = Some (Some bytes, r2)" "mem_rest r2 = padded @ t"
    using mem.gets_bytes [OF 1(1,3) n(3)] n(2) by (auto simp: n_def)
  obtain r3 where 3: "x_getbytes mem_ops r2 4 (of_nat (length padded)) = Some (Some padded, r3)" "mem_rest r3 = t"
    using mem.gets_bytes [OF 2(1,3) n(5,4)] by auto
  have p: "pad (of_nat n) = of_nat (length padded)" "pad (of_nat n) = 0 \<longleftrightarrow> length padded = 0"
    using pad_of_nat [of n] mem.padding_zero [of n] n(1) assms(3) by (simp_all add: n_def)
  have dvd: "4 dvd length bytes \<longleftrightarrow> length padded = 0"
    using assms(3) by (auto simp: padding_def) presburger+
  have blk: "copied bytes block = bytes @ replicate (unat maxlength + 1 - length bytes) 0"
    unfolding copied_def block_def max drop_replicate ..
  show ?thesis
  proof (cases "length padded = 0")
    case True
    then have "xdr_bytes maxlength mem_ops XDR_DECODE r (None, lp, zeros) =
        Some (True, r2, (Some (copied bytes block), 0, zeros))"
      using 1(2) 2(2) fits p by (simp add: xdr_bytes_def block_def [symmetric] Let_def)
    then show ?thesis using True dvd 2(3) blk by auto
  next
    case False
    then have "xdr_bytes maxlength mem_ops XDR_DECODE r (None, lp, zeros) =
        Some (True, r3, (Some (copied bytes block), lp, copied padded zeros))"
      using 1(2) 2(2) 3(1) fits p assms(6) by (simp add: xdr_bytes_def block_def [symmetric] Let_def)
    then show ?thesis using False dvd 3(2) blk by (auto simp: copied_def)
  qed
qed

lemma xdr_bytes_loses_length_example:
  "\<exists>r'. xdr_bytes 5 mem_ops XDR_DECODE (xdrmem_create [0, 0, 0, 4, 9, 8, 7, 6] 8) (None, 77, [0, 0, 0, 0]) =
     Some (True, r', (Some [9, 8, 7, 6, 0, 0], 0, [0, 0, 0, 0])) \<and> mem_rest r' = []"
proof -
  define r where "r = xdrmem_create [0, 0, 0, 4, 9, 8, 7, 6] 8"
  have r: "mem_wf r" "mem_rest r = [0, 0, 0, 4, 9, 8, 7, 6]"
    using mem_create(1,2) [of "[0, 0, 0, 4, 9, 8, 7, 6]"] by (simp_all add: r_def)
  have four: "4 dvd length [9, 8, 7, 6 :: u8]" unfolding dvd_def by (rule exI [of _ 1]) simp
  have two: "replicate 2 x = [x, x]" for x :: u8 by (simp add: numeral_eq_Suc)
  show ?thesis
    using xdr_bytes_loses_length [OF r(1), of "[9, 8, 7, 6]" "[]" "[]" 5 "[0, 0, 0, 0]" 77] r(2) two
    unfolding if_P [OF four] by (simp add: htonl_bytes_def padding_def r_def)
qed

text \<open>The overhead of a response is what it takes at least, with a status vector of an error code.\<close>

lemma wire_status_length: "status_ok v \<Longrightarrow> length trash = 4 \<Longrightarrow> 4 * status_slots v \<le> length (wire trash (status_fields v))"
  by (induction v rule: status_induct) auto

lemma response_overhead:
  assumes "p_operation p \<in> {op_response, op_response_piggyback}" "packet_ok p" "length trash = 4"
    and "3 \<le> status_slots (p_resp_status_vector (pk_resp p))"
  shows "xdr_protocol_overhead (p_operation p) \<le> length (wire trash (packet_fields p))"
proof -
  have view: "packet_view (p_operation p) = Some (\<lambda>p. p_resp_fields (pk_resp p), \<lambda>p. p_resp_ok (pk_resp p))"
    using assms(1) by (auto simp: packet_view_def)
  then have "status_ok (p_resp_status_vector (pk_resp p))"
    using assms(2) by (simp add: packet_ok_def p_resp_ok_def status_fits_def)
  from wire_status_length [OF this assms(3)] show ?thesis
    using assms(1,4) view by (auto simp: packet_fields_def p_resp_fields_def xdr_protocol_overhead_def)
qed

end
