(* ===== verification/Messages.thy ===== *)
theory Messages
  imports Message_Codec Protocol_Packets
begin

text \<open>
  From the BLR of a request to the rows that are sent: the formats that \<open>PARSE_messages\<close> makes place the fields one
  after the other inside the message, unless their sizes add up to more than 16 bits can hold, and messages in
  such a format arrive as they were sent.
\<close>

section \<open>The layout of a format\<close>

text \<open>Where the fields end when nothing wraps around.\<close>

definition aligned :: "nat \<Rightarrow> u8 \<Rightarrow> nat" where
  "aligned k dtype = (let b = type_alignments ! unat dtype in if 1 < b then (k + b - 1) div b * b else k)"

fun extent :: "nat \<Rightarrow> dsc list \<Rightarrow> nat" where
  "extent k [] = k"
| "extent k (d # ds) = extent (aligned k (dsc_dtype d) + unat (dsc_length d)) ds"

text \<open>A string has room for its length word, or for its terminator; a C string is at most as long as \<open>SSHORT\<close> counts.\<close>

definition string_sized :: "dsc \<Rightarrow> bool" where
  "string_sized d \<longleftrightarrow> (dsc_dtype d = dtype_varying \<longrightarrow> 2 \<le> dsc_length d) \<and>
     (dsc_dtype d = dtype_cstring \<longrightarrow> 1 \<le> dsc_length d \<and> dsc_length d \<le> 32768)"

definition format_ok :: "fmt \<Rightarrow> bool" where
  "format_ok f \<longleftrightarrow> length (fmt_desc f) = unat (fmt_count f) \<and> list_all dsc_ok (fmt_desc f) \<and>
     laid_out 0 (fmt_desc f) (unat (fmt_length f))"

lemma and_not_mask_unat: "unat (w AND NOT (mask j) :: 'a::len word) = unat w div 2 ^ j * 2 ^ j"
proof -
  have "w AND NOT (mask j) = push_bit j (drop_bit j w)"
    by (rule bit_word_eqI) (auto simp: bit_simps)
  then have "unat (w AND NOT (mask j)) = take_bit LENGTH('a) (push_bit j (drop_bit j (unat w)))"
    by (simp only: unsigned_push_bit_eq unsigned_drop_bit_eq take_bit_nat_eq_self [OF unsigned_less])
  also have "\<dots> = take_bit LENGTH('a) (unat w div 2 ^ j * 2 ^ j)"
    by (simp only: push_bit_eq_mult drop_bit_eq_div)
  also have "\<dots> = unat w div 2 ^ j * 2 ^ j"
    by (rule take_bit_nat_eq_self) (metis div_times_less_eq_dividend le_less_trans unsigned_less)
  finally show ?thesis .
qed

lemma FB_ALIGN_unat:
  assumes "b = 2 ^ j" "unat n + b < 2 ^ 32"
  shows "unat (FB_ALIGN n (of_nat b)) = (unat n + b - 1) div b * b"
proof -
  have b: "(of_nat b :: u32) - 1 = mask j" by (simp add: assms(1) mask_eq_decr_exp)
  have "(of_nat (unat n + b - 1) :: u32) = of_nat (unat n + b) - of_nat 1"
    using of_nat_diff [of 1 "unat n + b"] one_le_power [of "2 :: nat" j] by (simp add: assms(1) trans_le_add2)
  then have "n + of_nat b - 1 = (of_nat (unat n + b - 1) :: u32)" by simp
  then have "unat (n + of_nat b - 1) = unat n + b - 1"
    using assms(2) by (simp add: unsigned_of_nat take_bit_nat_eq_self)
  then show ?thesis unfolding FB_ALIGN_def b and_not_mask_unat by (simp only: assms(1) [symmetric])
qed

lemma aligned_less: "k \<le> aligned k t"
proof -
  have "k \<le> (k + b - 1) div b * b" if "1 < b" for b
  proof -
    have "(k + b - 1) mod b < b" using that by simp
    then show ?thesis using div_mult_mod_eq [of "k + b - 1" b] by linarith
  qed
  then show ?thesis by (simp add: aligned_def Let_def)
qed

lemma extent_less: "k \<le> extent k ds"
  by (induction ds arbitrary: k) (auto intro: le_trans [OF aligned_less] le_trans [OF le_add1])

lemma alignments: "t < 20 \<Longrightarrow> 1 < type_alignments ! t \<Longrightarrow> \<exists>j < 4. type_alignments ! t = 2 ^ j"
proof -
  assume t: "t < 20" "1 < type_alignments ! t"
  have "type_alignments ! t \<in> set type_alignments" using t(1) by (intro nth_mem) (simp add: type_alignments_def)
  then have "type_alignments ! t \<in> {0, 1, 2 ^ 1, 2 ^ 2, 2 ^ 3}" by (auto simp: type_alignments_def)
  moreover have "(1 :: nat) < 4 \<and> (2 :: nat) < 4 \<and> (3 :: nat) < 4" by simp
  ultimately show ?thesis using t(2) by (metis (no_types) empty_iff insert_iff less_irrefl less_numeral_extra(4) not_one_less_zero)
qed

lemma align_offset_unat:
  assumes "unat t < 20" "aligned (unat off) t < 65536"
  shows "unat (align_offset off t) = aligned (unat off) t"
proof (cases "1 < type_alignments ! unat t")
  case True
  obtain j where j: "j < 4" "type_alignments ! unat t = 2 ^ j" using alignments [OF assms(1) True] by blast
  have "(2 :: nat) ^ j \<le> 2 ^ 3" using j(1) by (intro power_increasing) simp_all
  moreover have "unat off < 2 ^ 16" using unsigned_less [of off] by simp
  ultimately have "unat off + 2 ^ j < 2 ^ 16 + (2 ^ 3 + 1)" by linarith
  then have "unat (ucast off :: u32) + 2 ^ j < 2 ^ 32" unfolding unat_ucast32 by (rule less_trans) simp
  from FB_ALIGN_unat [OF refl this] have "unat (FB_ALIGN (ucast off) (of_nat (2 ^ j))) = aligned (unat off) t"
    using True j(2) by (simp add: aligned_def Let_def unat_ucast32 del: of_nat_power)
  then show ?thesis
    using True j(2) assms(2) by (simp add: align_offset_def unsigned_ucast_eq take_bit_nat_eq_self del: of_nat_power)
next
  case False
  then show ?thesis by (simp add: align_offset_def aligned_def)
qed

lemma field_of_iff:
  "field_of t s n blr = Some (Some d, blr') \<longleftrightarrow>
     d = \<lparr>dsc_dtype = t, dsc_scale = s, dsc_length = n, dsc_address = 0\<rparr> \<and> blr' = blr"
  by (auto simp: field_of_def)

lemma parse_field_dsc:
  assumes "parse_field blr = Some (Some d, blr')"
  shows "unat (dsc_dtype d) < 20 \<and> (string_sized d \<longrightarrow> dsc_ok d)"
  using assms unfolding parse_field_def
  by (auto simp: bind_eq_Some_conv field_of_iff dsc_ok_def string_sized_def split: if_splits)

lemma parse_fields_layout:
  assumes "parse_fields count blr off net = Some (Some (ds, off', net'), blr')"
    and "extent (unat off) ds < 65536"
  shows "length ds = count \<and> unat off' = extent (unat off) ds \<and> laid_out (unat off) ds (unat off') \<and>
    (list_all string_sized ds \<longrightarrow> list_all dsc_ok ds)"
  using assms
proof (induction count arbitrary: blr off net ds)
  case (Suc count)
  obtain d0 blr1 where 1: "parse_field blr = Some (Some d0, blr1)"
    using Suc.prems(1) by (auto simp: bind_eq_Some_conv split: option.splits)
  define al where "al = align_offset off (dsc_dtype d0)"
  define d where "d = d0\<lparr>dsc_address := unat al\<rparr>"
  obtain ds1 where ds: "ds = d # ds1" and
    2: "parse_fields count blr1 (al + dsc_length d0) (net + ucast (net_size d0)) = Some (Some (ds1, off', net'), blr')"
    using Suc.prems(1) 1 by (auto simp: Let_def d_def al_def split: option.splits)
  have t: "unat (dsc_dtype d0) < 20" "string_sized d0 \<longrightarrow> dsc_ok d0" using parse_field_dsc [OF 1] by simp_all
  have r: "extent (aligned (unat off) (dsc_dtype d0) + unat (dsc_length d0)) ds1 < 65536"
    using Suc.prems(2) by (simp add: ds d_def)
  have al_small: "aligned (unat off) (dsc_dtype d0) + unat (dsc_length d0) < 65536" using extent_less r le_less_trans by blast
  have al: "unat al = aligned (unat off) (dsc_dtype d0)"
    unfolding al_def by (rule align_offset_unat [OF t(1)]) (use al_small in simp)
  have nxt: "unat (al + dsc_length d0) = unat al + unat (dsc_length d0)"
    using al_small al by (subst unat_add_lem [THEN iffD1]) simp_all
  have ih: "length ds1 = count" "unat off' = extent (unat al + unat (dsc_length d0)) ds1"
    "laid_out (unat al + unat (dsc_length d0)) ds1 (unat off')" "list_all string_sized ds1 \<longrightarrow> list_all dsc_ok ds1"
    using Suc.IH [OF 2] r unfolding nxt al by blast+
  have "string_sized d \<longrightarrow> dsc_ok d" using t(2) by (simp add: d_def string_sized_def dsc_ok_def)
  then show ?case
    using ih(1,3,4) aligned_less [of "unat off" "dsc_dtype d0"] by (auto simp: ds d_def al [symmetric] ih(2) [symmetric])
qed simp

text \<open>Every format comes from one run of \<open>parse_fields\<close>, at the start of a message.\<close>

lemma parse_loop_formats:
  assumes "parse_loop blr net acc = Some (Some ms)" "m \<in> set ms"
  shows "m \<in> set acc \<or>
    (\<exists>blr1 net1 net2 blr2. parse_fields (unat (fmt_count (msg_address m))) blr1 0 net1 =
      Some (Some (fmt_desc (msg_address m), fmt_length (msg_address m), net2), blr2))"
  using assms
proof (induction blr net acc rule: parse_loop.induct)
  case (1 blr net acc)
  obtain b blr1 where b: "next_byte blr = Some (b, blr1)"
    using 1(2) by (subst (asm) parse_loop.simps) (auto simp: bind_eq_Some_conv)
  show ?case
  proof (cases "b = blr_message")
    case True
    obtain k blr2 count blr3 descs off net' blr4 where p: "next_byte blr1 = Some (k, blr2)" "next_short 0 blr2 = Some (count, blr3)"
      "parse_fields (unat count) blr3 0 net = Some (Some (descs, off, net'), blr4)"
      "parse_loop blr4 net' (\<lparr>msg_number = ucast k, msg_address = \<lparr>fmt_length = off, fmt_net_length = net', fmt_count = count,
          fmt_desc = descs\<rparr>\<rparr> # acc) = Some (Some ms)"
      using 1(2) b True by (subst (asm) parse_loop.simps) (auto simp: bind_eq_Some_conv split: option.splits)
    from 1(1) [OF b refl _ p(1) refl p(2) refl p(3) refl refl refl refl p(4) 1(3)] True p(3) show ?thesis by auto
  next
    case False
    then show ?thesis using 1(2,3) b by (subst (asm) parse_loop.simps) auto
  qed
qed

lemma parsed_formats:
  assumes "PARSE_messages blr = Some (Some ms)" "m \<in> set ms"
  shows "\<exists>blr1 net1 net2 blr2. parse_fields (unat (fmt_count (msg_address m))) blr1 0 net1 =
    Some (Some (fmt_desc (msg_address m), fmt_length (msg_address m), net2), blr2)"
proof -
  obtain blr' where "parse_loop blr' 0 [] = Some (Some ms)"
    using assms unfolding PARSE_messages_def by (auto simp: bind_eq_Some_conv split: if_splits)
  from parse_loop_formats [OF this assms(2)] show ?thesis by simp
qed

text \<open>C22. The formats that \<open>PARSE_messages\<close> makes are well-formed as long as the sizes of the fields, with the gaps that align
  them, fit in 16 bits and the strings have room for their length or terminator: there are as many descriptors as the
  BLR declares, each with the size of its type, and the fields lie one after the other inside the length of the format.\<close>

theorem parsed_formats_ok:
  assumes "PARSE_messages blr = Some (Some ms)" "m \<in> set ms"
    and "extent 0 (fmt_desc (msg_address m)) < 65536" "list_all string_sized (fmt_desc (msg_address m))"
  shows "format_ok (msg_address m) \<and> unat (fmt_length (msg_address m)) = extent 0 (fmt_desc (msg_address m))"
proof -
  obtain blr1 net1 net2 blr2 where "parse_fields (unat (fmt_count (msg_address m))) blr1 0 net1 =
      Some (Some (fmt_desc (msg_address m), fmt_length (msg_address m), net2), blr2)"
    using parsed_formats [OF assms(1,2)] by blast
  note layout = parse_fields_layout [OF this]
  then show ?thesis using assms(3,4) unfolding format_ok_def unsigned_0 by blast
qed

text \<open>A message of a varying string and a number, as a compiler of BLR writes it.\<close>

definition sample_blr :: "u8 list" where
  "sample_blr = [blr_version5, blr_begin, blr_message, 1, 2, 0, blr_varying, 5, 0, blr_long, 0, 76]"

definition sample_format :: fmt where
  "sample_format = \<lparr>fmt_length = 12, fmt_net_length = 16, fmt_count = 2,
     fmt_desc = [\<lparr>dsc_dtype = dtype_varying, dsc_scale = 0, dsc_length = 7, dsc_address = 0\<rparr>,
       \<lparr>dsc_dtype = dtype_long, dsc_scale = 0, dsc_length = 4, dsc_address = 8\<rparr>]\<rparr>"

lemmas parse_defs = parse_field_def field_of_def next_short_def next_scale_def align_offset_def net_size_def
  type_alignments_def FB_ALIGN_def

lemma sample_parsed: "PARSE_messages sample_blr = Some (Some [\<lparr>msg_number = 1, msg_address = sample_format\<rparr>])"
proof -
  have two: "parse_fields 2 blr off net = parse_fields (Suc (Suc 0)) blr off net" for blr off net
    by (simp add: numeral_eq_Suc)
  show ?thesis
    unfolding PARSE_messages_def sample_blr_def sample_format_def
    by (simp add: parse_loop.simps two parse_defs)
qed

theorem parsed_formats_ok_witness:
  "PARSE_messages sample_blr = Some (Some [\<lparr>msg_number = 1, msg_address = sample_format\<rparr>]) \<and> format_ok sample_format"
proof -
  have "extent 0 (fmt_desc sample_format) < 65536" "list_all string_sized (fmt_desc sample_format)"
    by (simp_all add: sample_format_def aligned_def type_alignments_def string_sized_def)
  then show ?thesis using parsed_formats_ok [OF sample_parsed, of "\<lparr>msg_number = 1, msg_address = sample_format\<rparr>"]
    by (simp add: sample_parsed)
qed


section \<open>Messages in memory streams\<close>

text \<open>What is sent of a message: the buffer as it is, or its fields.\<close>

definition message_fields :: "bool \<Rightarrow> fmt \<Rightarrow> u8 list \<Rightarrow> field list" where
  "message_fields symmetric f b =
     (if symmetric then [Opaque (take (unat (fmt_length f)) b)]
      else concat (map (\<lambda>d. datum_fields d (datum d b)) (fmt_desc f)))"

definition message_ok :: "bool \<Rightarrow> fmt \<Rightarrow> u8 list \<Rightarrow> bool" where
  "message_ok symmetric f b \<longleftrightarrow> length b = unat (fmt_length f) \<and>
     (symmetric \<or> list_all (\<lambda>d. datum_ok d (datum d b)) (fmt_desc f))"

context xdr_stream
begin

lemma message_encodes:
  assumes "format_ok f" "message_ok symmetric f b" "wf s" "length trash = 4"
  shows "\<exists>c s'. xdr_message trash symmetric f ops XDR_ENCODE s b = Some (c, s', b) \<and>
    puts s (wire trash (message_fields symmetric f b)) s' c"
proof (cases symmetric)
  case True
  have b: "unat (fmt_length f) = length b" using assms(2) by (simp add: message_ok_def)
  then have "length b < 2 ^ 31" using u16_small [of "fmt_length f"] by simp
  from opaque_puts [OF assms(3) this order_refl assms(4)] show ?thesis
    using True b unat_u16(2) [of "fmt_length f"] by (simp add: xdr_message_def message_fields_def)
next
  case False
  have "laid_out 0 (fmt_desc f) (length b)" "list_all dsc_ok (fmt_desc f)" "list_all (\<lambda>d. datum_ok d (datum d b)) (fmt_desc f)"
    using assms(1,2) False by (simp_all add: format_ok_def message_ok_def)
  from datums_encode [OF this assms(3,4)] show ?thesis using False by (simp add: xdr_message_def message_fields_def)
qed

lemma message_decodes:
  assumes "format_ok f" "message_ok symmetric f b" "wf s" "length trash = 4" "length u = unat (fmt_length f)"
    and "rest s = wire trash (message_fields symmetric f b) @ t"
  shows "\<exists>s' u'. wf s' \<and> xdr_message trash symmetric f ops XDR_DECODE s u = Some (True, s', u') \<and> rest s' = t \<and>
    length u' = length u \<and> (symmetric \<longrightarrow> u' = b) \<and>
    map (\<lambda>d. datum_fields d (datum d u')) (fmt_desc f) = map (\<lambda>d. datum_fields d (datum d b)) (fmt_desc f)"
proof (cases symmetric)
  case True
  have b: "unat (fmt_length f) = length b" using assms(2) by (simp add: message_ok_def)
  have len: "length b < 2 ^ 31" "length b \<le> length u" using u16_small [of "fmt_length f"] b assms(5) by simp_all
  have "rest s = field_wire trash (Opaque b) @ t" using assms(6) True b by (simp add: message_fields_def)
  from opaque_gets [OF assms(3) this len assms(4)] show ?thesis
    using True b assms(5) unat_u16(2) [of "fmt_length f"] by (auto simp: xdr_message_def)
next
  case False
  have lay: "laid_out 0 (fmt_desc f) (length u)" "length b = length u" "list_all dsc_ok (fmt_desc f)"
    "list_all (\<lambda>d. datum_ok d (datum d b)) (fmt_desc f)"
    using assms(1,2,5) False by (simp_all add: format_ok_def message_ok_def)
  have "rest s = wire trash (concat (map (\<lambda>d. datum_fields d (datum d b)) (fmt_desc f))) @ t"
    using assms(6) False by (simp add: message_fields_def)
  from datums_decode [OF lay assms(3,4) this] show ?thesis using False by (auto simp: xdr_message_def)
qed

lemma message_safe:
  assumes "format_ok f" "symmetric \<or> list_all (\<lambda>d. dsc_dtype d \<noteq> dtype_cstring) (fmt_desc f)" "wf s"
    and "length u = unat (fmt_length f)"
  shows "\<exists>c s' u'. wf s' \<and> xdr_message trash symmetric f ops XDR_DECODE s u = Some (c, s', u') \<and> length u' = length u"
proof (cases symmetric)
  case True
  have len: "length u < 2 ^ 31" using u16_small [of "fmt_length f"] assms(4) by simp
  from opaque_any [OF assms(3) len order_refl, of trash] show ?thesis
    using True assms(4) unat_u16(2) [of "fmt_length f"] by (auto simp: xdr_message_def)
next
  case False
  have "laid_out 0 (fmt_desc f) (length u)" "list_all dsc_ok (fmt_desc f)"
    "list_all (\<lambda>d. dsc_dtype d \<noteq> dtype_cstring) (fmt_desc f)"
    using assms(1,2,4) False by (simp_all add: format_ok_def)
  from datums_safe [OF this assms(3), of trash] show ?thesis using False by (simp add: xdr_message_def)
qed

end

lemma sample_format_ok: "format_ok sample_format"
  by (simp add: format_ok_def sample_format_def dsc_ok_def)

text \<open>C20. A message arrives as it was sent: in a well-formed format, and into any buffer of the length of the format,
  decoding what the encoder has written gives the same value of every field, or the same bytes between processors of
  the same architecture; it reads exactly the bytes of the message and does not change the length of the buffer.\<close>

theorem message_roundtrip:
  assumes "format_ok f" "message_ok symmetric f b" "length u = unat (fmt_length f)" "length trash = 4"
    and "mem_wf s" "length (wire trash (message_fields symmetric f b)) \<le> length (mem_rest s)"
    and "mem_wf r" "mem_rest r = wire trash (message_fields symmetric f b) @ t"
  shows "\<exists>s' r' u'. xdr_message trash symmetric f mem_ops XDR_ENCODE s b = Some (True, s', b) \<and>
    mem_passed s' = mem_passed s @ wire trash (message_fields symmetric f b) \<and>
    xdr_message trash symmetric f mem_ops XDR_DECODE r u = Some (True, r', u') \<and> mem_rest r' = t \<and>
    length u' = length u \<and> (symmetric \<longrightarrow> u' = b) \<and>
    map (\<lambda>d. datum_fields d (datum d u')) (fmt_desc f) = map (\<lambda>d. datum_fields d (datum d b)) (fmt_desc f)"
proof -
  obtain c s' where s: "xdr_message trash symmetric f mem_ops XDR_ENCODE s b = Some (c, s', b)"
    "mem.puts s (wire trash (message_fields symmetric f b)) s' c"
    using mem.message_encodes [OF assms(1,2,5,4)] by blast
  then have "c" "mem_passed s' = mem_passed s @ wire trash (message_fields symmetric f b)"
    using assms(6) by (auto simp: mem.puts_def)
  then show ?thesis using s(1) mem.message_decodes [OF assms(1,2,7,4,3,8)] by auto
qed

theorem message_roundtrip_witness:
  "\<exists>r' u'. xdr_message [7, 7, 7, 7] False sample_format mem_ops XDR_DECODE
      (xdrmem_create [0, 0, 0, 3, 97, 98, 99, 7, 4, 3, 2, 1] 12) (replicate 12 255) = Some (True, r', u') \<and>
    mem_rest r' = [] \<and> length u' = 12 \<and>
    map (\<lambda>d. datum_fields d (datum d u')) (fmt_desc sample_format) = [[Short 3, Opaque [97, 98, 99]], [Long 67305985]]"
proof -
  define b :: "u8 list" where "b = [3, 0, 97, 98, 99, 0, 0, 0, 1, 2, 3, 4]"
  define w :: "u8 list" where "w = [0, 0, 0, 3, 97, 98, 99, 7, 4, 3, 2, 1]"
  have fields: "map (\<lambda>d. datum_fields d (datum d b)) (fmt_desc sample_format) = [[Short 3, Opaque [97, 98, 99]], [Long 67305985]]"
    by (simp add: sample_format_def datum_fields_def varying_fields_def datum_def part_def b_def min_def)
  have wire: "wire [7, 7, 7, 7] (message_fields False sample_format b) = w"
    by (simp add: message_fields_def fields w_def padding_def htonl_bytes_def)
  have ok: "message_ok False sample_format b"
    by (simp add: message_ok_def sample_format_def b_def datum_ok_def)
  have s: "mem_wf (xdrmem_create w 12)" "mem_rest (xdrmem_create w 12) = w"
    using mem_create(1,2) [of w] by (simp_all add: w_def)
  have "length (replicate 12 (255 :: u8)) = unat (fmt_length sample_format)" by (simp add: sample_format_def)
  from message_roundtrip [OF sample_format_ok ok this, of "[7, 7, 7, 7]", unfolded wire, OF _ s(1) _ s(1), of "[]"] s(2)
  show ?thesis unfolding fields w_def by auto
qed

text \<open>C21. No bytes make the decoder of messages write outside the buffer: whatever the stream holds and however short it
  is, decoding into a buffer of the length of a well-formed format ends with TRUE or FALSE, unless a field is a C string
  that is sent by itself.\<close>

theorem message_decode_safe:
  assumes "format_ok f" "symmetric \<or> list_all (\<lambda>d. dsc_dtype d \<noteq> dtype_cstring) (fmt_desc f)"
    and "mem_wf r" "length u = unat (fmt_length f)"
  shows "\<exists>c r' u'. xdr_message trash symmetric f mem_ops XDR_DECODE r u = Some (c, r', u') \<and> mem_wf r' \<and>
    length u' = unat (fmt_length f)"
  using mem.message_safe [OF assms, of trash] assms(4) by auto

theorem message_decode_safe_witness:
  "\<exists>c r' u'. xdr_message [] False sample_format mem_ops XDR_DECODE
      (xdrmem_create [0, 0, 255, 255, 1, 2, 3, 4, 5, 6] 10) (replicate 12 0) = Some (c, r', u') \<and> mem_wf r' \<and> length u' = 12"
proof -
  define b :: "u8 list" where "b = [0, 0, 255, 255, 1, 2, 3, 4, 5, 6]"
  have r: "mem_wf (xdrmem_create b 10)" using mem_create(1) [of b] by (simp add: b_def)
  have "list_all (\<lambda>d. dsc_dtype d \<noteq> dtype_cstring) (fmt_desc sample_format)"
    "length (replicate 12 (0 :: u8)) = unat (fmt_length sample_format)"
    by (simp_all add: sample_format_def)
  from message_decode_safe [OF sample_format_ok disjI2, OF this(1) r this(2), where symmetric = False, of "[]"]
  show ?thesis unfolding b_def by (simp add: sample_format_def)
qed


section \<open>What the formats and lengths do not check\<close>

lemma mem_overflow:
  assumes "mem_wf r" "n \<le> length (mem_rest r)" "buff < n" "n < 2 ^ 31"
  shows "mem_getbytes r buff (of_nat n) = None"
proof -
  have n: "sint (of_nat n :: u32) = int n"
    using assms(4) by (simp add: sint_uint unsigned_of_nat signed_take_bit_int_eq_self take_bit_nat_eq_self)
  have h: "int n \<le> x_handy r" "x_handy r < 2 ^ 31"
    using assms(1,2) length_mem_rest [OF assms(1)] by (auto simp: mem_wf_def)
  have "slong (x_handy r - int n) = x_handy r - int n"
    unfolding slong_def using h by (subst mod_pos_pos_trivial) auto
  then show ?thesis using assms(3) n h by (simp add: mem_getbytes_def Let_def)
qed

text \<open>C38. The decoder of C strings trusts the sender with the length: a string that does not fit between the field and
  the end of the buffer with its terminator is written past that end, whatever the length of the field.\<close>

theorem message_cstring_overrun:
  assumes "dsc_dtype d = dtype_cstring" "mem_wf r" "length trash = 4" "length x < 32768"
    and "mem_rest r = wire trash [Short (of_nat (length x)), Opaque x] @ t" "length u \<le> dsc_address d + length x"
  shows "xdr_datum trash d mem_ops XDR_DECODE r u = None"
proof -
  have eq: "xdr_datum trash d = xdr_c_string trash d" using assms(1) by (simp add: xdr_datum_def)
  note n = unsigned_small [OF assms(4)]
  have "mem_rest r = htonl_bytes (scast (of_nat (length x) :: u16)) @ field_wire trash (Opaque x) @ t" using assms(5) by simp
  then obtain r1 where 1: "mem_wf r1" "xdr_short mem_ops XDR_DECODE r 0 = Some (True, r1, of_nat (length x))"
    "mem_rest r1 = field_wire trash (Opaque x) @ t"
    using mem.short_gets [OF assms(2)] by blast
  have len: "length x < 2 ^ 31" using assms(4) by simp
  show ?thesis
  proof (cases "length x \<le> length (drop (dsc_address d) u)")
    case True
    from mem.opaque_gets [OF 1(1,3) len True assms(3)] obtain r2 where
      "xdr_opaque trash (of_nat (length x)) mem_ops XDR_DECODE r1 (drop (dsc_address d) u) =
        Some (True, r2, x @ drop (length x) (drop (dsc_address d) u))" by blast
    then show ?thesis
      unfolding eq mem.c_string_step using 1(2) n True assms(6)
      by (cases "dsc_address d \<le> length u") (auto simp: xdr_from_def)
  next
    case False
    have "mem_getbytes r1 (length (drop (dsc_address d) u)) (of_nat (length x)) = None"
      by (rule mem_overflow [OF 1(1)]) (use 1(3) False len in simp_all)
    then show ?thesis
      unfolding eq mem.c_string_step using 1(2) n by (simp add: xdr_from_def xdr_opaque_def mem_ops_def)
  qed
qed

theorem message_cstring_overrun_witness:
  "xdr_datum [7, 7, 7, 7] \<lparr>dsc_dtype = dtype_cstring, dsc_scale = 0, dsc_length = 2, dsc_address = 1\<rparr> mem_ops XDR_DECODE
     (xdrmem_create [0, 0, 0, 4, 97, 98, 99, 100] 8) (replicate 4 0) = None"
proof -
  define b :: "u8 list" where "b = [0, 0, 0, 4, 97, 98, 99, 100]"
  have r: "mem_wf (xdrmem_create b 8)" "mem_rest (xdrmem_create b 8) = b"
    using mem_create(1,2) [of b] by (simp_all add: b_def)
  have "b = wire [7, 7, 7, 7] [Short (of_nat (length [97, 98, 99, 100 :: u8])), Opaque [97, 98, 99, 100]] @ []"
    by (simp add: b_def padding_def htonl_bytes_def)
  from message_cstring_overrun [OF _ r(1) _ _ trans [OF r(2) this]] show ?thesis unfolding b_def by simp
qed

text \<open>The declaration of a message of two texts.\<close>

definition two_texts :: "u8 \<Rightarrow> u16 \<Rightarrow> u16 \<Rightarrow> u8 list" where
  "two_texts k m n = [blr_version5, blr_begin, blr_message, k, 2, 0, blr_text] @ store 2 m @ [blr_text] @ store 2 n @ [76]"

definition two_text_format :: "u16 \<Rightarrow> u16 \<Rightarrow> fmt" where
  "two_text_format m n = \<lparr>fmt_length = m + n,
     fmt_net_length = ucast ((ucast m + 3 :: u32) AND NOT 3) + ucast ((ucast n + 3 :: u32) AND NOT 3), fmt_count = 2,
     fmt_desc = [\<lparr>dsc_dtype = dtype_text, dsc_scale = 0, dsc_length = m, dsc_address = 0\<rparr>,
       \<lparr>dsc_dtype = dtype_text, dsc_scale = 0, dsc_length = n, dsc_address = unat m\<rparr>]\<rparr>"

lemma next_short_store: "next_short 0 (store 2 n @ blr) = Some (n, blr)"
proof -
  have "ucast (ucast n :: u8) + push_bit 8 (ucast (ucast (drop_bit 8 n) :: u8)) = n"
    by (subst disjunctive_add) (auto simp: bit_simps intro!: bit_word_eqI dest: bit_imp_le_length)
  then show ?thesis by (simp add: next_short_def numeral_eq_Suc)
qed

lemma two_texts_parsed:
  "PARSE_messages (two_texts k m n) = Some (Some [\<lparr>msg_number = ucast k, msg_address = two_text_format m n\<rparr>])"
proof -
  have two: "parse_fields 2 blr off net = parse_fields (Suc (Suc 0)) blr off net" for blr off net
    by (simp add: numeral_eq_Suc)
  have count: "next_short 0 (2 # 0 # blr) = Some (2, blr)" for blr by (simp add: next_short_def)
  show ?thesis
    unfolding PARSE_messages_def two_texts_def two_text_format_def
    by (simp add: parse_loop.simps two count next_short_store parse_field_def field_of_def align_offset_def net_size_def
        type_alignments_def)
qed

text \<open>C39. The length of a format is counted in 16 bits: two texts that are longer together are accepted, and the buffer
  that such a format asks for is too short for the first of them, which is received past its end.\<close>

theorem format_length_wraps:
  assumes "2 ^ 16 \<le> unat m + unat n" "mem_wf r" "unat m \<le> length (mem_rest r)"
    and "length u = unat (fmt_length (two_text_format m n))"
  shows "PARSE_messages (two_texts k m n) = Some (Some [\<lparr>msg_number = ucast k, msg_address = two_text_format m n\<rparr>]) \<and>
    xdr_message trash False (two_text_format m n) mem_ops XDR_DECODE r u = None"
proof
  have less: "unat m < 2 ^ 16" "unat n < 2 ^ 16" using unsigned_less [of m] unsigned_less [of n] by simp_all
  have "unat (m + n) = (unat m + unat n - 2 ^ 16) mod 2 ^ 16"
    using le_mod_geq [OF assms(1)] by (simp add: unat_word_ariths)
  also have "\<dots> = unat m + unat n - 2 ^ 16" by (rule mod_less) (use less in linarith)
  finally have "unat (m + n) < unat m" using less assms(1) by linarith
  then have short: "length u < unat m" using assms(4) by (simp add: two_text_format_def)
  have len: "unat m < 2 ^ 31" using u16_small [of m] by simp
  have "mem_getbytes r (length u) (ucast m) = None"
    using mem_overflow [OF assms(2,3) short len] unat_u16(2) [of m] by simp
  then show "xdr_message trash False (two_text_format m n) mem_ops XDR_DECODE r u = None"
    by (simp add: xdr_message_def two_text_format_def xdr_all_simps xdr_seq_def xdr_datum_def xdr_from_def xdr_opaque_def
        mem_ops_def)
qed (rule two_texts_parsed)

theorem format_length_wraps_witness:
  "xdr_message [] False (two_text_format 40000 30000) mem_ops XDR_DECODE
     (xdrmem_create (replicate 40000 65) 40000) (replicate 4464 0) = None"
proof -
  have r: "mem_wf (xdrmem_create (replicate 40000 65) 40000)"
    "length (mem_rest (xdrmem_create (replicate 40000 65) 40000)) = 40000"
    using mem_create(1,2) [of "replicate 40000 65"] by simp_all
  have "2 ^ 16 \<le> unat (40000 :: u16) + unat (30000 :: u16)" "unat (40000 :: u16) \<le> 40000"
    "length (replicate 4464 (0 :: u8)) = unat (fmt_length (two_text_format 40000 30000))"
    by (simp_all add: two_text_format_def)
  from format_length_wraps [OF this(1) r(1) _ this(3), where trash = "[]" and k = 0] r(2) this(2) show ?thesis by simp
qed


section \<open>Batches\<close>

text \<open>A batch of more than the least number of rows fits in its packets, after what the buffer holds already.\<close>

lemma batch_fits:
  fixes symmetric op_code f
  defines "row_size \<equiv> batch_row_size symmetric op_code f"
  assumes "REMOTE_compute_batch_size symmetric buff_size buffer_used op_code f = Some rows"
    and "buffer_used \<le> buff_size" "MIN_ROWS_PER_BATCH < rows"
  shows "unat rows * unat row_size + unat buffer_used \<le> unat (batch_packets row_size buffer_used buff_size) * unat buff_size"
proof -
  define p where "p = batch_packets row_size buffer_used buff_size"
  have p: "2 \<le> unat p" by (simp add: p_def batch_packets_def Let_def max_def word_le_nat_alt)
  define w where "w = (ucast p * ucast buff_size - ucast buffer_used :: u32)"
  have "rows = max (w div row_size) MIN_ROWS_PER_BATCH"
    using assms(2) by (simp add: REMOTE_compute_batch_size_def row_size_def [symmetric] p_def [symmetric] w_def Let_def split: if_splits)
  then have rows: "rows = w div row_size" using assms(4) by (simp add: max_def split: if_splits)
  have less: "unat p < 2 ^ 16" "unat buff_size < 2 ^ 16" using unsigned_less [of p] unsigned_less [of buff_size] by simp_all
  have "unat p * unat buff_size < 2 ^ 16 * 2 ^ 16" using less by (intro mult_strict_mono) simp_all
  then have prod: "unat (ucast p * ucast buff_size :: u32) = unat p * unat buff_size"
    by (simp add: unat_word_ariths unat_ucast32 take_bit_nat_eq_self)
  have used: "unat buffer_used \<le> unat p * unat buff_size"
    using assms(3) p by (intro le_trans [OF _ mult_le_mono1 [of 1 "unat p" "unat buff_size"]]) (simp_all add: word_le_nat_alt)
  then have "(ucast buffer_used :: u32) \<le> ucast p * ucast buff_size" by (simp add: word_le_nat_alt prod unat_ucast32)
  then have w: "unat w = unat p * unat buff_size - unat buffer_used" by (simp add: w_def unat_sub prod unat_ucast32)
  have "unat rows * unat row_size \<le> unat w" by (simp add: rows unat_div)
  then show ?thesis using used by (simp add: w p_def [symmetric])
qed


section \<open>BLR without VMS floating numbers\<close>

lemma next_iffs:
  "next_byte blr = Some (b, rest) \<longleftrightarrow> blr = b # rest"
  "next_short n blr = Some (w, rest) \<longleftrightarrow> (\<exists>lo hi. blr = lo # hi # rest \<and> w = ucast lo + n + push_bit 8 (ucast hi))"
  "next_scale blr = Some (s, rest) \<longleftrightarrow> (\<exists>lo hi. blr = lo # hi # rest \<and> s = lo + ucast (push_bit 8 (ucast hi :: u32)))"
proof -
  show b: "next_byte blr = Some (b, rest) \<longleftrightarrow> blr = b # rest" for blr b rest by (cases blr) auto
  show "next_short n blr = Some (w, rest) \<longleftrightarrow> (\<exists>lo hi. blr = lo # hi # rest \<and> w = ucast lo + n + push_bit 8 (ucast hi))"
    "next_scale blr = Some (s, rest) \<longleftrightarrow> (\<exists>lo hi. blr = lo # hi # rest \<and> s = lo + ucast (push_bit 8 (ucast hi :: u32)))"
    by (auto simp: next_short_def next_scale_def bind_eq_Some_conv b)
qed

text \<open>The bytes of a field: the type, and as many as belong to it.\<close>

definition operands :: "u8 \<Rightarrow> nat option" where
  "operands b =
     (if b \<in> {blr_text2, blr_varying2, blr_cstring2} then Some 4
      else if b \<in> {blr_text, blr_varying, blr_cstring} then Some 2
      else if b \<in> {blr_short, blr_long, blr_int64, blr_quad} then Some 1
      else if b \<in> {blr_float, blr_double, blr_timestamp, blr_sql_date, blr_sql_time, blr_d_float} then Some 0
      else None)"

definition prepared :: "u8 \<Rightarrow> u8" where
  "prepared b = (if b = blr_d_float then blr_double else b)"

lemma prepare_field_operands:
  "prepare_field (b # bs) = Some (map_option (\<lambda>k. (prepared b # take k bs, drop k bs)) (operands b))"
  by (simp add: prepare_field_def operands_def prepared_def)

lemma operands_prepared [simp]: "operands (prepared b) = operands b" "prepared (prepared b) = prepared b"
  by (simp_all add: operands_def prepared_def)

lemma parse_field_prepared: "parse_field (prepared b # bs) = parse_field (b # bs)"
  by (simp add: parse_field_def prepared_def)

lemma parse_field_operands:
  assumes "parse_field (b # bs) = Some (r, rest)"
  shows "case operands b of None \<Rightarrow> r = None
    | Some k \<Rightarrow> r \<noteq> None \<and> k \<le> length bs \<and> rest = drop k bs \<and> (\<forall>t. parse_field (b # take k bs @ t) = Some (r, t))"
proof -
  consider (four) "b \<in> {blr_text2, blr_varying2, blr_cstring2}" | (two) "b \<in> {blr_text, blr_varying, blr_cstring}"
    | (one) "b \<in> {blr_short, blr_long, blr_int64, blr_quad}"
    | (zero) "b \<in> {blr_float, blr_double, blr_timestamp, blr_sql_date, blr_sql_time, blr_d_float}" | (unknown) "operands b = None"
    unfolding operands_def by meson
  then show ?thesis
  proof cases
    case four
    then have "operands b = Some 4" by (auto simp: operands_def)
    then show ?thesis using four assms
      by (elim insertE emptyE; simp add: parse_field_def field_of_def) (auto simp: bind_eq_Some_conv next_iffs field_of_def)
  next
    case two
    then have "operands b = Some 2" by (auto simp: operands_def)
    then show ?thesis using two assms
      by (elim insertE emptyE; simp add: parse_field_def field_of_def) (auto simp: bind_eq_Some_conv next_iffs field_of_def)
  next
    case one
    then have "operands b = Some 1" by (auto simp: operands_def)
    then show ?thesis using one assms
      by (elim insertE emptyE; simp add: parse_field_def field_of_def) (auto simp: bind_eq_Some_conv next_iffs field_of_def)
  next
    case zero
    then have "operands b = Some 0" by (auto simp: operands_def)
    then show ?thesis using zero assms
      by (elim insertE emptyE; simp add: parse_field_def field_of_def) auto
  next
    case unknown
    then show ?thesis using assms by (simp add: operands_def parse_field_def split: if_splits)
  qed
qed

lemma prepare_fields_parse:
  assumes "parse_fields n blr off net = Some (r, rest)"
  shows "\<exists>out rest'. prepare_fields n blr = Some (out, rest', r \<noteq> None) \<and> length out + length rest' = length blr \<and>
    (r \<noteq> None \<longrightarrow> rest' = rest \<and>
      (\<forall>t. parse_fields n (out @ t) off net = Some (r, t) \<and> prepare_fields n (out @ t) = Some (out, t, True))) \<and>
    (r = None \<longrightarrow> (\<exists>rest2. parse_fields n (out @ rest') off net = Some (None, rest2)) \<and>
      prepare_fields n (out @ rest') = Some (out, rest', False))"
  using assms
proof (induction n arbitrary: blr off net r)
  case (Suc n)
  obtain f blr1 where f: "parse_field blr = Some (f, blr1)" using Suc.prems by (auto simp: bind_eq_Some_conv)
  obtain b bs where blr: "blr = b # bs" using f by (cases blr) (simp_all add: parse_field_def)
  note op = parse_field_operands [OF f [unfolded blr]]
  show ?case
  proof (cases "operands b")
    case None
    then have "f = None" using op by simp
    then have "r = None" using Suc.prems f by simp
    then show ?thesis using Suc.prems None by (simp add: blr prepare_field_operands)
  next
    case (Some k)
    then obtain d where d: "f = Some d" "k \<le> length bs" "blr1 = drop k bs"
      "\<And>t. parse_field (b # take k bs @ t) = Some (Some d, t)"
      using op by auto
    define al where "al = align_offset off (dsc_dtype d)"
    obtain r1 where r1: "parse_fields n blr1 (al + dsc_length d) (net + ucast (net_size d)) = Some (r1, rest)"
      "r = map_option (\<lambda>(ds, off, n). (d\<lparr>dsc_address := unat al\<rparr> # ds, off, n)) r1"
      using Suc.prems f d(1) by (auto simp: Let_def al_def)
    obtain out rest' where ih: "prepare_fields n blr1 = Some (out, rest', r1 \<noteq> None)" "length out + length rest' = length blr1"
      "r1 \<noteq> None \<Longrightarrow> rest' = rest \<and> (\<forall>t. parse_fields n (out @ t) (al + dsc_length d) (net + ucast (net_size d)) = Some (r1, t) \<and>
        prepare_fields n (out @ t) = Some (out, t, True))"
      "r1 = None \<Longrightarrow> (\<exists>rest2. parse_fields n (out @ rest') (al + dsc_length d) (net + ucast (net_size d)) = Some (None, rest2)) \<and>
        prepare_fields n (out @ rest') = Some (out, rest', False)"
      using Suc.IH [OF r1(1)] by blast
    let ?out = "(prepared b # take k bs) @ out"
    have p: "prepare_fields (Suc n) blr = Some (?out, rest', r \<noteq> None)"
      using ih(1) d(3) Some r1(2) by (simp add: blr prepare_field_operands)
    have len: "length ?out + length rest' = length blr" using ih(2) d(2,3) by (simp add: blr)
    have field: "parse_field (?out @ t) = Some (Some d, out @ t)" "prepare_field (?out @ t) = Some (Some (prepared b # take k bs, out @ t))" for t
      using d(2,4) Some by (simp_all add: parse_field_prepared prepare_field_operands)
    have fields: "parse_fields (Suc n) (?out @ t) off net =
        map_option (\<lambda>(r, blr). (map_option (\<lambda>(ds, off, n). (d\<lparr>dsc_address := unat al\<rparr> # ds, off, n)) r, blr))
          (parse_fields n (out @ t) (al + dsc_length d) (net + ucast (net_size d)))"
      "prepare_fields (Suc n) (?out @ t) = map_option (\<lambda>(outs, blr, known). ((prepared b # take k bs) @ outs, blr, known)) (prepare_fields n (out @ t))" for t
      unfolding parse_fields.simps prepare_fields.simps field by (simp_all add: Let_def al_def)
    show ?thesis
      using p len ih(3,4) r1(2) fields by (intro exI [of _ ?out] exI [of _ rest']) (cases r1; simp)
  qed
qed simp


lemma prepare_loop_parse:
  assumes "parse_loop blr net acc = Some r"
  shows "\<exists>blr'. prepare_loop blr = Some blr' \<and> length blr' = length blr \<and> parse_loop blr' net acc = Some r \<and>
    prepare_loop blr' = Some blr'"
  using assms
proof (induction "length blr" arbitrary: blr net acc rule: less_induct)
  case less
  obtain b blr1 where b: "blr = b # blr1"
    using less.prems by (subst (asm) parse_loop.simps) (auto simp: bind_eq_Some_conv next_iffs)
  show ?case
  proof (cases "b = blr_message")
    case True
    obtain k lo hi blr3 where blr: "blr = blr_message # k # lo # hi # blr3"
      using less.prems b True by (subst (asm) parse_loop.simps) (auto simp: bind_eq_Some_conv next_iffs)
    define count :: u16 where "count = ucast lo + 0 + push_bit 8 (ucast hi)"
    have short: "next_short 0 (lo # hi # t) = Some (count, t)" for t by (simp add: next_iffs count_def)
    have parse: "parse_loop (blr_message # k # lo # hi # t) net acc =
        do { (r, blr) \<leftarrow> parse_fields (unat count) t 0 net;
             case r of None \<Rightarrow> Some None
             | Some (descs, offset, net') \<Rightarrow> parse_loop blr net' (\<lparr>msg_number = ucast k,
                 msg_address = \<lparr>fmt_length = offset, fmt_net_length = net', fmt_count = count, fmt_desc = descs\<rparr>\<rparr> # acc) }" for t
      by (subst parse_loop.simps) (simp add: short cong: option.case_cong)
    have prepare: "prepare_loop (blr_message # k # lo # hi # t) =
        do { (out, blr4, known) \<leftarrow> prepare_fields (unat count) t;
             if known then map_option (\<lambda>rest. blr_message # k # lo # hi # out @ rest) (prepare_loop blr4)
             else Some (blr_message # k # lo # hi # out @ blr4) }" for t
      by (subst prepare_loop.simps) (simp add: short numeral_eq_Suc cong: if_cong)
    obtain f rest where f: "parse_fields (unat count) blr3 0 net = Some (f, rest)"
      using less.prems unfolding blr parse by (auto simp: bind_eq_Some_conv)
    from prepare_fields_parse [OF f] obtain out rest' where
      out: "prepare_fields (unat count) blr3 = Some (out, rest', f \<noteq> None)" "length out + length rest' = length blr3" and
      known: "f \<noteq> None \<Longrightarrow> rest' = rest" "\<And>t. f \<noteq> None \<Longrightarrow> parse_fields (unat count) (out @ t) 0 net = Some (f, t)"
        "\<And>t. f \<noteq> None \<Longrightarrow> prepare_fields (unat count) (out @ t) = Some (out, t, True)" and
      unknown: "f = None \<Longrightarrow> \<exists>rest2. parse_fields (unat count) (out @ rest') 0 net = Some (None, rest2)"
        "f = None \<Longrightarrow> prepare_fields (unat count) (out @ rest') = Some (out, rest', False)"
      by blast
    show ?thesis
    proof (cases f)
      case None
      then have "r = None" using less.prems f unfolding blr parse by simp
      then show ?thesis
        using None out unknown by (intro exI [of _ "blr_message # k # lo # hi # out @ rest'"]) (auto simp: blr parse prepare)
    next
      case (Some g)
      obtain descs offset net' where g: "f = Some (descs, offset, net')" using Some by (cases g) simp
      define acc' where "acc' = \<lparr>msg_number = ucast k,
        msg_address = \<lparr>fmt_length = offset, fmt_net_length = net', fmt_count = count, fmt_desc = descs\<rparr>\<rparr> # acc"
      have "parse_loop rest net' acc' = Some r" using less.prems f g unfolding blr parse acc'_def by simp
      moreover have "length rest < length blr" using out(2) known(1) g by (simp add: blr)
      ultimately obtain blr' where ih: "prepare_loop rest = Some blr'" "length blr' = length rest" "parse_loop blr' net' acc' = Some r"
        "prepare_loop blr' = Some blr'"
        using less.hyps by blast
      then show ?thesis
        using g out known by (intro exI [of _ "blr_message # k # lo # hi # out @ blr'"]) (simp add: blr parse prepare acc'_def)
    qed
  next
    case False
    then show ?thesis
      using less.prems b by (intro exI [of _ blr]) (simp add: parse_loop.simps [of "b # blr1"] prepare_loop.simps [of "b # blr1"])
  qed
qed

text \<open>C23. \<open>PARSE_prepare_messages\<close> changes nothing that \<open>PARSE_messages\<close> sees: whenever BLR can be parsed, preparing it ends
  inside the BLR and gives BLR of the same length with the same messages or the same error, that needs no preparation.\<close>

theorem prepare_messages_equal:
  assumes "PARSE_messages blr = Some r"
  shows "\<exists>blr'. PARSE_prepare_messages blr = Some blr' \<and> length blr' = length blr \<and> PARSE_messages blr' = Some r \<and>
    PARSE_prepare_messages blr' = Some blr'"
proof -
  obtain v blr1 where v: "blr = v # blr1" using assms by (cases blr) (simp_all add: PARSE_messages_def)
  show ?thesis
  proof (cases "v \<noteq> blr_version4 \<and> v \<noteq> blr_version5")
    case True
    then show ?thesis using assms by (simp add: v PARSE_messages_def PARSE_prepare_messages_def)
  next
    case version: False
    then obtain b blr2 where b: "blr1 = b # blr2" using assms by (cases blr1) (auto simp: v PARSE_messages_def split: if_splits)
    show ?thesis
    proof (cases "b = blr_begin")
      case True
      then have "parse_loop blr2 0 [] = Some r" using assms version by (simp add: v b PARSE_messages_def)
      from prepare_loop_parse [OF this] obtain blr' where "prepare_loop blr2 = Some blr'" "length blr' = length blr2"
        "parse_loop blr' 0 [] = Some r" "prepare_loop blr' = Some blr'" by blast
      then show ?thesis
        using version True by (intro exI [of _ "v # b # blr'"])
          (auto simp: v b PARSE_messages_def PARSE_prepare_messages_def)
    next
      case False
      then show ?thesis using assms version by (auto simp: v b PARSE_messages_def PARSE_prepare_messages_def)
    qed
  qed
qed

text \<open>A message of a VMS floating number, before and after.\<close>

definition vms_blr :: "u8 \<Rightarrow> u8 list" where
  "vms_blr b = [blr_version5, blr_begin, blr_message, 0, 1, 0, b, 76]"

lemma vms_parsed: "b \<in> {blr_d_float, blr_double} \<Longrightarrow> PARSE_messages (vms_blr b) = Some (Some [\<lparr>msg_number = 0, msg_address =
    \<lparr>fmt_length = 8, fmt_net_length = 8, fmt_count = 1,
      fmt_desc = [\<lparr>dsc_dtype = dtype_double, dsc_scale = 0, dsc_length = 8, dsc_address = 0\<rparr>]\<rparr>\<rparr>])"
proof -
  assume b: "b \<in> {blr_d_float, blr_double}"
  have one: "parse_fields 1 blr off net = parse_fields (Suc 0) blr off net" for blr off net by simp
  show ?thesis
    using b by (elim insertE emptyE)
      (simp_all only:, simp_all add: PARSE_messages_def vms_blr_def parse_loop.simps one parse_defs)
qed

theorem prepare_messages_equal_witness:
  "PARSE_prepare_messages (vms_blr blr_d_float) = Some (vms_blr blr_double) \<and>
   PARSE_messages (vms_blr blr_double) = PARSE_messages (vms_blr blr_d_float)"
proof -
  have one: "prepare_fields 1 blr = prepare_fields (Suc 0) blr" for blr by simp
  have eq: "PARSE_prepare_messages (vms_blr blr_d_float) = Some (vms_blr blr_double)"
    by (simp add: PARSE_prepare_messages_def vms_blr_def prepare_loop.simps one prepare_field_def next_short_def)
  have "PARSE_messages (vms_blr blr_d_float) = Some (Some [\<lparr>msg_number = 0, msg_address =
      \<lparr>fmt_length = 8, fmt_net_length = 8, fmt_count = 1,
        fmt_desc = [\<lparr>dsc_dtype = dtype_double, dsc_scale = 0, dsc_length = 8, dsc_address = 0\<rparr>]\<rparr>\<rparr>])"
    by (rule vms_parsed) simp
  from prepare_messages_equal [OF this] eq this show ?thesis by auto
qed

end
