(* ===== verification/Spec2Isabelle.thy ===== *)
theory Spec2Isabelle
  imports Charsets Cv_Unicode_Fss Cv_Narrow Cv_Dos Cv_Ksc Cv_Big5 Cv_Gb2312 Cv_Jis Lc_Ascii Coll_Es Sqz_Diff Sbm_Sets Sbm_Next Lock_Deadlock Gds_Dates Evl_Like Sort_Quick Messages
begin

text \<open>
  Firebird 1.5 is a relational database server in C and C++. This development models the parts of it that
  compute without the operating system: the text drivers of \<open>intl/\<close>, the sparse bitmaps, record compression,
  dates, pattern operators and sort of the engine in \<open>jrd/\<close>, the granting of locks in \<open>lock/\<close>, and the packets
  and messages of the wire protocol in \<open>remote/\<close>. Sources are named relative to \<open>src/\<close> of the repository; definitions
  keep the names of the functions, types and constants they model.

  How the parts interact in the program. The engine stores records in pages, compressed (\<open>sqz.cpp\<close>), and old
  versions of a record as differences from the new one. An index scan collects record numbers in sparse
  bitmaps (\<open>sbm.cpp\<close>), which the optimizer combines with AND and OR and the record source walks. ORDER BY and
  DISTINCT put records in memory and sort them (\<open>sort.cpp\<close>). Comparisons of text go through a text type
  object (\<open>intlobj.h\<close>) of a driver: a collation (\<open>lc_ascii.c\<close>, \<open>lc_narrow.c\<close>) builds sort keys, compares and
  changes case; a converter (\<open>cv_*.c\<close>) takes text to and from Unicode. The operators LIKE, MATCHES and
  CONTAINING (\<open>evl_like.cpp\<close>, \<open>evl.cpp\<close>) work on the text so converted. Processes that share a database agree
  through the lock manager (\<open>lock.cpp\<close>). A client on another machine and its server exchange packets
  (\<open>protocol.cpp\<close>) in an external data representation (\<open>xdr.cpp\<close>); the BLR of a request says what is in the
  messages they carry (\<open>parser.cpp\<close>).

  Theories and sources.

    \<^item> \<open>Fb_Prelude\<close>: the integer types (a byte is \<open>u8\<close>, a UCS-2 character \<open>u16\<close>; a \<open>USHORT\<close> or \<open>SSHORT\<close> whose
      wrap-around matters goes through \<open>ushort\<close>, \<open>ushort_sub\<close>, \<open>sshort\<close>), bit operations as arithmetic, the
      C loop with \<open>break\<close> as an option (\<open>while_loop\<close>, \<open>None\<close> for a loop that does not end or leaves its
      buffer), byte strings and their comparison.
    \<^item> \<open>Intl_Obj\<close>, \<open>Charsets\<close>: \<open>jrd/intlobj.h\<close>, \<open>intl/charsets.h\<close>, \<open>intl/country_codes.h\<close>.
    \<^item> \<open>Cv_Driver\<close>: what the loops of all converters share, with the locales \<open>cs_loop\<close>, \<open>cs_converter\<close>,
      \<open>cs_char_loop\<close> and \<open>cs_decoder\<close>, each proved once and interpreted on every loop. \<open>Cv_Narrow\<close> and \<open>Cv_Dos\<close>:
      \<open>intl/cv_narrow.c\<close> with the byte tables of \<open>intl/conversions\<close>. \<open>Cv_Unicode_Fss\<close>: \<open>intl/cv_unicode_fss.c\<close>.
      \<open>Cv_Multi\<close>: the locale \<open>two_byte_code\<close> of the mixed one-byte and two-byte codes; \<open>Cv_Ksc\<close>, \<open>Cv_Big5\<close>,
      \<open>Cv_Gb2312\<close>, \<open>Cv_Jis\<close>: \<open>intl/cv_ksc.c\<close>, \<open>cv_big5.c\<close>, \<open>cv_gb2312.c\<close>, \<open>cv_jis.c\<close>.
    \<^item> \<open>Lc_Ascii\<close>: \<open>intl/lc_ascii.c\<close>. \<open>Lc_Narrow\<close>: \<open>intl/lc_narrow.c\<close>; \<open>Narrow_Order\<close> shows what its
      comparison computes, \<open>Narrow_Keys\<close> that its keys order as it compares, \<open>Coll_Es\<close> has the tables of
      \<open>intl/collations/bl88591es0.h\<close> and applies both to them.
    \<^item> \<open>Sqz\<close>, \<open>Sqz_Diff\<close>: \<open>jrd/sqz.cpp\<close>.
    \<^item> \<open>Sbm\<close>, \<open>Sbm_Sets\<close>, \<open>Sbm_Next\<close>: \<open>jrd/sbm.cpp\<close>. The locale \<open>number_set\<close> is the contract of a set of
      numbers; a level of slots (\<open>level\<close>) gives it for the root when it holds for the buckets, and for the
      buckets when it holds for the segments.
    \<^item> \<open>Lock_Grant\<close>: the requests of one lock in \<open>lock/lock.cpp\<close>; \<open>Lock_Steps\<close>: the sequences of operations
      of its owners, as an inductive step relation; \<open>Lock_Deadlock\<close>: \<open>deadlock_scan\<close> and \<open>deadlock_walk\<close> over
      a table of locks.
    \<^item> \<open>Gds_Dates\<close>: the date and time conversions of \<open>jrd/gds.cpp\<close>. \<open>Evl_Like\<close>: \<open>jrd/evl_like.cpp\<close> and the
      CONTAINING routines of \<open>jrd/evl.cpp\<close>. \<open>Sort_Quick\<close>: \<open>quick\<close> and \<open>sort\<close> of \<open>jrd/sort.cpp\<close>.
    \<^item> \<open>Xdr\<close>: \<open>remote/xdr.cpp\<close>, with the locale \<open>xdr_stream\<close> of what a stream promises, interpreted on the
      streams in memory. \<open>Xdr_Codec\<close>: what it means that a routine carries a list of fields, proved to be
      kept by sequences, records and branches. \<open>Protocol\<close>: \<open>xdr_protocol\<close> and its subpackets, from
      \<open>remote/protocol.cpp\<close> and \<open>protocol.h\<close>; \<open>Protocol_Codec\<close>: the routines for counted strings, blob ids and
      status vectors carry their fields; \<open>Protocol_Packets\<close>: so do the subpackets and the packets.
    \<^item> \<open>Message\<close>: the formats that \<open>remote/parser.cpp\<close> makes of BLR, the messages of \<open>remote/protocol.cpp\<close> and the
      batch sizes of \<open>remote/remote.cpp\<close>. \<open>Message_Codec\<close>: every type of field carries its bytes of a buffer, in the
      same locale; \<open>Messages\<close>: the formats place the fields side by side, and messages are carried.

  What the properties show. Converters return, keep inside their buffers and report an error exactly when
  input is left; text converted and converted back is the text. Sort keys of strings whose collation elements fit
  in the buffers exist, and order as the comparison does, which is a preorder; keys that are cut off can only make
  strings equal. Compressed records and differences are restored. A bitmap is a set, under every operation that
  changes, combines or compares it; a walk forwards visits its members in order, and a walk backwards too, but for a
  number alone in its bucket that it steps on. In every lock that any sequence of operations leads to no two granted
  requests conflict, the counts and the state are right, and with lock ordering the first waiting request is blocked
  by a granted one, unless a refused request is still to be cleaned up; the deadlock scan names a victim only on a
  cycle, and finds one when there is a cycle through the request. Dates and day numbers correspond one to one. LIKE
  and MATCHES decide the language of the pattern. The sort puts records in order. A packet arrives as it was sent,
  and no bytes make the decoder of a request leave its memory; the same for messages, in the formats that are parsed
  from BLR. The properties of kind error state defects of the code as theorems; the findings of the manifest name
  them.

  Parameters and bounds. The generated mapping tables of \<open>intl/charsets\<close> are parameters of the converters, with
  the hypothesis that they are inverse to each other on the characters of the text; the theorems on
  collations quantify over tables with the layout the shipped ones have. Lengths of strings are below 65536,
  the range of \<open>USHORT\<close>, below 32768 where a round trip doubles them, and at most 32767 in \<open>Evl_Like\<close> where
  the code uses \<open>SSHORT\<close>; the strings of sort keys have at most 255 bytes, so the position of a special fits in a
  byte. Numbers in bitmaps are below slot 65531, where the count of slots does not wrap. A lock has fewer than 32768 requests, so its counters do not wrap. The walk of the
  deadlock scan has as much fuel as there are owners and two more: every level of the recursion marks an
  owner that was not marked, so the fuel is never used up. Day numbers run from 1 March 0000 to 31 December
  32767. The sort has fewer than \<open>2 ^ 31\<close> records; every record compares below the guard with the greatest
  key. A stream in memory is smaller than \<open>2 ^ 31\<close> bytes; a packet to
  be received has the status vector of 20 slots and the ten strings that the code gives it. The fields of a message
  take less than 65536 bytes; \<open>format_length_wraps\<close> shows what happens otherwise. Blocks are allocated without fail, with the size asked for. Loops are
  functions with a termination proof or option-valued; where they are option-valued the
  properties state that they return.

  Not modelled. Pages, indexes, transactions, the page cache and the request executor (\<open>jrd/btr.cpp\<close>, \<open>tra.cpp\<close>,
  \<open>cch.cpp\<close>, \<open>exe.cpp\<close>), whose state is shared through memory, disk and signals; the shared memory of the lock
  table, its owners, blocking signals and history, and the event manager; the free lists of bitmap blocks
  (blocks are cleared when they are taken) and the processor-specific variant of the same code; SLEUTH; the
  elimination of duplicates, key transformation, runs and merge of the sort; the constructors of text types
  that only fill an object; the operations of the protocol that carry messages, slices or the BLR of a statement, which
  look up formats and messages in the objects of the port (the messages themselves are modelled), and the client and server that exchange the packets; the SQL compiler, the tools, \<open>intlcpp/\<close> (a copy of \<open>intl/\<close> that
  is not built) and vendored code. Next: the merge of the sort, the driver registry, the containers of
  \<open>common/classes\<close>.
\<close>

section \<open>Double-byte converters\<close>

text \<open>C33. Whatever the bytes and the tables, the converters and packers of the three double-byte
  character sets return, keep inside the source and the destination they were given, and report
  no error exactly when all of the source was converted.\<close>

theorem double_byte_convert_safe:
  assumes "slen < 65536" and "dlen < 65536"
    and "slen \<le> length bytes" and "slen \<le> 2 * length wides" and "dlen \<le> room"
    and "obj = CV_convert_init t f fn (Short_Table d) (Short_Table m)"
  shows "(cv_safe 2 slen dlen (CVKSC_ksc_to_unicode obj (Some room) dlen bytes slen) \<and>
      cv_safe 1 slen dlen (CVKSC_unicode_to_ksc obj (Some room) dlen wides slen) \<and>
      cv_safe 2 slen dlen (CVKSC_ksc_byte2short (Some room) dlen bytes slen)) \<and>
    (cv_safe 2 slen dlen (CVBIG5_big5_to_unicode obj (Some room) dlen bytes slen) \<and>
      cv_safe 1 slen dlen (CVBIG5_unicode_to_big5 obj (Some room) dlen wides slen) \<and>
      cv_safe 2 slen dlen (CVBIG5_big5_byte2short (Some room) dlen bytes slen)) \<and>
    (cv_safe 2 slen dlen (CVGB_gb2312_to_unicode obj (Some room) dlen bytes slen) \<and>
      cv_safe 1 slen dlen (CVGB_unicode_to_gb2312 obj (Some room) dlen wides slen) \<and>
      cv_safe 2 slen dlen (CVGB_gb2312_byte2short (Some room) dlen bytes slen))"
  by (intro conjI ksc_convert_safe [OF assms, THEN conjunct1]
      ksc_convert_safe [OF assms, THEN conjunct2, THEN conjunct1]
      ksc_convert_safe [OF assms, THEN conjunct2, THEN conjunct2]
      big5_convert_safe [OF assms, THEN conjunct1]
      big5_convert_safe [OF assms, THEN conjunct2, THEN conjunct1]
      big5_convert_safe [OF assms, THEN conjunct2, THEN conjunct2]
      gb2312_convert_safe [OF assms, THEN conjunct1]
      gb2312_convert_safe [OF assms, THEN conjunct2, THEN conjunct1]
      gb2312_convert_safe [OF assms, THEN conjunct2, THEN conjunct2])

theorem double_byte_convert_safe_witness:
  "cv_safe 2 2 1 (CVKSC_ksc_to_unicode (CV_convert_init 8 0 Fn_CVKSC_ksc_to_unicode
      (Short_Table (\<lambda>i. 0)) (Short_Table (\<lambda>i. 0))) (Some 1) 1 [0xB0, 0xA1] 2)"
  using double_byte_convert_safe [of 2 1 "[0xB0, 0xA1]" "[0x41]" 1 _ 8 0 Fn_CVKSC_ksc_to_unicode
      "\<lambda>i. 0" "\<lambda>i. 0", OF _ _ _ _ _ refl]
  by simp

text \<open>In each of the three double-byte character sets the well-formedness check, the packing into
  shorts and the single-character reader agree: the check accepts a string exactly when packing it into a
  buffer of the estimated size reports no error; the shorts written are the characters of the part before
  the reported position, and at that position, if it is not the end, the reader finds no character.\<close>

lemma double_byte_check_byte2short:
  assumes "2 * length s < 65536"
  shows "(\<exists>ws pos err. CVKSC_ksc_byte2short (Some (length s)) (2 * length s) s (length s) =
        Some \<lparr>cv_ret = 2 * length ws, cv_out = ws, cv_err = err, cv_pos = Some pos\<rparr> \<and>
      take pos s = concat (map mb_bytes ws) \<and>
      CVKSC_check_ksc s (length s) = Some (if err = 0 then 0 else 1) \<and>
      (if err = 0 then pos = length s
       else err = CS_BAD_INPUT \<and> CVKSC_ksc_mbtowc (drop pos s) (length s - pos) = Some (-1, None))) \<and>
    (\<exists>ws pos err. CVBIG5_big5_byte2short (Some (length s)) (2 * length s) s (length s) =
        Some \<lparr>cv_ret = 2 * length ws, cv_out = ws, cv_err = err, cv_pos = Some pos\<rparr> \<and>
      take pos s = concat (map mb_bytes ws) \<and>
      CVBIG5_check_big5 s (length s) = Some (if err = 0 then 0 else 1) \<and>
      (if err = 0 then pos = length s
       else err = CS_BAD_INPUT \<and> CVBIG5_big5_mbtowc (drop pos s) (length s - pos) = Some (-1, None))) \<and>
    (\<exists>ws pos err. CVGB_gb2312_byte2short (Some (length s)) (2 * length s) s (length s) =
        Some \<lparr>cv_ret = 2 * length ws, cv_out = ws, cv_err = err, cv_pos = Some pos\<rparr> \<and>
      take pos s = concat (map mb_bytes ws) \<and>
      CVGB_check_gb2312 s (length s) = Some (if err = 0 then 0 else 1) \<and>
      (if err = 0 then pos = length s
       else err = CS_BAD_INPUT \<and> CVGB_gb2312_mbtowc (drop pos s) (length s - pos) = Some (-1, None)))"
  using ksc_check_byte2short [OF assms] big5_check_byte2short [OF assms] gb2312_check_byte2short [OF assms]
  by (intro conjI)

lemma double_byte_check_byte2short_example:
  "let s = [0x41, 0xB0, 0xA1, 0xB0] in
   (\<exists>ws pos err. CVKSC_ksc_byte2short (Some (length s)) (2 * length s) s (length s) =
        Some \<lparr>cv_ret = 2 * length ws, cv_out = ws, cv_err = err, cv_pos = Some pos\<rparr> \<and>
      take pos s = concat (map mb_bytes ws) \<and>
      CVKSC_check_ksc s (length s) = Some (if err = 0 then 0 else 1) \<and>
      (if err = 0 then pos = length s
       else err = CS_BAD_INPUT \<and> CVKSC_ksc_mbtowc (drop pos s) (length s - pos) = Some (-1, None)))"
  unfolding Let_def by (rule double_byte_check_byte2short [THEN conjunct1]) simp

end
